(* ===== verification/Prelude.thy ===== *)
theory Prelude
  imports Main "HOL-Library.Monad_Syntax" "HOL-Library.Multiset"
begin

text \<open>
  Shared vocabulary of the development: checked array accesses, counted loops over them,
  the rules by which loops are verified, and list lemmas.

  Device and host arrays are lists. An access outside an array is undefined behaviour in
  the C++ code; here it is the value \<open>None\<close>, which every later step of a kernel
  propagates. A theorem \<open>kernel s = Some s'\<close> therefore also says that the kernel performs
  no access out of bounds.
\<close>

named_theorems mem_simps \<open>evaluation rules of checked reads and writes\<close>

section \<open>Checked arrays\<close>

definition rd :: "'a list \<Rightarrow> int \<Rightarrow> 'a option" where
  "rd xs i = (if 0 \<le> i \<and> i < int (length xs) then Some (xs ! nat i) else None)"

definition wr :: "'a list \<Rightarrow> int \<Rightarrow> 'a \<Rightarrow> 'a list option" where
  "wr xs i v = (if 0 \<le> i \<and> i < int (length xs) then Some (xs[nat i := v]) else None)"

lemma rd_int [simp, mem_simps]: "rd xs (int i) = (if i < length xs then Some (xs ! i) else None)"
  by (simp add: rd_def)

lemma wr_int [simp, mem_simps]: "wr xs (int i) v = (if i < length xs then Some (xs[i := v]) else None)"
  by (simp add: wr_def)

lemma rd_Some [mem_simps]: "0 \<le> i \<Longrightarrow> i < int (length xs) \<Longrightarrow> rd xs i = Some (xs ! nat i)"
  by (simp add: rd_def)

lemma wr_Some [mem_simps]: "0 \<le> i \<Longrightarrow> i < int (length xs) \<Longrightarrow> wr xs i v = Some (xs[nat i := v])"
  by (simp add: wr_def)

lemma rd_out [mem_simps]: "\<not> (0 \<le> i \<and> i < int (length xs)) \<Longrightarrow> rd xs i = None"
  by (auto simp: rd_def)

section \<open>Loops\<close>

text \<open>\<open>for_each is f s\<close> runs the body \<open>f\<close> on the indices \<open>is\<close> in that order, threading the
  state, and stops at the first undefined access.\<close>

fun for_each :: "'i list \<Rightarrow> ('i \<Rightarrow> 's \<Rightarrow> 's option) \<Rightarrow> 's \<Rightarrow> 's option" where
  "for_each [] f s = Some s"
| "for_each (x # xs) f s = do { s' \<leftarrow> f x s; for_each xs f s' }"

lemma for_each_append:
  "for_each (xs @ ys) f s = do { s' \<leftarrow> for_each xs f s; for_each ys f s' }"
proof (induction xs arbitrary: s)
  case (Cons x xs)
  then show ?case by (cases "f x s") simp_all
qed simp

lemma for_each_cong:
  assumes "xs = ys" "s = t" "\<And>x s. x \<in> set ys \<Longrightarrow> f x s = g x s"
  shows "for_each xs f s = for_each ys g t"
  unfolding assms(1,2) using assms(3)
  by (induction ys arbitrary: t) (auto intro!: bind_option_cong)

text \<open>Counting loop: an invariant indexed by the number of iterations done.\<close>

lemma for_each_upt_rule:
  assumes "P 0 s"
    and "\<And>i s. i < n \<Longrightarrow> P i s \<Longrightarrow> \<exists>s'. f i s = Some s' \<and> P (Suc i) s'"
  shows "\<exists>s'. for_each [0..<n] f s = Some s' \<and> P n s'"
  using assms(2)
proof (induction n)
  case 0
  show ?case using assms(1) by simp
next
  case (Suc n)
  then obtain s' where "for_each [0..<n] f s = Some s'" "P n s'" by force
  moreover obtain s'' where "f n s' = Some s''" "P (Suc n) s''"
    using Suc.prems [of n s'] \<open>P n s'\<close> by auto
  ultimately show ?case by (simp add: for_each_append)
qed

lemma for_each_upt_eq:
  assumes "s = g 0" and "\<And>i. i < n \<Longrightarrow> f i (g i) = Some (g (Suc i))"
  shows "for_each [0..<n] f s = Some (g n)"
  using for_each_upt_rule [of "\<lambda>i s. s = g i" s n f] assms by auto

text \<open>Loop whose order is not known: an invariant indexed by the set of items done. It is the
  rule for the lanes of a thread block, which the device may interleave in any order.\<close>

lemma for_each_set_rule_gen:
  assumes "distinct xs" "set xs \<inter> D = {}" "P D s"
    and "\<And>D x s. x \<in> set xs \<Longrightarrow> x \<notin> D \<Longrightarrow> P D s \<Longrightarrow> \<exists>s'. f x s = Some s' \<and> P (insert x D) s'"
  shows "\<exists>s'. for_each xs f s = Some s' \<and> P (D \<union> set xs) s'"
  using assms
proof (induction xs arbitrary: D s)
  case Nil
  then show ?case by simp
next
  case (Cons x xs)
  obtain s' where s': "f x s = Some s'" "P (insert x D) s'"
    using Cons.prems(2,3) Cons.prems(4) [of x D s] by auto
  have "\<exists>s''. for_each xs f s' = Some s'' \<and> P (insert x D \<union> set xs) s''"
    by (rule Cons.IH) (use Cons.prems s' in auto)
  then show ?case using s' by auto
qed

lemma for_each_set_rule:
  assumes "mset xs = mset [0..<n]" "P {} s"
    and "\<And>D x s. x < n \<Longrightarrow> x \<notin> D \<Longrightarrow> P D s \<Longrightarrow> \<exists>s'. f x s = Some s' \<and> P (insert x D) s'"
  shows "\<exists>s'. for_each xs f s = Some s' \<and> P {..<n} s'"
proof -
  have "distinct xs" using assms(1) distinct_upt mset_eq_imp_distinct_iff by blast
  moreover have "set xs = {..<n}"
    using mset_eq_setD [OF assms(1)] by (simp add: atLeast0LessThan)
  ultimately show ?thesis
    using for_each_set_rule_gen [of xs "{}" P s f] assms(2,3) by auto
qed

section \<open>Lists\<close>

text \<open>\<open>overwrite D f xs\<close> is \<open>xs\<close> with \<open>f i\<close> at every index \<open>i\<close> of \<open>D\<close>: the state of an array
  when a parallel loop has done the iterations \<open>D\<close>.\<close>

definition overwrite :: "nat set \<Rightarrow> (nat \<Rightarrow> 'a) \<Rightarrow> 'a list \<Rightarrow> 'a list" where
  "overwrite D f xs = map (\<lambda>i. if i \<in> D then f i else xs ! i) [0..<length xs]"

lemma length_overwrite [simp]: "length (overwrite D f xs) = length xs"
  by (simp add: overwrite_def)

lemma nth_overwrite [simp]:
  "i < length xs \<Longrightarrow> overwrite D f xs ! i = (if i \<in> D then f i else xs ! i)"
  by (simp add: overwrite_def)

lemma overwrite_empty [simp]: "overwrite {} f xs = xs"
  by (rule nth_equalityI) simp_all

lemma overwrite_insert:
  assumes "v = f x"
  shows "(overwrite D f xs)[x := v] = overwrite (insert x D) f xs"
proof (rule nth_equalityI)
  fix i assume "i < length ((overwrite D f xs)[x := v])"
  then show "(overwrite D f xs)[x := v] ! i = overwrite (insert x D) f xs ! i"
    using assms by (cases "i = x") auto
qed simp

lemma overwrite_insert_same:
  assumes "f x = xs ! x"
  shows "overwrite (insert x D) f xs = overwrite D f xs"
  by (rule nth_equalityI) (use assms in auto)

lemma overwrite_all: "length xs = n \<Longrightarrow> overwrite {..<n} f xs = map f [0..<n]"
  by (rule nth_equalityI) auto

text \<open>\<open>pad n d xs\<close> fills \<open>xs\<close> with \<open>d\<close> up to length \<open>n\<close>.\<close>

definition pad :: "nat \<Rightarrow> 'a \<Rightarrow> 'a list \<Rightarrow> 'a list" where
  "pad n d xs = xs @ replicate (n - length xs) d"

lemma length_pad [simp]: "length xs \<le> n \<Longrightarrow> length (pad n d xs) = n"
  by (simp add: pad_def)

lemma nth_pad: "length xs \<le> n \<Longrightarrow> i < n \<Longrightarrow> pad n d xs ! i = (if i < length xs then xs ! i else d)"
  by (simp add: pad_def nth_append)

lemma pad_write: "k = length xs \<Longrightarrow> k < n \<Longrightarrow> (pad n d xs)[k := v] = pad n d (xs @ [v])"
  by (simp add: pad_def list_update_append Suc_diff_Suc [symmetric])

lemma pad_Nil [simp]: "pad n d [] = replicate n d"
  by (simp add: pad_def)

lemma filter_take_Suc:
  "i < length xs \<Longrightarrow>
    filter P (take (Suc i) xs) = filter P (take i xs) @ (if P (xs ! i) then [xs ! i] else [])"
  by (simp add: take_Suc_conv_app_nth)

lemma filter_upt_Suc:
  "filter P [0..<Suc i] = filter P [0..<i] @ (if P i then [i] else [])"
  by simp

lemma length_filter_take_le: "length (filter P (take i xs)) \<le> length (filter P xs)"
proof -
  have "filter P xs = filter P (take i xs) @ filter P (drop i xs)"
    by (metis append_take_drop_id filter_append)
  then show ?thesis by simp
qed

text \<open>A list written at the front of an array, and at its back in reverse.\<close>

lemma front_write:
  assumes "length ys < length xs"
  shows "(ys @ drop (length ys) xs)[length ys := v] = (ys @ [v]) @ drop (length (ys @ [v])) xs"
proof -
  have "drop (length ys) xs = xs ! length ys # drop (Suc (length ys)) xs"
    using assms by (rule Cons_nth_drop_Suc [symmetric])
  then show ?thesis by (simp add: list_update_append)
qed

lemma overwrite_front:
  "n \<le> length xs \<Longrightarrow> n \<le> length ys \<Longrightarrow> overwrite {..<n} ((!) ys) xs = take n ys @ drop n xs"
  by (rule nth_equalityI) (auto simp: nth_append)

lemma map_nth_take: "n \<le> length xs \<Longrightarrow> map (\<lambda>i. f (xs ! i)) [0..<n] = map f (take n xs)"
  by (rule nth_equalityI) auto

definition two_ended :: "'a list \<Rightarrow> 'a list \<Rightarrow> 'a list \<Rightarrow> 'a list" where
  "two_ended fs bs xs =
     map (\<lambda>i. if i < length fs then fs ! i
              else if length xs - Suc i < length bs then bs ! (length xs - Suc i) else xs ! i) [0..<length xs]"

lemma length_two_ended [simp]: "length (two_ended fs bs xs) = length xs"
  by (simp add: two_ended_def)

lemma two_ended_Nil [simp]: "two_ended [] [] xs = xs"
  by (simp add: two_ended_def map_nth)

lemma two_ended_front:
  assumes "length fs + length bs < length xs" "k = length fs"
  shows "(two_ended fs bs xs)[k := v] = two_ended (fs @ [v]) bs xs"
  using assms by (intro nth_equalityI) (auto simp: two_ended_def nth_append nth_list_update less_Suc_eq)

lemma two_ended_back:
  assumes "length fs + length bs < length xs" "k = length xs - Suc (length bs)"
  shows "(two_ended fs bs xs)[k := v] = two_ended fs (bs @ [v]) xs"
proof (rule nth_equalityI)
  fix i assume "i < length ((two_ended fs bs xs)[k := v])"
  then have i: "i < length xs" by simp
  show "(two_ended fs bs xs)[k := v] ! i = two_ended fs (bs @ [v]) xs ! i"
  proof (cases "i = k")
    case True
    moreover have "\<not> k < length fs" "length xs - Suc k = length bs" using assms by linarith+
    ultimately show ?thesis using i by (simp add: two_ended_def nth_append)
  next
    case False
    then have "length xs - Suc i \<noteq> length bs" using assms i by auto
    then show ?thesis using assms i False by (auto simp: two_ended_def nth_append less_Suc_eq)
  qed
qed simp

lemma nth_two_ended_front:
  "i < length fs \<Longrightarrow> length fs + length bs \<le> length xs \<Longrightarrow> two_ended fs bs xs ! i = fs ! i"
  by (simp add: two_ended_def)

lemma nth_two_ended_back:
  "j < length bs \<Longrightarrow> length fs + length bs \<le> length xs \<Longrightarrow> two_ended fs bs xs ! (length xs - Suc j) = bs ! j"
  by (auto simp: two_ended_def)

lemma set_two_ended_subset: "length fs + length bs \<le> length xs \<Longrightarrow>
    set (two_ended fs bs xs) \<subseteq> set fs \<union> set bs \<union> set xs"
  by (auto simp: two_ended_def)

text \<open>\<open>scatter ks vs xs\<close> stores \<open>vs ! i\<close> at index \<open>ks ! i\<close>, in order.\<close>

definition scatter :: "nat list \<Rightarrow> 'a list \<Rightarrow> 'a list \<Rightarrow> 'a list" where
  "scatter ks vs xs = fold (\<lambda>(k, v) xs. xs[k := v]) (zip ks vs) xs"

lemma length_scatter [simp]: "length (scatter ks vs xs) = length xs"
proof -
  have "length (fold (\<lambda>(k, v) xs. xs[k := v]) kvs xs) = length xs" for kvs
    by (induction kvs arbitrary: xs) (auto simp: case_prod_unfold)
  then show ?thesis by (simp add: scatter_def)
qed

lemma nth_scatter_other: "j \<notin> set ks \<Longrightarrow> scatter ks vs xs ! j = xs ! j"
proof -
  have "fold (\<lambda>(k, v) xs. xs[k := v]) kvs xs ! j = xs ! j" if "j \<notin> fst ` set kvs" for kvs
    using that by (induction kvs arbitrary: xs) (auto simp: case_prod_unfold)
  moreover assume "j \<notin> set ks"
  then have "j \<notin> fst ` set (zip ks vs)" by (auto dest: set_zip_leftD)
  ultimately show ?thesis by (simp add: scatter_def)
qed

lemma scatter_snoc:
  "length ks = length vs \<Longrightarrow> scatter (ks @ [k]) (vs @ [v]) xs = (scatter ks vs xs)[k := v]"
  by (simp add: scatter_def)

lemma scatter_Nil [simp]: "scatter [] vs xs = xs"
  by (simp add: scatter_def)

lemma nth_scatter:
  assumes "distinct ks" "length ks = length vs" "i < length ks" "ks ! i < length xs"
  shows "scatter ks vs xs ! (ks ! i) = vs ! i"
  using assms
proof (induction ks arbitrary: vs rule: rev_induct)
  case (snoc k ks)
  then obtain v vs' where vs: "vs = vs' @ [v]" "length ks = length vs'"
    by (metis length_append_singleton length_0_conv nat.distinct(1) rev_exhaust Suc_inject)
  show ?case
  proof (cases "i < length ks")
    case True
    then have "ks ! i \<noteq> k" using snoc.prems by (metis distinct_append disjoint_insert(1) list.set(2) nth_mem)
    then show ?thesis
      using snoc.IH [of vs'] snoc.prems vs True by (simp add: scatter_snoc nth_append)
  next
    case False
    then have "i = length ks" using snoc.prems by simp
    then show ?thesis using snoc.prems vs by (simp add: scatter_snoc nth_append)
  qed
qed simp_all

text \<open>The state of an array while a parallel loop scatters into it: the iterations \<open>D\<close> are done,
  iteration \<open>i\<close> stores \<open>v i\<close> at index \<open>k i\<close>.\<close>

definition scattered :: "nat set \<Rightarrow> (nat \<Rightarrow> nat) \<Rightarrow> (nat \<Rightarrow> 'a) \<Rightarrow> 'a list \<Rightarrow> 'a list \<Rightarrow> bool" where
  "scattered D k v xs ys \<longleftrightarrow> length ys = length xs \<and>
     (\<forall>i \<in> D. k i < length xs \<longrightarrow> ys ! k i = v i) \<and>
     (\<forall>j. j \<notin> k ` D \<longrightarrow> ys ! j = xs ! j)"

lemma scattered_empty [simp]: "scattered {} k v xs ys \<longleftrightarrow> length ys = length xs \<and> (\<forall>j. ys ! j = xs ! j)"
  by (simp add: scattered_def)

lemma scattered_length: "scattered D k v xs ys \<Longrightarrow> length ys = length xs"
  by (simp add: scattered_def)

lemma scattered_insert:
  assumes "scattered D k v xs ys" "\<And>j. j \<in> D \<Longrightarrow> k j \<noteq> k i"
  shows "scattered (insert i D) k v xs (ys[k i := v i])"
proof -
  have "ys[k i := v i] ! k j = v j" if "j \<in> D" "k j < length xs" for j
    using assms(1) assms(2) [OF that(1)] that by (simp add: scattered_def)
  moreover have "ys[k i := v i] ! j = xs ! j" if "j \<notin> k ` insert i D" for j
    using assms(1) that by (auto simp: scattered_def)
  ultimately show ?thesis using assms(1) by (simp add: scattered_def)
qed

lemma scattered_all:
  assumes "scattered {..<n} k v xs ys" "inj_on k {..<n}"
  shows "ys = scatter (map k [0..<n]) (map v [0..<n]) xs"
proof (rule nth_equalityI)
  show "length ys = length (scatter (map k [0..<n]) (map v [0..<n]) xs)"
    using assms(1) by (simp add: scattered_def)
next
  fix j assume "j < length ys"
  then have j: "j < length xs" using assms(1) by (simp add: scattered_def)
  have dist: "distinct (map k [0..<n])"
    using assms(2) by (simp add: distinct_map atLeast0LessThan)
  show "ys ! j = scatter (map k [0..<n]) (map v [0..<n]) xs ! j"
  proof (cases "j \<in> k ` {..<n}")
    case True
    then obtain i where "i < n" "j = k i" by auto
    then show ?thesis
      using nth_scatter [OF dist, of "map v [0..<n]" i xs] assms(1) j by (auto simp: scattered_def)
  next
    case False
    then show ?thesis
      using assms(1) by (subst nth_scatter_other) (auto simp: scattered_def)
  qed
qed

lemma scatter_front: "length ys \<le> length xs \<Longrightarrow> scatter [0..<length ys] ys xs = ys @ drop (length ys) xs"
proof (induction ys rule: rev_induct)
  case (snoc y ys)
  then show ?case using front_write [of ys xs y] by (simp add: scatter_snoc)
qed simp

text \<open>First occurrence of a value: its index, or the length of the list.\<close>

definition first_pos :: "'a list \<Rightarrow> 'a \<Rightarrow> nat" where
  "first_pos xs x = length (takeWhile (\<lambda>y. y \<noteq> x) xs)"

lemma first_pos_less: "x \<in> set xs \<Longrightarrow> first_pos xs x < length xs"
  by (induction xs) (auto simp: first_pos_def)

lemma first_pos_nth: "x \<in> set xs \<Longrightarrow> xs ! first_pos xs x = x"
  by (induction xs) (auto simp: first_pos_def)

lemma first_pos_le: "i < length xs \<Longrightarrow> xs ! i = x \<Longrightarrow> first_pos xs x \<le> i"
proof (rule ccontr)
  assume *: "i < length xs" "xs ! i = x" "\<not> first_pos xs x \<le> i"
  then have "takeWhile (\<lambda>y. y \<noteq> x) xs ! i \<noteq> x"
    by (metis (mono_tags, lifting) first_pos_def not_le nth_mem set_takeWhileD)
  then show False using * by (simp add: takeWhile_nth first_pos_def)
qed

lemma first_pos_absent: "x \<notin> set xs \<Longrightarrow> first_pos xs x = length xs"
  by (induction xs) (auto simp: first_pos_def)

lemma first_pos_eq_iff:
  "i < length xs \<Longrightarrow> first_pos xs (xs ! i) = i \<longleftrightarrow> xs ! i \<notin> set (take i xs)"
proof
  assume *: "i < length xs" "first_pos xs (xs ! i) = i"
  show "xs ! i \<notin> set (take i xs)"
  proof
    assume "xs ! i \<in> set (take i xs)"
    then obtain j where "j < i" "xs ! j = xs ! i" by (auto simp: in_set_conv_nth)
    then show False using * first_pos_le [of j xs "xs ! i"] by simp
  qed
next
  assume *: "i < length xs" "xs ! i \<notin> set (take i xs)"
  have le: "first_pos xs (xs ! i) \<le> i" using * by (intro first_pos_le) simp_all
  moreover have "\<not> first_pos xs (xs ! i) < i"
  proof
    assume "first_pos xs (xs ! i) < i"
    moreover have "xs ! first_pos xs (xs ! i) = xs ! i" using * by (intro first_pos_nth) simp
    ultimately show False using * by (metis in_set_conv_nth length_take less_imp_le min_absorb2 nth_take)
  qed
  ultimately show "first_pos xs (xs ! i) = i" by simp
qed

text \<open>Number of indices below \<open>i\<close> that satisfy a predicate: where stable compaction puts entry \<open>i\<close>.\<close>

definition cnt :: "(nat \<Rightarrow> bool) \<Rightarrow> nat \<Rightarrow> nat" where
  "cnt Q i = length (filter Q [0..<i])"

lemma cnt_0 [simp]: "cnt Q 0 = 0"
  by (simp add: cnt_def)

lemma cnt_Suc [simp]: "cnt Q (Suc i) = cnt Q i + (if Q i then 1 else 0)"
  by (simp add: cnt_def)

lemma cnt_mono: "i \<le> j \<Longrightarrow> cnt Q i \<le> cnt Q j"
  by (induction rule: dec_induct) auto

lemma cnt_less: "i < j \<Longrightarrow> Q i \<Longrightarrow> cnt Q i < cnt Q j"
  using cnt_mono [of "Suc i" j Q] by simp

lemma cnt_inj: "cnt Q i = cnt Q j \<Longrightarrow> Q i \<Longrightarrow> Q j \<Longrightarrow> i = j"
  using cnt_less [of i j Q] cnt_less [of j i Q] by (cases i j rule: linorder_cases) auto

lemma cnt_le: "cnt Q i \<le> i"
  by (induction i) auto

lemma nth_filter_cnt:
  assumes "Q i" "i < n"
  shows "filter Q [0..<n] ! cnt Q i = i"
proof -
  have "[0..<n] = [0..<i] @ i # [Suc i..<n]"
    using assms(2) by (metis upt_add_eq_append upt_conv_Cons le_add1 less_imp_le_nat plus_nat.add_0 le_add_diff_inverse)
  then show ?thesis using assms(1) by (simp add: cnt_def nth_append)
qed

lemma length_filter_take_cnt: "i \<le> length xs \<Longrightarrow> length (filter P (take i xs)) = cnt (\<lambda>j. P (xs ! j)) i"
  by (induction i) (simp_all add: filter_take_Suc)

lemma sum_list_flags:
  "k \<le> n \<Longrightarrow> int (cnt Q base) + sum_list (take k (map (\<lambda>t. if Q (base + t) then 1 else 0) [0..<n])) = int (cnt Q (base + k))"
  by (induction k) (simp_all add: take_Suc_conv_app_nth)

end
