(* ===== verification/Simt.thy ===== *)
theory Simt
  imports Prelude
begin

text \<open>
  Execution of a SIMT thread block: the work items of its lanes, the order in which the
  device performs them, and the register shuffles and atomics of the device API.

  The Ascend SIMT runtime is not part of the repository, so it is a parameter: a value of
  \<open>simt\<close>. \<open>simt_ok\<close> states what its documentation promises and the kernels rely on.
\<close>

named_theorems dev_simps \<open>what a conforming device does\<close>

section \<open>The device\<close>

text \<open>
  \<^item> \<open>sched m p is\<close>: the order in which the block performs the work items \<open>is\<close> of its phase
    \<open>p\<close>, a phase being the code between two barriers (\<^verbatim>\<open>asc_syncthreads\<close>) or one kernel of
    a stream;
  \<^item> \<open>shfl_up m regs offset lane\<close>: \<^verbatim>\<open>asc_shfl_up\<close>, the register of another lane of the warp,
    where \<open>regs\<close> are the registers of the warp in lane order;
  \<^item> \<open>atomic_min m old v\<close>, \<open>atomic_max m old v\<close>: the new content of a cell after
    \<^verbatim>\<open>asc_atomic_min\<close> and \<^verbatim>\<open>asc_atomic_max\<close>.
\<close>

record simt =
  sched :: "nat \<Rightarrow> nat list \<Rightarrow> nat list"
  shfl_up :: "int list \<Rightarrow> nat \<Rightarrow> nat \<Rightarrow> int"
  atomic_min :: "int \<Rightarrow> int \<Rightarrow> int"
  atomic_max :: "int \<Rightarrow> int \<Rightarrow> int"

definition simt_ok :: "simt \<Rightarrow> bool" where
  "simt_ok m \<longleftrightarrow>
     (\<forall>p is. mset (sched m p is) = mset is) \<and>
     (\<forall>regs offset lane. offset \<le> lane \<and> lane < length regs \<longrightarrow>
        shfl_up m regs offset lane = regs ! (lane - offset)) \<and>
     (\<forall>old v. atomic_min m old v = min old v) \<and>
     (\<forall>old v. atomic_max m old v = max old v)"

lemma mset_sched [dev_simps]: "simt_ok m \<Longrightarrow> mset (sched m p is) = mset is"
  by (simp add: simt_ok_def)

lemma shfl_up_nth [dev_simps]:
  "simt_ok m \<Longrightarrow> offset \<le> lane \<Longrightarrow> lane < length regs \<Longrightarrow>
    shfl_up m regs offset lane = regs ! (lane - offset)"
  by (simp add: simt_ok_def)

lemma atomic_min_min [dev_simps]: "simt_ok m \<Longrightarrow> atomic_min m old v = min old v"
  by (simp add: simt_ok_def)

lemma atomic_max_max [dev_simps]: "simt_ok m \<Longrightarrow> atomic_max m old v = max old v"
  by (simp add: simt_ok_def)

text \<open>A device that performs the lanes in reverse order, for concrete runs.\<close>

definition example_simt :: simt where
  "example_simt = \<lparr>sched = (\<lambda>p is. rev is),
     shfl_up = (\<lambda>regs offset lane. if offset \<le> lane then regs ! (lane - offset) else regs ! lane),
     atomic_min = min, atomic_max = max\<rparr>"

lemma example_simt_ok [simp]: "simt_ok example_simt"
  by (simp add: simt_ok_def example_simt_def)

section \<open>Strided loops of a block\<close>

text \<open>\<^verbatim>\<open>for (i = thread; i < n; i += stride)\<close> of one lane, and of all lanes of a block.\<close>

function lane_items :: "nat \<Rightarrow> nat \<Rightarrow> nat \<Rightarrow> nat list" where
  "lane_items i stride n =
     (if i < n \<and> 0 < stride then i # lane_items (i + stride) stride n else [])"
  by pat_completeness auto
termination
  by (relation "measure (\<lambda>(i, stride, n). n - i)") auto

declare lane_items.simps [simp del]

definition block_items :: "nat \<Rightarrow> nat \<Rightarrow> nat list" where
  "block_items threads n = concat (map (\<lambda>thread. lane_items thread threads n) [0..<threads])"

definition par_for :: "simt \<Rightarrow> nat \<Rightarrow> nat \<Rightarrow> nat \<Rightarrow> (nat \<Rightarrow> 's \<Rightarrow> 's option) \<Rightarrow> 's \<Rightarrow> 's option" where
  "par_for m p threads n f s = for_each (sched m p (block_items threads n)) f s"

lemma set_lane_items:
  "0 < stride \<Longrightarrow> set (lane_items i stride n) = {j. i \<le> j \<and> j < n \<and> j mod stride = i mod stride}"
proof (induction i stride n rule: lane_items.induct)
  case (1 i stride n)
  have step: "i = j \<or> i + stride \<le> j" if "i \<le> j" "j mod stride = i mod stride" for j
  proof -
    from that(2) have "stride dvd j - i" using that(1) mod_eq_dvd_iff_nat by blast
    then show ?thesis
      using that(1) by (cases "j = i") (auto dest!: dvd_imp_le)
  qed
  show ?case
  proof (cases "i < n")
    case True
    then have "set (lane_items i stride n) = insert i (set (lane_items (i + stride) stride n))"
      using "1.prems" by (simp add: lane_items.simps [of i])
    also have "set (lane_items (i + stride) stride n) =
        {j. i + stride \<le> j \<and> j < n \<and> j mod stride = i mod stride}"
      using "1.IH" "1.prems" True by simp
    finally show ?thesis using True step by auto
  next
    case False
    then show ?thesis by (simp add: lane_items.simps [of i])
  qed
qed

lemma distinct_lane_items: "distinct (lane_items i stride n)"
proof (induction i stride n rule: lane_items.induct)
  case (1 i stride n)
  show ?case
    using "1.IH" by (auto simp: lane_items.simps [of i] set_lane_items)
qed

lemma distinct_concat_map:
  assumes "distinct xs" "\<And>x. x \<in> set xs \<Longrightarrow> distinct (f x)"
    and "\<And>x y. x \<in> set xs \<Longrightarrow> y \<in> set xs \<Longrightarrow> x \<noteq> y \<Longrightarrow> set (f x) \<inter> set (f y) = {}"
  shows "distinct (concat (map f xs))"
  using assms
proof (induction xs)
  case (Cons x xs)
  have "set (f x) \<inter> set (f y) = {}" if "y \<in> set xs" for y
    using Cons.prems that by (metis distinct.simps(2) list.set_intros)
  moreover have "distinct (concat (map f xs))"
    by (rule Cons.IH) (use Cons.prems in auto)
  ultimately show ?case
    using Cons.prems(2) by (simp add: disjoint_iff)
qed simp

lemma mset_block_items:
  assumes "0 < threads"
  shows "mset (block_items threads n) = mset [0..<n]"
proof -
  have lane: "set (lane_items t threads n) = {j. j < n \<and> j mod threads = t}" if "t < threads" for t
    using that by (auto simp: set_lane_items)
  have "distinct (block_items threads n)"
    unfolding block_items_def
    by (rule distinct_concat_map) (auto simp: distinct_lane_items lane)
  moreover have "set (block_items threads n) = {0..<n}"
    using assms by (simp add: block_items_def lane set_eq_iff)
  ultimately show ?thesis
    using set_eq_iff_mset_eq_distinct [of "block_items threads n" "[0..<n]"] by simp
qed

text \<open>The verification rule of a parallel loop: every lane keeps the invariant, whatever items
  were done before.\<close>

lemma par_for_rule:
  assumes "simt_ok m" "0 < threads" "P {} s"
    and "\<And>D i s. i < n \<Longrightarrow> i \<notin> D \<Longrightarrow> P D s \<Longrightarrow> \<exists>s'. f i s = Some s' \<and> P (insert i D) s'"
  shows "\<exists>s'. par_for m p threads n f s = Some s' \<and> P {..<n} s'"
  unfolding par_for_def
  by (rule for_each_set_rule [where P = P]) (use assms in \<open>simp_all add: dev_simps mset_block_items\<close>)

lemma par_for_eq:
  assumes "simt_ok m" "0 < threads" "s = g {}"
    and "\<And>D i. i < n \<Longrightarrow> i \<notin> D \<Longrightarrow> D \<subseteq> {..<n} \<Longrightarrow> f i (g D) = Some (g (insert i D))"
  shows "par_for m p threads n f s = Some (g {..<n})"
  using par_for_rule [of m threads "\<lambda>D s. D \<subseteq> {..<n} \<and> s = g D" s n f p] assms by auto

text \<open>Lanes whose steps commute leave what the sequential loop leaves.\<close>

lemma for_each_fold:
  assumes "ok s" "\<And>i s. i \<in> set xs \<Longrightarrow> ok s \<Longrightarrow> f i s = Some (u i s) \<and> ok (u i s)"
  shows "for_each xs f s = Some (fold u xs s)"
  using assms by (induction xs arbitrary: s) auto

lemma par_for_fold:
  assumes "simt_ok m" "0 < threads" "ok s"
    and "\<And>i s. i < n \<Longrightarrow> ok s \<Longrightarrow> f i s = Some (u i s) \<and> ok (u i s)"
    and "\<And>i j s. i < n \<Longrightarrow> j < n \<Longrightarrow> i \<noteq> j \<Longrightarrow> u i (u j s) = u j (u i s)"
  shows "par_for m p threads n f s = Some (fold u [0..<n] s)"
proof -
  let ?xs = "sched m p (block_items threads n)"
  have m: "mset ?xs = mset [0..<n]"
    using assms(1,2) by (simp add: dev_simps mset_block_items)
  have set: "set ?xs = {..<n}" using mset_eq_setD [OF m] by (simp add: atLeast_upt)
  have "par_for m p threads n f s = Some (fold u ?xs s)"
    unfolding par_for_def using assms(3) by (rule for_each_fold) (use assms(4) set in auto)
  also have "fold u ?xs = fold u [0..<n]"
  proof (rule fold_multiset_equiv [OF _ m])
    fix x y assume "x \<in> set ?xs" "y \<in> set ?xs"
    then show "u x \<circ> u y = u y \<circ> u x"
      using assms(5) set by (cases "x = y") (auto simp: fun_eq_iff)
  qed
  finally show ?thesis .
qed

lemma par_for_seq:
  assumes "simt_ok m" "0 < threads" "ok s"
    and "\<And>i s. i < n \<Longrightarrow> ok s \<Longrightarrow> f i s = Some (u i s) \<and> ok (u i s)"
    and "\<And>i j s. i < n \<Longrightarrow> j < n \<Longrightarrow> i \<noteq> j \<Longrightarrow> u i (u j s) = u j (u i s)"
    and "s = g 0" "\<And>i. i < n \<Longrightarrow> u i (g i) = g (Suc i)"
  shows "par_for m p threads n f s = Some (g n)"
proof -
  have "fold u [0..<k] s = g k" if "k \<le> n" for k
    using that by (induction k) (simp_all add: assms(6,7))
  then show ?thesis using par_for_fold [of m threads ok s n f u p, OF assms(1-5)] by simp
qed

text \<open>The registers of all lanes after each lane read its own element.\<close>

definition lanes :: "nat \<Rightarrow> (nat \<Rightarrow> 'a option) \<Rightarrow> 'a list option" where
  "lanes n f = those (map f [0..<n])"

lemma lanes_Some:
  assumes "\<And>i. i < n \<Longrightarrow> f i = Some (g i)"
  shows "lanes n f = Some (map g [0..<n])"
proof -
  have "those (map f xs) = Some (map g xs)" if "\<And>x. x \<in> set xs \<Longrightarrow> f x = Some (g x)" for xs
    using that by (induction xs) auto
  from this [of "[0..<n]"] show ?thesis using assms by (simp add: lanes_def)
qed

text \<open>\<^verbatim>\<open>for (tile = 0; tile < n; tile += stride)\<close> when the stride divides \<open>n\<close>.\<close>

lemma lane_items_tiles:
  assumes "0 < stride"
  shows "lane_items 0 stride (k * stride) = map (\<lambda>i. i * stride) [0..<k]"
proof -
  have "lane_items (j * stride) stride (k * stride) = map (\<lambda>i. i * stride) [j..<k]" if "j \<le> k" for j
    using that
  proof (induction rule: inc_induct)
    case base
    then show ?case by (simp add: lane_items.simps)
  next
    case (step j)
    then have "lane_items (j * stride) stride (k * stride) = j * stride # lane_items (Suc j * stride) stride (k * stride)"
      using assms by (subst lane_items.simps) (simp add: add.commute)
    then show ?case using step by (simp add: upt_rec [of j])
  qed
  from this [of 0] show ?thesis by simp
qed

lemma for_each_map: "for_each (map h xs) f s = for_each xs (\<lambda>i. f (h i)) s"
proof (induction xs arbitrary: s)
  case (Cons a xs)
  then show ?case by (cases "f (h a) s") simp_all
qed simp

end
