(* ===== verification/Lru_Spec.thy ===== *)
theory Lru_Spec
  imports Prelude
begin

text \<open>
  The resident-slot cache of one request row, and what one Compact call has to do to it.

  A row has \<open>capacity\<close> resident slots. \<open>slot_to_token\<close> says which token's K/V data a slot holds
  (\<open>-1\<close> for none), \<open>lru_slots\<close> lists the slots from least to most recently used. Given the
  Top-K tokens of the next decoding step, Compact finds the slots that already hold one of
  them, assigns the oldest other slots to the missing tokens, and moves the used slots to the
  recent end. The functions \<open>sp_\<dots>\<close> below state that result on plain lists, without the scratch
  arrays, encodings and passes of the kernels; every kernel is proved equal to \<open>compact_spec\<close>.
\<close>

section \<open>The row\<close>

text \<open>One row of the operator's tensors (\<^verbatim>\<open>acc_offload_operators.h\<close>): a tensor of shape
  \<^verbatim>\<open>[num_reqs, n]\<close> is a list of rows, and the flat index \<^verbatim>\<open>row * n + i\<close> of the kernels is index
  \<open>i\<close> of row \<open>row\<close>.\<close>

record lru_row =
  req_id :: int
  last_req_id :: int
  topk_indices :: "int list"
  stable_prefix_len :: int
  slot_to_token :: "int list"
  lru_slots :: "int list"
  current_slots :: "int list"
  miss_count :: int
  miss_tokens :: "int list"
  miss_slots :: "int list"

text \<open>Checked stores into the arrays of a row.\<close>

definition put_slot_to_token :: "lru_row \<Rightarrow> int \<Rightarrow> int \<Rightarrow> lru_row option" where
  "put_slot_to_token r i v = do { a \<leftarrow> wr (slot_to_token r) i v; Some (r\<lparr>slot_to_token := a\<rparr>) }"

definition put_lru_slots :: "lru_row \<Rightarrow> int \<Rightarrow> int \<Rightarrow> lru_row option" where
  "put_lru_slots r i v = do { a \<leftarrow> wr (lru_slots r) i v; Some (r\<lparr>lru_slots := a\<rparr>) }"

definition put_current_slots :: "lru_row \<Rightarrow> int \<Rightarrow> int \<Rightarrow> lru_row option" where
  "put_current_slots r i v = do { a \<leftarrow> wr (current_slots r) i v; Some (r\<lparr>current_slots := a\<rparr>) }"

definition put_miss_tokens :: "lru_row \<Rightarrow> int \<Rightarrow> int \<Rightarrow> lru_row option" where
  "put_miss_tokens r i v = do { a \<leftarrow> wr (miss_tokens r) i v; Some (r\<lparr>miss_tokens := a\<rparr>) }"

definition put_miss_slots :: "lru_row \<Rightarrow> int \<Rightarrow> int \<Rightarrow> lru_row option" where
  "put_miss_slots r i v = do { a \<leftarrow> wr (miss_slots r) i v; Some (r\<lparr>miss_slots := a\<rparr>) }"

lemmas put_defs = put_slot_to_token_def put_lru_slots_def put_current_slots_def
  put_miss_tokens_def put_miss_slots_def

definition LRU_INVALID_TOKEN :: int where "LRU_INVALID_TOKEN = - 1"

definition tok_ok :: "int \<Rightarrow> int \<Rightarrow> bool" where
  "tok_ok max_token token \<longleftrightarrow> token \<ge> 0 \<and> token < max_token"

definition slot_ok :: "int \<Rightarrow> int \<Rightarrow> bool" where
  "slot_ok capacity slot \<longleftrightarrow> slot \<ge> 0 \<and> slot < capacity"

text \<open>\<^verbatim>\<open>stable_prefix_len\<close> as the kernels clamp it.\<close>

definition clamp_prefix :: "int \<Rightarrow> int \<Rightarrow> int" where
  "clamp_prefix max_token n = (if n < 0 then 0 else if n > max_token then max_token else n)"

section \<open>What Compact computes\<close>

text \<open>A new request starts with empty slots in slot order.\<close>

definition sp_slots :: "int \<Rightarrow> lru_row \<Rightarrow> int list" where
  "sp_slots capacity r =
     (if last_req_id r = req_id r then slot_to_token r else replicate (nat capacity) (- 1))"

definition sp_lru :: "int \<Rightarrow> lru_row \<Rightarrow> int list" where
  "sp_lru capacity r =
     (if last_req_id r = req_id r then lru_slots r else map int [0..<nat capacity])"

text \<open>Tokens at or beyond the stable prefix are speculative and forgotten.\<close>

definition sp_invalidate :: "int \<Rightarrow> int \<Rightarrow> int list \<Rightarrow> int list" where
  "sp_invalidate max_token prefix s2t =
     map (\<lambda>token. if tok_ok max_token token \<and> token \<ge> prefix then - 1 else token) s2t"

definition sp_hit :: "int \<Rightarrow> int \<Rightarrow> int list \<Rightarrow> int list \<Rightarrow> int \<Rightarrow> bool" where
  "sp_hit max_token capacity topk s2t slot \<longleftrightarrow>
     slot_ok capacity slot \<and> tok_ok max_token (s2t ! nat slot) \<and> s2t ! nat slot \<in> set topk"

definition sp_evictable :: "int \<Rightarrow> int \<Rightarrow> int list \<Rightarrow> int list \<Rightarrow> int list \<Rightarrow> int list" where
  "sp_evictable max_token capacity topk s2t lru =
     filter (\<lambda>slot. slot_ok capacity slot \<and> \<not> sp_hit max_token capacity topk s2t slot) lru"

definition sp_hits :: "int \<Rightarrow> int \<Rightarrow> int list \<Rightarrow> int list \<Rightarrow> int list \<Rightarrow> int list" where
  "sp_hits max_token capacity topk s2t lru = filter (sp_hit max_token capacity topk s2t) lru"

text \<open>The most recently used slot that holds a token, \<open>-1\<close> if none does.\<close>

definition last_slot :: "int \<Rightarrow> int list \<Rightarrow> int \<Rightarrow> int list \<Rightarrow> int" where
  "last_slot capacity s2t token lru =
     foldl (\<lambda>found slot. if slot_ok capacity slot \<and> s2t ! nat slot = token then slot else found) (- 1) lru"

text \<open>The first Top-K position of a token takes the slot that holds it; later positions of the same
  token are misses of their own.\<close>

definition sp_current :: "int \<Rightarrow> int \<Rightarrow> int list \<Rightarrow> int list \<Rightarrow> int list \<Rightarrow> int list" where
  "sp_current max_token capacity topk s2t lru =
     map (\<lambda>pos. if tok_ok max_token (topk ! pos) \<and> first_pos topk (topk ! pos) = pos
                then last_slot capacity s2t (topk ! pos) lru else - 1) [0..<length topk]"

definition sp_misses :: "int \<Rightarrow> int list \<Rightarrow> int list \<Rightarrow> nat list" where
  "sp_misses max_token topk cur =
     filter (\<lambda>pos. tok_ok max_token (topk ! pos) \<and> cur ! pos < 0) [0..<length topk]"

text \<open>One Compact call on a row whose slots and order are \<open>s2t\<close> and \<open>lru\<close>.\<close>

definition compact_lists ::
  "int \<Rightarrow> int \<Rightarrow> int list \<Rightarrow> int list \<Rightarrow> int list \<Rightarrow> lru_row \<Rightarrow> lru_row" where
  "compact_lists max_token capacity topk s2t lru r =
     (let cur = sp_current max_token capacity topk s2t lru;
          ev = sp_evictable max_token capacity topk s2t lru;
          hits = sp_hits max_token capacity topk s2t lru;
          ms = sp_misses max_token topk cur;
          n = min (length ms) (length ev)
      in r\<lparr>slot_to_token := scatter (map nat (take n ev)) (map (\<lambda>p. topk ! p) (take n ms)) s2t,
           lru_slots := pad (nat capacity) (- 1) (drop n ev @ take n ev @ hits),
           current_slots := scatter (take n ms) (take n ev) cur,
           miss_count := int n,
           miss_tokens := pad (length topk) (- 1) (map (\<lambda>p. topk ! p) ms),
           miss_slots := pad (length topk) (- 1) (take n ev)\<rparr>)"

definition compact_spec :: "int \<Rightarrow> int \<Rightarrow> lru_row \<Rightarrow> lru_row" where
  "compact_spec capacity max_token r =
     compact_lists max_token capacity (topk_indices r)
       (sp_invalidate max_token (clamp_prefix max_token (stable_prefix_len r)) (sp_slots capacity r))
       (sp_lru capacity r)
       (r\<lparr>last_req_id := req_id r\<rparr>)"

section \<open>Well-formed rows\<close>

text \<open>The shapes of the tensors, and no resident slot twice in the LRU order.\<close>

definition row_wf :: "int \<Rightarrow> int \<Rightarrow> lru_row \<Rightarrow> bool" where
  "row_wf topk capacity r \<longleftrightarrow>
     int (length (topk_indices r)) = topk \<and>
     int (length (slot_to_token r)) = capacity \<and>
     int (length (lru_slots r)) = capacity \<and>
     int (length (current_slots r)) = topk \<and>
     int (length (miss_tokens r)) = topk \<and>
     int (length (miss_slots r)) = topk \<and>
     distinct (filter (slot_ok capacity) (lru_slots r))"

text \<open>The LRU order lists every slot exactly once.\<close>

definition lru_perm :: "int \<Rightarrow> int list \<Rightarrow> bool" where
  "lru_perm capacity lru \<longleftrightarrow> mset lru = mset (map int [0..<nat capacity])"

lemma slot_okD: "slot_ok capacity s \<Longrightarrow> 0 \<le> s \<and> s < capacity"
  by (simp add: slot_ok_def)

lemma last_slot_snoc:
  "last_slot capacity s2t t (lru @ [s]) =
     (if slot_ok capacity s \<and> s2t ! nat s = t then s else last_slot capacity s2t t lru)"
  by (simp add: last_slot_def)

lemma last_slot_Nil [simp]: "last_slot capacity s2t t [] = - 1"
  by (simp add: last_slot_def)

lemma last_slot_cases:
  "(last_slot capacity s2t t lru = - 1 \<and> (\<forall>s \<in> set lru. slot_ok capacity s \<longrightarrow> s2t ! nat s \<noteq> t)) \<or>
   (last_slot capacity s2t t lru \<in> set lru \<and> slot_ok capacity (last_slot capacity s2t t lru) \<and>
    s2t ! nat (last_slot capacity s2t t lru) = t)"
  by (induction lru rule: rev_induct) (auto simp: last_slot_snoc)

lemma last_slot_nonneg_iff:
  "0 \<le> last_slot capacity s2t t lru \<longleftrightarrow> (\<exists>s \<in> set lru. slot_ok capacity s \<and> s2t ! nat s = t)"
  using last_slot_cases [of capacity s2t t lru] by (auto simp: slot_ok_def)

lemma last_slot_range: "last_slot capacity s2t t lru = - 1 \<or> slot_ok capacity (last_slot capacity s2t t lru)"
  using last_slot_cases [of capacity s2t t lru] by auto

lemma length_sp [simp]:
  "length (sp_invalidate max_token prefix s2t) = length s2t"
  "length (sp_current max_token capacity topk s2t lru) = length topk"
  by (simp_all add: sp_invalidate_def sp_current_def)

lemma length_sp_slots [simp]: "int (length (slot_to_token r)) = capacity \<Longrightarrow> length (sp_slots capacity r) = nat capacity"
  by (auto simp: sp_slots_def)

lemma length_sp_lru [simp]: "int (length (lru_slots r)) = capacity \<Longrightarrow> length (sp_lru capacity r) = nat capacity"
  by (auto simp: sp_lru_def)

lemma distinct_sp_lru:
  "distinct (filter (slot_ok capacity) (lru_slots r)) \<Longrightarrow> distinct (filter (slot_ok capacity) (sp_lru capacity r))"
  by (auto simp: sp_lru_def distinct_map intro!: distinct_filter)

lemma length_evictable_hits:
  "length (sp_evictable max_token capacity topk s2t lru) + length (sp_hits max_token capacity topk s2t lru)
     = length (filter (slot_ok capacity) lru)"
  by (induction lru) (auto simp: sp_evictable_def sp_hits_def sp_hit_def)

lemma evictable_hits_le:
  "length (sp_evictable max_token capacity topk s2t lru) + length (sp_hits max_token capacity topk s2t lru)
     \<le> length lru"
  by (simp add: length_evictable_hits)

lemma sp_misses_props:
  "length (sp_misses max_token topk cur) \<le> length topk" "distinct (sp_misses max_token topk cur)"
  "p \<in> set (sp_misses max_token topk cur) \<longleftrightarrow>
     p < length topk \<and> tok_ok max_token (topk ! p) \<and> cur ! p < 0"
  unfolding sp_misses_def using length_filter_le [of _ "[0..<length topk]"] by auto

lemma evictable_slot_ok: "s \<in> set (sp_evictable max_token capacity topk s2t lru) \<Longrightarrow> slot_ok capacity s"
  by (simp add: sp_evictable_def)

lemma evictable_filter:
  "sp_evictable max_token capacity topk s2t lru =
     filter (\<lambda>slot. \<not> sp_hit max_token capacity topk s2t slot) (filter (slot_ok capacity) lru)"
  "sp_hits max_token capacity topk s2t lru =
     filter (sp_hit max_token capacity topk s2t) (filter (slot_ok capacity) lru)"
  by (simp_all add: sp_evictable_def sp_hits_def conj_commute) (auto simp: sp_hit_def intro: filter_cong)

lemma distinct_evictable:
  "distinct (filter (slot_ok capacity) lru) \<Longrightarrow> distinct (sp_evictable max_token capacity topk s2t lru)"
  "distinct (filter (slot_ok capacity) lru) \<Longrightarrow> distinct (sp_hits max_token capacity topk s2t lru)"
  unfolding evictable_filter by (rule distinct_filter, assumption)+

lemma inj_on_nat_slots: "(\<And>s. s \<in> A \<Longrightarrow> slot_ok capacity s) \<Longrightarrow> inj_on nat A"
  by (rule inj_onI) (metis slot_okD eq_nat_nat_iff)

lemma distinct_nat_evictable:
  assumes "distinct (filter (slot_ok capacity) lru)"
  shows "distinct (map nat (sp_evictable max_token capacity topk s2t lru))"
proof -
  have "inj_on nat (set (sp_evictable max_token capacity topk s2t lru))"
    by (rule inj_on_nat_slots) (rule evictable_slot_ok)
  then show ?thesis using distinct_evictable(1) [OF assms] by (simp add: distinct_map)
qed

text \<open>How the result of a scan over the LRU order grows by one slot.\<close>

lemma sp_current_Nil: "sp_current max_token capacity topk s2t [] = replicate (length topk) (- 1)"
  by (rule nth_equalityI) (simp_all add: sp_current_def)

lemma sp_current_snoc_other:
  assumes "\<not> sp_hit max_token capacity topk s2t s"
  shows "sp_current max_token capacity topk s2t (lru @ [s]) = sp_current max_token capacity topk s2t lru"
  unfolding sp_current_def by (rule map_cong) (use assms in \<open>auto simp: last_slot_snoc sp_hit_def\<close>)

lemma sp_current_snoc_hit:
  assumes "sp_hit max_token capacity topk s2t s" "t = s2t ! nat s"
  shows "sp_current max_token capacity topk s2t (lru @ [s]) =
    (sp_current max_token capacity topk s2t lru)[first_pos topk t := s]"
proof (rule nth_equalityI)
  fix i assume "i < length (sp_current max_token capacity topk s2t (lru @ [s]))"
  then have i: "i < length topk" by simp
  have t: "t \<in> set topk" "tok_ok max_token t" "slot_ok capacity s"
    using assms by (auto simp: sp_hit_def)
  show "sp_current max_token capacity topk s2t (lru @ [s]) ! i =
    (sp_current max_token capacity topk s2t lru)[first_pos topk t := s] ! i"
  proof (cases "i = first_pos topk t")
    case True
    then have "topk ! i = t" using t first_pos_nth by metis
    then show ?thesis using True i t assms(2) by (simp add: sp_current_def last_slot_snoc)
  next
    case False
    then show ?thesis using i assms(2) by (auto simp: sp_current_def last_slot_snoc)
  qed
qed simp

lemma sp_evictable_snoc:
  "sp_evictable max_token capacity topk s2t (lru @ [s]) = sp_evictable max_token capacity topk s2t lru @
     (if slot_ok capacity s \<and> \<not> sp_hit max_token capacity topk s2t s then [s] else [])"
  by (simp add: sp_evictable_def)

lemma sp_hits_snoc:
  "sp_hits max_token capacity topk s2t (lru @ [s]) = sp_hits max_token capacity topk s2t lru @
     (if sp_hit max_token capacity topk s2t s then [s] else [])"
  by (simp add: sp_hits_def)

lemma evictable_hits_take_less:
  assumes "i < length lru"
  shows "length (sp_evictable max_token capacity topk s2t (take i lru)) +
    length (sp_hits max_token capacity topk s2t (take i lru)) < length lru"
  using assms le_less_trans [OF evictable_hits_le] by simp

lemma last_slot_eq:
  assumes "i < length lru" "slot_ok capacity (lru ! i)" "s2t ! nat (lru ! i) = t"
    and "\<And>j. i < j \<Longrightarrow> j < length lru \<Longrightarrow> \<not> (slot_ok capacity (lru ! j) \<and> s2t ! nat (lru ! j) = t)"
  shows "last_slot capacity s2t t lru = lru ! i"
  using assms
proof (induction lru rule: rev_induct)
  case (snoc x xs)
  show ?case
  proof (cases "i = length xs")
    case True
    then show ?thesis using snoc.prems(2,3) by (simp add: last_slot_snoc)
  next
    case False
    then have i: "i < length xs" using snoc.prems(1) by simp
    have "\<not> (slot_ok capacity x \<and> s2t ! nat x = t)" using snoc.prems(4) [of "length xs"] i by simp
    moreover have "\<not> (slot_ok capacity (xs ! j) \<and> s2t ! nat (xs ! j) = t)" if "i < j" "j < length xs" for j
      using snoc.prems(4) [of j] that by (simp add: nth_append)
    then have "last_slot capacity s2t t xs = xs ! i"
      using snoc.IH snoc.prems(2,3) i by (simp add: nth_append)
    ultimately show ?thesis using i by (auto simp: last_slot_snoc nth_append)
  qed
qed simp

end
