(* ===== verification/Lru_Cache.thy ===== *)
theory Lru_Cache
  imports Simt Lru_Spec
begin

text \<open>
  What \<open>compact_spec\<close> guarantees to the decoder, and the contract \<open>compact_op\<close> that every
  implementation of Compact is proved to meet. The lemmas of the contract, on one call and on a
  sequence of decoding steps, are proved once here and hold for each implementation by
  interpretation.
\<close>

section \<open>The LRU order\<close>

lemma lru_permD:
  assumes "lru_perm capacity lru"
  shows "set lru = int ` {..<nat capacity}" "distinct lru" "length lru = nat capacity"
    "filter (slot_ok capacity) lru = lru" "s \<in> set lru \<longleftrightarrow> slot_ok capacity s"
proof -
  have m: "mset lru = mset (map int [0..<nat capacity])" using assms by (simp add: lru_perm_def)
  show s: "set lru = int ` {..<nat capacity}"
    using mset_eq_setD [OF m] by (simp add: atLeast_upt)
  show "distinct lru" using mset_eq_imp_distinct_iff [OF m] by (simp add: distinct_map)
  show "length lru = nat capacity" using mset_eq_length [OF m] by simp
  show "filter (slot_ok capacity) lru = lru" unfolding filter_id_conv s by (auto simp: slot_ok_def)
  show "s \<in> set lru \<longleftrightarrow> slot_ok capacity s"
    unfolding s by (auto simp: slot_ok_def image_iff intro!: bexI [of _ "nat s"])
qed

lemma lru_perm_initial: "lru_perm capacity (map int [0..<nat capacity])"
  by (simp add: lru_perm_def)

lemma mset_split_order:
  "mset (drop n (sp_evictable max_token capacity tks s2t lru) @ take n (sp_evictable max_token capacity tks s2t lru)
     @ sp_hits max_token capacity tks s2t lru) = mset (filter (slot_ok capacity) lru)"
proof -
  have "mset (drop n xs) + (mset (take n xs) + y) = mset xs + y" for xs :: "int list" and y
    by (metis add.assoc add.commute append_take_drop_id mset_append)
  moreover have "mset (sp_evictable max_token capacity tks s2t lru) + mset (sp_hits max_token capacity tks s2t lru) =
      mset (filter (slot_ok capacity) lru)"
  proof -
    have "mset (filter (\<lambda>x. \<not> P x) xs) + mset (filter P xs) = mset xs" for P and xs :: "int list"
      by (induction xs) auto
    then show ?thesis unfolding evictable_filter by metis
  qed
  ultimately show ?thesis by (simp only: mset_append)
qed

text \<open>A row whose order is a permutation keeps it.\<close>

lemma compact_lru_perm:
  assumes "lru_perm capacity lru"
  shows "lru_perm capacity (lru_slots (compact_lists max_token capacity tks s2t lru r))"
proof -
  define n where "n = min (length (sp_misses max_token tks (sp_current max_token capacity tks s2t lru)))
    (length (sp_evictable max_token capacity tks s2t lru))"
  let ?o = "drop n (sp_evictable max_token capacity tks s2t lru) @ take n (sp_evictable max_token capacity tks s2t lru)
     @ sp_hits max_token capacity tks s2t lru"
  have "mset ?o = mset lru" 
    using mset_split_order [of n max_token capacity tks s2t lru] lru_permD(4) [OF assms] by simp
  moreover have "length ?o = nat capacity" using mset_eq_length [OF calculation] lru_permD(3) [OF assms] by simp
  ultimately show ?thesis
    using assms by (simp add: compact_lists_def Let_def n_def pad_def lru_perm_def)
qed

section \<open>Residency\<close>

text \<open>No two slots hold the same token.\<close>

definition tokens_distinct :: "int \<Rightarrow> int list \<Rightarrow> bool" where
  "tokens_distinct max_token s2t \<longleftrightarrow>
     (\<forall>i < length s2t. \<forall>j < length s2t. tok_ok max_token (s2t ! i) \<and> s2t ! i = s2t ! j \<longrightarrow> i = j)"

lemma tokens_distinctD:
  "tokens_distinct max_token s2t \<Longrightarrow> i < length s2t \<Longrightarrow> j < length s2t \<Longrightarrow>
    tok_ok max_token (s2t ! i) \<Longrightarrow> s2t ! i = s2t ! j \<Longrightarrow> i = j"
  by (simp add: tokens_distinct_def)

lemma tokens_distinct_invalidate:
  "tokens_distinct max_token s2t \<Longrightarrow> tokens_distinct max_token (sp_invalidate max_token q s2t)"
  unfolding tokens_distinct_def by (auto simp: sp_invalidate_def tok_ok_def split: if_splits)

lemma tokens_distinct_empty: "tokens_distinct max_token (replicate n (- 1))"
  by (simp add: tokens_distinct_def tok_ok_def)

text \<open>The slots that are hit have different Top-K positions.\<close>

lemma hits_le_positions:
  assumes "tokens_distinct max_token s2t" "int (length s2t) = capacity"
    and "distinct (filter (slot_ok capacity) lru)"
  shows "length (sp_hits max_token capacity tks s2t lru) +
    length (sp_misses max_token tks (sp_current max_token capacity tks s2t lru)) \<le> length tks"
proof -
  let ?cur = "sp_current max_token capacity tks s2t lru"
  let ?hits = "sp_hits max_token capacity tks s2t lru"
  let ?f = "\<lambda>s. first_pos tks (s2t ! nat s)"
  let ?H = "{p. p < length tks \<and> 0 \<le> ?cur ! p}"
  let ?M = "set (sp_misses max_token tks ?cur)"
  have inj: "inj_on ?f (set ?hits)"
  proof (rule inj_onI)
    fix a b assume ab: "a \<in> set ?hits" "b \<in> set ?hits" "?f a = ?f b"
    have a: "slot_ok capacity a" "s2t ! nat a \<in> set tks" and b: "slot_ok capacity b" "s2t ! nat b \<in> set tks"
      and t: "tok_ok max_token (s2t ! nat a)"
      using ab(1,2) by (simp_all add: sp_hits_def sp_hit_def)
    have "s2t ! nat a = s2t ! nat b" using first_pos_nth [OF a(2)] first_pos_nth [OF b(2)] ab(3) by metis
    moreover have "nat a < length s2t" "nat b < length s2t" using a(1) b(1) assms(2) by (auto simp: slot_ok_def)
    ultimately have "nat a = nat b" using tokens_distinctD [OF assms(1)] t by blast
    then show "a = b" using slot_okD [OF a(1)] slot_okD [OF b(1)] by linarith
  qed
  have "?f s \<in> ?H" if "s \<in> set ?hits" for s
  proof -
    let ?t = "s2t ! nat s"
    have s: "slot_ok capacity s" "tok_ok max_token ?t" "?t \<in> set tks" "s \<in> set lru"
      using that by (auto simp: sp_hits_def sp_hit_def)
    then have "0 \<le> last_slot capacity s2t ?t lru" using last_slot_nonneg_iff by blast
    then show ?thesis
      using s first_pos_less [OF s(3)] first_pos_nth [OF s(3)] by (simp add: sp_current_def)
  qed
  then have "card (set ?hits) \<le> card ?H" by (intro card_inj_on_le [OF inj]) auto
  moreover have "card ?H + card ?M = card (?H \<union> ?M)"
    by (intro card_Un_disjoint [symmetric]) (auto simp: sp_misses_props)
  moreover have "card (?H \<union> ?M) \<le> card {..<length tks}"
    by (rule card_mono) (auto simp: sp_misses_props)
  ultimately show ?thesis
    using distinct_card [OF distinct_evictable(2) [OF assms(3)], of max_token tks s2t]
      distinct_card [OF sp_misses_props(2) [of max_token tks ?cur]] by simp
qed

text \<open>A call as the lists it computes: \<open>ev\<close> and \<open>hits\<close> split the LRU order, \<open>ms\<close> are the missing
  positions and the first \<open>n\<close> of them get the first \<open>n\<close> evictable slots.\<close>

definition call_lists ::
  "int \<Rightarrow> int \<Rightarrow> int list \<Rightarrow> int list \<Rightarrow> int list \<Rightarrow> int list \<times> int list \<times> int list \<times> nat list \<times> nat" where
  "call_lists max_token capacity tks s2t lru =
     (let cur = sp_current max_token capacity tks s2t lru;
          ev = sp_evictable max_token capacity tks s2t lru;
          ms = sp_misses max_token tks cur
      in (cur, ev, sp_hits max_token capacity tks s2t lru, ms, min (length ms) (length ev)))"

lemma compact_lists_fields:
  assumes "call_lists max_token capacity tks s2t lru = (cur, ev, hits, ms, n)"
    "r' = compact_lists max_token capacity tks s2t lru r"
  shows "slot_to_token r' = scatter (map nat (take n ev)) (map ((!) tks) (take n ms)) s2t"
    "lru_slots r' = pad (nat capacity) (- 1) (drop n ev @ take n ev @ hits)"
    "current_slots r' = scatter (take n ms) (take n ev) cur"
    "miss_count r' = int n"
    "miss_tokens r' = pad (length tks) (- 1) (map ((!) tks) ms)"
    "miss_slots r' = pad (length tks) (- 1) (take n ev)"
  using assms by (auto simp: call_lists_def compact_lists_def Let_def)

text \<open>An assigned position.\<close>

lemma compact_assigned:
  assumes call: "call_lists max_token capacity tks s2t lru = (cur, ev, hits, ms, n)"
    and r': "r' = compact_lists max_token capacity tks s2t lru r"
    and "int (length s2t) = capacity" "distinct (filter (slot_ok capacity) lru)" "i < n"
  shows "current_slots r' ! (ms ! i) = ev ! i" "slot_to_token r' ! nat (ev ! i) = tks ! (ms ! i)"
    "slot_ok capacity (ev ! i)"
proof -
  note fields = compact_lists_fields [OF call r']
  have ev: "ev = sp_evictable max_token capacity tks s2t lru" and cur: "length cur = length tks"
    and ms: "ms = sp_misses max_token tks cur" and n: "n \<le> length ms" "n \<le> length ev"
    using call by (auto simp: call_lists_def Let_def)
  show ok: "slot_ok capacity (ev ! i)" using evictable_slot_ok nth_mem assms(5) n ev by (metis order.strict_trans2)
  have "ms ! i \<in> set ms" using assms(5) n by simp
  then have p: "ms ! i < length cur" using cur sp_misses_props(3) unfolding ms by metis
  have "scatter (take n ms) (take n ev) cur ! (take n ms ! i) = take n ev ! i"
    by (rule nth_scatter) (use assms(5) n p sp_misses_props(2) in \<open>simp_all add: ms distinct_take\<close>)
  then show "current_slots r' ! (ms ! i) = ev ! i" using assms(5) fields(3) by simp
  have "scatter (map nat (take n ev)) (map ((!) tks) (take n ms)) s2t ! (map nat (take n ev) ! i) =
      map ((!) tks) (take n ms) ! i"
  proof (rule nth_scatter)
    show "distinct (map nat (take n ev))"
      using distinct_nat_evictable [OF assms(4)] unfolding ev take_map [symmetric] by (rule distinct_take)
  qed (use assms(3,5) n ok in \<open>auto simp: slot_ok_def\<close>)
  then show "slot_to_token r' ! nat (ev ! i) = tks ! (ms ! i)" using assms(5) n fields(1) by simp
qed

text \<open>A slot that is not assigned keeps its token.\<close>

lemma compact_frame:
  assumes call: "call_lists max_token capacity tks s2t lru = (cur, ev, hits, ms, n)"
    and r': "r' = compact_lists max_token capacity tks s2t lru r"
    and "slot_ok capacity s" "s \<notin> set (take n ev)"
  shows "slot_to_token r' ! nat s = s2t ! nat s"
proof -
  have "slot_ok capacity x" if "x \<in> set (take n ev)" for x
    using that call evictable_slot_ok by (auto simp: call_lists_def Let_def dest: in_set_takeD)
  then have "nat s \<noteq> nat x" if "x \<in> set (take n ev)" for x
    using that assms(3,4) slot_okD [of capacity x] slot_okD [of capacity s] by (metis eq_nat_nat_iff)
  then have "nat s \<notin> set (map nat (take n ev))" by auto
  then show ?thesis using compact_lists_fields(1) [OF call r'] by (simp add: nth_scatter_other)
qed

lemma compact_hit:
  assumes call: "call_lists max_token capacity tks s2t lru = (cur, ev, hits, ms, n)"
    and r': "r' = compact_lists max_token capacity tks s2t lru r"
    and "p < length tks" "p \<notin> set ms" "tok_ok max_token (tks ! p)"
  shows "current_slots r' ! p = cur ! p" "cur ! p \<in> set hits" "slot_ok capacity (cur ! p)"
    "slot_to_token r' ! nat (cur ! p) = tks ! p"
proof -
  have ev: "ev = sp_evictable max_token capacity tks s2t lru" and hits: "hits = sp_hits max_token capacity tks s2t lru"
    and cur: "cur = sp_current max_token capacity tks s2t lru" and ms: "ms = sp_misses max_token tks cur"
    using call by (auto simp: call_lists_def Let_def)
  have "p \<notin> set (take n ms)" using assms(4) by (auto dest: in_set_takeD)
  then show "current_slots r' ! p = cur ! p"
    using compact_lists_fields(3) [OF call r'] by (simp add: nth_scatter_other)
  have "0 \<le> cur ! p" using assms(3-5) sp_misses_props(3) [of p max_token tks cur] ms by auto
  then have slot: "cur ! p = last_slot capacity s2t (tks ! p) lru" "0 \<le> last_slot capacity s2t (tks ! p) lru"
    using assms(3) unfolding cur by (auto simp: sp_current_def split: if_splits)
  then have s: "cur ! p \<in> set lru" "slot_ok capacity (cur ! p)" "s2t ! nat (cur ! p) = tks ! p"
    using last_slot_cases [of capacity s2t "tks ! p" lru] by auto
  then have hit: "sp_hit max_token capacity tks s2t (cur ! p)" using assms(3,5) by (simp add: sp_hit_def)
  then show "cur ! p \<in> set hits" "slot_ok capacity (cur ! p)" using s by (simp_all add: hits sp_hits_def)
  have "cur ! p \<notin> set (take n ev)" using hit by (auto simp: ev sp_evictable_def dest: in_set_takeD)
  then show "slot_to_token r' ! nat (cur ! p) = tks ! p" using compact_frame [OF call r' s(2)] s(3) by simp
qed

text \<open>Every entry of \<^verbatim>\<open>current_slots\<close> is a slot that holds the token of its position, or \<open>-1\<close>.\<close>

lemma compact_sound:
  assumes call: "call_lists max_token capacity tks s2t lru = (cur, ev, hits, ms, n)"
    and r': "r' = compact_lists max_token capacity tks s2t lru r"
    and "int (length s2t) = capacity" "distinct (filter (slot_ok capacity) lru)" "p < length tks"
  shows "current_slots r' ! p = - 1 \<or> (tok_ok max_token (tks ! p) \<and> slot_ok capacity (current_slots r' ! p) \<and>
    slot_to_token r' ! nat (current_slots r' ! p) = tks ! p)"
proof -
  have cur: "cur = sp_current max_token capacity tks s2t lru" and ms: "ms = sp_misses max_token tks cur"
    and n: "n \<le> length ms"
    using call by (auto simp: call_lists_def Let_def)
  consider (unset) "p \<notin> set (take n ms)" "\<not> tok_ok max_token (tks ! p) \<or> p \<in> set ms"
    | (assigned) i where "i < n" "p = ms ! i" | (hit) "p \<notin> set ms" "tok_ok max_token (tks ! p)"
    using n by (metis in_set_conv_nth length_take min_absorb2 nth_take)
  then show ?thesis
  proof cases
    case unset
    then have "cur ! p < 0 \<or> \<not> tok_ok max_token (tks ! p)" using sp_misses_props(3) ms by auto
    then have "cur ! p = - 1"
      using assms(5) last_slot_range [of capacity s2t "tks ! p" lru]
      by (auto simp: cur sp_current_def slot_ok_def split: if_splits)
    then show ?thesis using unset compact_lists_fields(3) [OF call r'] by (simp add: nth_scatter_other)
  next
    case assigned
    have "tok_ok max_token (tks ! p)" using assigned n sp_misses_props(3) ms
      by (metis nth_mem order.strict_trans2)
    then show ?thesis using assigned compact_assigned [OF call r' assms(3,4)] by simp
  next
    case hit
    then show ?thesis using compact_hit [OF call r' assms(5)] by simp
  qed
qed

lemma compact_resident:
  assumes call: "call_lists max_token capacity tks s2t lru = (cur, ev, hits, ms, n)"
    and r': "r' = compact_lists max_token capacity tks s2t lru r"
    and "int (length s2t) = capacity" "distinct (filter (slot_ok capacity) lru)" "p < length tks"
    and "tok_ok max_token (tks ! p)" "length ms \<le> length ev"
  shows "slot_ok capacity (current_slots r' ! p) \<and> slot_to_token r' ! nat (current_slots r' ! p) = tks ! p"
proof (cases "p \<in> set ms")
  case True
  have "n = length ms" using call assms(7) by (auto simp: call_lists_def Let_def)
  then obtain i where "i < n" "p = ms ! i" using True by (metis in_set_conv_nth)
  then show ?thesis using compact_assigned [OF call r' assms(3,4)] by simp
next
  case False
  then show ?thesis using compact_hit [OF call r' assms(5)] assms(6) by simp
qed

text \<open>Two positions never share a slot.\<close>

lemma compact_current_inj:
  assumes call: "call_lists max_token capacity tks s2t lru = (cur, ev, hits, ms, n)"
    and r': "r' = compact_lists max_token capacity tks s2t lru r"
    and "int (length s2t) = capacity" "distinct (filter (slot_ok capacity) lru)"
    and pq: "p < length tks" "q < length tks" "current_slots r' ! p = current_slots r' ! q"
    and pos: "0 \<le> current_slots r' ! p"
  shows "p = q"
proof -
  have ev: "ev = sp_evictable max_token capacity tks s2t lru" and hits: "hits = sp_hits max_token capacity tks s2t lru"
    and cur: "cur = sp_current max_token capacity tks s2t lru" and ms: "ms = sp_misses max_token tks cur"
    and n: "n \<le> length ms" "n \<le> length ev"
    using call by (auto simp: call_lists_def Let_def)
  have kind: "(\<exists>i < n. x = ms ! i \<and> current_slots r' ! x = ev ! i) \<or>
      (current_slots r' ! x \<in> set hits \<and> first_pos tks (tks ! x) = x \<and>
        slot_to_token r' ! nat (current_slots r' ! x) = tks ! x)"
    if x: "x < length tks" "0 \<le> current_slots r' ! x" for x
  proof (cases "x \<in> set (take n ms)")
    case True
    then obtain i where "i < n" "x = ms ! i" using n(1) by (metis in_set_conv_nth length_take min_absorb2 nth_take)
    then show ?thesis using compact_assigned(1) [OF call r' assms(3,4)] by blast
  next
    case False
    then have c: "current_slots r' ! x = cur ! x"
      using compact_lists_fields(3) [OF call r'] by (simp add: nth_scatter_other)
    then have "0 \<le> cur ! x" using x by simp
    then have "tok_ok max_token (tks ! x)" "first_pos tks (tks ! x) = x"
      using x(1) by (auto simp: cur sp_current_def split: if_splits)
    moreover have "x \<notin> set ms" using \<open>0 \<le> cur ! x\<close> sp_misses_props(3) ms by auto
    ultimately show ?thesis using compact_hit [OF call r' x(1)] c by simp
  qed
  have disj: "ev ! i \<notin> set hits" if "i < n" for i
  proof -
    have "ev ! i \<in> set ev" using that n by simp
    then show ?thesis by (auto simp: ev hits sp_evictable_def sp_hits_def)
  qed
  have dist: "ev ! i = ev ! j \<longleftrightarrow> i = j" if "i < n" "j < n" for i j
    using that n distinct_evictable(1) [OF assms(4)] by (simp add: ev nth_eq_iff_index_eq)
  from kind [OF pq(1) pos] kind [OF pq(2)] pos pq(3) show ?thesis using disj dist by metis
qed

section \<open>The cache invariant\<close>

lemma compact_row_wf:
  assumes "int (length tks) = topk" "int (length s2t) = capacity" "int (length lru) = capacity"
    and "distinct (filter (slot_ok capacity) lru)" "topk_indices r = tks"
  shows "row_wf topk capacity (compact_lists max_token capacity tks s2t lru r)"
proof -
  obtain cur ev hits ms n where call: "call_lists max_token capacity tks s2t lru = (cur, ev, hits, ms, n)"
    by (metis surj_pair)
  note fields = compact_lists_fields [OF call refl, of r]
  let ?o = "drop n ev @ take n ev @ hits"
  have parts: "ev = sp_evictable max_token capacity tks s2t lru" "hits = sp_hits max_token capacity tks s2t lru"
    "length cur = length tks" "length ms \<le> length tks" "n \<le> length ms"
    using call sp_misses_props(1) by (auto simp: call_lists_def Let_def)
  have o: "mset ?o = mset (filter (slot_ok capacity) lru)"
    unfolding parts by (rule mset_split_order)
  have "\<not> slot_ok capacity (- 1)" by (simp add: slot_ok_def)
  then have "filter (slot_ok capacity) (pad (nat capacity) (- 1) ?o) = filter (slot_ok capacity) ?o"
    by (simp add: pad_def)
  moreover have "distinct ?o" using mset_eq_imp_distinct_iff [OF o] assms(4) by simp
  then have "distinct (filter (slot_ok capacity) ?o)" by (rule distinct_filter)
  moreover have "length ?o \<le> nat capacity"
    using mset_eq_length [OF o] length_filter_le [of "slot_ok capacity" lru] assms(3) by linarith
  ultimately show ?thesis
    unfolding row_wf_def fields using assms parts(3-5) by (simp add: compact_lists_def Let_def length_pad)
qed

definition cache_ok :: "int \<Rightarrow> int \<Rightarrow> int \<Rightarrow> lru_row \<Rightarrow> bool" where
  "cache_ok topk capacity max_token r \<longleftrightarrow>
     row_wf topk capacity r \<and> lru_perm capacity (lru_slots r) \<and> tokens_distinct max_token (slot_to_token r)"

lemma compact_tokens_distinct:
  assumes "tokens_distinct max_token s2t" "tokens_distinct max_token tks"
    and "int (length s2t) = capacity" "lru_perm capacity lru"
  shows "tokens_distinct max_token (slot_to_token (compact_lists max_token capacity tks s2t lru r))"
proof -
  obtain cur ev hits ms n where call: "call_lists max_token capacity tks s2t lru = (cur, ev, hits, ms, n)"
    by (metis surj_pair)
  define r' where "r' = compact_lists max_token capacity tks s2t lru r"
  have parts: "ev = sp_evictable max_token capacity tks s2t lru" "cur = sp_current max_token capacity tks s2t lru"
    "ms = sp_misses max_token tks cur" "n \<le> length ms" "n \<le> length ev"
    using call by (auto simp: call_lists_def Let_def)
  have dist: "distinct (filter (slot_ok capacity) lru)"
    using lru_permD(2) [OF assms(4)] by (rule distinct_filter)
  have len: "length (slot_to_token r') = length s2t"
    using compact_lists_fields(1) [OF call r'_def] by simp
  have kind: "(\<exists>k < n. x = nat (ev ! k) \<and> slot_to_token r' ! x = tks ! (ms ! k)) \<or>
      slot_to_token r' ! x = s2t ! x" if "x < length s2t" for x
  proof (cases "int x \<in> set (take n ev)")
    case True
    then obtain k where "k < n" "int x = ev ! k"
      using parts(5) by (metis in_set_conv_nth length_take min_absorb2 nth_take)
    then show ?thesis using compact_assigned(2) [OF call r'_def assms(3) dist] by (metis nat_int)
  next
    case False
    then show ?thesis
      using compact_frame [OF call r'_def _ False] that assms(3) by (simp add: slot_ok_def)
  qed
  have fresh: "tks ! (ms ! k) \<noteq> s2t ! x" if "k < n" "x < length s2t" for k x
  proof
    assume eq: "tks ! (ms ! k) = s2t ! x"
    have "ms ! k \<in> set ms" using that parts(4) by simp
    then have m: "ms ! k < length tks" "tok_ok max_token (tks ! (ms ! k))" "cur ! (ms ! k) < 0"
      using sp_misses_props(3) parts(3) by auto
    have "first_pos tks (tks ! (ms ! k)) = ms ! k"
      using m first_pos_nth [of "tks ! (ms ! k)" tks] first_pos_less [of "tks ! (ms ! k)" tks]
        tokens_distinctD [OF assms(2)] nth_mem by metis
    then have "last_slot capacity s2t (s2t ! x) lru < 0"
      using m eq by (simp add: parts(2) sp_current_def)
    moreover have "int x \<in> set lru" "slot_ok capacity (int x)"
      using lru_permD(5) [OF assms(4)] that assms(3) by (auto simp: slot_ok_def)
    ultimately show False using last_slot_nonneg_iff [of capacity s2t "s2t ! x" lru] by force
  qed
  have same: "i = j" if "i < n" "j < n" "tks ! (ms ! i) = tks ! (ms ! j)" for i j
  proof -
    have "ms ! i \<in> set ms" "ms ! j \<in> set ms" using that parts(4) by simp_all
    then have "ms ! i = ms ! j"
      using sp_misses_props(3) parts(3) that(3) tokens_distinctD [OF assms(2)] by metis
    then show ?thesis using that parts(3,4) sp_misses_props(2) [of max_token tks cur] nth_eq_iff_index_eq
      by (metis order.strict_trans2)
  qed
  show ?thesis
    unfolding tokens_distinct_def r'_def [symmetric] len
  proof (intro allI impI, elim conjE)
    fix i j assume ij: "i < length s2t" "j < length s2t" "tok_ok max_token (slot_to_token r' ! i)"
      "slot_to_token r' ! i = slot_to_token r' ! j"
    from kind [OF ij(1)] kind [OF ij(2)] show "i = j"
      using ij fresh same tokens_distinctD [OF assms(1) ij(1,2)] by metis
  qed
qed

lemma row_wf_inputs:
  assumes "row_wf topk capacity r"
  shows "int (length (topk_indices r)) = topk"
    "int (length (sp_invalidate max_token q (sp_slots capacity r))) = capacity"
    "int (length (sp_lru capacity r)) = capacity" "distinct (filter (slot_ok capacity) (sp_lru capacity r))"
  using assms distinct_sp_lru by (auto simp: row_wf_def)

lemma compact_spec_row_wf:
  assumes "row_wf topk capacity r"
  shows "row_wf topk capacity (compact_spec capacity max_token r)"
  unfolding compact_spec_def using row_wf_inputs [OF assms] by (intro compact_row_wf) auto

text \<open>The order and the tokens a call starts from, after a reset and the invalidation.\<close>

lemma cache_inputs:
  assumes "cache_ok topk capacity max_token r"
  shows "lru_perm capacity (sp_lru capacity r)"
    "tokens_distinct max_token (sp_invalidate max_token q (sp_slots capacity r))"
  using assms lru_perm_initial tokens_distinct_empty
  by (auto simp: cache_ok_def sp_lru_def sp_slots_def intro!: tokens_distinct_invalidate)

lemma compact_spec_cache_ok:
  assumes "cache_ok topk capacity max_token r" "tokens_distinct max_token (topk_indices r)"
  shows "cache_ok topk capacity max_token (compact_spec capacity max_token r)"
proof -
  have "row_wf topk capacity r" using assms(1) by (simp add: cache_ok_def)
  then show ?thesis
    using compact_spec_row_wf row_wf_inputs(2) cache_inputs [OF assms(1)] assms(2)
    by (auto simp: cache_ok_def compact_spec_def intro!: compact_lru_perm compact_tokens_distinct)
qed

lemma compact_spec_resident:
  assumes "cache_ok topk capacity max_token r" "topk \<le> capacity"
    and "int p < topk" "tok_ok max_token (topk_indices r ! p)"
  shows "slot_ok capacity (current_slots (compact_spec capacity max_token r) ! p)"
    "slot_to_token (compact_spec capacity max_token r) ! nat (current_slots (compact_spec capacity max_token r) ! p) =
      topk_indices r ! p"
proof -
  have wf: "row_wf topk capacity r" using assms(1) by (simp add: cache_ok_def)
  let ?s2t = "sp_invalidate max_token (clamp_prefix max_token (stable_prefix_len r)) (sp_slots capacity r)"
  obtain cur ev hits ms n where call: "call_lists max_token capacity (topk_indices r) ?s2t (sp_lru capacity r) =
      (cur, ev, hits, ms, n)" by (metis surj_pair)
  then have parts: "ev = sp_evictable max_token capacity (topk_indices r) ?s2t (sp_lru capacity r)"
    "hits = sp_hits max_token capacity (topk_indices r) ?s2t (sp_lru capacity r)"
    "ms = sp_misses max_token (topk_indices r) (sp_current max_token capacity (topk_indices r) ?s2t (sp_lru capacity r))"
    by (auto simp: call_lists_def Let_def)
  have "length hits + length ms \<le> length (topk_indices r)"
    unfolding parts by (rule hits_le_positions) (use cache_inputs [OF assms(1)] row_wf_inputs [OF wf] in blast)+
  moreover have "length ev + length hits = nat capacity"
    unfolding parts length_evictable_hits using lru_permD(3,4) [OF cache_inputs(1) [OF assms(1)]] by simp
  ultimately have fit: "length ms \<le> length ev" using row_wf_inputs(1) [OF wf] assms(2) by linarith
  have p: "p < length (topk_indices r)" using assms(3) row_wf_inputs(1) [OF wf] by linarith
  from compact_resident [OF call refl row_wf_inputs(2) [OF wf] row_wf_inputs(4) [OF wf] p assms(4) fit]
  show "slot_ok capacity (current_slots (compact_spec capacity max_token r) ! p)"
    "slot_to_token (compact_spec capacity max_token r) ! nat (current_slots (compact_spec capacity max_token r) ! p) =
      topk_indices r ! p"
    by (simp_all add: compact_spec_def)
qed

text \<open>The LRU policy: the slots that are not used keep their order at the old end, the slots assigned to
  misses were the oldest ones that are not hit, and the hit slots go to the recent end in their order.\<close>

lemma filter_drop_distinct:
  assumes "distinct (filter P xs)" "\<And>x. x \<in> set xs \<Longrightarrow> Q x \<longleftrightarrow> x \<in> set (drop n (filter P xs))"
  shows "filter Q xs = drop n (filter P xs)"
proof -
  let ?ev = "filter P xs"
  have "filter Q xs = filter (\<lambda>x. x \<in> set (drop n ?ev)) xs" using assms(2) by (rule filter_cong [OF refl])
  also have "\<dots> = filter (\<lambda>x. x \<in> set (drop n ?ev)) ?ev"
    by (auto intro!: filter_cong dest: in_set_dropD)
  also have "\<dots> = filter (\<lambda>x. x \<in> set (drop n ?ev)) (take n ?ev @ drop n ?ev)" by simp
  also have "\<dots> = drop n ?ev"
  proof -
    have "set (take n ?ev) \<inter> set (drop n ?ev) = {}" using assms(1) by (rule set_take_disj_set_drop_if_distinct) simp
    then have "filter (\<lambda>x. x \<in> set (drop n ?ev)) (take n ?ev) = []" by (auto simp: filter_empty_conv)
    moreover have "filter (\<lambda>x. x \<in> set (drop n ?ev)) (drop n ?ev) = drop n ?ev" by simp
    ultimately show ?thesis by (simp only: filter_append append_Nil)
  qed
  finally show ?thesis .
qed

lemma compact_policy:
  assumes call: "call_lists max_token capacity tks s2t lru = (cur, ev, hits, ms, n)"
    and r': "r' = compact_lists max_token capacity tks s2t lru r"
    and perm: "lru_perm capacity lru" and dist: "tokens_distinct max_token s2t" "int (length s2t) = capacity"
  shows "lru_slots r' = filter (\<lambda>s. s \<notin> set (current_slots r')) lru @ take n ev @ hits"
    "filter (\<lambda>s. s \<notin> set hits) lru = take n ev @ filter (\<lambda>s. s \<notin> set (current_slots r')) lru"
proof -
  note fields = compact_lists_fields [OF call r']
  have parts: "ev = sp_evictable max_token capacity tks s2t lru" "hits = sp_hits max_token capacity tks s2t lru"
    "cur = sp_current max_token capacity tks s2t lru" "ms = sp_misses max_token tks cur" "n \<le> length ms" "n \<le> length ev"
    using call by (auto simp: call_lists_def Let_def)
  have ok: "slot_ok capacity s" if "s \<in> set lru" for s using that lru_permD(5) [OF perm] by simp
  have d: "distinct (filter (slot_ok capacity) lru)" using lru_permD(2) [OF perm] by (rule distinct_filter)
  have ev: "ev = filter (\<lambda>s. s \<notin> set hits) lru"
    unfolding parts(1,2) sp_evictable_def sp_hits_def using ok by (auto intro!: filter_cong)
  have cur': "set (current_slots r') \<subseteq> insert (- 1) (set (take n ev) \<union> set hits)" (is "_ \<subseteq> ?R")
  proof
    fix s assume "s \<in> set (current_slots r')"
    then obtain p where p: "p < length tks" "s = current_slots r' ! p"
      using fields(3) parts(3) by (auto simp: in_set_conv_nth)
    show "s \<in> ?R"
    proof (cases "p \<in> set (take n ms)")
      case True
      then obtain i where "i < n" "p = ms ! i" using parts(5) by (metis in_set_conv_nth length_take min_absorb2 nth_take)
      moreover have "ev ! i \<in> set (take n ev)" using \<open>i < n\<close> parts(6) by (metis in_set_conv_nth length_take min_absorb2 nth_take)
      ultimately show ?thesis using compact_assigned(1) [OF call r' dist(2) d] p(2) by simp
    next
      case False
      then have c: "s = cur ! p" using fields(3) p by (simp add: nth_scatter_other)
      show ?thesis
      proof (cases "tok_ok max_token (tks ! p) \<and> p \<notin> set ms")
        case True
        then show ?thesis using compact_hit(2) [OF call r' p(1)] c by simp
      next
        case False
        then have "cur ! p < 0 \<or> \<not> tok_ok max_token (tks ! p)" using sp_misses_props(3) parts(4) by auto
        then have "cur ! p = - 1"
          using p(1) last_slot_range [of capacity s2t "tks ! p" lru] by (auto simp: parts(3) sp_current_def slot_ok_def)
        then show ?thesis using c by simp
      qed
    qed
  qed
  have hit_used: "s \<in> set (current_slots r')" if s: "s \<in> set hits" for s
  proof -
    let ?t = "s2t ! nat s"
    have t: "slot_ok capacity s" "tok_ok max_token ?t" "?t \<in> set tks" "s \<in> set lru"
      using s by (auto simp: parts(2) sp_hits_def sp_hit_def)
    define p where "p = first_pos tks ?t"
    have p: "p < length tks" "tks ! p = ?t" using first_pos_less [OF t(3)] first_pos_nth [OF t(3)] by (simp_all add: p_def)
    have "0 \<le> last_slot capacity s2t ?t lru" using last_slot_nonneg_iff t by blast
    then have l: "slot_ok capacity (last_slot capacity s2t ?t lru)" "s2t ! nat (last_slot capacity s2t ?t lru) = ?t"
      using last_slot_cases [of capacity s2t ?t lru] by auto
    have "nat (last_slot capacity s2t ?t lru) = nat s"
      using l t(1,2) dist by (intro tokens_distinctD [OF dist(1)]) (auto simp: slot_ok_def)
    then have "last_slot capacity s2t ?t lru = s" using slot_okD [OF l(1)] slot_okD [OF t(1)] by linarith
    then have c: "cur ! p = s" using p t(2) by (simp add: parts(3) sp_current_def p_def [symmetric])
    then have "p \<notin> set ms" using slot_okD [OF t(1)] sp_misses_props(3) by (auto simp: parts(4))
    then have "current_slots r' ! p = s" using compact_hit(1) [OF call r' p(1)] p(2) t(2) c by simp
    moreover have "p < length (current_slots r')" using p(1) fields(3) by (simp add: parts(3))
    ultimately show ?thesis using nth_mem by blast
  qed
  have assigned_used: "s \<in> set (current_slots r')" if s: "s \<in> set (take n ev)" for s
  proof -
    obtain i where i: "i < n" "s = ev ! i" using s parts(6) by (metis in_set_conv_nth length_take min_absorb2 nth_take)
    have "ms ! i \<in> set ms" using i(1) parts(5) by simp
    then have "ms ! i < length (current_slots r')" using sp_misses_props(3) fields(3) by (auto simp: parts(3,4))
    then show ?thesis using compact_assigned(1) [OF call r' dist(2) d i(1)] i(2) nth_mem by metis
  qed
  have de: "distinct ev" using distinct_evictable(1) [OF d] by (simp add: parts(1))
  have "filter (\<lambda>s. s \<notin> set (current_slots r')) lru = drop n (filter (\<lambda>s. s \<notin> set hits) lru)"
  proof (rule filter_drop_distinct)
    show "distinct (filter (\<lambda>s. s \<notin> set hits) lru)" using de ev by simp
    fix s assume s: "s \<in> set lru"
    have in_ev: "s \<in> set ev \<longleftrightarrow> s \<notin> set hits" using s by (auto simp: ev)
    have td: "set ev = set (take n ev) \<union> set (drop n ev)" by (metis append_take_drop_id set_append)
    have disj: "set (take n ev) \<inter> set (drop n ev) = {}" using de by (rule set_take_disj_set_drop_if_distinct) simp
    have nonneg: "s \<noteq> - 1" using ok [OF s] by (simp add: slot_ok_def)
    have "s \<in> set (current_slots r') \<longleftrightarrow> s \<in> set (take n ev) \<union> set hits"
      using cur' hit_used assigned_used nonneg by blast
    then show "s \<notin> set (current_slots r') \<longleftrightarrow> s \<in> set (drop n (filter (\<lambda>s. s \<notin> set hits) lru))"
      unfolding ev [symmetric] using in_ev td disj by blast
  qed
  then have unused: "filter (\<lambda>s. s \<notin> set (current_slots r')) lru = drop n ev" by (simp add: ev)
  have "length (drop n ev @ take n ev @ hits) = nat capacity"
    using mset_eq_length [OF mset_split_order [of n max_token capacity tks s2t lru]] lru_permD(3,4) [OF perm]
    by (simp add: parts(1,2))
  then show "lru_slots r' = filter (\<lambda>s. s \<notin> set (current_slots r')) lru @ take n ev @ hits"
    using fields(2) unused by (simp add: pad_def)
  show "filter (\<lambda>s. s \<notin> set hits) lru = take n ev @ filter (\<lambda>s. s \<notin> set (current_slots r')) lru"
    by (simp only: unused ev [symmetric] append_take_drop_id)
qed

definition was_hit :: "int \<Rightarrow> int \<Rightarrow> lru_row \<Rightarrow> int \<Rightarrow> bool" where
  "was_hit capacity max_token r = sp_hit max_token capacity (topk_indices r)
     (sp_invalidate max_token (clamp_prefix max_token (stable_prefix_len r)) (sp_slots capacity r))"

lemma compact_spec_policy:
  assumes "cache_ok topk capacity max_token r" "r' = compact_spec capacity max_token r"
    and "assigned = take (nat (miss_count r')) (miss_slots r')"
  shows "lru_slots r' = filter (\<lambda>s. s \<notin> set (current_slots r')) (sp_lru capacity r) @ assigned @
      filter (was_hit capacity max_token r) (sp_lru capacity r)"
    "filter (\<lambda>s. \<not> was_hit capacity max_token r s) (sp_lru capacity r) =
      assigned @ filter (\<lambda>s. s \<notin> set (current_slots r')) (sp_lru capacity r)"
proof -
  have wf: "row_wf topk capacity r" using assms(1) by (simp add: cache_ok_def)
  let ?s2t = "sp_invalidate max_token (clamp_prefix max_token (stable_prefix_len r)) (sp_slots capacity r)"
  let ?lru = "sp_lru capacity r"
  obtain cur ev hits ms n where call: "call_lists max_token capacity (topk_indices r) ?s2t ?lru = (cur, ev, hits, ms, n)"
    by (metis surj_pair)
  have r': "r' = compact_lists max_token capacity (topk_indices r) ?s2t ?lru (r\<lparr>last_req_id := req_id r\<rparr>)"
    using assms(2) by (simp add: compact_spec_def)
  note policy = compact_policy [OF call r' cache_inputs [OF assms(1)] row_wf_inputs(2) [OF wf]]
  have parts: "hits = filter (was_hit capacity max_token r) ?lru" "n \<le> length ev" "n \<le> length (topk_indices r)"
    using call sp_misses_props(1) [of max_token "topk_indices r" cur]
    by (auto simp: call_lists_def Let_def was_hit_def sp_hits_def)
  have assigned: "assigned = take n ev"
    unfolding assms(3) compact_lists_fields(4,6) [OF call r'] using parts(2,3) by (simp add: pad_def)
  have "filter (\<lambda>s. s \<notin> set hits) ?lru = filter (\<lambda>s. \<not> was_hit capacity max_token r s) ?lru"
    unfolding parts(1) by (rule filter_cong) auto
  then show "filter (\<lambda>s. \<not> was_hit capacity max_token r s) ?lru = assigned @ filter (\<lambda>s. s \<notin> set (current_slots r')) ?lru"
    using policy(2) assigned by simp
  show "lru_slots r' = filter (\<lambda>s. s \<notin> set (current_slots r')) ?lru @ assigned @ filter (was_hit capacity max_token r) ?lru"
    using policy(1) assigned parts(1) by simp
qed

section \<open>The contract of a Compact implementation\<close>

text \<open>The decoder writes a request id, the Top-K tokens and the stable prefix of a row and calls Compact.\<close>

record decode_input =
  in_req :: int
  in_topk :: "int list"
  in_prefix :: int

definition feed :: "decode_input \<Rightarrow> lru_row \<Rightarrow> lru_row" where
  "feed d r = r\<lparr>req_id := in_req d, topk_indices := in_topk d, stable_prefix_len := in_prefix d\<rparr>"

definition input_ok :: "int \<Rightarrow> int \<Rightarrow> decode_input \<Rightarrow> bool" where
  "input_ok topk max_token d \<longleftrightarrow> int (length (in_topk d)) = topk \<and> tokens_distinct max_token (in_topk d)"

lemma feed_cache_ok:
  "cache_ok topk capacity max_token r \<Longrightarrow> input_ok topk max_token d \<Longrightarrow> cache_ok topk capacity max_token (feed d r)"
  by (auto simp: cache_ok_def row_wf_def feed_def input_ok_def)

text \<open>A sequence of decoding steps of one row, with any per-row implementation of Compact.\<close>

primrec decode ::
  "(lru_row \<times> 'w \<Rightarrow> (lru_row \<times> 'w) option) \<Rightarrow> decode_input list \<Rightarrow> lru_row \<times> 'w \<Rightarrow> (lru_row \<times> 'w) option" where
  "decode run [] st = Some st"
| "decode run (d # ds) st = (case st of (r, w) \<Rightarrow> run (feed d r, w) \<bind> decode run ds)"

primrec decode_spec :: "int \<Rightarrow> int \<Rightarrow> decode_input list \<Rightarrow> lru_row \<Rightarrow> lru_row" where
  "decode_spec capacity max_token [] r = r"
| "decode_spec capacity max_token (d # ds) r = decode_spec capacity max_token ds (compact_spec capacity max_token (feed d r))"

text \<open>\<open>run e m topk capacity max_token row (r, w)\<close> is the implementation on row number \<open>row\<close> with device
  \<open>m\<close>; \<open>w\<close> is its workspace and \<open>e\<close> whatever else it depends on, such as the contents of uninitialised
  memory.\<close>

locale compact_op =
  fixes env_ok :: "'e \<Rightarrow> bool"
    and shape :: "int \<Rightarrow> int \<Rightarrow> int \<Rightarrow> bool"
    and ws_ok :: "int \<Rightarrow> 'w \<Rightarrow> bool"
    and run :: "'e \<Rightarrow> simt \<Rightarrow> int \<Rightarrow> int \<Rightarrow> int \<Rightarrow> nat \<Rightarrow> lru_row \<times> 'w \<Rightarrow> (lru_row \<times> 'w) option"
  assumes run_spec: "env_ok e \<Longrightarrow> simt_ok m \<Longrightarrow> shape topk capacity max_token \<Longrightarrow> row_wf topk capacity r \<Longrightarrow> ws_ok max_token w \<Longrightarrow>
      \<exists>w'. run e m topk capacity max_token row (r, w) = Some (compact_spec capacity max_token r, w') \<and> ws_ok max_token w'"
begin

lemma run_cases:
  assumes "env_ok e" "simt_ok m" "shape topk capacity max_token" "row_wf topk capacity r" "ws_ok max_token w"
  obtains w' where "run e m topk capacity max_token row (r, w) = Some (compact_spec capacity max_token r, w')"
    "ws_ok max_token w'"
  using run_spec [OF assms] by blast

lemma run_resident:
  assumes "env_ok e" "simt_ok m" "shape topk capacity max_token" "ws_ok max_token w"
    and "cache_ok topk capacity max_token r" "tokens_distinct max_token (topk_indices r)" "topk \<le> capacity"
  shows "\<exists>r' w'. run e m topk capacity max_token row (r, w) = Some (r', w') \<and> ws_ok max_token w' \<and>
    cache_ok topk capacity max_token r' \<and>
    (\<forall>p. int p < topk \<and> tok_ok max_token (topk_indices r ! p) \<longrightarrow>
       slot_ok capacity (current_slots r' ! p) \<and>
       slot_to_token r' ! nat (current_slots r' ! p) = topk_indices r ! p)"
proof -
  have "row_wf topk capacity r" using assms(5) by (simp add: cache_ok_def)
  then obtain w' where "run e m topk capacity max_token row (r, w) = Some (compact_spec capacity max_token r, w')"
    "ws_ok max_token w'" using run_cases [OF assms(1-3) _ assms(4)] by blast
  then show ?thesis
    using compact_spec_cache_ok [OF assms(5,6)] compact_spec_resident [OF assms(5,7)] by blast
qed

lemma run_policy:
  assumes "env_ok e" "simt_ok m" "shape topk capacity max_token" "ws_ok max_token w"
    and "cache_ok topk capacity max_token r"
  shows "\<exists>r' w' assigned. run e m topk capacity max_token row (r, w) = Some (r', w') \<and>
    assigned = take (nat (miss_count r')) (miss_slots r') \<and>
    lru_slots r' = filter (\<lambda>s. s \<notin> set (current_slots r')) (sp_lru capacity r) @ assigned @
      filter (was_hit capacity max_token r) (sp_lru capacity r) \<and>
    filter (\<lambda>s. \<not> was_hit capacity max_token r s) (sp_lru capacity r) =
      assigned @ filter (\<lambda>s. s \<notin> set (current_slots r')) (sp_lru capacity r)"
proof -
  have "row_wf topk capacity r" using assms(5) by (simp add: cache_ok_def)
  then obtain w' where "run e m topk capacity max_token row (r, w) = Some (compact_spec capacity max_token r, w')"
    using run_cases [OF assms(1-3) _ assms(4)] by blast
  then show ?thesis using compact_spec_policy [OF assms(5) refl refl] by blast
qed

lemma decode_run:
  assumes "env_ok e" "simt_ok m" "shape topk capacity max_token" "ws_ok max_token w"
    and "cache_ok topk capacity max_token r" "list_all (input_ok topk max_token) ds"
  shows "\<exists>w'. decode (run e m topk capacity max_token row) ds (r, w) = Some (decode_spec capacity max_token ds r, w') \<and>
    ws_ok max_token w' \<and> cache_ok topk capacity max_token (decode_spec capacity max_token ds r)"
  using assms(4-6)
proof (induction ds arbitrary: r w)
  case (Cons d ds)
  have ok: "cache_ok topk capacity max_token (feed d r)" using Cons.prems by (simp add: feed_cache_ok)
  then obtain w1 where w1: "run e m topk capacity max_token row (feed d r, w) =
      Some (compact_spec capacity max_token (feed d r), w1)" "ws_ok max_token w1"
    using run_cases [OF assms(1-3) _ Cons.prems(1)] by (metis cache_ok_def)
  have "tokens_distinct max_token (topk_indices (feed d r))"
    using Cons.prems(3) by (simp add: feed_def input_ok_def)
  then have "cache_ok topk capacity max_token (compact_spec capacity max_token (feed d r))"
    using compact_spec_cache_ok [OF ok] by simp
  then show ?case using Cons.IH [OF w1(2)] Cons.prems(3) by (simp add: w1(1))
qed simp

end

end
