(* ===== verification/Lru_Compact_Simt.thy ===== *)
theory Lru_Compact_Simt
  imports Lru_Cache
begin

text \<open>
  The generic Compact operator, \<^verbatim>\<open>src/src/acc_offload/csrc/operators/acc_offload_lru_compact_simt.cpp\<close>:
  five kernels per row in one stream (reset, prepare, plan, assign, rebuild), the launch loop
  over the rows and the shape test that selects it.

  The plan kernel is sequential and uses a scratch slice per workspace thread: \<open>token_mark\<close>
  first holds epoch marks of the Top-K tokens and is then reused, evictable slots from its
  front and hit slots from its back, while the other tokens' marks stay; \<open>token_pos\<close> first holds
  Top-K positions, then the positions of the misses and in its last two cells the two counts.
  All integers of the kernels stay within \<^verbatim>\<open>int32_t\<close> for the accepted shapes (counts are at most
  \<open>capacity\<close> or \<open>topk\<close>, encodings at least \<open>-capacity - 1\<close>, epochs bounded by the reset test), so
  they are \<open>int\<close> here.
\<close>

section \<open>The kernels\<close>

record lru_ws =
  token_mark :: "int list"
  token_pos :: "int list"
  epoch :: int

definition put_mark :: "lru_ws \<Rightarrow> int \<Rightarrow> int \<Rightarrow> lru_ws option" where
  "put_mark w i v = do { a \<leftarrow> wr (token_mark w) i v; Some (w\<lparr>token_mark := a\<rparr>) }"

definition put_pos :: "lru_ws \<Rightarrow> int \<Rightarrow> int \<Rightarrow> lru_ws option" where
  "put_pos w i v = do { a \<leftarrow> wr (token_pos w) i v; Some (w\<lparr>token_pos := a\<rparr>) }"

definition LRU_COMPACT_MAX_THREADS_PER_BLOCK :: nat where "LRU_COMPACT_MAX_THREADS_PER_BLOCK = 128"
definition LRU_COMPACT_WORKSPACE_THREADS :: nat where "LRU_COMPACT_WORKSPACE_THREADS = 8"
definition LRU_EPOCH_RESET_THRESHOLD :: int where "LRU_EPOCH_RESET_THRESHOLD = 2 ^ 30"

definition OffloadLruCompactResetPhasedSimtOps :: "int \<Rightarrow> int \<Rightarrow> lru_row \<Rightarrow> lru_row option" where
  "OffloadLruCompactResetPhasedSimtOps row capacity r =
     (if row < 0 then Some r
      else if last_req_id r = req_id r then Some r
      else do {
        r \<leftarrow> for_each [0..<nat capacity] (\<lambda>slot r. do {
               r \<leftarrow> put_slot_to_token r (int slot) LRU_INVALID_TOKEN;
               put_lru_slots r (int slot) (int slot) }) r;
        Some (r\<lparr>last_req_id := req_id r\<rparr>) })"

definition OffloadLruCompactPreparePhasedSimtOps ::
  "simt \<Rightarrow> nat \<Rightarrow> int \<Rightarrow> int \<Rightarrow> int \<Rightarrow> lru_row \<Rightarrow> lru_row option" where
  "OffloadLruCompactPreparePhasedSimtOps m p topk capacity max_token r = do {
     r \<leftarrow> par_for m p LRU_COMPACT_MAX_THREADS_PER_BLOCK (nat topk) (\<lambda>pos r. do {
            r \<leftarrow> put_current_slots r (int pos) LRU_INVALID_TOKEN;
            r \<leftarrow> put_miss_tokens r (int pos) LRU_INVALID_TOKEN;
            put_miss_slots r (int pos) LRU_INVALID_TOKEN }) r;
     let r = r\<lparr>miss_count := 0\<rparr>;
     let stable = clamp_prefix max_token (stable_prefix_len r);
     par_for m (p + 1) LRU_COMPACT_MAX_THREADS_PER_BLOCK (nat capacity) (\<lambda>slot r. do {
       token \<leftarrow> rd (slot_to_token r) (int slot);
       if token \<ge> 0 \<and> token < max_token \<and> token \<ge> stable
       then put_slot_to_token r (int slot) LRU_INVALID_TOKEN else Some r }) r }"

text \<open>The plan kernel \<^verbatim>\<open>OffloadLruCompactSimtOps\<close>, one definition per loop.\<close>

definition plan_epoch :: "int \<Rightarrow> lru_ws \<Rightarrow> lru_ws option" where
  "plan_epoch max_token w =
     (let previous_epoch = epoch w in
      if previous_epoch \<ge> - 1 \<or> previous_epoch \<le> 1 - LRU_EPOCH_RESET_THRESHOLD
      then do {
        w \<leftarrow> for_each [0..<nat max_token] (\<lambda>token w. do {
               w \<leftarrow> put_mark w (int token) 0;
               put_pos w (int token) LRU_INVALID_TOKEN }) w;
        Some (w\<lparr>epoch := - 2\<rparr>) }
      else Some (w\<lparr>epoch := previous_epoch - 1\<rparr>))"

definition plan_mark :: "int \<Rightarrow> int \<Rightarrow> lru_row \<Rightarrow> lru_ws \<Rightarrow> lru_ws option" where
  "plan_mark topk max_token r w =
     for_each [0..<nat topk] (\<lambda>pos w. do {
       token \<leftarrow> rd (topk_indices r) (int pos);
       if token \<ge> 0 \<and> token < max_token then do {
         mark \<leftarrow> rd (token_mark w) token;
         if mark \<noteq> epoch w then do {
           w \<leftarrow> put_mark w token (epoch w);
           put_pos w token (int pos) }
         else Some w }
       else Some w }) w"

definition plan_encode :: "int \<Rightarrow> int \<Rightarrow> lru_ws \<Rightarrow> lru_row \<Rightarrow> lru_row option" where
  "plan_encode capacity max_token w r =
     for_each [0..<nat capacity] (\<lambda>order r. do {
       slot \<leftarrow> rd (lru_slots r) (int order);
       if slot < 0 \<or> slot \<ge> capacity then put_lru_slots r (int order) LRU_INVALID_TOKEN
       else do {
         token \<leftarrow> rd (slot_to_token r) slot;
         if token \<ge> 0 \<and> token < max_token then do {
           mark \<leftarrow> rd (token_mark w) token;
           if mark = epoch w then do {
             pos \<leftarrow> rd (token_pos w) token;
             r \<leftarrow> put_current_slots r pos slot;
             put_lru_slots r (int order) (- slot - 2) }
           else put_lru_slots r (int order) slot }
         else put_lru_slots r (int order) slot } }) r"

definition plan_split :: "int \<Rightarrow> int \<Rightarrow> lru_row \<Rightarrow> lru_ws \<Rightarrow> (lru_ws \<times> int \<times> int) option" where
  "plan_split capacity max_token r w =
     for_each [0..<nat capacity] (\<lambda>order (w, evictable_count, hit_count). do {
       encoded \<leftarrow> rd (lru_slots r) (int order);
       if encoded \<le> - 2 then do {
         w \<leftarrow> put_mark w (max_token - 1 - hit_count) (- encoded - 2);
         Some (w, evictable_count, hit_count + 1) }
       else if encoded \<ge> 0 \<and> encoded < capacity then do {
         w \<leftarrow> put_mark w evictable_count encoded;
         Some (w, evictable_count + 1, hit_count) }
       else Some (w, evictable_count, hit_count) }) (w, 0, 0)"

definition plan_misses :: "int \<Rightarrow> int \<Rightarrow> lru_row \<Rightarrow> lru_ws \<Rightarrow> (lru_row \<times> lru_ws \<times> int) option" where
  "plan_misses topk max_token r w =
     for_each [0..<nat topk] (\<lambda>pos (r, w, local_miss_count). do {
       token \<leftarrow> rd (topk_indices r) (int pos);
       if token \<ge> 0 \<and> token < max_token then do {
         cur \<leftarrow> rd (current_slots r) (int pos);
         if cur < 0 then do {
           r \<leftarrow> put_miss_tokens r local_miss_count token;
           w \<leftarrow> put_pos w local_miss_count (int pos);
           Some (r, w, local_miss_count + 1) }
         else Some (r, w, local_miss_count) }
       else Some (r, w, local_miss_count) }) (r, w, 0)"

definition OffloadLruCompactSimtOps ::
  "int \<Rightarrow> int \<Rightarrow> int \<Rightarrow> lru_row \<Rightarrow> lru_ws \<Rightarrow> (lru_row \<times> lru_ws) option" where
  "OffloadLruCompactSimtOps topk capacity max_token r w = do {
     w \<leftarrow> plan_epoch max_token w;
     w \<leftarrow> plan_mark topk max_token r w;
     r \<leftarrow> plan_encode capacity max_token w r;
     (w, evictable_count, hit_count) \<leftarrow> plan_split capacity max_token r w;
     (r, w, local_miss_count) \<leftarrow> plan_misses topk max_token r w;
     let assign_count = (if local_miss_count < evictable_count then local_miss_count else evictable_count);
     w \<leftarrow> put_pos w (max_token - 2) evictable_count;
     w \<leftarrow> put_pos w (max_token - 1) hit_count;
     Some (r\<lparr>miss_count := assign_count\<rparr>, w) }"

definition assign_lane :: "int \<Rightarrow> int \<Rightarrow> lru_ws \<Rightarrow> nat \<Rightarrow> lru_row \<Rightarrow> lru_row option" where
  "assign_lane topk capacity w miss_idx r = do {
     slot \<leftarrow> rd (token_mark w) (int miss_idx);
     token \<leftarrow> rd (miss_tokens r) (int miss_idx);
     pos \<leftarrow> rd (token_pos w) (int miss_idx);
     if slot \<ge> 0 \<and> slot < capacity \<and> pos \<ge> 0 \<and> pos < topk then do {
       r \<leftarrow> put_slot_to_token r slot token;
       r \<leftarrow> put_current_slots r pos slot;
       put_miss_slots r (int miss_idx) slot }
     else Some r }"

definition OffloadLruCompactAssignPhasedSimtOps ::
  "simt \<Rightarrow> nat \<Rightarrow> int \<Rightarrow> int \<Rightarrow> lru_ws \<Rightarrow> lru_row \<Rightarrow> lru_row option" where
  "OffloadLruCompactAssignPhasedSimtOps m p topk capacity w r =
     (let assign_count = miss_count r in
      par_for m p LRU_COMPACT_MAX_THREADS_PER_BLOCK (nat assign_count) (assign_lane topk capacity w) r)"

definition rebuild_lane :: "int \<Rightarrow> lru_ws \<Rightarrow> int \<Rightarrow> int \<Rightarrow> int \<Rightarrow> nat \<Rightarrow> lru_row \<Rightarrow> lru_row option" where
  "rebuild_lane max_token w assign_count evictable_count hit_count output r = do {
     let unassigned_count = evictable_count - assign_count;
     let valid_count = evictable_count + hit_count;
     slot \<leftarrow> (if int output < unassigned_count then rd (token_mark w) (assign_count + int output)
             else if int output < evictable_count then rd (miss_slots r) (int output - unassigned_count)
             else if int output < valid_count
               then rd (token_mark w) (max_token - 1 - (int output - evictable_count))
             else Some LRU_INVALID_TOKEN);
     put_lru_slots r (int output) slot }"

definition OffloadLruCompactRebuildPhasedSimtOps ::
  "simt \<Rightarrow> nat \<Rightarrow> int \<Rightarrow> int \<Rightarrow> lru_ws \<Rightarrow> lru_row \<Rightarrow> lru_row option" where
  "OffloadLruCompactRebuildPhasedSimtOps m p capacity max_token w r = do {
     let assign_count = miss_count r;
     evictable_count \<leftarrow> rd (token_pos w) (max_token - 2);
     hit_count \<leftarrow> rd (token_pos w) (max_token - 1);
     par_for m p LRU_COMPACT_MAX_THREADS_PER_BLOCK (nat capacity)
       (rebuild_lane max_token w assign_count evictable_count hit_count) r }"

section \<open>The launch\<close>

text \<open>The five kernels of one row, in stream order.\<close>

definition phased_row ::
  "simt \<Rightarrow> int \<Rightarrow> int \<Rightarrow> int \<Rightarrow> nat \<Rightarrow> lru_row \<times> lru_ws \<Rightarrow> (lru_row \<times> lru_ws) option" where
  "phased_row m topk capacity max_token row = (\<lambda>(r, w). do {
     r \<leftarrow> OffloadLruCompactResetPhasedSimtOps (int row) capacity r;
     r \<leftarrow> OffloadLruCompactPreparePhasedSimtOps m (4 * row) topk capacity max_token r;
     (r, w) \<leftarrow> OffloadLruCompactSimtOps topk capacity max_token r w;
     r \<leftarrow> OffloadLruCompactAssignPhasedSimtOps m (4 * row + 2) topk capacity w r;
     r \<leftarrow> OffloadLruCompactRebuildPhasedSimtOps m (4 * row + 3) capacity max_token w r;
     Some (r, w) })"

definition LaunchProductionPhasedLru ::
  "simt \<Rightarrow> int \<Rightarrow> int \<Rightarrow> int \<Rightarrow> int \<Rightarrow> lru_row list \<times> lru_ws list \<Rightarrow> (lru_row list \<times> lru_ws list) option" where
  "LaunchProductionPhasedLru m num_reqs topk capacity max_token st =
     for_each [0..<nat num_reqs] (\<lambda>row (rows, wss). do {
       let workspace_index = int (row mod LRU_COMPACT_WORKSPACE_THREADS);
       r \<leftarrow> rd rows (int row);
       w \<leftarrow> rd wss workspace_index;
       (r, w) \<leftarrow> phased_row m topk capacity max_token row (r, w);
       rows \<leftarrow> wr rows (int row) r;
       wss \<leftarrow> wr wss workspace_index w;
       Some (rows, wss) }) st"

definition INT32_MAX :: int where "INT32_MAX = 2 ^ 31 - 1"
definition INT64_MAX :: int where "INT64_MAX = 2 ^ 63 - 1"

definition CanUseProductionPhasedLru :: "int \<Rightarrow> int \<Rightarrow> int \<Rightarrow> int \<Rightarrow> bool" where
  "CanUseProductionPhasedLru num_reqs topk capacity max_token \<longleftrightarrow>
     num_reqs > 0 \<and> topk > 0 \<and> capacity > 0 \<and> max_token \<ge> 3 \<and>
     capacity \<le> max_token \<and> topk \<le> max_token - 2 \<and>
     topk < INT32_MAX \<and> capacity < INT32_MAX \<and> max_token \<le> INT32_MAX \<and>
     num_reqs \<le> INT64_MAX div topk \<and> num_reqs \<le> INT64_MAX div capacity \<and>
     max_token \<le> INT64_MAX div int LRU_COMPACT_WORKSPACE_THREADS"

section \<open>Reset and prepare\<close>

lemma threads_pos [simp]: "0 < LRU_COMPACT_MAX_THREADS_PER_BLOCK"
  by (simp add: LRU_COMPACT_MAX_THREADS_PER_BLOCK_def)

lemma reset_correct:
  assumes "row_wf topk capacity r"
  shows "OffloadLruCompactResetPhasedSimtOps (int row) capacity r =
    Some (r\<lparr>slot_to_token := sp_slots capacity r, lru_slots := sp_lru capacity r, last_req_id := req_id r\<rparr>)"
proof (cases "last_req_id r = req_id r")
  case True
  then show ?thesis
    by (simp add: OffloadLruCompactResetPhasedSimtOps_def sp_slots_def sp_lru_def)
next
  case False
  have len: "length (slot_to_token r) = nat capacity" "length (lru_slots r) = nat capacity"
    using assms by (auto simp: row_wf_def)
  define g where "g i = r\<lparr>slot_to_token := overwrite {..<i} (\<lambda>_. - 1) (slot_to_token r),
      lru_slots := overwrite {..<i} int (lru_slots r)\<rparr>" for i
  have "for_each [0..<nat capacity] (\<lambda>slot r. do {
               r \<leftarrow> put_slot_to_token r (int slot) LRU_INVALID_TOKEN;
               put_lru_slots r (int slot) (int slot) }) r = Some (g (nat capacity))"
    by (rule for_each_upt_eq)
      (simp_all add: g_def put_defs len LRU_INVALID_TOKEN_def overwrite_insert lessThan_Suc)
  then show ?thesis
    using False
    by (simp add: OffloadLruCompactResetPhasedSimtOps_def g_def overwrite_all len sp_slots_def sp_lru_def
        map_replicate_const)
qed

lemma prepare_correct:
  assumes "simt_ok m" "row_wf topk capacity r"
  shows "OffloadLruCompactPreparePhasedSimtOps m p topk capacity max_token r =
    Some (r\<lparr>current_slots := replicate (nat topk) (- 1), miss_tokens := replicate (nat topk) (- 1),
      miss_slots := replicate (nat topk) (- 1), miss_count := 0,
      slot_to_token := sp_invalidate max_token (clamp_prefix max_token (stable_prefix_len r)) (slot_to_token r)\<rparr>)"
proof -
  have len: "length (slot_to_token r) = nat capacity" "length (current_slots r) = nat topk"
    "length (miss_tokens r) = nat topk" "length (miss_slots r) = nat topk"
    using assms(2) by (auto simp: row_wf_def)
  define g where "g D = r\<lparr>current_slots := overwrite D (\<lambda>_. - 1) (current_slots r),
      miss_tokens := overwrite D (\<lambda>_. - 1) (miss_tokens r),
      miss_slots := overwrite D (\<lambda>_. - 1) (miss_slots r)\<rparr>" for D
  have outputs: "par_for m p LRU_COMPACT_MAX_THREADS_PER_BLOCK (nat topk) (\<lambda>pos r. do {
            r \<leftarrow> put_current_slots r (int pos) LRU_INVALID_TOKEN;
            r \<leftarrow> put_miss_tokens r (int pos) LRU_INVALID_TOKEN;
            put_miss_slots r (int pos) LRU_INVALID_TOKEN }) r = Some (g {..<nat topk})"
    using assms(1)
    by (rule par_for_eq) (simp_all add: g_def put_defs len LRU_INVALID_TOKEN_def overwrite_insert)
  define q where "q = clamp_prefix max_token (stable_prefix_len r)"
  define inv where "inv t = (if tok_ok max_token t \<and> t \<ge> q then - 1 else t)" for t
  define h where "h D = r\<lparr>current_slots := replicate (nat topk) (- 1), miss_tokens := replicate (nat topk) (- 1),
      miss_slots := replicate (nat topk) (- 1), miss_count := 0,
      slot_to_token := overwrite D (\<lambda>i. inv (slot_to_token r ! i)) (slot_to_token r)\<rparr>" for D
  have slots: "par_for m (p + 1) LRU_COMPACT_MAX_THREADS_PER_BLOCK (nat capacity) (\<lambda>slot r. do {
       token \<leftarrow> rd (slot_to_token r) (int slot);
       if token \<ge> 0 \<and> token < max_token \<and> token \<ge> q
       then put_slot_to_token r (int slot) LRU_INVALID_TOKEN else Some r }) (h {}) = Some (h {..<nat capacity})"
    using assms(1)
  proof (rule par_for_eq)
    fix D i assume "i < nat capacity" "i \<notin> D"
    then show "(do {
       token \<leftarrow> rd (slot_to_token (h D)) (int i);
       if token \<ge> 0 \<and> token < max_token \<and> token \<ge> q
       then put_slot_to_token (h D) (int i) LRU_INVALID_TOKEN else Some (h D) }) = Some (h (insert i D))"
      by (auto simp: h_def put_defs len LRU_INVALID_TOKEN_def inv_def tok_ok_def overwrite_insert
          overwrite_insert_same)
  qed simp_all
  have "map (\<lambda>i. inv (slot_to_token r ! i)) [0..<nat capacity] = sp_invalidate max_token q (slot_to_token r)"
    by (rule nth_equalityI) (auto simp: sp_invalidate_def inv_def len)
  then have final: "h {..<nat capacity} = r\<lparr>current_slots := replicate (nat topk) (- 1), miss_tokens := replicate (nat topk) (- 1),
      miss_slots := replicate (nat topk) (- 1), miss_count := 0,
      slot_to_token := sp_invalidate max_token q (slot_to_token r)\<rparr>"
    by (simp add: h_def overwrite_all len)
  have start: "(g {..<nat topk})\<lparr>miss_count := 0\<rparr> = h {}"
    by (simp add: g_def h_def overwrite_all len map_replicate_const)
  have same: "clamp_prefix max_token (stable_prefix_len (h {})) = q" by (simp add: h_def q_def)
  show ?thesis
    by (simp only: OffloadLruCompactPreparePhasedSimtOps_def outputs Option.bind.bind_lunit Let_def
        start same slots final q_def [symmetric])
qed

section \<open>The plan kernel\<close>

text \<open>A workspace slice between two calls: no mark is below the epoch, so the next epoch is a mark
  that no token has.\<close>

definition ws_wf :: "int \<Rightarrow> lru_ws \<Rightarrow> bool" where
  "ws_wf max_token w \<longleftrightarrow>
     int (length (token_mark w)) = max_token \<and> int (length (token_pos w)) = max_token \<and>
     (epoch w \<le> - 2 \<longrightarrow> (\<forall>x \<in> set (token_mark w). epoch w \<le> x))"

definition ws_fresh :: "int \<Rightarrow> lru_ws \<Rightarrow> bool" where
  "ws_fresh max_token w \<longleftrightarrow>
     int (length (token_mark w)) = max_token \<and> int (length (token_pos w)) = max_token \<and>
     - LRU_EPOCH_RESET_THRESHOLD < epoch w \<and> epoch w \<le> - 2 \<and> (\<forall>x \<in> set (token_mark w). epoch w < x)"

lemma plan_epoch_correct:
  assumes "ws_wf max_token w"
  shows "\<exists>w'. plan_epoch max_token w = Some w' \<and> ws_fresh max_token w'"
proof (cases "epoch w \<ge> - 1 \<or> epoch w \<le> 1 - LRU_EPOCH_RESET_THRESHOLD")
  case True
  have len: "length (token_mark w) = nat max_token" "length (token_pos w) = nat max_token"
    using assms by (auto simp: ws_wf_def)
  define g where "g i = w\<lparr>token_mark := overwrite {..<i} (\<lambda>_. 0) (token_mark w),
      token_pos := overwrite {..<i} (\<lambda>_. - 1) (token_pos w)\<rparr>" for i
  have "for_each [0..<nat max_token] (\<lambda>token w. do {
               w \<leftarrow> put_mark w (int token) 0;
               put_pos w (int token) LRU_INVALID_TOKEN }) w = Some (g (nat max_token))"
    by (rule for_each_upt_eq)
      (simp_all add: g_def put_mark_def put_pos_def len LRU_INVALID_TOKEN_def overwrite_insert lessThan_Suc)
  then have "plan_epoch max_token w = Some ((g (nat max_token))\<lparr>epoch := - 2\<rparr>)"
    using True by (simp add: plan_epoch_def)
  moreover have "ws_fresh max_token ((g (nat max_token))\<lparr>epoch := - 2\<rparr>)"
    using assms by (auto simp: ws_fresh_def ws_wf_def g_def overwrite_all len LRU_EPOCH_RESET_THRESHOLD_def)
  ultimately show ?thesis by blast
next
  case False
  then show ?thesis
    using assms by (fastforce simp: plan_epoch_def ws_fresh_def ws_wf_def Let_def)
qed

text \<open>The workspace after the first \<open>n\<close> Top-K entries are marked.\<close>

definition ws_marked :: "int \<Rightarrow> int list \<Rightarrow> nat \<Rightarrow> lru_ws \<Rightarrow> bool" where
  "ws_marked max_token tks n w \<longleftrightarrow>
     int (length (token_mark w)) = max_token \<and> int (length (token_pos w)) = max_token \<and>
     - LRU_EPOCH_RESET_THRESHOLD < epoch w \<and> epoch w \<le> - 2 \<and> (\<forall>x \<in> set (token_mark w). epoch w \<le> x) \<and>
     (\<forall>t. tok_ok max_token t \<longrightarrow>
        (token_mark w ! nat t = epoch w \<longleftrightarrow> t \<in> set (take n tks)) \<and>
        (t \<in> set (take n tks) \<longrightarrow> token_pos w ! nat t = int (first_pos tks t)))"

lemma ws_markedD:
  assumes "ws_marked max_token tks n w"
  shows "int (length (token_mark w)) = max_token" "int (length (token_pos w)) = max_token"
    "\<And>t. tok_ok max_token t \<Longrightarrow> token_mark w ! nat t = epoch w \<longleftrightarrow> t \<in> set (take n tks)"
    "\<And>t. tok_ok max_token t \<Longrightarrow> t \<in> set (take n tks) \<Longrightarrow> token_pos w ! nat t = int (first_pos tks t)"
  using assms by (auto simp: ws_marked_def)

lemma ws_marked_start:
  assumes "ws_fresh max_token w"
  shows "ws_marked max_token tks 0 w"
proof -
  have "token_mark w ! nat t \<noteq> epoch w" if "tok_ok max_token t" for t
  proof -
    have "nat t < length (token_mark w)" using assms that by (auto simp: ws_fresh_def tok_ok_def)
    then show ?thesis using assms nth_mem by (fastforce simp: ws_fresh_def)
  qed
  then show ?thesis using assms by (auto simp: ws_marked_def ws_fresh_def)
qed

lemma ws_marked_skip:
  assumes "ws_marked max_token tks n w" "n < length tks"
    and "\<not> tok_ok max_token (tks ! n) \<or> tks ! n \<in> set (take n tks)"
  shows "ws_marked max_token tks (Suc n) w"
  using assms by (auto simp: ws_marked_def take_Suc_conv_app_nth)

lemma ws_marked_new:
  assumes "ws_marked max_token tks n w" "n < length tks" "tok_ok max_token (tks ! n)"
    and "tks ! n \<notin> set (take n tks)"
  shows "ws_marked max_token tks (Suc n)
    (w\<lparr>token_mark := (token_mark w)[nat (tks ! n) := epoch w],
       token_pos := (token_pos w)[nat (tks ! n) := int n]\<rparr>)"
proof -
  have bound: "nat (tks ! n) < length (token_mark w)" "nat (tks ! n) < length (token_pos w)"
    using assms(1,3) by (auto simp: ws_marked_def tok_ok_def)
  have inj: "nat t = nat (tks ! n) \<longleftrightarrow> t = tks ! n" if "tok_ok max_token t" for t
    using that assms(3) by (auto simp: tok_ok_def)
  have first: "first_pos tks (tks ! n) = n" using assms(2,4) first_pos_eq_iff by blast
  have "((token_mark w)[nat (tks ! n) := epoch w] ! nat t = epoch w \<longleftrightarrow> t \<in> set (take (Suc n) tks)) \<and>
      (t \<in> set (take (Suc n) tks) \<longrightarrow> (token_pos w)[nat (tks ! n) := int n] ! nat t = int (first_pos tks t))"
    if t: "tok_ok max_token t" for t
  proof (cases "t = tks ! n")
    case True
    then show ?thesis using bound first assms(2) by (simp add: take_Suc_conv_app_nth)
  next
    case False
    then show ?thesis
      using assms(2) inj [OF t] ws_markedD(3,4) [OF assms(1) t] by (simp add: take_Suc_conv_app_nth)
  qed
  moreover have "\<forall>x \<in> set ((token_mark w)[nat (tks ! n) := epoch w]). epoch w \<le> x"
    using assms(1) set_update_subset_insert [of "token_mark w" "nat (tks ! n)" "epoch w"]
    by (auto simp: ws_marked_def)
  ultimately show ?thesis
    using assms(1) by (simp add: ws_marked_def)
qed

lemma plan_mark_correct:
  assumes "ws_fresh max_token w" "length (topk_indices r) = nat topk"
  shows "\<exists>w'. plan_mark topk max_token r w = Some w' \<and> ws_marked max_token (topk_indices r) (nat topk) w'"
  unfolding plan_mark_def
proof (rule for_each_upt_rule)
  show "ws_marked max_token (topk_indices r) 0 w"
    using assms(1) by (rule ws_marked_start)
next
  fix n w assume n: "n < nat topk" and w: "ws_marked max_token (topk_indices r) n w"
  let ?t = "topk_indices r ! n"
  have inb: "0 \<le> ?t \<and> ?t < int (length (token_mark w)) \<and> ?t < int (length (token_pos w))"
    if "tok_ok max_token ?t" using ws_markedD(1,2) [OF w] that by (simp add: tok_ok_def)
  show "\<exists>w'. (do {
       token \<leftarrow> rd (topk_indices r) (int n);
       if token \<ge> 0 \<and> token < max_token then do {
         mark \<leftarrow> rd (token_mark w) token;
         if mark \<noteq> epoch w then do {
           w \<leftarrow> put_mark w token (epoch w);
           put_pos w token (int n) }
         else Some w }
       else Some w }) = Some w' \<and> ws_marked max_token (topk_indices r) (Suc n) w'"
  proof (cases "tok_ok max_token ?t \<and> ?t \<notin> set (take n (topk_indices r))")
    case True
    then have "token_mark w ! nat ?t \<noteq> epoch w" using ws_markedD(3) [OF w] by simp
    then show ?thesis
      using True inb ws_marked_new [OF w] n assms(2)
      by (simp add: tok_ok_def put_mark_def put_pos_def mem_simps)
  next
    case False
    then have "token_mark w ! nat ?t = epoch w" if "tok_ok max_token ?t"
      using ws_markedD(3) [OF w] that by simp
    then show ?thesis
      using False inb ws_marked_skip [OF w] n assms(2)
      by (auto simp: tok_ok_def mem_simps)
  qed
qed

definition encode_slot :: "int \<Rightarrow> int \<Rightarrow> int list \<Rightarrow> int list \<Rightarrow> int \<Rightarrow> int" where
  "encode_slot max_token capacity tks s2t s =
     (if \<not> slot_ok capacity s then - 1 else if sp_hit max_token capacity tks s2t s then - s - 2 else s)"

lemma encode_slot_cases:
  obtains (bad) "encode_slot max_token capacity tks s2t s = - 1" "\<not> slot_ok capacity s"
      "\<not> sp_hit max_token capacity tks s2t s"
  | (hit) "encode_slot max_token capacity tks s2t s = - s - 2" "sp_hit max_token capacity tks s2t s" "0 \<le> s"
  | (miss) "encode_slot max_token capacity tks s2t s = s" "slot_ok capacity s" "0 \<le> s" "s < capacity"
      "\<not> sp_hit max_token capacity tks s2t s"
proof (cases "slot_ok capacity s")
  case True
  then show ?thesis
    by (cases "sp_hit max_token capacity tks s2t s")
      (use that in \<open>simp_all add: encode_slot_def slot_ok_def\<close>)
next
  case False
  then show ?thesis using that(1) by (simp add: encode_slot_def sp_hit_def)
qed

lemma plan_encode_correct:
  assumes "ws_marked max_token (topk_indices r) (nat topk) w" "length (topk_indices r) = nat topk"
    and "int (length (slot_to_token r)) = capacity" "int (length (lru_slots r)) = capacity"
    and "current_slots r = replicate (nat topk) (- 1)"
  shows "plan_encode capacity max_token w r =
    Some (r\<lparr>lru_slots := map (encode_slot max_token capacity (topk_indices r) (slot_to_token r)) (lru_slots r),
            current_slots := sp_current max_token capacity (topk_indices r) (slot_to_token r) (lru_slots r)\<rparr>)"
proof -
  let ?hit = "sp_hit max_token capacity (topk_indices r) (slot_to_token r)"
  let ?enc = "encode_slot max_token capacity (topk_indices r) (slot_to_token r)"
  let ?cur = "sp_current max_token capacity (topk_indices r) (slot_to_token r)"
  define g where "g i = r\<lparr>lru_slots := overwrite {..<i} (\<lambda>j. ?enc (lru_slots r ! j)) (lru_slots r),
      current_slots := ?cur (take i (lru_slots r))\<rparr>" for i
  have step: "(do {
       slot \<leftarrow> rd (lru_slots (g i)) (int i);
       if slot < 0 \<or> slot \<ge> capacity then put_lru_slots (g i) (int i) LRU_INVALID_TOKEN
       else do {
         token \<leftarrow> rd (slot_to_token (g i)) slot;
         if token \<ge> 0 \<and> token < max_token then do {
           mark \<leftarrow> rd (token_mark w) token;
           if mark = epoch w then do {
             pos \<leftarrow> rd (token_pos w) token;
             r \<leftarrow> put_current_slots (g i) pos slot;
             put_lru_slots r (int i) (- slot - 2) }
           else put_lru_slots (g i) (int i) slot }
         else put_lru_slots (g i) (int i) slot } }) = Some (g (Suc i))" if i: "i < nat capacity" for i
  proof -
    let ?s = "lru_slots r ! i"
    let ?t = "slot_to_token r ! nat ?s"
    have i': "i < length (lru_slots r)" using i assms(4) by simp
    have enc: "(overwrite {..<i} (\<lambda>j. ?enc (lru_slots r ! j)) (lru_slots r))[i := ?enc ?s] =
        overwrite {..<Suc i} (\<lambda>j. ?enc (lru_slots r ! j)) (lru_slots r)"
      by (simp add: overwrite_insert lessThan_Suc)
    consider (bad) "\<not> slot_ok capacity ?s" | (hit) "slot_ok capacity ?s" "?hit ?s"
      | (miss) "slot_ok capacity ?s" "\<not> ?hit ?s" by blast
    then show ?thesis
    proof cases
      case bad
      then have nohit: "\<not> ?hit ?s" and range: "?s < 0 \<or> ?s \<ge> capacity"
        by (auto simp: sp_hit_def slot_ok_def)
      have "?enc ?s = LRU_INVALID_TOKEN" using bad by (simp add: encode_slot_def LRU_INVALID_TOKEN_def)
      then show ?thesis
        using range i' enc
        by (simp add: g_def put_defs take_Suc_conv_app_nth sp_current_snoc_other [OF nohit])
    next
      case hit
      then have t: "tok_ok max_token ?t" "?t \<in> set (topk_indices r)" by (auto simp: sp_hit_def)
      have "token_mark w ! nat ?t = epoch w" "token_pos w ! nat ?t = int (first_pos (topk_indices r) ?t)"
        using ws_markedD(3,4) [OF assms(1) t(1)] t(2) assms(2) by simp_all
      moreover have "first_pos (topk_indices r) ?t < length (topk_indices r)"
        using t(2) by (rule first_pos_less)
      ultimately show ?thesis
        using hit t i' enc assms(3) ws_markedD(1,2) [OF assms(1)]
        by (simp add: g_def put_defs slot_ok_def tok_ok_def encode_slot_def take_Suc_conv_app_nth mem_simps
            sp_current_snoc_hit [OF hit(2) refl])
    next
      case miss
      then have "\<not> (tok_ok max_token ?t \<and> ?t \<in> set (topk_indices r))" by (auto simp: sp_hit_def)
      then have mark: "token_mark w ! nat ?t \<noteq> epoch w" if "tok_ok max_token ?t"
        using ws_markedD(3) [OF assms(1) that] that assms(2) by simp
      show ?thesis
      proof (cases "tok_ok max_token ?t")
        case True
        then show ?thesis
          using miss i' enc assms(3) ws_markedD(1,2) [OF assms(1)] mark
          by (simp add: g_def put_defs slot_ok_def tok_ok_def encode_slot_def take_Suc_conv_app_nth mem_simps
            sp_current_snoc_other [OF miss(2)])
      next
        case False
        then show ?thesis
          using miss i' enc assms(3)
          by (auto simp: g_def put_defs slot_ok_def tok_ok_def encode_slot_def take_Suc_conv_app_nth mem_simps
            sp_current_snoc_other [OF miss(2)])
      qed
    qed
  qed
  have "plan_encode capacity max_token w r = Some (g (nat capacity))"
    unfolding plan_encode_def
    by (rule for_each_upt_eq) (use step assms(2,5) in \<open>simp_all add: g_def sp_current_Nil\<close>)
  moreover have "map (\<lambda>j. ?enc (lru_slots r ! j)) [0..<nat capacity] = map ?enc (lru_slots r)"
    using assms(4) by (intro nth_equalityI) auto
  ultimately show ?thesis
    using assms(4) by (simp add: g_def overwrite_all)
qed

lemma plan_split_correct:
  assumes "lru_slots r = map (encode_slot max_token capacity tks s2t) lru" "int (length lru) = capacity"
    and "int (length (token_mark w)) = max_token" "capacity \<le> max_token"
  shows "plan_split capacity max_token r w =
    Some (w\<lparr>token_mark := two_ended (sp_evictable max_token capacity tks s2t lru)
              (sp_hits max_token capacity tks s2t lru) (token_mark w)\<rparr>,
          int (length (sp_evictable max_token capacity tks s2t lru)),
          int (length (sp_hits max_token capacity tks s2t lru)))"
proof -
  let ?ev = "sp_evictable max_token capacity tks s2t"
  let ?hits = "sp_hits max_token capacity tks s2t"
  define g where "g i = (w\<lparr>token_mark := two_ended (?ev (take i lru)) (?hits (take i lru)) (token_mark w)\<rparr>,
      int (length (?ev (take i lru))), int (length (?hits (take i lru))))" for i
  have "plan_split capacity max_token r w = Some (g (nat capacity))"
    unfolding plan_split_def
  proof (rule for_each_upt_eq)
    show "(w, 0, 0) = g 0" by (simp add: g_def sp_evictable_def sp_hits_def)
    fix i assume "i < nat capacity"
    then have i: "i < length lru" using assms(2) by simp
    let ?s = "lru ! i"
    have less: "length (?ev (take i lru)) + length (?hits (take i lru)) < length (token_mark w)"
      using evictable_hits_take_less [OF i, of max_token capacity tks s2t] assms(2-4) by linarith
    note enc = assms(1)
    have tail: "max_token - 1 - int (length (?hits (take i lru))) =
        int (length (token_mark w) - Suc (length (?hits (take i lru))))"
      using less assms(3) by simp
    show "(case g i of (w, evictable_count, hit_count) \<Rightarrow> do {
       encoded \<leftarrow> rd (lru_slots r) (int i);
       if encoded \<le> - 2 then do {
         w \<leftarrow> put_mark w (max_token - 1 - hit_count) (- encoded - 2);
         Some (w, evictable_count, hit_count + 1) }
       else if encoded \<ge> 0 \<and> encoded < capacity then do {
         w \<leftarrow> put_mark w evictable_count encoded;
         Some (w, evictable_count + 1, hit_count) }
       else Some (w, evictable_count, hit_count) }) = Some (g (Suc i))"
    proof (cases rule: encode_slot_cases [of max_token capacity tks s2t ?s])
      case bad
      then show ?thesis
        using i by (simp add: g_def enc take_Suc_conv_app_nth sp_evictable_snoc sp_hits_snoc)
    next
      case hit
      then show ?thesis
        using i less
        by (simp add: g_def enc put_mark_def tail take_Suc_conv_app_nth sp_evictable_snoc sp_hits_snoc
            two_ended_back del: of_nat_diff)
    next
      case miss
      then show ?thesis
        using i less
        by (simp add: g_def enc put_mark_def take_Suc_conv_app_nth sp_evictable_snoc sp_hits_snoc
            two_ended_front)
    qed
  qed
  then show ?thesis using assms(2) by (simp add: g_def)
qed

lemma plan_misses_correct:
  assumes "topk_indices r = tks" "length tks = nat topk" "length (current_slots r) = nat topk"
    and "length (miss_tokens r) = nat topk" "nat topk \<le> length (token_pos w)"
    and "ms = sp_misses max_token tks (current_slots r)"
  shows "plan_misses topk max_token r w =
    Some (r\<lparr>miss_tokens := map ((!) tks) ms @ drop (length ms) (miss_tokens r)\<rparr>,
          w\<lparr>token_pos := map int ms @ drop (length ms) (token_pos w)\<rparr>, int (length ms))"
proof -
  define ms' where "ms' i = filter (\<lambda>pos. tok_ok max_token (tks ! pos) \<and> current_slots r ! pos < 0) [0..<i]" for i
  define g where "g i = (r\<lparr>miss_tokens := map ((!) tks) (ms' i) @ drop (length (map ((!) tks) (ms' i))) (miss_tokens r)\<rparr>,
      w\<lparr>token_pos := map int (ms' i) @ drop (length (map int (ms' i))) (token_pos w)\<rparr>, int (length (ms' i)))" for i
  have "plan_misses topk max_token r w = Some (g (nat topk))"
    unfolding plan_misses_def
  proof (rule for_each_upt_eq)
    show "(r, w, 0) = g 0" by (simp add: g_def ms'_def)
    fix i assume i: "i < nat topk"
    have len: "length (ms' i) < nat topk"
    proof -
      have "length (ms' i) \<le> length [0..<i]" unfolding ms'_def by (rule length_filter_le)
      then show ?thesis using i by simp
    qed
    have Suc: "ms' (Suc i) = ms' i @ (if tok_ok max_token (tks ! i) \<and> current_slots r ! i < 0 then [i] else [])"
      by (simp add: ms'_def)
    have mt: "(map ((!) tks) (ms' i) @ drop (length (ms' i)) (miss_tokens r))[length (ms' i) := v] =
        map ((!) tks) (ms' i) @ v # drop (Suc (length (ms' i))) (miss_tokens r)" for v
      using front_write [of "map ((!) tks) (ms' i)" "miss_tokens r" v] len assms(4) by simp
    have tp: "(map int (ms' i) @ drop (length (ms' i)) (token_pos w))[length (ms' i) := v] =
        map int (ms' i) @ v # drop (Suc (length (ms' i))) (token_pos w)" for v
      using front_write [of "map int (ms' i)" "token_pos w" v] len assms(5) by simp
    show "(case g i of (r, w, local_miss_count) \<Rightarrow> do {
       token \<leftarrow> rd (topk_indices r) (int i);
       if token \<ge> 0 \<and> token < max_token then do {
         cur \<leftarrow> rd (current_slots r) (int i);
         if cur < 0 then do {
           r \<leftarrow> put_miss_tokens r local_miss_count token;
           w \<leftarrow> put_pos w local_miss_count (int i);
           Some (r, w, local_miss_count + 1) }
         else Some (r, w, local_miss_count) }
       else Some (r, w, local_miss_count) }) = Some (g (Suc i))"
    proof (cases "tok_ok max_token (tks ! i) \<and> current_slots r ! i < 0")
      case True
      then show ?thesis
        using i len assms(1-5) by (simp add: g_def put_defs put_pos_def Suc tok_ok_def mt tp)
    next
      case False
      then have "ms' (Suc i) = ms' i" by (simp add: Suc)
      then have "g (Suc i) = g i" by (simp add: g_def)
      moreover have "current_slots (fst (g i)) = current_slots r" "topk_indices (fst (g i)) = tks"
        using assms(1) by (simp_all add: g_def)
      ultimately show ?thesis
        using False i assms(2,3) by (cases "g i") (auto simp: tok_ok_def)
    qed
  qed
  then show ?thesis
    using assms(2,6) by (simp add: g_def ms'_def sp_misses_def)
qed

text \<open>What the plan kernel hands to the assign and rebuild kernels through the workspace.\<close>

definition planned :: "int \<Rightarrow> int list \<Rightarrow> int list \<Rightarrow> nat list \<Rightarrow> lru_ws \<Rightarrow> bool" where
  "planned max_token ev hits ms w \<longleftrightarrow>
     ws_wf max_token w \<and>
     (\<forall>i < length ev. rd (token_mark w) (int i) = Some (ev ! i)) \<and>
     (\<forall>j < length hits. rd (token_mark w) (max_token - 1 - int j) = Some (hits ! j)) \<and>
     (\<forall>i < length ms. rd (token_pos w) (int i) = Some (int (ms ! i))) \<and>
     rd (token_pos w) (max_token - 2) = Some (int (length ev)) \<and>
     rd (token_pos w) (max_token - 1) = Some (int (length hits))"

lemma planned_intro:
  assumes "int (length m0) = max_token" "int (length p0) = max_token"
    and "int (length ms) \<le> max_token - 2" "length ev + length hits \<le> length m0"
    and "\<forall>x \<in> set m0. epoch w \<le> x" "\<forall>x \<in> set ev \<union> set hits. epoch w \<le> x"
  shows "planned max_token ev hits ms
    (w\<lparr>token_mark := two_ended ev hits m0,
       token_pos := (map int ms @ drop (length ms) p0)
         [nat (max_token - 2) := int (length ev), nat (max_token - 1) := int (length hits)]\<rparr>)"
    (is "planned _ _ _ _ ?w")
proof -
  have "ws_wf max_token ?w"
    using assms set_two_ended_subset [OF assms(4)] by (auto simp: ws_wf_def)
  moreover have "rd (token_mark ?w) (int i) = Some (ev ! i)" if "i < length ev" for i
    using that assms(4) by (simp add: nth_two_ended_front)
  moreover have "rd (token_mark ?w) (max_token - 1 - int j) = Some (hits ! j)" if "j < length hits" for j
  proof -
    have "max_token - 1 - int j = int (length m0 - Suc j)" using that assms(1,4) by simp
    then show ?thesis using that assms(4) by (simp add: nth_two_ended_back del: of_nat_diff)
  qed
  moreover have "rd (token_pos ?w) (int i) = Some (int (ms ! i))" if "i < length ms" for i
    using that assms(2,3) by (simp add: nth_append)
  moreover have "rd (token_pos ?w) (max_token - 2) = Some (int (length ev))"
    using assms(2,3) by (simp add: rd_Some)
  moreover have "rd (token_pos ?w) (max_token - 1) = Some (int (length hits))"
    using assms(2,3) by (simp add: rd_Some)
  ultimately show ?thesis by (simp add: planned_def)
qed

lemma plan_correct:
  assumes "ws_wf max_token w" "int (length (topk_indices r)) = topk"
    and "int (length (slot_to_token r)) = capacity" "int (length (lru_slots r)) = capacity"
    and "current_slots r = replicate (nat topk) (- 1)" "miss_tokens r = replicate (nat topk) (- 1)"
    and "capacity \<le> max_token" "topk \<le> max_token - 2"
    and "ev = sp_evictable max_token capacity (topk_indices r) (slot_to_token r) (lru_slots r)"
    and "hits = sp_hits max_token capacity (topk_indices r) (slot_to_token r) (lru_slots r)"
    and "cur = sp_current max_token capacity (topk_indices r) (slot_to_token r) (lru_slots r)"
    and "ms = sp_misses max_token (topk_indices r) cur"
  shows "\<exists>w' lru. OffloadLruCompactSimtOps topk capacity max_token r w =
      Some (r\<lparr>lru_slots := lru, current_slots := cur,
              miss_tokens := pad (nat topk) (- 1) (map ((!) (topk_indices r)) ms),
              miss_count := int (min (length ms) (length ev))\<rparr>, w') \<and>
    length lru = nat capacity \<and> planned max_token ev hits ms w'"
proof -
  obtain w1 where w1: "plan_epoch max_token w = Some w1" "ws_fresh max_token w1"
    using plan_epoch_correct [OF assms(1)] by blast
  obtain w2 where w2: "plan_mark topk max_token r w1 = Some w2"
      "ws_marked max_token (topk_indices r) (nat topk) w2"
    using plan_mark_correct [OF w1(2)] assms(2) by (metis nat_int)
  define lru where "lru = map (encode_slot max_token capacity (topk_indices r) (slot_to_token r)) (lru_slots r)"
  define r2 where "r2 = r\<lparr>lru_slots := lru, current_slots := cur\<rparr>"
  have encode: "plan_encode capacity max_token w2 r = Some r2"
    unfolding r2_def lru_def assms(11)
    by (rule plan_encode_correct) (use w2(2) assms(2-5) in simp_all)
  define w3 where "w3 = w2\<lparr>token_mark := two_ended ev hits (token_mark w2)\<rparr>"
  have split: "plan_split capacity max_token r2 w2 = Some (w3, int (length ev), int (length hits))"
    unfolding w3_def assms(9,10)
    by (rule plan_split_correct) (use ws_markedD(1) [OF w2(2)] assms(4,7) in \<open>simp_all add: r2_def lru_def\<close>)
  define w4 where "w4 = w3\<lparr>token_pos := map int ms @ drop (length ms) (token_pos w3)\<rparr>"
  define r4 where "r4 = r2\<lparr>miss_tokens := map ((!) (topk_indices r)) ms @ drop (length ms) (miss_tokens r2)\<rparr>"
  have misses: "plan_misses topk max_token r2 w3 = Some (r4, w4, int (length ms))"
    unfolding r4_def w4_def
    by (rule plan_misses_correct)
      (use assms(2,6,8,11,12) ws_markedD(2) [OF w2(2)] in \<open>simp_all add: r2_def w3_def\<close>)
  have ms: "int (length ms) \<le> topk"
    using sp_misses_props(1) [of max_token "topk_indices r" cur] assms(2,12) by simp
  have len: "int (length (token_mark w2)) = max_token" "int (length (token_pos w2)) = max_token"
    using ws_markedD [OF w2(2)] by simp_all
  have pos: "int (length (token_pos w4)) = max_token"
    using len ms assms(8) by (simp add: w4_def w3_def)
  define w5 where "w5 = w2\<lparr>token_mark := two_ended ev hits (token_mark w2),
    token_pos := (map int ms @ drop (length ms) (token_pos w2))
         [nat (max_token - 2) := int (length ev), nat (max_token - 1) := int (length hits)]\<rparr>"
  have stores: "put_pos w4 (max_token - 2) (int (length ev)) \<bind> (\<lambda>w. put_pos w (max_token - 1) (int (length hits))) =
      Some w5"
    using pos ms assms(2,8) by (simp add: put_pos_def wr_Some w4_def w3_def w5_def)
  have "planned max_token ev hits ms w5"
    unfolding w5_def
  proof (rule planned_intro)
    show "length ev + length hits \<le> length (token_mark w2)"
      using evictable_hits_le [of max_token capacity "topk_indices r" "slot_to_token r" "lru_slots r"]
        assms(4,7) len(1) unfolding assms(9,10) by linarith
    show "\<forall>x\<in>set (token_mark w2). epoch w2 \<le> x" using w2(2) by (simp add: ws_marked_def)
    have "\<forall>x\<in>set ev \<union> set hits. 0 \<le> x"
      by (auto simp: assms(9,10) sp_evictable_def sp_hits_def sp_hit_def slot_ok_def)
    moreover have "epoch w2 \<le> 0" using w2(2) by (simp add: ws_marked_def)
    ultimately show "\<forall>x\<in>set ev \<union> set hits. epoch w2 \<le> x" using order_trans by blast
  qed (use len ms assms(8) in simp_all)
  moreover have "OffloadLruCompactSimtOps topk capacity max_token r w =
      Some (r4\<lparr>miss_count := int (min (length ms) (length ev))\<rparr>, w5)"
  proof -
    have "(if int (length ms) < int (length ev) then int (length ms) else int (length ev)) =
        int (min (length ms) (length ev))" by simp
    then show ?thesis
      using stores
      by (simp add: OffloadLruCompactSimtOps_def w1(1) w2(1) encode split misses bind_eq_Some_conv Let_def
          del: of_nat_min)
  qed
  moreover have "r4\<lparr>miss_count := int (min (length ms) (length ev))\<rparr> =
     r\<lparr>lru_slots := lru, current_slots := cur,
              miss_tokens := pad (nat topk) (- 1) (map ((!) (topk_indices r)) ms),
              miss_count := int (min (length ms) (length ev))\<rparr>"
    by (simp add: r4_def r2_def pad_def assms(6))
  moreover have "length lru = nat capacity" using assms(4) by (simp add: lru_def)
  ultimately show ?thesis by metis
qed

section \<open>Assign and rebuild\<close>

lemma assign_lanes_correct:
  assumes "simt_ok m" "planned max_token ev hits ms w" "n = min (length ms) (length ev)"
    and "0 < threads" "int (length (slot_to_token r)) = capacity"
    and "int (length (current_slots r)) = topk" "length (miss_slots r) = nat topk"
    and "miss_tokens r = pad (nat topk) (- 1) (map ((!) tks) ms)" "length ms \<le> nat topk"
    and "\<And>s. s \<in> set ev \<Longrightarrow> slot_ok capacity s" "distinct (map nat ev)"
    and "\<And>p. p \<in> set ms \<Longrightarrow> int p < topk" "distinct ms"
  shows "par_for m p threads n (assign_lane topk capacity w) r =
    Some (r\<lparr>slot_to_token := scatter (map nat (take n ev)) (map ((!) tks) (take n ms)) (slot_to_token r),
      current_slots := scatter (take n ms) (take n ev) (current_slots r),
      miss_slots := take n ev @ drop n (miss_slots r)\<rparr>)"
proof -
  define Q where "Q D r' \<longleftrightarrow> (\<exists>a b. r' = r\<lparr>slot_to_token := a, current_slots := b,
        miss_slots := overwrite D ((!) ev) (miss_slots r)\<rparr> \<and>
      scattered D (\<lambda>i. nat (ev ! i)) (\<lambda>i. tks ! (ms ! i)) (slot_to_token r) a \<and>
      scattered D ((!) ms) ((!) ev) (current_slots r) b \<and> D \<subseteq> {..<n})" for D r'
  have inj_ev: "nat (ev ! j) = nat (ev ! i) \<longleftrightarrow> j = i" if "i < n" "j < n" for i j
    using assms(3,11) that nth_eq_iff_index_eq [of "map nat ev" j i] by simp
  have inj_ms: "ms ! j = ms ! i \<longleftrightarrow> j = i" if "i < n" "j < n" for i j
    using assms(3,13) that by (simp add: nth_eq_iff_index_eq)
  have "\<exists>r'. par_for m p threads n (assign_lane topk capacity w) r = Some r' \<and> Q {..<n} r'"
    using assms(1,4)
  proof (rule par_for_rule)
    show "Q {} r"
      unfolding Q_def by (rule exI [of _ "slot_to_token r"], rule exI [of _ "current_slots r"]) simp
  next
    fix D i r' assume i: "i < n" "i \<notin> D" and "Q D r'"
    then obtain a b where r': "r' = r\<lparr>slot_to_token := a, current_slots := b,
        miss_slots := overwrite D ((!) ev) (miss_slots r)\<rparr>"
      and a: "scattered D (\<lambda>i. nat (ev ! i)) (\<lambda>i. tks ! (ms ! i)) (slot_to_token r) a"
      and b: "scattered D ((!) ms) ((!) ev) (current_slots r) b" and D: "D \<subseteq> {..<n}"
      unfolding Q_def by blast
    have slot: "slot_ok capacity (ev ! i)" and pos: "int (ms ! i) < topk"
      using i assms(3,10,12) by simp_all
    have reads: "rd (token_mark w) (int i) = Some (ev ! i)" "rd (token_pos w) (int i) = Some (int (ms ! i))"
      using i assms(2,3) by (simp_all add: planned_def)
    have token: "rd (miss_tokens r') (int i) = Some (tks ! (ms ! i))"
      using i assms(3,8,9) by (simp add: r' pad_def nth_append)
    have s2t: "put_slot_to_token r' (ev ! i) v = Some (r'\<lparr>slot_to_token := a[nat (ev ! i) := v]\<rparr>)" for v
      using slot scattered_length [OF a] assms(5) by (simp add: r' put_defs wr_Some slot_ok_def)
    have a': "scattered (insert i D) (\<lambda>i. nat (ev ! i)) (\<lambda>i. tks ! (ms ! i)) (slot_to_token r)
        (a[nat (ev ! i) := tks ! (ms ! i)])"
      using a by (rule scattered_insert) (use i D inj_ev in blast)
    have b': "scattered (insert i D) ((!) ms) ((!) ev) (current_slots r) (b[ms ! i := ev ! i])"
      using b by (rule scattered_insert) (use i D inj_ms in blast)
    have "Q (insert i D) (r\<lparr>slot_to_token := a[nat (ev ! i) := tks ! (ms ! i)],
        current_slots := b[ms ! i := ev ! i],
        miss_slots := (overwrite D ((!) ev) (miss_slots r))[i := ev ! i]\<rparr>)"
      using a' b' D i unfolding Q_def by (auto simp: overwrite_insert)
    then show "\<exists>s'. assign_lane topk capacity w i r' = Some s' \<and> Q (insert i D) s'"
      using slot pos i assms(3,6,7,9) scattered_length [OF b]
      by (simp only: assign_lane_def reads token Option.bind.bind_lunit) (simp add: s2t slot_ok_def, simp add: r' put_defs)
  qed
  then obtain r' a b where "par_for m p threads n (assign_lane topk capacity w) r = Some r'"
    and r': "r' = r\<lparr>slot_to_token := a, current_slots := b,
        miss_slots := overwrite {..<n} ((!) ev) (miss_slots r)\<rparr>"
      and a: "scattered {..<n} (\<lambda>i. nat (ev ! i)) (\<lambda>i. tks ! (ms ! i)) (slot_to_token r) a"
      and b: "scattered {..<n} ((!) ms) ((!) ev) (current_slots r) b"
    unfolding Q_def by blast
  moreover have "a = scatter (map nat (take n ev)) (map ((!) tks) (take n ms)) (slot_to_token r)"
    using scattered_all [OF a] inj_ev assms(3) by (simp add: inj_on_def map_nth_take)
  moreover have "b = scatter (take n ms) (take n ev) (current_slots r)"
    using scattered_all [OF b] inj_ms assms(3) map_nth_take [of n ms "\<lambda>x. x"] map_nth_take [of n ev "\<lambda>x. x"]
    by (simp add: inj_on_def)
  moreover have "overwrite {..<n} ((!) ev) (miss_slots r) = take n ev @ drop n (miss_slots r)"
    using assms(3,7,9) by (intro overwrite_front) simp_all
  ultimately show ?thesis by simp
qed

lemma rebuild_lanes_correct:
  assumes "simt_ok m" "planned max_token ev hits ms w" "n = min (length ms) (length ev)"
    and "0 < threads" "int (length (lru_slots r)) = capacity"
    and "take n (miss_slots r) = take n ev" "n \<le> length (miss_slots r)" "length ev + length hits \<le> nat capacity"
  shows "par_for m p threads (nat capacity)
      (rebuild_lane max_token w (int n) (int (length ev)) (int (length hits))) r =
    Some (r\<lparr>lru_slots := pad (nat capacity) (- 1) (drop n ev @ take n ev @ hits)\<rparr>)"
proof -
  let ?out = "pad (nat capacity) (- 1) (drop n ev @ take n ev @ hits)"
  define g where "g D = r\<lparr>lru_slots := overwrite D ((!) ?out) (lru_slots r)\<rparr>" for D
  have n: "n \<le> length ev" using assms(3) by simp
  have len: "length ?out = nat capacity" using assms(8) n by (simp add: pad_def)
  have "par_for m p threads (nat capacity)
      (rebuild_lane max_token w (int n) (int (length ev)) (int (length hits))) r = Some (g {..<nat capacity})"
    using assms(1,4)
  proof (rule par_for_eq)
    fix D k assume k: "k < nat capacity"
    have "(if int k < int (length ev) - int n then rd (token_mark w) (int n + int k)
           else if int k < int (length ev) then rd (miss_slots (g D)) (int k - (int (length ev) - int n))
           else if int k < int (length ev) + int (length hits)
             then rd (token_mark w) (max_token - 1 - (int k - int (length ev)))
           else Some LRU_INVALID_TOKEN) = Some (?out ! k)"
    proof -
      consider "k < length ev - n" | "length ev - n \<le> k" "k < length ev"
        | "length ev \<le> k" "k < length ev + length hits" | "length ev + length hits \<le> k" by linarith
      then show ?thesis
      proof cases
        case 1
        then have "rd (token_mark w) (int (n + k)) = Some (ev ! (n + k))"
          using assms(2) unfolding planned_def by (metis less_diff_conv add.commute)
        moreover have "int k < int (length ev) - int n" using 1 n by linarith
        ultimately show ?thesis using 1 n by (simp add: pad_def nth_append)
      next
        case 2
        have "miss_slots r ! (k - (length ev - n)) = ev ! (k - (length ev - n))"
          using assms(6) 2 n nth_take [of "k - (length ev - n)" n] by (metis diff_diff_cancel diff_less_mono)
        moreover have "k + n - length ev < n" using 2 n by linarith
        ultimately show ?thesis using 2 n assms(7)
          by (simp add: g_def pad_def nth_append rd_Some nat_diff_distrib' of_nat_diff [symmetric] del: of_nat_diff)
      next
        case 3
        then have "k - length ev < length hits" by linarith
        then have "rd (token_mark w) (max_token - 1 - int (k - length ev)) = Some (hits ! (k - length ev))"
          using assms(2) unfolding planned_def by blast
        moreover have "\<not> k < length ev - n" "\<not> k + n - length ev < n" "k - length ev < length hits"
          using 3 n by linarith+
        ultimately show ?thesis using 3 n by (simp add: pad_def nth_append)
      next
        case 4
        then have "\<not> k < length ev - n" "\<not> k + n - length ev < n" "\<not> k - length ev < length hits"
          using n by linarith+
        then show ?thesis using 4 n k by (simp add: pad_def nth_append LRU_INVALID_TOKEN_def)
      qed
    qed
    then show "rebuild_lane max_token w (int n) (int (length ev)) (int (length hits)) k (g D) = Some (g (insert k D))"
      using k assms(5) by (simp only: rebuild_lane_def Let_def Option.bind.bind_lunit) (simp add: g_def put_defs overwrite_insert)
  qed (simp_all add: g_def)
  moreover have "overwrite {..<nat capacity} ((!) ?out) (lru_slots r) = ?out"
    using overwrite_front [of "nat capacity" "lru_slots r" ?out] len assms(5) by simp
  ultimately show ?thesis by (simp add: g_def)
qed

section \<open>One row and all rows\<close>

lemma phased_row_correct:
  assumes "simt_ok m" "row_wf topk capacity r" "ws_wf max_token w"
    and "capacity \<le> max_token" "topk \<le> max_token - 2"
  shows "\<exists>w'. phased_row m topk capacity max_token row (r, w) = Some (compact_spec capacity max_token r, w') \<and>
    ws_wf max_token w'"
proof -
  note wf = assms(2) [unfolded row_wf_def]
  define r1 where "r1 = r\<lparr>slot_to_token := sp_slots capacity r, lru_slots := sp_lru capacity r, last_req_id := req_id r\<rparr>"
  have reset: "OffloadLruCompactResetPhasedSimtOps (int row) capacity r = Some r1"
    unfolding r1_def using assms(2) by (rule reset_correct)
  have wf1: "row_wf topk capacity r1" using wf distinct_sp_lru by (auto simp: row_wf_def r1_def)
  define s2t where "s2t = sp_invalidate max_token (clamp_prefix max_token (stable_prefix_len r)) (sp_slots capacity r)"
  define r2 where "r2 = r1\<lparr>current_slots := replicate (nat topk) (- 1), miss_tokens := replicate (nat topk) (- 1),
      miss_slots := replicate (nat topk) (- 1), miss_count := 0, slot_to_token := s2t\<rparr>"
  have prepare: "OffloadLruCompactPreparePhasedSimtOps m (4 * row) topk capacity max_token r1 = Some r2"
    using prepare_correct [OF assms(1) wf1] by (simp add: r2_def s2t_def r1_def)
  define tks where "tks = topk_indices r"
  define lru where "lru = sp_lru capacity r"
  define ev where "ev = sp_evictable max_token capacity tks s2t lru"
  define hits where "hits = sp_hits max_token capacity tks s2t lru"
  define cur where "cur = sp_current max_token capacity tks s2t lru"
  define ms where "ms = sp_misses max_token tks cur"
  define n where "n = min (length ms) (length ev)"
  have len: "int (length tks) = topk" "int (length s2t) = capacity" "int (length lru) = capacity"
    using wf by (auto simp: tks_def s2t_def lru_def)
  have r2: "topk_indices r2 = tks" "slot_to_token r2 = s2t" "lru_slots r2 = lru"
    by (simp_all add: r2_def r1_def tks_def lru_def)
  obtain w3 lru3 where plan: "OffloadLruCompactSimtOps topk capacity max_token r2 w =
      Some (r2\<lparr>lru_slots := lru3, current_slots := cur, miss_tokens := pad (nat topk) (- 1) (map ((!) tks) ms),
              miss_count := int n\<rparr>, w3)"
    and lru3: "length lru3 = nat capacity" and planned: "planned max_token ev hits ms w3"
    using plan_correct [of max_token w r2 topk capacity ev hits cur ms] assms(3-5) len
    unfolding r2 n_def by (auto simp: r2_def ev_def hits_def cur_def ms_def)
  define r3 where "r3 = r2\<lparr>lru_slots := lru3, current_slots := cur,
      miss_tokens := pad (nat topk) (- 1) (map ((!) tks) ms), miss_count := int n\<rparr>"
  have ms: "length ms \<le> nat topk" "distinct ms" "\<And>p. p \<in> set ms \<Longrightarrow> int p < topk"
    using sp_misses_props [where max_token = max_token and topk = tks and cur = cur] len(1) by (auto simp: ms_def)
  have ev: "distinct (map nat ev)" "\<And>s. s \<in> set ev \<Longrightarrow> slot_ok capacity s"
    using distinct_nat_evictable [OF distinct_sp_lru] wf evictable_slot_ok
    unfolding ev_def lru_def by blast+
  define r4 where "r4 = r3\<lparr>slot_to_token := scatter (map nat (take n ev)) (map ((!) tks) (take n ms)) s2t,
      current_slots := scatter (take n ms) (take n ev) cur, miss_slots := pad (nat topk) (- 1) (take n ev)\<rparr>"
  have n: "n \<le> length ev" "n \<le> nat topk" using ms(1) by (simp_all add: n_def)
  have assign: "OffloadLruCompactAssignPhasedSimtOps m (4 * row + 2) topk capacity w3 r3 = Some r4"
    using assign_lanes_correct [OF assms(1) planned n_def threads_pos, of r3 capacity topk tks "4 * row + 2"] ms ev len n
    by (simp add: OffloadLruCompactAssignPhasedSimtOps_def r3_def r4_def r2_def cur_def pad_def)
  have "length ev + length hits \<le> nat capacity"
    using evictable_hits_le [of max_token capacity tks s2t lru] len(3) by (simp add: ev_def hits_def)
  then have rebuild: "OffloadLruCompactRebuildPhasedSimtOps m (4 * row + 3) capacity max_token w3 r4 =
      Some (r4\<lparr>lru_slots := pad (nat capacity) (- 1) (drop n ev @ take n ev @ hits)\<rparr>)"
    using rebuild_lanes_correct [OF assms(1) planned n_def threads_pos, of r4 capacity "4 * row + 3"] n lru3 len(3)
      planned
    by (simp add: OffloadLruCompactRebuildPhasedSimtOps_def planned_def r3_def r4_def pad_def)
  have "r4\<lparr>lru_slots := pad (nat capacity) (- 1) (drop n ev @ take n ev @ hits)\<rparr> = compact_spec capacity max_token r"
    unfolding len(1) [symmetric]
    by (simp add: len(1) [symmetric] compact_spec_def compact_lists_def r4_def r3_def r2_def r1_def Let_def tks_def [symmetric]
        s2t_def [symmetric] lru_def [symmetric] ev_def [symmetric] cur_def [symmetric] hits_def [symmetric]
        ms_def [symmetric] n_def [symmetric])
  then have "phased_row m topk capacity max_token row (r, w) = Some (compact_spec capacity max_token r, w3)"
    by (simp only: phased_row_def prod.case reset prepare plan r3_def [symmetric] assign rebuild
        Option.bind.bind_lunit)
  then show ?thesis using planned by (auto simp: planned_def)
qed

text \<open>The phased kernels meet the contract of Compact.\<close>

definition phased_shape :: "int \<Rightarrow> int \<Rightarrow> int \<Rightarrow> bool" where
  "phased_shape topk capacity max_token \<longleftrightarrow> capacity \<le> max_token \<and> topk \<le> max_token - 2"

interpretation phased: compact_op "\<lambda>_ :: unit. True" phased_shape ws_wf "\<lambda>_. phased_row"
  by unfold_locales (use phased_row_correct in \<open>auto simp: phased_shape_def\<close>)

section \<open>Properties\<close>

text \<open>A row of three slots that holds tokens 4 and 2, asked for tokens 2 and 0.\<close>

definition example_row :: lru_row where
  "example_row = \<lparr>req_id = 7, last_req_id = 7, topk_indices = [2, 0], stable_prefix_len = 5,
     slot_to_token = [4, - 1, 2], lru_slots = [2, 0, 1], current_slots = [0, 0], miss_count = 0,
     miss_tokens = [0, 0], miss_slots = [0, 0]\<rparr>"

definition example_ws :: lru_ws where
  "example_ws = \<lparr>token_mark = [0, 0, 0, 0, 0], token_pos = [0, 0, 0, 0, 0], epoch = 0\<rparr>"

lemma example_wf:
  "row_wf 2 3 example_row" "ws_wf 5 example_ws" "CanUseProductionPhasedLru 1 2 3 5"
  "lru_perm 3 (lru_slots example_row)" "tokens_distinct 5 (slot_to_token example_row)"
  "tokens_distinct 5 (topk_indices example_row)"
  by (simp_all add: row_wf_def example_row_def ws_wf_def example_ws_def CanUseProductionPhasedLru_def
      INT32_MAX_def INT64_MAX_def LRU_COMPACT_WORKSPACE_THREADS_def lru_perm_def tokens_distinct_def
      slot_ok_def tok_ok_def upt_rec less_Suc_eq numeral_eq_Suc add_mset_commute all_simps)

definition example_inputs :: "decode_input list" where
  "example_inputs = [\<lparr>in_req = 7, in_topk = [2, 0], in_prefix = 5\<rparr>, \<lparr>in_req = 7, in_topk = [1, - 1], in_prefix = 2\<rparr>]"

lemma example_inputs_ok: "list_all (input_ok 2 5) example_inputs"
  by (simp add: example_inputs_def input_ok_def tokens_distinct_def tok_ok_def less_Suc_eq numeral_eq_Suc all_simps)

lemma launch_phased_spec:
  assumes "simt_ok m" "CanUseProductionPhasedLru num_reqs topk capacity max_token"
    and "int (length rows) = num_reqs" "\<And>r. r \<in> set rows \<Longrightarrow> row_wf topk capacity r"
    and "length wss = LRU_COMPACT_WORKSPACE_THREADS" "\<And>w. w \<in> set wss \<Longrightarrow> ws_wf max_token w"
  shows "\<exists>wss'. LaunchProductionPhasedLru m num_reqs topk capacity max_token (rows, wss) =
      Some (map (compact_spec capacity max_token) rows, wss') \<and>
    length wss' = LRU_COMPACT_WORKSPACE_THREADS \<and> (\<forall>w \<in> set wss'. ws_wf max_token w)"
proof -
  have shape: "capacity \<le> max_token" "topk \<le> max_token - 2"
    using assms(2) by (auto simp: CanUseProductionPhasedLru_def)
  define Q where "Q i st \<longleftrightarrow> fst st = overwrite {..<i} (\<lambda>j. compact_spec capacity max_token (rows ! j)) rows \<and>
    length (snd st) = LRU_COMPACT_WORKSPACE_THREADS \<and> (\<forall>w \<in> set (snd st). ws_wf max_token w)" for i st
  have "\<exists>st. LaunchProductionPhasedLru m num_reqs topk capacity max_token (rows, wss) = Some st \<and> Q (nat num_reqs) st"
    unfolding LaunchProductionPhasedLru_def
  proof (rule for_each_upt_rule)
    show "Q 0 (rows, wss)" using assms(5,6) by (simp add: Q_def)
  next
    fix i st assume i: "i < nat num_reqs" and Q: "Q i st"
    obtain rows' wss' where st: "st = (rows', wss')" by (cases st)
    have i': "i < length rows" using i assms(3) by simp
    define k where "k = i mod LRU_COMPACT_WORKSPACE_THREADS"
    have k: "k < length wss'" using Q st by (simp add: k_def Q_def LRU_COMPACT_WORKSPACE_THREADS_def)
    have rows': "rows' ! i = rows ! i" "length rows' = length rows" using Q i' by (simp_all add: st Q_def)
    have "row_wf topk capacity (rows ! i)" "ws_wf max_token (wss' ! k)"
      using assms(4) i' Q k by (auto simp: st Q_def)
    then obtain w' where w': "phased_row m topk capacity max_token i (rows ! i, wss' ! k) =
        Some (compact_spec capacity max_token (rows ! i), w')" "ws_wf max_token w'"
      using phased_row_correct [OF assms(1) _ _ shape] by blast
    have "Q (Suc i) (rows'[i := compact_spec capacity max_token (rows ! i)], wss'[k := w'])"
      using Q w'(2) set_update_subset_insert [of wss' k w']
      by (auto simp: st Q_def overwrite_insert lessThan_Suc)
    then show "\<exists>s'. (case st of (rows, wss) \<Rightarrow> do {
       let workspace_index = int (i mod LRU_COMPACT_WORKSPACE_THREADS);
       r \<leftarrow> rd rows (int i);
       w \<leftarrow> rd wss workspace_index;
       (r, w) \<leftarrow> phased_row m topk capacity max_token i (r, w);
       rows \<leftarrow> wr rows (int i) r;
       wss \<leftarrow> wr wss workspace_index w;
       Some (rows, wss) }) = Some s' \<and> Q (Suc i) s'"
      using k i' rows' by (simp add: st w'(1) k_def [symmetric] del: of_nat_mod zmod_int)
  qed
  moreover have "overwrite {..<nat num_reqs} (\<lambda>j. compact_spec capacity max_token (rows ! j)) rows =
      map (compact_spec capacity max_token) rows"
    using assms(3) by (intro nth_equalityI) auto
  ultimately show ?thesis by (auto simp: Q_def)
qed

text \<open>C3. A launch of the generic Compact operator over any number of rows, with any lane schedule of
  the device, stays within its buffers, terminates, and leaves every row as \<open>compact_spec\<close> says; the
  eight shared workspace slices are again usable by the next launch.\<close>

lemma launch_phased_correct:
  assumes "simt_ok m" "CanUseProductionPhasedLru num_reqs topk capacity max_token"
    and "int (length rows) = num_reqs" "\<And>r. r \<in> set rows \<Longrightarrow> row_wf topk capacity r"
    and "length wss = LRU_COMPACT_WORKSPACE_THREADS" "\<And>w. w \<in> set wss \<Longrightarrow> ws_wf max_token w"
  shows "\<exists>wss'. LaunchProductionPhasedLru m num_reqs topk capacity max_token (rows, wss) =
      Some (map (compact_spec capacity max_token) rows, wss') \<and>
    length wss' = LRU_COMPACT_WORKSPACE_THREADS \<and> (\<forall>w \<in> set wss'. ws_wf max_token w)"
  using assms by (rule launch_phased_spec)

lemma launch_phased_witness:
  "\<exists>wss'. LaunchProductionPhasedLru example_simt 1 2 3 5 ([example_row], replicate 8 example_ws) =
      Some (map (compact_spec 3 5) [example_row], wss') \<and>
    length wss' = LRU_COMPACT_WORKSPACE_THREADS \<and> (\<forall>w \<in> set wss'. ws_wf 5 w)"
  by (rule launch_phased_correct) (simp_all add: example_wf LRU_COMPACT_WORKSPACE_THREADS_def)

text \<open>C7. With distinct Top-K tokens and \<open>topk \<le> capacity\<close>, the generic path makes every valid Top-K token
  resident: its \<^verbatim>\<open>current_slots\<close> entry is a slot that \<^verbatim>\<open>slot_to_token\<close> maps to the token. The cache invariant
  (the LRU order is a permutation of the slots, no token is held twice) is kept.\<close>

theorem phased_topk_resident:
  assumes "simt_ok m" "phased_shape topk capacity max_token" "ws_wf max_token w"
    and "cache_ok topk capacity max_token r" "tokens_distinct max_token (topk_indices r)" "topk \<le> capacity"
  shows "\<exists>r' w'. phased_row m topk capacity max_token row (r, w) = Some (r', w') \<and> ws_wf max_token w' \<and>
    cache_ok topk capacity max_token r' \<and>
    (\<forall>p. int p < topk \<and> tok_ok max_token (topk_indices r ! p) \<longrightarrow>
       slot_ok capacity (current_slots r' ! p) \<and>
       slot_to_token r' ! nat (current_slots r' ! p) = topk_indices r ! p)"
  by (rule phased.run_resident [OF TrueI assms])

theorem phased_topk_resident_witness:
  "\<exists>r' w'. phased_row example_simt 2 3 5 0 (example_row, example_ws) = Some (r', w') \<and> ws_wf 5 w' \<and>
    cache_ok 2 3 5 r' \<and>
    (\<forall>p. int p < 2 \<and> tok_ok 5 (topk_indices example_row ! p) \<longrightarrow>
       slot_ok 3 (current_slots r' ! p) \<and>
       slot_to_token r' ! nat (current_slots r' ! p) = topk_indices example_row ! p)"
  by (rule phased_topk_resident) (simp_all add: example_wf cache_ok_def phased_shape_def)

text \<open>C8. The replacement policy is LRU: the slots not used by the call keep their order at the old end,
  the slots given to misses were the oldest ones without a Top-K token, and the slots that were hit move
  to the recent end in their old order.\<close>

theorem phased_lru_policy:
  assumes "simt_ok m" "phased_shape topk capacity max_token" "ws_wf max_token w"
    and "cache_ok topk capacity max_token r"
  shows "\<exists>r' w' assigned. phased_row m topk capacity max_token row (r, w) = Some (r', w') \<and>
    assigned = take (nat (miss_count r')) (miss_slots r') \<and>
    lru_slots r' = filter (\<lambda>s. s \<notin> set (current_slots r')) (sp_lru capacity r) @ assigned @
      filter (was_hit capacity max_token r) (sp_lru capacity r) \<and>
    filter (\<lambda>s. \<not> was_hit capacity max_token r s) (sp_lru capacity r) =
      assigned @ filter (\<lambda>s. s \<notin> set (current_slots r')) (sp_lru capacity r)"
  by (rule phased.run_policy [OF TrueI assms])

theorem phased_lru_policy_witness:
  "\<exists>r' w' assigned. phased_row example_simt 2 3 5 0 (example_row, example_ws) = Some (r', w') \<and>
    assigned = take (nat (miss_count r')) (miss_slots r') \<and>
    lru_slots r' = filter (\<lambda>s. s \<notin> set (current_slots r')) (sp_lru 3 example_row) @ assigned @
      filter (was_hit 3 5 example_row) (sp_lru 3 example_row) \<and>
    filter (\<lambda>s. \<not> was_hit 3 5 example_row s) (sp_lru 3 example_row) =
      assigned @ filter (\<lambda>s. s \<notin> set (current_slots r')) (sp_lru 3 example_row)"
  by (rule phased_lru_policy) (simp_all add: example_wf cache_ok_def phased_shape_def)

text \<open>A whole sequence of decoding steps of a request row runs through, equals the repeated
  specification and keeps the cache invariant.\<close>

theorem phased_decode_run:
  assumes "simt_ok m" "phased_shape topk capacity max_token" "ws_wf max_token w"
    and "cache_ok topk capacity max_token r" "list_all (input_ok topk max_token) ds"
  shows "\<exists>w'. decode (phased_row m topk capacity max_token row) ds (r, w) = Some (decode_spec capacity max_token ds r, w') \<and>
    ws_wf max_token w' \<and> cache_ok topk capacity max_token (decode_spec capacity max_token ds r)"
  by (rule phased.decode_run [OF TrueI assms])

theorem phased_decode_witness:
  "\<exists>w'. decode (phased_row example_simt 2 3 5 0) example_inputs (example_row, example_ws) =
      Some (decode_spec 3 5 example_inputs example_row, w') \<and>
    ws_wf 5 w' \<and> cache_ok 2 3 5 (decode_spec 3 5 example_inputs example_row)"
  by (rule phased_decode_run) (simp_all add: example_wf cache_ok_def phased_shape_def example_inputs_ok)

end
