(* ===== verification/Lru_Legacy.thy ===== *)
theory Lru_Legacy
  imports Lru_Compact_Simt
begin

text \<open>
  The legacy Compact kernel \<^verbatim>\<open>OffloadLruCompactLegacySimtOps\<close> of
  \<^verbatim>\<open>src/src/acc_offload/csrc/operators/acc_offload_lru_compact_simt.cpp\<close>, one thread per row with nested
  scans, which the launcher falls back to when the phased kernels do not fit, and the launcher's choice
  between them. On a well-formed cache with distinct Top-K tokens it computes \<open>compact_spec\<close> too, except
  that it clears the miss tokens it could not place; in both its variants, with the scratch array of its
  workspace slice and, for \<open>capacity > max_token\<close>, with repeated searches and an insertion sort.
\<close>

section \<open>Loops with an early exit\<close>

text \<open>\<open>find_first is P\<close>: the first index whose test holds, the loops that end with \<^verbatim>\<open>break\<close> at the first
  match. \<open>for_break is f s\<close>: the body says whether it breaks.\<close>

fun find_first :: "'i list \<Rightarrow> ('i \<Rightarrow> bool option) \<Rightarrow> 'i option option" where
  "find_first [] P = Some None"
| "find_first (i # is) P = do { b \<leftarrow> P i; if b then Some (Some i) else find_first is P }"

fun for_break :: "'i list \<Rightarrow> ('i \<Rightarrow> 's \<Rightarrow> ('s \<times> bool) option) \<Rightarrow> 's \<Rightarrow> 's option" where
  "for_break [] f s = Some s"
| "for_break (i # is) f s = do { (s, stop) \<leftarrow> f i s; if stop then Some s else for_break is f s }"

section \<open>The kernel\<close>

definition legacy_clear :: "int \<Rightarrow> lru_row \<Rightarrow> lru_row option" where
  "legacy_clear topk r = for_each [0..<nat topk] (\<lambda>pos r. do {
     r \<leftarrow> put_current_slots r (int pos) LRU_INVALID_TOKEN;
     r \<leftarrow> put_miss_tokens r (int pos) LRU_INVALID_TOKEN;
     put_miss_slots r (int pos) LRU_INVALID_TOKEN }) r"

definition legacy_reset :: "int \<Rightarrow> lru_row \<Rightarrow> lru_row option" where
  "legacy_reset capacity r =
     (if last_req_id r \<noteq> req_id r then do {
        r \<leftarrow> for_each [0..<nat capacity] (\<lambda>slot r. do {
          r \<leftarrow> put_slot_to_token r (int slot) LRU_INVALID_TOKEN;
          put_lru_slots r (int slot) (int slot) }) r;
        Some (r\<lparr>last_req_id := req_id r\<rparr>) }
      else Some r)"

definition legacy_invalidate :: "int \<Rightarrow> int \<Rightarrow> lru_row \<Rightarrow> lru_row option" where
  "legacy_invalidate capacity max_token r = do {
     let stable = clamp_prefix max_token (stable_prefix_len r);
     for_each [0..<nat capacity] (\<lambda>slot r. do {
       token \<leftarrow> rd (slot_to_token r) (int slot);
       if token \<ge> 0 \<and> token < max_token \<and> token \<ge> stable
       then put_slot_to_token r (int slot) LRU_INVALID_TOKEN else Some r }) r }"

text \<open>The scan of the old order. The workspace \<open>mark\<close> is the whole \<^verbatim>\<open>token_mark_workspace\<close>, the scratch of
  the thread starts at \<open>base\<close>.\<close>

definition legacy_match :: "int \<Rightarrow> int \<Rightarrow> int \<Rightarrow> lru_row \<Rightarrow> (lru_row \<times> bool) option" where
  "legacy_match topk slot resident_token r =
     for_each [0..<nat topk] (\<lambda>pos (r, hit). do {
       t \<leftarrow> rd (topk_indices r) (int pos);
       if t = resident_token then do { r \<leftarrow> put_current_slots r (int pos) slot; Some (r, True) }
       else Some (r, hit) }) (r, False)"

definition legacy_scan ::
  "int \<Rightarrow> int \<Rightarrow> int \<Rightarrow> bool \<Rightarrow> int \<Rightarrow> lru_row \<times> int list \<Rightarrow> (lru_row \<times> int list \<times> int) option" where
  "legacy_scan topk capacity max_token has_scratch base = (\<lambda>(r, mark).
     for_each [0..<nat capacity] (\<lambda>order (r, mark, evictable_count). do {
       slot \<leftarrow> rd (lru_slots r) (int order);
       if slot < 0 \<or> slot \<ge> capacity then Some (r, mark, evictable_count)
       else do {
         resident_token \<leftarrow> rd (slot_to_token r) slot;
         (r, hit) \<leftarrow> (if resident_token \<ge> 0 \<and> resident_token < max_token
                     then legacy_match topk slot resident_token r else Some (r, False));
         if \<not> hit then do {
           mark \<leftarrow> (if has_scratch then wr mark (base + evictable_count) slot else Some mark);
           Some (r, mark, evictable_count + 1) }
         else Some (r, mark, evictable_count) } }) (r, mark, 0))"

definition legacy_misses :: "int \<Rightarrow> int \<Rightarrow> lru_row \<Rightarrow> (lru_row \<times> int) option" where
  "legacy_misses topk max_token r =
     for_each [0..<nat topk] (\<lambda>pos (r, local_miss_count). do {
       token \<leftarrow> rd (topk_indices r) (int pos);
       cur \<leftarrow> rd (current_slots r) (int pos);
       if token < 0 \<or> token \<ge> max_token \<or> cur \<ge> 0 then Some (r, local_miss_count)
       else do {
         duplicate \<leftarrow> find_first [0..<pos] (\<lambda>prior. do { t \<leftarrow> rd (topk_indices r) (int prior); Some (t = token) });
         if duplicate = None then do {
           r \<leftarrow> put_miss_tokens r local_miss_count token;
           r \<leftarrow> put_miss_slots r local_miss_count (int pos);
           Some (r, local_miss_count + 1) }
         else Some (r, local_miss_count) } }) (r, 0)"

text \<open>The search for a slot without scratch: the oldest slot no Top-K position uses.\<close>

definition legacy_candidate :: "int \<Rightarrow> int \<Rightarrow> lru_row \<Rightarrow> int option" where
  "legacy_candidate topk capacity r = do {
     order \<leftarrow> find_first [0..<nat capacity] (\<lambda>order. do {
       candidate \<leftarrow> rd (lru_slots r) (int order);
       if candidate < 0 \<or> candidate \<ge> capacity then Some False
       else do {
         protected_slot \<leftarrow> find_first [0..<nat topk] (\<lambda>pos. do { c \<leftarrow> rd (current_slots r) (int pos); Some (c = candidate) });
         Some (protected_slot = None) } });
     case order of None \<Rightarrow> Some LRU_INVALID_TOKEN | Some order \<Rightarrow> rd (lru_slots r) (int order) }"

definition legacy_assign ::
  "int \<Rightarrow> int \<Rightarrow> bool \<Rightarrow> int \<Rightarrow> int list \<Rightarrow> int \<Rightarrow> int \<Rightarrow> lru_row \<Rightarrow> (lru_row \<times> int) option" where
  "legacy_assign topk capacity has_scratch base mark evictable_count local_miss_count r =
     for_break [0..<nat local_miss_count] (\<lambda>miss_idx (r, assign_count). do {
       chosen_slot \<leftarrow> (if has_scratch
         then (if int miss_idx < evictable_count then rd mark (base + int miss_idx) else Some LRU_INVALID_TOKEN)
         else legacy_candidate topk capacity r);
       if chosen_slot < 0 then Some ((r, assign_count), True)
       else do {
         token \<leftarrow> rd (miss_tokens r) (int miss_idx);
         pos \<leftarrow> rd (miss_slots r) (int miss_idx);
         r \<leftarrow> put_current_slots r pos chosen_slot;
         r \<leftarrow> put_miss_slots r (int miss_idx) chosen_slot;
         Some ((r, assign_count + 1), False) } }) (r, 0)"

definition legacy_propagate :: "int \<Rightarrow> lru_row \<Rightarrow> lru_row option" where
  "legacy_propagate topk r =
     for_each [0..<nat topk] (\<lambda>pos r. do {
       cur \<leftarrow> rd (current_slots r) (int pos);
       if cur \<ge> 0 then Some r
       else do {
         token \<leftarrow> rd (topk_indices r) (int pos);
         prior \<leftarrow> find_first [0..<pos] (\<lambda>prior. do {
           t \<leftarrow> rd (topk_indices r) (int prior);
           c \<leftarrow> rd (current_slots r) (int prior);
           Some (t = token \<and> c \<ge> 0) });
         case prior of None \<Rightarrow> Some r
         | Some prior \<Rightarrow> do { c \<leftarrow> rd (current_slots r) (int prior); put_current_slots r (int pos) c } } }) r"

definition legacy_trim :: "int \<Rightarrow> int \<Rightarrow> lru_row \<Rightarrow> lru_row option" where
  "legacy_trim topk assign_count r =
     for_each [nat assign_count..<nat topk] (\<lambda>i r. do {
       r \<leftarrow> put_miss_tokens r (int i) LRU_INVALID_TOKEN;
       put_miss_slots r (int i) LRU_INVALID_TOKEN }) r"

text \<open>The order with scratch: hits from the back, then the slots of the scratch, then the assigned ones.\<close>

definition legacy_tail :: "int \<Rightarrow> int \<Rightarrow> lru_row \<Rightarrow> (lru_row \<times> int) option" where
  "legacy_tail topk capacity r =
     for_each (rev [0..<nat capacity]) (\<lambda>order (r, write_pos). do {
       slot \<leftarrow> rd (lru_slots r) (int order);
       if slot < 0 \<or> slot \<ge> capacity then Some (r, write_pos)
       else do {
         token \<leftarrow> rd (slot_to_token r) slot;
         hit \<leftarrow> find_first [0..<nat topk] (\<lambda>pos. do {
           t \<leftarrow> rd (topk_indices r) (int pos); Some (token \<ge> 0 \<and> token = t) });
         if hit \<noteq> None then do { r \<leftarrow> put_lru_slots r write_pos slot; Some (r, write_pos - 1) }
         else Some (r, write_pos) } }) (r, capacity - 1)"

definition legacy_front :: "int \<Rightarrow> int list \<Rightarrow> int \<Rightarrow> int \<Rightarrow> lru_row \<Rightarrow> (lru_row \<times> int) option" where
  "legacy_front base mark evictable_count assign_count r = do {
     (r, output) \<leftarrow> for_each [nat assign_count..<nat evictable_count] (\<lambda>i (r, output). do {
       v \<leftarrow> rd mark (base + int i); r \<leftarrow> put_lru_slots r output v; Some (r, output + 1) }) (r, 0);
     for_each [0..<nat assign_count] (\<lambda>i (r, output). do {
       v \<leftarrow> rd (miss_slots r) (int i); r \<leftarrow> put_lru_slots r output v; Some (r, output + 1) }) (r, output) }"

text \<open>The order without scratch: insertion sort by category.\<close>

definition legacy_category :: "int \<Rightarrow> int \<Rightarrow> lru_row \<Rightarrow> int \<Rightarrow> int option" where
  "legacy_category topk assign_count r key_slot = do {
     m \<leftarrow> find_first [0..<nat assign_count] (\<lambda>m. do { s \<leftarrow> rd (miss_slots r) (int m); Some (s = key_slot) });
     if m \<noteq> None then Some 1
     else do {
       pos \<leftarrow> find_first [0..<nat topk] (\<lambda>pos. do { c \<leftarrow> rd (current_slots r) (int pos); Some (c = key_slot) });
       Some (if pos \<noteq> None then 2 else 0) } }"

text \<open>The \<^verbatim>\<open>while\<close> loop with \<^verbatim>\<open>j + 1\<close> as its counter.\<close>

fun legacy_shift :: "int \<Rightarrow> int \<Rightarrow> int \<Rightarrow> nat \<Rightarrow> lru_row \<Rightarrow> (nat \<times> lru_row) option" where
  "legacy_shift topk assign_count key_category 0 r = Some (0, r)"
| "legacy_shift topk assign_count key_category (Suc j) r = do {
     prior_slot \<leftarrow> rd (lru_slots r) (int j);
     prior_category \<leftarrow> legacy_category topk assign_count r prior_slot;
     if prior_category \<le> key_category then Some (Suc j, r)
     else do {
       r \<leftarrow> put_lru_slots r (int j + 1) prior_slot;
       legacy_shift topk assign_count key_category j r } }"

definition legacy_sort :: "int \<Rightarrow> int \<Rightarrow> int \<Rightarrow> lru_row \<Rightarrow> lru_row option" where
  "legacy_sort topk capacity assign_count r =
     for_each [1..<nat capacity] (\<lambda>i r. do {
       key_slot \<leftarrow> rd (lru_slots r) (int i);
       key_category \<leftarrow> legacy_category topk assign_count r key_slot;
       (j, r) \<leftarrow> legacy_shift topk assign_count key_category i r;
       put_lru_slots r (int j) key_slot }) r"

definition legacy_store :: "int \<Rightarrow> lru_row \<Rightarrow> lru_row option" where
  "legacy_store assign_count r =
     for_each [0..<nat assign_count] (\<lambda>i r. do {
       s \<leftarrow> rd (miss_slots r) (int i);
       t \<leftarrow> rd (miss_tokens r) (int i);
       put_slot_to_token r s t }) r"

definition legacy_row :: "int \<Rightarrow> int \<Rightarrow> int \<Rightarrow> int \<Rightarrow> lru_row \<times> int list \<Rightarrow> (lru_row \<times> int list) option" where
  "legacy_row topk capacity max_token base = (\<lambda>(r, mark). do {
     let has_scratch = (capacity \<le> max_token);
     r \<leftarrow> legacy_clear topk r;
     r \<leftarrow> legacy_reset capacity r;
     r \<leftarrow> legacy_invalidate capacity max_token r;
     (r, mark, evictable_count) \<leftarrow> legacy_scan topk capacity max_token has_scratch base (r, mark);
     (r, local_miss_count) \<leftarrow> legacy_misses topk max_token r;
     (r, assign_count) \<leftarrow> legacy_assign topk capacity has_scratch base mark evictable_count local_miss_count r;
     r \<leftarrow> legacy_propagate topk r;
     r \<leftarrow> legacy_trim topk assign_count r;
     r \<leftarrow> (if has_scratch then do {
            (r, write_pos) \<leftarrow> legacy_tail topk capacity r;
            (r, output) \<leftarrow> legacy_front base mark evictable_count assign_count r;
            Some r }
          else legacy_sort topk capacity assign_count r);
     r \<leftarrow> legacy_store assign_count r;
     Some (r\<lparr>miss_count := assign_count\<rparr>, mark) })"

text \<open>One thread: its block and thread index, the rows it owns, and the launch.\<close>

definition OffloadLruCompactLegacySimtOps ::
  "nat \<Rightarrow> nat \<Rightarrow> int \<Rightarrow> int \<Rightarrow> int \<Rightarrow> int \<Rightarrow> nat \<Rightarrow> lru_row list \<times> int list \<Rightarrow> (lru_row list \<times> int list) option" where
  "OffloadLruCompactLegacySimtOps grid_dim block_dim num_reqs topk capacity max_token thread st =
     (let block_idx = thread mod grid_dim; thread_idx = thread div grid_dim; row_stride = grid_dim * block_dim in
      if topk \<le> 0 \<or> capacity \<le> 0 \<or> max_token \<le> 0 then
        for_each (lane_items thread row_stride (nat num_reqs)) (\<lambda>row (rows, mark). do {
          r \<leftarrow> rd rows (int row);
          rows \<leftarrow> wr rows (int row) (r\<lparr>miss_count := 0\<rparr>);
          Some (rows, mark) }) st
      else
        for_each (lane_items thread row_stride (nat num_reqs)) (\<lambda>row (rows, mark). do {
          r \<leftarrow> rd rows (int row);
          (r, mark) \<leftarrow> legacy_row topk capacity max_token
            (int block_idx * max_token + int thread_idx * capacity) (r, mark);
          rows \<leftarrow> wr rows (int row) r;
          Some (rows, mark) }) st)"

definition LRU_COMPACT_MAX_GRID_DIM :: nat where "LRU_COMPACT_MAX_GRID_DIM = 8"

definition LaunchLegacyLruCompact ::
  "simt \<Rightarrow> nat \<Rightarrow> int \<Rightarrow> int \<Rightarrow> int \<Rightarrow> int \<Rightarrow> lru_row list \<times> int list \<Rightarrow> (lru_row list \<times> int list) option" where
  "LaunchLegacyLruCompact m p num_reqs topk capacity max_token st = do {
     let grid_dim = (if num_reqs > int LRU_COMPACT_MAX_GRID_DIM then LRU_COMPACT_MAX_GRID_DIM
                     else if num_reqs > 0 then nat num_reqs else 1);
     let threads_per_block = (if capacity > 0 \<and> max_token \<ge> capacity
       then (let workspace_threads = max_token div capacity in
             if workspace_threads > int LRU_COMPACT_MAX_THREADS_PER_BLOCK then LRU_COMPACT_MAX_THREADS_PER_BLOCK
             else nat workspace_threads)
       else 1);
     par_for m p (grid_dim * threads_per_block) (grid_dim * threads_per_block)
       (OffloadLruCompactLegacySimtOps grid_dim threads_per_block num_reqs topk capacity max_token) st }"


section \<open>Correctness of the loops\<close>

lemma find_first_find:
  "(\<And>i. i \<in> set is \<Longrightarrow> P i = Some (Q i)) \<Longrightarrow> find_first is P = Some (List.find Q is)"
  by (induction "is") simp_all

lemma find_upt_None: "List.find Q [0..<n] = None \<longleftrightarrow> (\<forall>i < n. \<not> Q i)"
  by (auto simp: find_None_iff)

lemma find_index:
  "(\<And>i. i < n \<Longrightarrow> P i = Some (Q i)) \<Longrightarrow> find_first [0..<n] P = Some (List.find Q [0..<n])"
  by (rule find_first_find) simp

lemma find_index_None:
  "n = length xs \<Longrightarrow> List.find (\<lambda>i. Q (xs ! i)) [0..<n] = None \<longleftrightarrow> (\<forall>x \<in> set xs. \<not> Q x)"
  by (simp add: find_upt_None all_set_conv_all_nth)

lemma for_break_upt:
  assumes "i \<le> n" "n \<le> N"
    and "\<And>i. i < n \<Longrightarrow> f i (g i) = Some (g (Suc i), False)"
    and "n < N \<Longrightarrow> f n (g n) = Some (g n, True)"
  shows "for_break [i..<N] f (g i) = Some (g n)"
  using assms(1)
proof (induction rule: inc_induct)
  case base
  then show ?case using assms(2,4) by (cases "n < N") (simp_all add: upt_rec)
next
  case (step k)
  then show ?case using assms(2,3) by (simp add: upt_rec)
qed

text \<open>The state of a row from the scan on: the lists it works with.\<close>

definition scanned :: "lru_row \<Rightarrow> int list \<Rightarrow> int list \<Rightarrow> int list \<Rightarrow> int list \<Rightarrow> int list \<Rightarrow> lru_row" where
  "scanned r s2t lru cur mt ms = r\<lparr>last_req_id := req_id r, slot_to_token := s2t, lru_slots := lru, current_slots := cur,
     miss_tokens := mt, miss_slots := ms\<rparr>"

lemma scanned_fields [simp]:
  "topk_indices (scanned r s2t lru cur mt ms) = topk_indices r" "slot_to_token (scanned r s2t lru cur mt ms) = s2t"
  "lru_slots (scanned r s2t lru cur mt ms) = lru" "current_slots (scanned r s2t lru cur mt ms) = cur"
  "miss_tokens (scanned r s2t lru cur mt ms) = mt" "miss_slots (scanned r s2t lru cur mt ms) = ms"
  by (simp_all add: scanned_def)

lemma scanned_put:
  "put_slot_to_token (scanned r s2t lru cur mt ms) i v = map_option (\<lambda>a. scanned r a lru cur mt ms) (wr s2t i v)"
  "put_lru_slots (scanned r s2t lru cur mt ms) i v = map_option (\<lambda>a. scanned r s2t a cur mt ms) (wr lru i v)"
  "put_current_slots (scanned r s2t lru cur mt ms) i v = map_option (\<lambda>a. scanned r s2t lru a mt ms) (wr cur i v)"
  "put_miss_tokens (scanned r s2t lru cur mt ms) i v = map_option (\<lambda>a. scanned r s2t lru cur a ms) (wr mt i v)"
  "put_miss_slots (scanned r s2t lru cur mt ms) i v = map_option (\<lambda>a. scanned r s2t lru cur mt a) (wr ms i v)"
  by (simp_all add: put_defs scanned_def wr_def)

lemma replicate_overwrite: "length xs = n \<Longrightarrow> overwrite {..<n} (\<lambda>_. v) xs = replicate n v"
  by (simp add: overwrite_all map_replicate_const)

lemma legacy_clear_eq:
  assumes "row_wf topk capacity r"
  shows "legacy_clear topk r = Some (r\<lparr>current_slots := replicate (nat topk) (- 1), miss_tokens := replicate (nat topk) (- 1),
     miss_slots := replicate (nat topk) (- 1)\<rparr>)"
proof -
  let ?f = "\<lambda>k. overwrite {..<k} (\<lambda>_. - 1)"
  have len: "length (current_slots r) = nat topk" "length (miss_tokens r) = nat topk" "length (miss_slots r) = nat topk"
    using assms by (auto simp: row_wf_def)
  have "legacy_clear topk r = Some (r\<lparr>current_slots := ?f (nat topk) (current_slots r),
      miss_tokens := ?f (nat topk) (miss_tokens r), miss_slots := ?f (nat topk) (miss_slots r)\<rparr>)"
    unfolding legacy_clear_def
    by (rule for_each_upt_eq [where g = "\<lambda>k. r\<lparr>current_slots := ?f k (current_slots r),
        miss_tokens := ?f k (miss_tokens r), miss_slots := ?f k (miss_slots r)\<rparr>"])
      (use len in \<open>simp_all add: put_defs LRU_INVALID_TOKEN_def overwrite_insert lessThan_Suc\<close>)
  then show ?thesis using len by (simp add: replicate_overwrite)
qed

lemma legacy_reset_eq:
  assumes "row_wf topk capacity r"
  shows "legacy_reset capacity r = Some (r\<lparr>last_req_id := req_id r, slot_to_token := sp_slots capacity r, lru_slots := sp_lru capacity r\<rparr>)"
proof (cases "last_req_id r = req_id r")
  case False
  let ?f = "\<lambda>k. overwrite {..<k} (\<lambda>_. - 1)" and ?g = "\<lambda>k. overwrite {..<k} int"
  have len: "length (slot_to_token r) = nat capacity" "length (lru_slots r) = nat capacity"
    using assms by (auto simp: row_wf_def)
  have "for_each [0..<nat capacity] (\<lambda>slot r. do {
          r \<leftarrow> put_slot_to_token r (int slot) LRU_INVALID_TOKEN;
          put_lru_slots r (int slot) (int slot) }) r =
      Some (r\<lparr>slot_to_token := ?f (nat capacity) (slot_to_token r), lru_slots := ?g (nat capacity) (lru_slots r)\<rparr>)"
    by (rule for_each_upt_eq [where g = "\<lambda>k. r\<lparr>slot_to_token := ?f k (slot_to_token r), lru_slots := ?g k (lru_slots r)\<rparr>"])
      (use len in \<open>simp_all add: put_defs LRU_INVALID_TOKEN_def overwrite_insert lessThan_Suc\<close>)
  then show ?thesis
    using False len by (simp add: legacy_reset_def sp_slots_def sp_lru_def replicate_overwrite overwrite_all)
qed (simp add: legacy_reset_def sp_slots_def sp_lru_def)

lemma legacy_invalidate_eq:
  assumes "int (length (slot_to_token r)) = capacity"
  shows "legacy_invalidate capacity max_token r =
    Some (r\<lparr>slot_to_token := sp_invalidate max_token (clamp_prefix max_token (stable_prefix_len r)) (slot_to_token r)\<rparr>)"
proof -
  let ?c = "clamp_prefix max_token (stable_prefix_len r)"
  let ?h = "\<lambda>i. if tok_ok max_token (slot_to_token r ! i) \<and> slot_to_token r ! i \<ge> ?c then - 1 else slot_to_token r ! i"
  let ?g = "\<lambda>k. r\<lparr>slot_to_token := overwrite {..<k} ?h (slot_to_token r)\<rparr>"
  have "legacy_invalidate capacity max_token r = Some (?g (nat capacity))"
    unfolding legacy_invalidate_def Let_def
  proof (rule for_each_upt_eq [where g = ?g])
    show "r = ?g 0" by simp
    fix i assume "i < nat capacity"
    then have i: "i < length (slot_to_token r)" using assms by simp
    then show "do { token \<leftarrow> rd (slot_to_token (?g i)) (int i);
        if token \<ge> 0 \<and> token < max_token \<and> token \<ge> ?c
        then put_slot_to_token (?g i) (int i) LRU_INVALID_TOKEN else Some (?g i) } = Some (?g (Suc i))"
      by (auto simp: put_defs tok_ok_def LRU_INVALID_TOKEN_def overwrite_insert overwrite_insert_same lessThan_Suc Let_def)
  qed
  moreover have "overwrite {..<nat capacity} ?h (slot_to_token r) = sp_invalidate max_token ?c (slot_to_token r)"
    using assms by (intro nth_equalityI) (auto simp: sp_invalidate_def)
  ultimately show ?thesis by simp
qed

text \<open>The inputs of a row, after clearing, reset and invalidation.\<close>

definition in_slots :: "int \<Rightarrow> int \<Rightarrow> lru_row \<Rightarrow> int list" where
  "in_slots capacity max_token r =
     sp_invalidate max_token (clamp_prefix max_token (stable_prefix_len r)) (sp_slots capacity r)"

lemma legacy_prepare:
  assumes "row_wf topk capacity r"
  shows "do { r \<leftarrow> legacy_clear topk r; r \<leftarrow> legacy_reset capacity r; legacy_invalidate capacity max_token r } =
    Some (scanned r (in_slots capacity max_token r) (sp_lru capacity r) (replicate (nat topk) (- 1))
      (replicate (nat topk) (- 1)) (replicate (nat topk) (- 1)))"
proof -
  let ?r = "r\<lparr>current_slots := replicate (nat topk) (- 1), miss_tokens := replicate (nat topk) (- 1),
     miss_slots := replicate (nat topk) (- 1)\<rparr>"
  have wf: "row_wf topk capacity ?r" using assms by (auto simp: row_wf_def)
  have sp: "sp_slots capacity ?r = sp_slots capacity r" "sp_lru capacity ?r = sp_lru capacity r"
    by (simp_all add: sp_slots_def sp_lru_def)
  have "int (length (sp_slots capacity r)) = capacity" using assms by (auto simp: row_wf_def)
  then show ?thesis
    using legacy_clear_eq [OF assms] legacy_reset_eq [OF wf] sp
    by (simp add: legacy_invalidate_eq scanned_def in_slots_def)
qed


section \<open>The scan of the old order\<close>

text \<open>\<open>placed b xs m\<close> is \<open>m\<close> with \<open>xs\<close> stored from index \<open>b\<close> on.\<close>

definition placed :: "nat \<Rightarrow> 'a list \<Rightarrow> 'a list \<Rightarrow> 'a list" where
  "placed b xs m = take b m @ xs @ drop (b + length xs) m"

lemma placed_Nil [simp]: "placed b [] m = m"
  by (simp add: placed_def)

lemma length_placed [simp]: "b + length xs \<le> length m \<Longrightarrow> length (placed b xs m) = length m"
  by (simp add: placed_def)

lemma placed_write:
  assumes "b + length xs < length m"
  shows "wr (placed b xs m) (int b + int (length xs)) v = Some (placed b (xs @ [v]) m)"
proof -
  have "drop (b + length xs) m = m ! (b + length xs) # drop (Suc (b + length xs)) m"
    using assms by (simp add: Cons_nth_drop_Suc)
  then have "(placed b xs m)[b + length xs := v] = placed b (xs @ [v]) m"
    using assms by (simp add: placed_def list_update_append)
  moreover have "wr (placed b xs m) (int (b + length xs)) v = Some ((placed b xs m)[b + length xs := v])"
    using assms by (simp only: wr_int) simp
  ultimately show ?thesis by (simp only: of_nat_add)
qed

lemma placed_read:
  assumes "b + length xs \<le> length m" "i < length xs"
  shows "rd (placed b xs m) (int b + int i) = Some (xs ! i)"
proof -
  have "rd (placed b xs m) (int (b + i)) = Some (placed b xs m ! (b + i))" using assms by (simp only: rd_int) simp
  moreover have "placed b xs m ! (b + i) = xs ! i" using assms by (simp add: placed_def nth_append)
  ultimately show ?thesis by (simp only: of_nat_add)
qed

lemma legacy_match_eq:
  assumes "length cur = nat topk" "length (topk_indices r) = nat topk"
  shows "legacy_match topk slot t (scanned r s2t lru cur mt ms) =
    Some (scanned r s2t lru (overwrite {pos. topk_indices r ! pos = t} (\<lambda>_. slot) cur) mt ms, t \<in> set (topk_indices r))"
proof -
  let ?P = "\<lambda>k. {pos. pos < k \<and> topk_indices r ! pos = t}"
  have "legacy_match topk slot t (scanned r s2t lru cur mt ms) =
      Some (scanned r s2t lru (overwrite (?P (nat topk)) (\<lambda>_. slot) cur) mt ms, ?P (nat topk) \<noteq> {})"
    unfolding legacy_match_def
  proof (rule for_each_upt_eq [where g = "\<lambda>k. (scanned r s2t lru (overwrite (?P k) (\<lambda>_. slot) cur) mt ms, ?P k \<noteq> {})"])
    fix k assume k: "k < nat topk"
    have "?P (Suc k) = (if topk_indices r ! k = t then insert k (?P k) else ?P k)" by (auto simp: less_Suc_eq)
    then show "(case (scanned r s2t lru (overwrite (?P k) (\<lambda>_. slot) cur) mt ms, ?P k \<noteq> {}) of (r, hit) \<Rightarrow> do {
        t' \<leftarrow> rd (topk_indices r) (int k);
        if t' = t then do { r \<leftarrow> put_current_slots r (int k) slot; Some (r, True) } else Some (r, hit) }) =
      Some (scanned r s2t lru (overwrite (?P (Suc k)) (\<lambda>_. slot) cur) mt ms, ?P (Suc k) \<noteq> {})"
      using k assms by (simp add: scanned_put overwrite_insert)
  qed simp
  moreover have "overwrite (?P (nat topk)) (\<lambda>_. slot) cur = overwrite {pos. topk_indices r ! pos = t} (\<lambda>_. slot) cur"
    using assms by (intro nth_equalityI) simp_all
  moreover have "?P (nat topk) \<noteq> {} \<longleftrightarrow> t \<in> set (topk_indices r)" using assms(2) by (auto simp: in_set_conv_nth)
  ultimately show ?thesis by simp
qed

text \<open>What the scan has resolved: all positions of a token, not only the first.\<close>

definition all_current :: "int \<Rightarrow> int \<Rightarrow> int list \<Rightarrow> int list \<Rightarrow> int list \<Rightarrow> int list" where
  "all_current max_token capacity tks s2t lru =
     map (\<lambda>t. if tok_ok max_token t then last_slot capacity s2t t lru else - 1) tks"

lemma all_current_Nil: "all_current max_token capacity tks s2t [] = replicate (length tks) (- 1)"
  by (rule nth_equalityI) (simp_all add: all_current_def)

lemma all_current_snoc:
  assumes "slot_ok capacity s"
  shows "all_current max_token capacity tks s2t (lru @ [s]) =
    (if sp_hit max_token capacity tks s2t s
     then overwrite {pos. tks ! pos = s2t ! nat s} (\<lambda>_. s) (all_current max_token capacity tks s2t lru)
     else all_current max_token capacity tks s2t lru)"
proof (rule nth_equalityI)
  fix i assume "i < length (all_current max_token capacity tks s2t (lru @ [s]))"
  then have i: "i < length tks" by (simp add: all_current_def)
  then have "tks ! i \<in> set tks" by simp
  then show "all_current max_token capacity tks s2t (lru @ [s]) ! i =
    (if sp_hit max_token capacity tks s2t s
     then overwrite {pos. tks ! pos = s2t ! nat s} (\<lambda>_. s) (all_current max_token capacity tks s2t lru)
     else all_current max_token capacity tks s2t lru) ! i"
    using i assms by (auto simp: all_current_def last_slot_snoc sp_hit_def)
qed (simp add: all_current_def)

lemma all_current_distinct:
  assumes "tokens_distinct max_token tks"
  shows "all_current max_token capacity tks s2t lru = sp_current max_token capacity tks s2t lru"
proof (rule nth_equalityI)
  fix i assume "i < length (all_current max_token capacity tks s2t lru)"
  then have i: "i < length tks" by (simp add: all_current_def)
  have "first_pos tks (tks ! i) = i" if "tok_ok max_token (tks ! i)"
    using that i first_pos_less [of "tks ! i" tks] first_pos_nth [of "tks ! i" tks]
    by (intro tokens_distinctD [OF assms]) simp_all
  then show "all_current max_token capacity tks s2t lru ! i = sp_current max_token capacity tks s2t lru ! i"
    using i by (simp add: all_current_def sp_current_def)
qed (simp add: all_current_def)

lemma legacy_scan_eq:
  assumes len: "length (topk_indices r) = nat topk" "int (length s2t) = capacity" "lru_perm capacity lru"
    and scratch: "has_scratch \<Longrightarrow> b + nat capacity \<le> length mark"
  shows "legacy_scan topk capacity max_token has_scratch (int b)
      (scanned r s2t lru (replicate (nat topk) (- 1)) mt ms, mark) =
    Some (scanned r s2t lru (all_current max_token capacity (topk_indices r) s2t lru) mt ms,
      if has_scratch then placed b (sp_evictable max_token capacity (topk_indices r) s2t lru) mark else mark,
      int (length (sp_evictable max_token capacity (topk_indices r) s2t lru)))"
proof -
  let ?tks = "topk_indices r"
  let ?ev = "\<lambda>k. sp_evictable max_token capacity ?tks s2t (take k lru)"
  let ?cur = "\<lambda>k. all_current max_token capacity ?tks s2t (take k lru)"
  let ?mark = "\<lambda>k. if has_scratch then placed b (?ev k) mark else mark"
  let ?g = "\<lambda>k. (scanned r s2t lru (?cur k) mt ms, ?mark k, int (length (?ev k)))"
  have l: "length lru = nat capacity" by (rule lru_permD(3) [OF len(3)])
  have "legacy_scan topk capacity max_token has_scratch (int b)
      (scanned r s2t lru (replicate (nat topk) (- 1)) mt ms, mark) = Some (?g (nat capacity))"
    unfolding legacy_scan_def prod.case
  proof (rule for_each_upt_eq [where g = ?g])
    show "(scanned r s2t lru (replicate (nat topk) (- 1)) mt ms, mark, 0) = ?g 0"
      using len(1) by (simp add: all_current_Nil sp_evictable_def)
  next
    fix k assume k: "k < nat capacity"
    let ?s = "lru ! k"
    let ?t = "s2t ! nat ?s"
    have tk: "take (Suc k) lru = take k lru @ [?s]" using k l by (simp add: take_Suc_conv_app_nth)
    have ok: "slot_ok capacity ?s" using lru_permD(5) [OF len(3), of ?s] k l by simp
    then have s: "\<not> (?s < 0 \<or> ?s \<ge> capacity)" "rd s2t ?s = Some ?t" "rd lru (int k) = Some ?s"
      using len(2) k l by (auto simp: slot_ok_def rd_Some)
    have curlen: "length (?cur k) = nat topk" using len(1) by (simp add: all_current_def)
    have none: "overwrite {pos. ?tks ! pos = ?t} (\<lambda>_. ?s) (?cur k) = ?cur k" if "?t \<notin> set ?tks"
      using that curlen len(1) by (intro nth_equalityI) (auto simp: in_set_conv_nth)
    have m: "(if ?t \<ge> 0 \<and> ?t < max_token then legacy_match topk ?s ?t (scanned r s2t lru (?cur k) mt ms)
        else Some (scanned r s2t lru (?cur k) mt ms, False)) =
      Some (scanned r s2t lru (?cur (Suc k)) mt ms, sp_hit max_token capacity ?tks s2t ?s)"
      unfolding tk all_current_snoc [OF ok]
      using legacy_match_eq [OF curlen len(1), of ?s ?t s2t lru mt ms] ok none by (auto simp: sp_hit_def tok_ok_def)
    have "length (?ev k) \<le> k" using length_filter_le [of _ "take k lru"] k l by (simp add: sp_evictable_def min_def)
    then have room: "b + length (?ev k) < length mark" if has_scratch using scratch [OF that] k by linarith
    have ev: "?ev (Suc k) = ?ev k @ (if sp_hit max_token capacity ?tks s2t ?s then [] else [?s])"
      unfolding tk sp_evictable_snoc using ok by simp
    have w: "(if has_scratch then wr (?mark k) (int b + int (length (?ev k))) ?s else Some (?mark k)) = Some (?mark (Suc k))"
      if "\<not> sp_hit max_token capacity ?tks s2t ?s"
      using placed_write [of b "?ev k" mark ?s] room that ev by simp
    show "(case ?g k of (r, mark, evictable_count) \<Rightarrow> do {
       slot \<leftarrow> rd (lru_slots r) (int k);
       if slot < 0 \<or> slot \<ge> capacity then Some (r, mark, evictable_count)
       else do {
         resident_token \<leftarrow> rd (slot_to_token r) slot;
         (r, hit) \<leftarrow> (if resident_token \<ge> 0 \<and> resident_token < max_token
                     then legacy_match topk slot resident_token r else Some (r, False));
         if \<not> hit then do {
           mark \<leftarrow> (if has_scratch then wr mark (int b + evictable_count) slot else Some mark);
           Some (r, mark, evictable_count + 1) }
         else Some (r, mark, evictable_count) } }) = Some (?g (Suc k))"
    proof (cases "sp_hit max_token capacity ?tks s2t ?s")
      case True
      then show ?thesis
        using ev by (simp only: prod.case scanned_fields s Option.bind.bind_lunit if_False m simp_thms) simp
    next
      case False
      then show ?thesis
        using ev by (simp only: prod.case scanned_fields s Option.bind.bind_lunit if_False if_True m w [OF False] simp_thms) simp
    qed
  qed
  then show ?thesis using l by simp
qed


section \<open>Misses and their slots\<close>

lemma legacy_misses_eq:
  assumes "length (topk_indices r) = nat topk" "length cur = nat topk" "tokens_distinct max_token (topk_indices r)"
    and ms: "ms = sp_misses max_token (topk_indices r) cur"
  shows "legacy_misses topk max_token (scanned r s2t lru cur (replicate (nat topk) (- 1)) (replicate (nat topk) (- 1))) =
    Some (scanned r s2t lru cur (pad (nat topk) (- 1) (map ((!) (topk_indices r)) ms)) (pad (nat topk) (- 1) (map int ms)),
      int (length ms))"
proof -
  let ?tks = "topk_indices r"
  let ?ms = "\<lambda>k. filter (\<lambda>pos. tok_ok max_token (?tks ! pos) \<and> cur ! pos < 0) [0..<k]"
  let ?g = "\<lambda>k. (scanned r s2t lru cur (pad (nat topk) (- 1) (map ((!) ?tks) (?ms k))) (pad (nat topk) (- 1) (map int (?ms k))),
      int (length (?ms k)))"
  have "legacy_misses topk max_token (scanned r s2t lru cur (replicate (nat topk) (- 1)) (replicate (nat topk) (- 1))) =
      Some (?g (nat topk))"
    unfolding legacy_misses_def
  proof (rule for_each_upt_eq [where g = ?g])
    fix k assume k: "k < nat topk"
    let ?t = "?tks ! k"
    have le: "length (?ms k) < nat topk" 
      using k le_less_trans [OF length_filter_le [of "\<lambda>pos. tok_ok max_token (?tks ! pos) \<and> cur ! pos < 0" "[0..<k]"]] by simp
    have rds: "rd ?tks (int k) = Some ?t" "rd cur (int k) = Some (cur ! k)" using k assms(1,2) by simp_all
    have dup: "find_first [0..<k] (\<lambda>prior. do { t \<leftarrow> rd ?tks (int prior); Some (t = ?t) }) = Some None" if "tok_ok max_token ?t"
    proof -
      have "find_first [0..<k] (\<lambda>prior. do { t \<leftarrow> rd ?tks (int prior); Some (t = ?t) }) =
          Some (List.find (\<lambda>prior. ?tks ! prior = ?t) [0..<k])"
        by (rule find_first_find) (use k assms(1) in simp)
      moreover have "?tks ! i \<noteq> ?t" if "i < k" for i
      proof
        assume "?tks ! i = ?t"
        then have "k = i"
          using that k assms(1) \<open>tok_ok max_token ?t\<close> by (intro tokens_distinctD [OF assms(3), of k i]) simp_all
        then show False using that by simp
      qed
      then have "List.find (\<lambda>prior. ?tks ! prior = ?t) [0..<k] = None" by (simp add: find_upt_None)
      ultimately show ?thesis by simp
    qed
    show "(case ?g k of (r, local_miss_count) \<Rightarrow> do {
       token \<leftarrow> rd (topk_indices r) (int k);
       cur \<leftarrow> rd (current_slots r) (int k);
       if token < 0 \<or> token \<ge> max_token \<or> cur \<ge> 0 then Some (r, local_miss_count)
       else do {
         duplicate \<leftarrow> find_first [0..<k] (\<lambda>prior. do { t \<leftarrow> rd (topk_indices r) (int prior); Some (t = token) });
         if duplicate = None then do {
           r \<leftarrow> put_miss_tokens r local_miss_count token;
           r \<leftarrow> put_miss_slots r local_miss_count (int k);
           Some (r, local_miss_count + 1) }
         else Some (r, local_miss_count) } }) = Some (?g (Suc k))"
    proof (cases "tok_ok max_token ?t \<and> cur ! k < 0")
      case True
      then have "\<not> (?t < 0 \<or> ?t \<ge> max_token \<or> cur ! k \<ge> 0)" by (auto simp: tok_ok_def)
      moreover have "?ms (Suc k) = ?ms k @ [k]" using True by (simp add: filter_upt_Suc)
      ultimately show ?thesis
        unfolding prod.case scanned_fields rds Option.bind.bind_lunit dup [OF conjunct1 [OF True]]
        using le by (simp add: scanned_put pad_write)
    next
      case False
      then have "?t < 0 \<or> ?t \<ge> max_token \<or> cur ! k \<ge> 0" by (auto simp: tok_ok_def)
      moreover have "?ms (Suc k) = ?ms k" using False by (simp add: filter_upt_Suc)
      ultimately show ?thesis by (simp only: prod.case scanned_fields rds Option.bind.bind_lunit if_True)
    qed
  qed simp
  then show ?thesis using assms(1) ms by (simp add: sp_misses_def)
qed

text \<open>The positions used after \<open>i\<close> assignments.\<close>

lemma used_slots:
  assumes dist: "tokens_distinct max_token s2t" "int (length s2t) = capacity" and "lru_perm capacity lru"
    and call: "call_lists max_token capacity tks s2t lru = (cur, ev, hits, ms, n)" and "i \<le> n" "slot_ok capacity s"
  shows "s \<in> set (scatter (take i ms) (take i ev) cur) \<longleftrightarrow> s \<in> set hits \<or> s \<in> set (take i ev)"
proof -
  have parts: "ev = sp_evictable max_token capacity tks s2t lru" "hits = sp_hits max_token capacity tks s2t lru"
    "cur = sp_current max_token capacity tks s2t lru" "ms = sp_misses max_token tks cur" "n \<le> length ms" "n \<le> length ev"
    using call by (auto simp: call_lists_def Let_def)
  have il: "i \<le> length ms" "i \<le> length ev" using parts(5,6) assms(5) by simp_all
  have ms: "p < length cur \<and> cur ! p < 0 \<and> tok_ok max_token (tks ! p)" if "p \<in> set ms" for p
    using that sp_misses_props(3) [of p max_token tks cur] by (simp add: parts(3,4))
  let ?c = "scatter (take i ms) (take i ev) cur"
  have at: "?c ! (ms ! k) = ev ! k" if "k < i" for k
  proof -
    have "?c ! (take i ms ! k) = take i ev ! k"
      using that il ms [of "ms ! k"] sp_misses_props(2) [of max_token tks cur]
      by (intro nth_scatter) (simp_all add: parts(4) distinct_take)
    then show ?thesis using that by simp
  qed
  show ?thesis
  proof
    assume "s \<in> set ?c"
    then obtain p where p: "p < length cur" "s = ?c ! p" by (auto simp: in_set_conv_nth)
    show "s \<in> set hits \<or> s \<in> set (take i ev)"
    proof (cases "p \<in> set (take i ms)")
      case True
      then obtain k where "k < i" "p = ms ! k" using il(1) by (metis in_set_conv_nth length_take min_absorb2 nth_take)
      then have "s = take i ev ! k" "k < length (take i ev)" using at p(2) il by simp_all
      then show ?thesis using nth_mem by metis
    next
      case False
      then have c: "s = cur ! p" using p(2) by (simp add: nth_scatter_other)
      then have "0 \<le> cur ! p" using slot_okD [OF assms(6)] by simp
      then have "cur ! p = last_slot capacity s2t (tks ! p) lru" "tok_ok max_token (tks ! p)" "p < length tks"
        using p(1) by (auto simp: parts(3) sp_current_def split: if_splits)
      then have "s \<in> set hits"
        using c \<open>0 \<le> cur ! p\<close> last_slot_cases [of capacity s2t "tks ! p" lru] by (auto simp: parts(2) sp_hits_def sp_hit_def)
      then show ?thesis by simp
    qed
  next
    assume "s \<in> set hits \<or> s \<in> set (take i ev)"
    then show "s \<in> set ?c"
    proof
      assume "s \<in> set (take i ev)"
      then obtain k where "k < i" "s = ev ! k" using il(2) by (metis in_set_conv_nth length_take min_absorb2 nth_take)
      moreover have "ms ! k < length ?c" using ms [of "ms ! k"] \<open>k < i\<close> il(1) by simp
      ultimately show ?thesis using at [of k] nth_mem [of "ms ! k" ?c] by simp
    next
      assume s: "s \<in> set hits"
      let ?t = "s2t ! nat s"
      have t: "tok_ok max_token ?t" "?t \<in> set tks" "s \<in> set lru"
        using s by (auto simp: parts(2) sp_hits_def sp_hit_def)
      define p where "p = first_pos tks ?t"
      have p: "p < length tks" "tks ! p = ?t" using first_pos_less [OF t(2)] first_pos_nth [OF t(2)] by (simp_all add: p_def)
      have "0 \<le> last_slot capacity s2t ?t lru" using last_slot_nonneg_iff t(3) assms(6) by blast
      then have l: "slot_ok capacity (last_slot capacity s2t ?t lru)" "s2t ! nat (last_slot capacity s2t ?t lru) = ?t"
        using last_slot_cases [of capacity s2t ?t lru] by auto
      have "nat (last_slot capacity s2t ?t lru) = nat s"
        using l t(1) dist assms(6) by (intro tokens_distinctD [OF dist(1)]) (auto simp: slot_ok_def)
      then have "last_slot capacity s2t ?t lru = s" using slot_okD [OF l(1)] slot_okD [OF assms(6)] by linarith
      then have c: "cur ! p = s" using p t(1) by (simp add: parts(3) sp_current_def p_def [symmetric])
      then have "p \<notin> set ms" using ms [of p] slot_okD [OF assms(6)] by auto
      then have "p \<notin> set (take i ms)" by (blast dest: in_set_takeD)
      then have "?c ! p = s" using c by (simp add: nth_scatter_other)
      moreover have "p < length ?c" using p(1) by (simp add: parts(3))
      ultimately show ?thesis using nth_mem by blast
    qed
  qed
qed


lemma find_index_filter:
  "(case List.find (\<lambda>i. Q (xs ! i)) [0..<length xs] of None \<Rightarrow> d | Some i \<Rightarrow> xs ! i) =
   (case filter Q xs of [] \<Rightarrow> d | x # _ \<Rightarrow> x)"
proof (cases "List.find (\<lambda>i. Q (xs ! i)) [0..<length xs]")
  case None
  then have "filter Q xs = []" by (simp add: find_upt_None filter_empty_conv all_set_conv_all_nth)
  then show ?thesis using None by simp
next
  case (Some i)
  then have i: "i < length xs" "Q (xs ! i)" "\<And>j. j < i \<Longrightarrow> \<not> Q (xs ! j)"
    by (auto simp: find_Some_iff)
  have "filter Q (take i xs) = []" using i(1,3) by (auto simp: filter_empty_conv in_set_conv_nth)
  moreover have "filter Q xs = filter Q (take i xs) @ filter Q (xs ! i # drop (Suc i) xs)"
    using i(1) by (simp only: Cons_nth_drop_Suc flip: filter_append) simp
  ultimately show ?thesis using Some i(2) by simp
qed

lemma unused_slots:
  assumes perm: "lru_perm capacity lru" and call: "call_lists max_token capacity tks s2t lru = (cur, ev, hits, ms, n)"
    and used: "\<And>s. slot_ok capacity s \<Longrightarrow> s \<in> set c \<longleftrightarrow> s \<in> set hits \<or> s \<in> set (take i ev)"
  shows "filter (\<lambda>s. s \<notin> set c) lru = drop i ev"
proof -
  have parts: "ev = sp_evictable max_token capacity tks s2t lru" "hits = sp_hits max_token capacity tks s2t lru"
    using call by (auto simp: call_lists_def Let_def)
  have ok: "slot_ok capacity s" if "s \<in> set lru" for s using that lru_permD(5) [OF perm] by simp
  have ev: "ev = filter (\<lambda>s. s \<notin> set hits) lru"
    unfolding parts sp_evictable_def sp_hits_def using ok by (auto intro!: filter_cong)
  have de: "distinct ev" unfolding ev using lru_permD(2) [OF perm] by (rule distinct_filter)
  have "filter (\<lambda>s. s \<notin> set c) lru = drop i (filter (\<lambda>s. s \<notin> set hits) lru)"
  proof (rule filter_drop_distinct)
    fix s assume s: "s \<in> set lru"
    have "s \<in> set ev \<longleftrightarrow> s \<notin> set hits" using s by (auto simp: ev)
    moreover have "set ev = set (take i ev) \<union> set (drop i ev)" by (metis append_take_drop_id set_append)
    moreover have "set (take i ev) \<inter> set (drop i ev) = {}" using de by (rule set_take_disj_set_drop_if_distinct) simp
    ultimately show "s \<notin> set c \<longleftrightarrow> s \<in> set (drop i (filter (\<lambda>s. s \<notin> set hits) lru))"
      unfolding ev [symmetric] using used [OF ok [OF s]] by blast
  qed (use de ev in simp)
  then show ?thesis by (simp add: ev)
qed

lemma legacy_candidate_eq:
  assumes perm: "lru_perm capacity lru" and "length c = nat topk"
  shows "legacy_candidate topk capacity (scanned r s2t lru c mt msl) =
    Some (case filter (\<lambda>s. s \<notin> set c) lru of [] \<Rightarrow> - 1 | s # _ \<Rightarrow> s)"
proof -
  let ?r = "scanned r s2t lru c mt msl"
  have l: "length lru = nat capacity" by (rule lru_permD(3) [OF perm])
  have ok: "slot_ok capacity (lru ! i)" if "i < nat capacity" for i using that l lru_permD(5) [OF perm, of "lru ! i"] by simp
  have inner: "find_first [0..<nat topk] (\<lambda>pos. do { x \<leftarrow> rd c (int pos); Some (x = s) }) =
      Some (List.find (\<lambda>pos. c ! pos = s) [0..<nat topk])" for s
    by (rule find_index) (use assms(2) in simp)
  have unprotected: "List.find (\<lambda>pos. c ! pos = s) [0..<nat topk] = None \<longleftrightarrow> s \<notin> set c" for s
    using find_index_None [of "nat topk" c "\<lambda>x. x = s"] assms(2) by auto
  have "find_first [0..<nat capacity] (\<lambda>order. do {
       candidate \<leftarrow> rd (lru_slots ?r) (int order);
       if candidate < 0 \<or> candidate \<ge> capacity then Some False
       else do {
         protected_slot \<leftarrow> find_first [0..<nat topk] (\<lambda>pos. do { c \<leftarrow> rd (current_slots ?r) (int pos); Some (c = candidate) });
         Some (protected_slot = None) } }) = Some (List.find (\<lambda>i. lru ! i \<notin> set c) [0..<nat capacity])"
  proof (rule find_first_find)
    fix i assume "i \<in> set [0..<nat capacity]"
    then have i: "i < nat capacity" by simp
    then have "rd lru (int i) = Some (lru ! i)" "\<not> (lru ! i < 0 \<or> lru ! i \<ge> capacity)"
      using l ok [OF i] by (auto simp: slot_ok_def)
    then show "do {
       candidate \<leftarrow> rd (lru_slots ?r) (int i);
       if candidate < 0 \<or> candidate \<ge> capacity then Some False
       else do {
         protected_slot \<leftarrow> find_first [0..<nat topk] (\<lambda>pos. do { c \<leftarrow> rd (current_slots ?r) (int pos); Some (c = candidate) });
         Some (protected_slot = None) } } = Some (lru ! i \<notin> set c)"
      by (simp only: scanned_fields Option.bind.bind_lunit if_False inner unprotected)
  qed
  moreover have "(case List.find (\<lambda>i. lru ! i \<notin> set c) [0..<nat capacity] of None \<Rightarrow> Some LRU_INVALID_TOKEN
      | Some order \<Rightarrow> rd lru (int order)) =
    Some (case List.find (\<lambda>i. lru ! i \<notin> set c) [0..<length lru] of None \<Rightarrow> - 1 | Some i \<Rightarrow> lru ! i)"
    unfolding l
  proof (cases "List.find (\<lambda>i. lru ! i \<notin> set c) [0..<nat capacity]")
    case (Some i)
    then have "i < length lru" unfolding l by (auto simp: find_Some_iff)
    then show "(case List.find (\<lambda>i. lru ! i \<notin> set c) [0..<nat capacity] of None \<Rightarrow> Some LRU_INVALID_TOKEN
        | Some order \<Rightarrow> rd lru (int order)) =
      Some (case List.find (\<lambda>i. lru ! i \<notin> set c) [0..<nat capacity] of None \<Rightarrow> - 1 | Some i \<Rightarrow> lru ! i)"
      using Some by simp
  qed (simp add: LRU_INVALID_TOKEN_def)
  ultimately show ?thesis
    using find_index_filter [where Q = "\<lambda>s. s \<notin> set c" and xs = lru and d = "- 1"]
    unfolding legacy_candidate_def by (simp only: Option.bind.bind_lunit scanned_fields)
qed

lemma legacy_assign_eq:
  assumes dist: "tokens_distinct max_token s2t" "int (length s2t) = capacity" and perm: "lru_perm capacity lru"
    and call: "call_lists max_token capacity tks s2t lru = (cur, ev, hits, ms, n)" and tks: "length tks = nat topk"
    and scratch: "has_scratch \<Longrightarrow> b + nat capacity \<le> length m \<and> mark = placed b ev m"
  shows "legacy_assign topk capacity has_scratch (int b) mark (int (length ev)) (int (length ms))
      (scanned r s2t lru cur (pad (nat topk) (- 1) mt) (pad (nat topk) (- 1) (map int ms))) =
    Some (scanned r s2t lru (scatter (take n ms) (take n ev) cur) (pad (nat topk) (- 1) mt)
      (pad (nat topk) (- 1) (take n ev @ map int (drop n ms))), int n)"
proof -
  have parts: "ev = sp_evictable max_token capacity tks s2t lru" "ms = sp_misses max_token tks cur" "length cur = length tks"
    "n = min (length ms) (length ev)"
    using call by (auto simp: call_lists_def Let_def)
  have msl: "length ms \<le> nat topk" using sp_misses_props(1) [of max_token tks cur] parts(2) tks by simp
  have evl: "length ev \<le> nat capacity"
    unfolding parts(1) sp_evictable_def using length_filter_le lru_permD(3) [OF perm] by (metis)
  let ?c = "\<lambda>i. scatter (take i ms) (take i ev) cur"
  let ?s = "\<lambda>i. pad (nat topk) (- 1) (take i ev @ map int (drop i ms))"
  let ?g = "\<lambda>i. (scanned r s2t lru (?c i) (pad (nat topk) (- 1) mt) (?s i), int i)"
  let ?body = "\<lambda>miss_idx (r, assign_count). do {
       chosen_slot \<leftarrow> (if has_scratch
         then (if int miss_idx < int (length ev) then rd mark (int b + int miss_idx) else Some LRU_INVALID_TOKEN)
         else legacy_candidate topk capacity r);
       if chosen_slot < 0 then Some ((r, assign_count), True)
       else do {
         token \<leftarrow> rd (miss_tokens r) (int miss_idx);
         pos \<leftarrow> rd (miss_slots r) (int miss_idx);
         r \<leftarrow> put_current_slots r pos chosen_slot;
         r \<leftarrow> put_miss_slots r (int miss_idx) chosen_slot;
         Some ((r, assign_count + 1), False) } }"
  have chosen: "(if has_scratch
         then (if int i < int (length ev) then rd mark (int b + int i) else Some LRU_INVALID_TOKEN)
         else legacy_candidate topk capacity (scanned r s2t lru (?c i) (pad (nat topk) (- 1) mt) (?s i))) = Some (if i < length ev then ev ! i else - 1)"
    if "i \<le> n" for i
  proof (cases has_scratch)
    case True
    then show ?thesis
      using scratch placed_read [of b ev m i] evl by (simp add: LRU_INVALID_TOKEN_def)
  next
    case False
    have "filter (\<lambda>s. s \<notin> set (?c i)) lru = drop i ev"
      by (rule unused_slots [OF perm call]) (rule used_slots [OF dist perm call that])
    moreover have "(case drop i ev of [] \<Rightarrow> - 1 | s # _ \<Rightarrow> s) = (if i < length ev then ev ! i else - 1)"
      by (cases "i < length ev") (simp_all flip: Cons_nth_drop_Suc)
    moreover have "length (?c i) = nat topk" using parts(3) tks by simp
    ultimately show ?thesis using False legacy_candidate_eq [OF perm] by simp
  qed
  have "for_break [0..<length ms] ?body (?g 0) = Some (?g n)"
  proof (rule for_break_upt [where g = ?g])
    show "n \<le> length ms" using parts(4) by simp
  next
    fix i assume i: "i < n"
    then have il: "i < length ev" "i < length ms" "i < nat topk" using parts(4) msl by simp_all
    have ok: "slot_ok capacity (ev ! i)" using il(1) evictable_slot_ok parts(1) nth_mem by blast
    have "ms ! i < length cur" using sp_misses_props(3) [of "ms ! i" max_token tks cur] il(2) parts(2,3) by simp
    moreover have "rd (?s i) (int i) = Some (int (ms ! i))" using il msl by (simp add: nth_pad nth_append min_def)
    moreover have "(?s i)[i := ev ! i] = ?s (Suc i)"
      using il by (simp add: pad_def list_update_append take_Suc_conv_app_nth drop_map [symmetric] Cons_nth_drop_Suc [symmetric])
    moreover have "i < length (pad (nat topk) (- 1) mt)" using il(3) by (simp add: pad_def)
    moreover have "?c (Suc i) = (?c i)[ms ! i := ev ! i]"
      using il by (simp add: take_Suc_conv_app_nth scatter_snoc)
    moreover have "\<not> ev ! i < 0" using slot_okD [OF ok] by simp
    moreover have "i < length (?s i)" using il msl by simp
    ultimately show "?body i (?g i) = Some (?g (Suc i), False)"
      unfolding prod.case chosen [OF less_imp_le [OF i]] Option.bind.bind_lunit using il(1) by (auto simp: scanned_put)
  next
    assume "n < length ms"
    then have "n = length ev" using parts(4) by simp
    then show "?body n (?g n) = Some (?g n, True)" 
      unfolding prod.case chosen [OF order_refl] Option.bind.bind_lunit by simp
  qed simp
  then show ?thesis by (simp add: legacy_assign_def)
qed


section \<open>Duplicates and unplaced misses\<close>

lemma legacy_propagate_eq:
  assumes "length (topk_indices r) = nat topk" "length c = nat topk" "tokens_distinct max_token (topk_indices r)"
    and "\<And>p. p < nat topk \<Longrightarrow> 0 \<le> c ! p \<Longrightarrow> tok_ok max_token (topk_indices r ! p)"
  shows "legacy_propagate topk (scanned r s2t lru c mt ms) = Some (scanned r s2t lru c mt ms)"
  unfolding legacy_propagate_def
proof (rule for_each_upt_eq [where g = "\<lambda>_. scanned r s2t lru c mt ms"])
  fix k assume k: "k < nat topk"
  let ?tks = "topk_indices r" and ?r = "scanned r s2t lru c mt ms"
  have "find_first [0..<k] (\<lambda>prior. do { t \<leftarrow> rd ?tks (int prior); x \<leftarrow> rd c (int prior); Some (t = ?tks ! k \<and> x \<ge> 0) }) =
      Some (List.find (\<lambda>i. ?tks ! i = ?tks ! k \<and> c ! i \<ge> 0) [0..<k])"
    by (rule find_index) (use k assms(1,2) in simp)
  moreover have "\<not> (?tks ! i = ?tks ! k \<and> c ! i \<ge> 0)" if "i < k" for i
  proof
    assume *: "?tks ! i = ?tks ! k \<and> c ! i \<ge> 0"
    then have "tok_ok max_token (?tks ! i)" using assms(4) [of i] that k by simp
    then have "i = k" using * that k assms(1) by (intro tokens_distinctD [OF assms(3)]) simp_all
    then show False using that by simp
  qed
  then have "List.find (\<lambda>i. ?tks ! i = ?tks ! k \<and> c ! i \<ge> 0) [0..<k] = None" by (simp add: find_upt_None)
  ultimately have search: "find_first [0..<k] (\<lambda>prior. do { t \<leftarrow> rd (topk_indices ?r) (int prior);
      x \<leftarrow> rd (current_slots ?r) (int prior); Some (t = ?tks ! k \<and> x \<ge> 0) }) = Some None"
    by (simp only: scanned_fields)
  have "rd (topk_indices ?r) (int k) = Some (?tks ! k)" "rd (current_slots ?r) (int k) = Some (c ! k)" using k assms(1,2) by simp_all
  then show "do {
       cur \<leftarrow> rd (current_slots ?r) (int k);
       if cur \<ge> 0 then Some ?r
       else do {
         token \<leftarrow> rd (topk_indices ?r) (int k);
         prior \<leftarrow> find_first [0..<k] (\<lambda>prior. do {
           t \<leftarrow> rd (topk_indices ?r) (int prior);
           x \<leftarrow> rd (current_slots ?r) (int prior);
           Some (t = token \<and> x \<ge> 0) });
         case prior of None \<Rightarrow> Some ?r
         | Some prior \<Rightarrow> do { x \<leftarrow> rd (current_slots ?r) (int prior); put_current_slots ?r (int k) x } } } = Some ?r"
    by (simp only: Option.bind.bind_lunit search option.case if_cancel)
qed simp

lemma for_each_range:
  assumes "a \<le> b" "\<And>i. a \<le> i \<Longrightarrow> i < b \<Longrightarrow> f i (g i) = Some (g (Suc i))"
  shows "for_each [a..<b] f (g a) = Some (g b)"
  using assms(1)
proof (induction rule: inc_induct)
  case (step k)
  then show ?case using assms(2) [of k] by (simp add: upt_rec)
qed simp

lemma for_each_down:
  assumes "\<And>i. i < k \<Longrightarrow> f i (g (Suc i)) = Some (g i)"
  shows "for_each (rev [0..<k]) f (g k) = Some (g 0)"
  using assms by (induction k) simp_all

lemma pad_trim:
  assumes "length xs \<le> N" "n \<le> N"
  shows "overwrite {n..<N} (\<lambda>_. d) (pad N d xs) = pad N d (take n xs)"
  using assms by (intro nth_equalityI) (auto simp: nth_pad)

lemma overwrite_range:
  "n \<le> i \<Longrightarrow> (overwrite {n..<i} (\<lambda>_. d) xs)[i := d] = overwrite {n..<Suc i} (\<lambda>_. d) xs"
  using overwrite_insert [of d "\<lambda>_. d" i "{n..<i}" xs] by (simp add: atLeastLessThanSuc)

lemma legacy_trim_eq:
  assumes "length xs \<le> nat topk" "length ys \<le> nat topk" "n \<le> nat topk"
  shows "legacy_trim topk (int n) (scanned r s2t lru c (pad (nat topk) (- 1) xs) (pad (nat topk) (- 1) ys)) =
    Some (scanned r s2t lru c (pad (nat topk) (- 1) (take n xs)) (pad (nat topk) (- 1) (take n ys)))"
proof -
  let ?g = "\<lambda>i. scanned r s2t lru c (overwrite {n..<i} (\<lambda>_. - 1) (pad (nat topk) (- 1) xs))
      (overwrite {n..<i} (\<lambda>_. - 1) (pad (nat topk) (- 1) ys))"
  have "for_each [n..<nat topk] (\<lambda>i r. do {
       r \<leftarrow> put_miss_tokens r (int i) LRU_INVALID_TOKEN;
       put_miss_slots r (int i) LRU_INVALID_TOKEN }) (?g n) = Some (?g (nat topk))"
    using assms by (intro for_each_range) (auto simp: scanned_put LRU_INVALID_TOKEN_def overwrite_range)
  then show ?thesis using assms by (simp add: legacy_trim_def pad_trim)
qed

section \<open>The new order with scratch\<close>

lemma legacy_tail_eq:
  assumes len: "length (topk_indices r) = nat topk" "int (length s2t) = capacity" and perm: "lru_perm capacity lru"
    and bound: "\<And>t. t \<in> set s2t \<Longrightarrow> t < max_token"
    and hits: "hits = sp_hits max_token capacity (topk_indices r) s2t lru"
  shows "\<exists>w. legacy_tail topk capacity (scanned r s2t lru c mt ms) =
    Some (scanned r s2t (take (nat capacity - length hits) lru @ hits) c mt ms, w)"
proof -
  let ?tks = "topk_indices r"
  let ?hit = "sp_hit max_token capacity ?tks s2t"
  let ?h = "\<lambda>k. filter ?hit (drop k lru)"
  let ?a = "\<lambda>k. take (nat capacity - length (?h k)) lru @ ?h k"
  let ?g = "\<lambda>k. (scanned r s2t (?a k) c mt ms, capacity - 1 - int (length (?h k)))"
  have l: "length lru = nat capacity" by (rule lru_permD(3) [OF perm])
  have "for_each (rev [0..<nat capacity]) (\<lambda>order (r, write_pos). do {
       slot \<leftarrow> rd (lru_slots r) (int order);
       if slot < 0 \<or> slot \<ge> capacity then Some (r, write_pos)
       else do {
         token \<leftarrow> rd (slot_to_token r) slot;
         hit \<leftarrow> find_first [0..<nat topk] (\<lambda>pos. do {
           t \<leftarrow> rd (topk_indices r) (int pos); Some (token \<ge> 0 \<and> token = t) });
         if hit \<noteq> None then do { r \<leftarrow> put_lru_slots r write_pos slot; Some (r, write_pos - 1) }
         else Some (r, write_pos) } }) (?g (nat capacity)) = Some (?g 0)"
  proof (rule for_each_down)
    fix k assume k: "k < nat capacity"
    let ?s = "lru ! k"
    let ?t = "s2t ! nat ?s"
    have ok: "slot_ok capacity ?s" using lru_permD(5) [OF perm, of ?s] k l by simp
    have hl: "length (?h (Suc k)) \<le> nat capacity - Suc k" using length_filter_le [of ?hit "drop (Suc k) lru"] l by simp
    have al: "length (?a (Suc k)) = nat capacity" using hl l by simp
    have "k < nat capacity - length (?h (Suc k))" using hl k by linarith
    then have "?a (Suc k) ! k = ?s" using l by (simp add: nth_append)
    then have rds: "rd (?a (Suc k)) (int k) = Some ?s" "rd s2t ?s = Some ?t" "\<not> (?s < 0 \<or> ?s \<ge> capacity)"
      using al k ok len(2) by (auto simp: slot_ok_def rd_Some)
    have search: "find_first [0..<nat topk] (\<lambda>pos. do { t \<leftarrow> rd ?tks (int pos); Some (?t \<ge> 0 \<and> ?t = t) }) =
        Some (List.find (\<lambda>i. ?t \<ge> 0 \<and> ?t = ?tks ! i) [0..<nat topk])"
      by (rule find_index) (use len(1) in simp)
    have "?t < max_token" using bound ok len(2) by (auto simp: slot_ok_def)
    then have found: "List.find (\<lambda>i. ?t \<ge> 0 \<and> ?t = ?tks ! i) [0..<nat topk] \<noteq> None \<longleftrightarrow> ?hit ?s"
      using find_index_None [of "nat topk" ?tks "\<lambda>x. ?t \<ge> 0 \<and> ?t = x"] len(1) ok by (auto simp: sp_hit_def tok_ok_def)
    have drop: "drop k lru = ?s # drop (Suc k) lru" using k l by (simp add: Cons_nth_drop_Suc)
    have stored: "put_lru_slots (scanned r s2t (?a (Suc k)) c mt ms) (capacity - 1 - int (length (?h (Suc k)))) ?s =
        Some (scanned r s2t (?a k) c mt ms)" if "?hit ?s"
    proof -
      let ?w = "nat capacity - length (?h (Suc k)) - 1"
      have w: "?w < nat capacity" "capacity - 1 - int (length (?h (Suc k))) = int ?w" using k hl by linarith+
      have split: "take (Suc ?w) lru = take ?w lru @ [lru ! ?w]" using w(1) l by (simp add: take_Suc_conv_app_nth)
      have "nat capacity - length (?h (Suc k)) = Suc ?w" using hl k by linarith
      then have "(?a (Suc k))[?w := ?s] = take ?w lru @ ?s # ?h (Suc k)" using w(1) l split by (simp add: list_update_append)
      also have "\<dots> = ?a k" using that by (simp add: drop)
      finally show ?thesis unfolding scanned_put w(2) wr_int using w(1) al by simp
    qed
    show "(case ?g (Suc k) of (r, write_pos) \<Rightarrow> do {
       slot \<leftarrow> rd (lru_slots r) (int k);
       if slot < 0 \<or> slot \<ge> capacity then Some (r, write_pos)
       else do {
         token \<leftarrow> rd (slot_to_token r) slot;
         hit \<leftarrow> find_first [0..<nat topk] (\<lambda>pos. do {
           t \<leftarrow> rd (topk_indices r) (int pos); Some (token \<ge> 0 \<and> token = t) });
         if hit \<noteq> None then do { r \<leftarrow> put_lru_slots r write_pos slot; Some (r, write_pos - 1) }
         else Some (r, write_pos) } }) = Some (?g k)"
    proof (cases "?hit ?s")
      case True
      then show ?thesis
        by (simp only: prod.case scanned_fields rds Option.bind.bind_lunit if_False if_True search found stored) (simp add: drop)
    next
      case False
      then show ?thesis
        by (simp only: prod.case scanned_fields rds Option.bind.bind_lunit if_False search found simp_thms) (simp add: drop)
    qed
  qed
  moreover have "?g (nat capacity) = (scanned r s2t lru c mt ms, capacity - 1)" using l by simp
  moreover have "?h 0 = hits" by (simp add: hits sp_hits_def)
  ultimately show ?thesis unfolding legacy_tail_def by auto
qed

lemma front_put:
  assumes "length ys < length A"
  shows "put_lru_slots (scanned r s2t (ys @ drop (length ys) A) c mt s) (int (length ys)) v =
    Some (scanned r s2t ((ys @ [v]) @ drop (length (ys @ [v])) A) c mt s)"
  using assms front_write [OF assms, of v] by (simp add: scanned_put)

lemma legacy_front_eq:
  assumes "b + length ev \<le> length m" "n \<le> length ev" "n \<le> N" "length ev \<le> length A"
  shows "\<exists>out. legacy_front (int b) (placed b ev m) (int (length ev)) (int n) (scanned r s2t A c mt (pad N (- 1) (take n ev))) =
    Some (scanned r s2t (drop n ev @ take n ev @ drop (length ev) A) c mt (pad N (- 1) (take n ev)), out)"
proof -
  let ?s = "pad N (- 1) (take n ev)"
  let ?y = "\<lambda>i. take (i - n) (drop n ev)" and ?z = "\<lambda>i. drop n ev @ take i ev"
  let ?g = "\<lambda>i. (scanned r s2t (?y i @ drop (length (?y i)) A) c mt ?s, int (length (?y i)))"
  let ?f = "\<lambda>i. (scanned r s2t (?z i @ drop (length (?z i)) A) c mt ?s, int (length (?z i)))"
  have "for_each [n..<length ev] (\<lambda>i (r, output). do {
       v \<leftarrow> rd (placed b ev m) (int b + int i); r \<leftarrow> put_lru_slots r output v; Some (r, output + 1) }) (?g n) = Some (?g (length ev))"
  proof (rule for_each_range)
    fix i assume i: "n \<le> i" "i < length ev"
    have y: "?y (Suc i) = ?y i @ [ev ! i]" using i by (simp add: Suc_diff_le take_Suc_conv_app_nth)
    have "length (?y i) < length A" using i assms(4) by simp
    then show "(case ?g i of (r, output) \<Rightarrow> do {
       v \<leftarrow> rd (placed b ev m) (int b + int i); r \<leftarrow> put_lru_slots r output v; Some (r, output + 1) }) = Some (?g (Suc i))"
      unfolding y using placed_read [OF assms(1) i(2)] front_write [of "?y i" A "ev ! i"] by (simp add: scanned_put)
  qed (rule assms(2))
  moreover have "for_each [0..<n] (\<lambda>i (r, output). do {
       v \<leftarrow> rd (miss_slots r) (int i); r \<leftarrow> put_lru_slots r output v; Some (r, output + 1) }) (?f 0) = Some (?f n)"
  proof (rule for_each_range)
    fix i assume i: "i < n"
    have z: "?z (Suc i) = ?z i @ [ev ! i]" using i assms(2) by (simp add: take_Suc_conv_app_nth)
    have "rd ?s (int i) = Some (ev ! i)" using i assms(2,3) by (simp add: nth_pad)
    moreover have "length (?z i) < length A" using i assms(2,4) by simp
    ultimately show "(case ?f i of (r, output) \<Rightarrow> do {
       v \<leftarrow> rd (miss_slots r) (int i); r \<leftarrow> put_lru_slots r output v; Some (r, output + 1) }) = Some (?f (Suc i))"
      unfolding z prod.case scanned_fields by (simp only: Option.bind.bind_lunit front_put) simp
  qed simp
  moreover have "?g n = (scanned r s2t A c mt ?s, 0)" "?g (length ev) = ?f 0" by simp_all
  moreover have "drop (length (?z n)) A = drop (length ev) A" using assms(2) by simp
  ultimately show ?thesis unfolding legacy_front_def by (simp only: nat_int Option.bind.bind_lunit prod.case append_assoc) blast
qed


section \<open>The new order without scratch\<close>

definition slot_category :: "int list \<Rightarrow> int list \<Rightarrow> int \<Rightarrow> int" where
  "slot_category assigned c s = (if s \<in> set assigned then 1 else if s \<in> set c then 2 else 0)"

lemma legacy_category_eq:
  assumes "length c = nat topk" "length assigned \<le> N"
  shows "legacy_category topk (int (length assigned)) (scanned r s2t lru c mt (pad N (- 1) assigned)) s =
    Some (slot_category assigned c s)"
proof -
  let ?n = "length assigned"
  have "find_first [0..<?n] (\<lambda>m. do { x \<leftarrow> rd (pad N (- 1) assigned) (int m); Some (x = s) }) =
      Some (List.find (\<lambda>m. assigned ! m = s) [0..<?n])"
    by (rule find_index) (use assms(2) in \<open>simp add: nth_pad\<close>)
  moreover have "List.find (\<lambda>m. assigned ! m = s) [0..<?n] \<noteq> None \<longleftrightarrow> s \<in> set assigned"
    using find_index_None [where xs = assigned and Q = "\<lambda>x. x = s", OF refl] by auto
  moreover have "find_first [0..<nat topk] (\<lambda>pos. do { x \<leftarrow> rd c (int pos); Some (x = s) }) =
      Some (List.find (\<lambda>pos. c ! pos = s) [0..<nat topk])"
    by (rule find_index) (use assms(1) in simp)
  moreover have "List.find (\<lambda>pos. c ! pos = s) [0..<nat topk] \<noteq> None \<longleftrightarrow> s \<in> set c"
    using find_index_None [of "nat topk" c "\<lambda>x. x = s"] assms(1) by auto
  ultimately show ?thesis
    unfolding legacy_category_def slot_category_def scanned_fields nat_int
    by (cases "s \<in> set assigned") (simp_all only: Option.bind.bind_lunit if_True if_False)
qed

lemma legacy_shift_eq:
  assumes c: "length c = nat topk" "length assigned \<le> N"
    and B: "\<And>s. s \<in> set B \<Longrightarrow> key < slot_category assigned c s"
    and A: "\<And>s. s \<in> set A \<Longrightarrow> slot_category assigned c s \<le> key"
  shows "\<exists>y. legacy_shift topk (int (length assigned)) key (length (A @ B))
      (scanned r s2t (A @ B @ x # rest) c mt (pad N (- 1) assigned)) =
    Some (length A, scanned r s2t (A @ y # B @ rest) c mt (pad N (- 1) assigned))"
  using B
proof (induction B arbitrary: x rest rule: rev_induct)
  case Nil
  note cat = legacy_category_eq [OF c, of r s2t _ mt]
  show ?case
  proof (rule exI [of _ x], cases A rule: rev_cases)
    case (snoc A' a)
    then have "slot_category assigned c a \<le> key" using A by simp
    then show "legacy_shift topk (int (length assigned)) key (length (A @ []))
        (scanned r s2t (A @ [] @ x # rest) c mt (pad N (- 1) assigned)) =
      Some (length A, scanned r s2t (A @ x # [] @ rest) c mt (pad N (- 1) assigned))"
      using snoc by (simp add: cat nth_append)
  qed simp
next
  case (snoc b B)
  have cat: "legacy_category topk (int (length assigned)) (scanned r s2t (A @ (B @ [b]) @ x # rest) c mt (pad N (- 1) assigned)) b =
      Some (slot_category assigned c b)" by (rule legacy_category_eq [OF c])
  have gt: "\<not> slot_category assigned c b \<le> key" using snoc.prems [of b] by simp
  have rd: "rd (A @ (B @ [b]) @ x # rest) (int (length (A @ B))) = Some b"
  proof -
    have "(A @ (B @ [b]) @ x # rest) ! length (A @ B) = b"
      using nth_append_length [of "A @ B" b "x # rest"] by simp
    then show ?thesis by (simp only: rd_int) simp
  qed
  have put: "put_lru_slots (scanned r s2t (A @ (B @ [b]) @ x # rest) c mt (pad N (- 1) assigned)) (int (length (A @ B)) + 1) b =
      Some (scanned r s2t (A @ B @ b # b # rest) c mt (pad N (- 1) assigned))"
  proof -
    have "(A @ (B @ [b]) @ x # rest)[length (A @ B @ [b]) := b] = A @ B @ b # b # rest"
      using list_update_length [of "A @ B @ [b]" x rest b] by simp
    moreover have "int (length (A @ B)) + 1 = int (length (A @ B @ [b]))" by simp
    ultimately show ?thesis unfolding scanned_put by (simp only: wr_int) simp
  qed
  obtain y where "legacy_shift topk (int (length assigned)) key (length (A @ B))
      (scanned r s2t (A @ B @ b # b # rest) c mt (pad N (- 1) assigned)) =
    Some (length A, scanned r s2t (A @ y # B @ b # rest) c mt (pad N (- 1) assigned))"
    using snoc.IH [of b "b # rest"] snoc.prems by auto
  moreover have "length (A @ B @ [b]) = Suc (length (A @ B))" by simp
  ultimately show ?case
    unfolding \<open>length (A @ B @ [b]) = Suc (length (A @ B))\<close> legacy_shift.simps scanned_fields rd Option.bind.bind_lunit cat
    using gt put by auto
qed

text \<open>The order by category.\<close>

definition by_category :: "int list \<Rightarrow> int list \<Rightarrow> int list \<Rightarrow> int list" where
  "by_category assigned c xs = filter (\<lambda>s. slot_category assigned c s = 0) xs @
     filter (\<lambda>s. slot_category assigned c s = 1) xs @ filter (\<lambda>s. slot_category assigned c s = 2) xs"

lemma slot_category_cases:
  obtains "slot_category assigned c s = 0" | "slot_category assigned c s = 1" | "slot_category assigned c s = 2"
  using that unfolding slot_category_def by (meson)

lemma length_by_category: "length (by_category assigned c xs) = length xs"
proof (induction xs)
  case (Cons x xs)
  then show ?case
    by (cases rule: slot_category_cases [of assigned c x]) (simp_all add: by_category_def)
qed (simp add: by_category_def)

lemma by_category_split:
  obtains A B where "by_category assigned c xs = A @ B" "\<And>s. s \<in> set A \<Longrightarrow> slot_category assigned c s \<le> slot_category assigned c x"
    "\<And>s. s \<in> set B \<Longrightarrow> slot_category assigned c x < slot_category assigned c s"
    "by_category assigned c (xs @ [x]) = A @ x # B"
proof -
  let ?F = "\<lambda>k. filter (\<lambda>s. slot_category assigned c s = k) xs"
  consider "slot_category assigned c x = 0" | "slot_category assigned c x = 1" | "slot_category assigned c x = 2"
    by (rule slot_category_cases)
  then show thesis
  proof cases
    case 1
    show ?thesis by (rule that [of "?F 0" "?F 1 @ ?F 2"]) (use 1 in \<open>auto simp: by_category_def\<close>)
  next
    case 2
    show ?thesis by (rule that [of "?F 0 @ ?F 1" "?F 2"]) (use 2 in \<open>auto simp: by_category_def\<close>)
  next
    case 3
    show ?thesis by (rule that [of "?F 0 @ ?F 1 @ ?F 2" "[]"]) (use 3 in \<open>auto simp: by_category_def\<close>)
  qed
qed

lemma legacy_sort_eq:
  assumes c: "length c = nat topk" "length assigned \<le> N" and "length lru = nat capacity" "0 < capacity"
  shows "legacy_sort topk capacity (int (length assigned)) (scanned r s2t lru c mt (pad N (- 1) assigned)) =
    Some (scanned r s2t (by_category assigned c lru) c mt (pad N (- 1) assigned))"
proof -
  let ?ms = "pad N (- 1) assigned" and ?n = "int (length assigned)"
  let ?g = "\<lambda>i. scanned r s2t (by_category assigned c (take i lru) @ drop i lru) c mt ?ms"
  have "for_each [1..<nat capacity] (\<lambda>i r. do {
       key_slot \<leftarrow> rd (lru_slots r) (int i);
       key_category \<leftarrow> legacy_category topk ?n r key_slot;
       (j, r) \<leftarrow> legacy_shift topk ?n key_category i r;
       put_lru_slots r (int j) key_slot }) (?g 1) = Some (?g (nat capacity))"
  proof (rule for_each_range)
    show "1 \<le> nat capacity" using assms(4) by simp
    fix i assume i: "1 \<le> i" "i < nat capacity"
    let ?x = "lru ! i" and ?xs = "take i lru"
    obtain A B where AB: "by_category assigned c ?xs = A @ B"
      "\<And>s. s \<in> set A \<Longrightarrow> slot_category assigned c s \<le> slot_category assigned c ?x"
      "\<And>s. s \<in> set B \<Longrightarrow> slot_category assigned c ?x < slot_category assigned c s"
      "by_category assigned c (?xs @ [?x]) = A @ ?x # B"
      using by_category_split [of assigned c ?xs ?x] by blast
    have il: "length (A @ B) = i" using length_by_category [of assigned c ?xs] AB(1) i assms(3) by simp
    have d: "drop i lru = ?x # drop (Suc i) lru" using i assms(3) by (simp add: Cons_nth_drop_Suc)
    have g: "?g i = scanned r s2t (A @ B @ ?x # drop (Suc i) lru) c mt ?ms" by (simp add: AB(1) d)
    have g': "?g (Suc i) = scanned r s2t (A @ ?x # B @ drop (Suc i) lru) c mt ?ms"
      using i assms(3) AB(4) by (simp add: take_Suc_conv_app_nth)
    obtain y where y: "legacy_shift topk ?n (slot_category assigned c ?x) i (scanned r s2t (A @ B @ ?x # drop (Suc i) lru) c mt ?ms) =
        Some (length A, scanned r s2t (A @ y # B @ drop (Suc i) lru) c mt ?ms)"
      using legacy_shift_eq [where A = A and B = B and key = "slot_category assigned c ?x" and x = ?x and rest = "drop (Suc i) lru",
        OF c AB(3) AB(2), of r s2t mt] il by auto
    have "rd (A @ B @ ?x # drop (Suc i) lru) (int i) = Some ?x"
    proof -
      have "(A @ B @ ?x # drop (Suc i) lru) ! i = ?x"
        using il by (auto simp: nth_append)
      then show ?thesis using il by (simp only: rd_int) simp
    qed
    moreover have "put_lru_slots (scanned r s2t (A @ y # B @ drop (Suc i) lru) c mt ?ms) (int (length A)) ?x =
        Some (scanned r s2t (A @ ?x # B @ drop (Suc i) lru) c mt ?ms)"
      by (simp add: scanned_put list_update_append)
    ultimately show "do {
       key_slot \<leftarrow> rd (lru_slots (?g i)) (int i);
       key_category \<leftarrow> legacy_category topk ?n (?g i) key_slot;
       (j, r) \<leftarrow> legacy_shift topk ?n key_category i (?g i);
       put_lru_slots r (int j) key_slot } = Some (?g (Suc i))"
      unfolding g g' by (simp only: scanned_fields Option.bind.bind_lunit legacy_category_eq [OF c] y prod.case)
  qed
  moreover have "?g 1 = scanned r s2t lru c mt ?ms"
  proof -
    obtain x xs where "lru = x # xs" using assms(3,4) by (cases lru) auto
    moreover have "by_category assigned c [x] = [x]"
      by (cases rule: slot_category_cases [of assigned c x]) (simp_all add: by_category_def)
    ultimately show ?thesis by simp
  qed
  ultimately show ?thesis using assms(3) by (simp add: legacy_sort_def)
qed

lemma filter_take_distinct:
  assumes "distinct xs"
  shows "filter (\<lambda>x. x \<in> set (take n (filter P xs))) xs = take n (filter P xs)"
proof -
  let ?ev = "filter P xs"
  have "filter (\<lambda>x. x \<in> set (take n ?ev)) xs = filter (\<lambda>x. x \<in> set (take n ?ev)) ?ev"
    by (auto intro!: filter_cong dest: in_set_takeD)
  also have "\<dots> = filter (\<lambda>x. x \<in> set (take n ?ev)) (take n ?ev @ drop n ?ev)" by simp
  also have "\<dots> = take n ?ev"
  proof -
    have "set (take n ?ev) \<inter> set (drop n ?ev) = {}"
      using distinct_filter [OF assms] by (rule set_take_disj_set_drop_if_distinct) simp
    then have "filter (\<lambda>x. x \<in> set (take n ?ev)) (drop n ?ev) = []" by (auto simp: filter_empty_conv)
    moreover have "filter (\<lambda>x. x \<in> set (take n ?ev)) (take n ?ev) = take n ?ev" by simp
    ultimately show ?thesis by (simp only: filter_append append_Nil2)
  qed
  finally show ?thesis .
qed

lemma by_category_order:
  assumes perm: "lru_perm capacity lru" and call: "call_lists max_token capacity tks s2t lru = (cur, ev, hits, ms, n)"
    and used: "\<And>s. slot_ok capacity s \<Longrightarrow> s \<in> set c \<longleftrightarrow> s \<in> set hits \<or> s \<in> set (take n ev)"
  shows "by_category (take n ev) c lru = drop n ev @ take n ev @ hits"
proof -
  have parts: "ev = sp_evictable max_token capacity tks s2t lru" "hits = sp_hits max_token capacity tks s2t lru"
    using call by (auto simp: call_lists_def Let_def)
  have ok: "slot_ok capacity s" if "s \<in> set lru" for s using that lru_permD(5) [OF perm] by simp
  have disj: "s \<notin> set ev" if "s \<in> set hits" for s
    using that by (auto simp: parts sp_hits_def sp_evictable_def)
  have "filter (\<lambda>s. slot_category (take n ev) c s = 0) lru = filter (\<lambda>s. s \<notin> set c) lru"
    using used ok by (intro filter_cong) (auto simp: slot_category_def)
  moreover have "filter (\<lambda>s. slot_category (take n ev) c s = 1) lru = filter (\<lambda>s. s \<in> set (take n ev)) lru"
    by (intro filter_cong) (auto simp: slot_category_def)
  moreover have "filter (\<lambda>s. slot_category (take n ev) c s = 2) lru = filter (\<lambda>s. s \<in> set hits) lru"
    using used ok disj by (intro filter_cong) (auto simp: slot_category_def dest: in_set_takeD)
  moreover have "filter (\<lambda>s. s \<in> set hits) lru = hits"
    unfolding parts(2) sp_hits_def by (intro filter_cong) auto
  moreover have "filter (\<lambda>s. s \<in> set (take n ev)) lru = take n ev"
    unfolding parts(1) sp_evictable_def by (rule filter_take_distinct [OF lru_permD(2) [OF perm]])
  ultimately show ?thesis using unused_slots [OF perm call used] by (simp add: by_category_def)
qed


section \<open>One row\<close>

lemma legacy_store_eq:
  assumes "n \<le> length ev" "n \<le> length ts" "n \<le> N" "\<And>s. s \<in> set ev \<Longrightarrow> slot_ok (int (length s2t)) s"
  shows "legacy_store (int n) (scanned r s2t lru c (pad N (- 1) (take n ts)) (pad N (- 1) (take n ev))) =
    Some (scanned r (scatter (map nat (take n ev)) (take n ts) s2t) lru c (pad N (- 1) (take n ts)) (pad N (- 1) (take n ev)))"
proof -
  let ?mt = "pad N (- 1) (take n ts)" and ?ms = "pad N (- 1) (take n ev)"
  let ?g = "\<lambda>i. scanned r (scatter (map nat (take i ev)) (take i ts) s2t) lru c ?mt ?ms"
  have "for_each [0..<n] (\<lambda>i r. do {
       s \<leftarrow> rd (miss_slots r) (int i);
       t \<leftarrow> rd (miss_tokens r) (int i);
       put_slot_to_token r s t }) (?g 0) = Some (?g n)"
  proof (rule for_each_range)
    fix i assume i: "i < n"
    have "rd ?ms (int i) = Some (ev ! i)" "rd ?mt (int i) = Some (ts ! i)" using i assms(1-3) by (simp_all add: nth_pad)
    moreover have "slot_ok (int (length s2t)) (ev ! i)" using i assms(1,4) by simp
    then have "put_slot_to_token (?g i) (ev ! i) (ts ! i) = Some (?g (Suc i))"
      using i assms(1,2) by (simp add: scanned_put slot_ok_def wr_Some take_Suc_conv_app_nth scatter_snoc)
    ultimately show "do { s \<leftarrow> rd (miss_slots (?g i)) (int i); t \<leftarrow> rd (miss_tokens (?g i)) (int i); put_slot_to_token (?g i) s t } =
        Some (?g (Suc i))"
      by (simp only: scanned_fields Option.bind.bind_lunit)
  qed simp
  then show ?thesis by (simp add: legacy_store_def)
qed

text \<open>The result: \<open>compact_spec\<close>, with the tokens of unplaced misses cleared.\<close>

definition legacy_spec :: "int \<Rightarrow> int \<Rightarrow> lru_row \<Rightarrow> lru_row" where
  "legacy_spec capacity max_token r = (let r' = compact_spec capacity max_token r in
     r'\<lparr>miss_tokens := pad (length (topk_indices r)) (- 1) (take (nat (miss_count r')) (miss_tokens r'))\<rparr>)"

definition legacy_ok :: "int \<Rightarrow> int \<Rightarrow> int \<Rightarrow> lru_row \<Rightarrow> bool" where
  "legacy_ok topk capacity max_token r \<longleftrightarrow> cache_ok topk capacity max_token r \<and>
     tokens_distinct max_token (topk_indices r) \<and> list_all (\<lambda>t. t < max_token) (slot_to_token r)"

lemma legacy_spec_scanned:
  assumes call: "call_lists max_token capacity (topk_indices r) (in_slots capacity max_token r) (sp_lru capacity r) = (cur, ev, hits, ms, n)"
    and "length (topk_indices r) = N" "length (drop n ev @ take n ev @ hits) = nat capacity"
  shows "legacy_spec capacity max_token r =
    (scanned r (scatter (map nat (take n ev)) (take n (map ((!) (topk_indices r)) ms)) (in_slots capacity max_token r))
      (drop n ev @ take n ev @ hits) (scatter (take n ms) (take n ev) cur)
      (pad N (- 1) (take n (map ((!) (topk_indices r)) ms))) (pad N (- 1) (take n ev)))\<lparr>miss_count := int n\<rparr>"
proof -
  have n: "n \<le> length ms" "length ms \<le> N"
    using call assms(2) sp_misses_props(1) [of max_token "topk_indices r" cur] by (auto simp: call_lists_def Let_def)
  have p: "pad (nat capacity) (- 1) (drop n ev @ take n ev @ hits) = drop n ev @ take n ev @ hits"
    using assms(3) by (simp add: pad_def)
  have t: "take n (pad N (- 1) (map ((!) (topk_indices r)) ms)) = take n (map ((!) (topk_indices r)) ms)"
    using n by (simp add: pad_def)
  have c: "compact_lists max_token capacity (topk_indices r) (in_slots capacity max_token r) (sp_lru capacity r) (r\<lparr>last_req_id := req_id r\<rparr>) =
    r\<lparr>last_req_id := req_id r, slot_to_token := scatter (map nat (take n ev)) (map ((!) (topk_indices r)) (take n ms)) (in_slots capacity max_token r),
      lru_slots := pad (nat capacity) (- 1) (drop n ev @ take n ev @ hits), current_slots := scatter (take n ms) (take n ev) cur, miss_count := int n,
      miss_tokens := pad N (- 1) (map ((!) (topk_indices r)) ms), miss_slots := pad N (- 1) (take n ev)\<rparr>"
    using call assms(2) by (auto simp: compact_lists_def call_lists_def Let_def)
  show ?thesis
    unfolding legacy_spec_def compact_spec_def in_slots_def [symmetric] Let_def c p scanned_def
    using assms(2) t by (simp add: take_map)
qed

lemma in_slots_bound:
  assumes "list_all (\<lambda>t. t < max_token) (slot_to_token r)" "0 < max_token" "t \<in> set (in_slots capacity max_token r)"
  shows "t < max_token"
  using assms by (auto simp: in_slots_def sp_invalidate_def sp_slots_def list_all_iff split: if_splits)

lemma legacy_row_eq:
  assumes ok: "legacy_ok topk capacity max_token r" and pos: "0 < topk" "0 < capacity" "0 < max_token"
    and scratch: "capacity \<le> max_token \<Longrightarrow> b + nat capacity \<le> length mark"
  shows "\<exists>mark'. legacy_row topk capacity max_token (int b) (r, mark) = Some (legacy_spec capacity max_token r, mark') \<and>
    length mark' = length mark"
proof -
  let ?tks = "topk_indices r" and ?s2t = "in_slots capacity max_token r" and ?lru = "sp_lru capacity r" and ?N = "nat topk"
  let ?sc = "capacity \<le> max_token"
  have cache: "cache_ok topk capacity max_token r" and td: "tokens_distinct max_token ?tks"
    and bound: "list_all (\<lambda>t. t < max_token) (slot_to_token r)"
    using ok by (simp_all add: legacy_ok_def)
  have wf: "row_wf topk capacity r" using cache by (simp add: cache_ok_def)
  have perm: "lru_perm capacity ?lru" and sd: "tokens_distinct max_token ?s2t"
    using cache_inputs [OF cache] by (simp_all add: in_slots_def)
  have tl: "length ?tks = ?N" and sl: "int (length ?s2t) = capacity"
    using row_wf_inputs(1,2) [OF wf] by (auto simp: in_slots_def)
  obtain cur ev hits ms n where call: "call_lists max_token capacity ?tks ?s2t ?lru = (cur, ev, hits, ms, n)"
    by (metis surj_pair)
  then have parts: "ev = sp_evictable max_token capacity ?tks ?s2t ?lru" "hits = sp_hits max_token capacity ?tks ?s2t ?lru"
    "cur = sp_current max_token capacity ?tks ?s2t ?lru" "ms = sp_misses max_token ?tks cur" "n \<le> length ms" "n \<le> length ev"
    by (auto simp: call_lists_def Let_def)
  have cl: "length cur = ?N" and msl: "length ms \<le> ?N"
    using tl sp_misses_props(1) [of max_token ?tks cur] by (simp_all add: parts(3,4))
  have eh: "length ev + length hits = nat capacity"
    unfolding parts(1,2) length_evictable_hits using lru_permD(3,4) [OF perm] by simp
  let ?mark = "if ?sc then placed b ev mark else mark"
  let ?c = "scatter (take n ms) (take n ev) cur"
  let ?ts = "map ((!) ?tks) ms"
  let ?mt = "pad ?N (- 1) (take n ?ts)" and ?ms = "pad ?N (- 1) (take n ev)"
  let ?order = "drop n ev @ take n ev @ hits"
  have scan: "legacy_scan topk capacity max_token ?sc (int b)
      (scanned r ?s2t ?lru (replicate ?N (- 1)) (replicate ?N (- 1)) (replicate ?N (- 1)), mark) =
    Some (scanned r ?s2t ?lru cur (replicate ?N (- 1)) (replicate ?N (- 1)), ?mark, int (length ev))"
    using legacy_scan_eq [OF tl sl perm scratch] by (simp only: all_current_distinct [OF td] parts(1,3))
  have miss: "legacy_misses topk max_token (scanned r ?s2t ?lru cur (replicate ?N (- 1)) (replicate ?N (- 1))) =
    Some (scanned r ?s2t ?lru cur (pad ?N (- 1) ?ts) (pad ?N (- 1) (map int ms)), int (length ms))"
    by (rule legacy_misses_eq [OF tl cl td parts(4)])
  have assign: "legacy_assign topk capacity ?sc (int b) ?mark (int (length ev)) (int (length ms))
      (scanned r ?s2t ?lru cur (pad ?N (- 1) ?ts) (pad ?N (- 1) (map int ms))) =
    Some (scanned r ?s2t ?lru ?c (pad ?N (- 1) ?ts) (pad ?N (- 1) (take n ev @ map int (drop n ms))), int n)"
    using scratch by (intro legacy_assign_eq [OF sd sl perm call tl]) simp
  have "tok_ok max_token (?tks ! p)" if "p < ?N" "0 \<le> ?c ! p" for p
    using compact_sound [OF call refl sl row_wf_inputs(4) [OF wf], of p] that compact_lists_fields(3) [OF call refl] tl by auto
  then have dups: "legacy_propagate topk (scanned r ?s2t ?lru ?c mt ml) = Some (scanned r ?s2t ?lru ?c mt ml)" for mt ml
    using cl by (intro legacy_propagate_eq [OF tl _ td]) simp_all
  have trim: "legacy_trim topk (int n) (scanned r ?s2t ?lru ?c (pad ?N (- 1) ?ts) (pad ?N (- 1) (take n ev @ map int (drop n ms)))) =
    Some (scanned r ?s2t ?lru ?c ?mt ?ms)"
  proof -
    have "take n (take n ev @ map int (drop n ms)) = take n ev" using parts(6) by simp
    then show ?thesis
      using legacy_trim_eq [of ?ts topk "take n ev @ map int (drop n ms)" n r ?s2t ?lru ?c] msl parts(5,6) by simp
  qed
  have order: "(if ?sc then do {
            (r, write_pos) \<leftarrow> legacy_tail topk capacity (scanned r ?s2t ?lru ?c ?mt ?ms);
            (r, output) \<leftarrow> legacy_front (int b) ?mark (int (length ev)) (int n) r;
            Some r }
          else legacy_sort topk capacity (int n) (scanned r ?s2t ?lru ?c ?mt ?ms)) = Some (scanned r ?s2t ?order ?c ?mt ?ms)"
  proof (cases ?sc)
    case True
    let ?A = "take (nat capacity - length hits) ?lru @ hits"
    obtain w where "legacy_tail topk capacity (scanned r ?s2t ?lru ?c ?mt ?ms) = Some (scanned r ?s2t ?A ?c ?mt ?ms, w)"
      using legacy_tail_eq [where c = ?c and mt = ?mt and ms = ?ms, OF tl sl perm _ parts(2)]
        in_slots_bound [OF bound pos(3)] by blast
    moreover have "length ev \<le> length ?A" using eh lru_permD(3) [OF perm] by simp
    then obtain out where "legacy_front (int b) (placed b ev mark) (int (length ev)) (int n) (scanned r ?s2t ?A ?c ?mt ?ms) =
        Some (scanned r ?s2t (drop n ev @ take n ev @ drop (length ev) ?A) ?c ?mt ?ms, out)"
      using legacy_front_eq [of b ev mark n ?N ?A r ?s2t ?c ?mt] scratch [OF True] eh parts(5,6) msl by auto
    moreover have "drop (length ev) ?A = hits"
    proof -
      have "nat capacity - length hits = length ev" "length ?lru = nat capacity" using eh lru_permD(3) [OF perm] by simp_all
      then show ?thesis by simp
    qed
    ultimately show ?thesis using True by simp
  next
    case False
    have "legacy_sort topk capacity (int (length (take n ev))) (scanned r ?s2t ?lru ?c ?mt ?ms) =
        Some (scanned r ?s2t (by_category (take n ev) ?c ?lru) ?c ?mt ?ms)"
      by (rule legacy_sort_eq) (use cl msl parts(5) lru_permD(3) [OF perm] pos(2) in simp_all)
    moreover have "by_category (take n ev) ?c ?lru = ?order"
      by (rule by_category_order [OF perm call]) (rule used_slots [OF sd sl perm call order_refl])
    ultimately show ?thesis using False parts(6) by simp
  qed
  have store: "legacy_store (int n) (scanned r ?s2t ?order ?c ?mt ?ms) =
      Some (scanned r (scatter (map nat (take n ev)) (take n ?ts) ?s2t) ?order ?c ?mt ?ms)"
    using parts(5,6) msl sl evictable_slot_ok by (intro legacy_store_eq) (auto simp: parts(1))
  have "length ?order = nat capacity" using eh parts(6) by simp
  note spec = legacy_spec_scanned [OF call tl this]
  have "legacy_row topk capacity max_token (int b) (r, mark) = Some (legacy_spec capacity max_token r, ?mark)"
  proof -
    obtain r1 r2 where "legacy_clear topk r = Some r1" "legacy_reset capacity r1 = Some r2"
      "legacy_invalidate capacity max_token r2 =
        Some (scanned r ?s2t ?lru (replicate ?N (- 1)) (replicate ?N (- 1)) (replicate ?N (- 1)))"
      using legacy_prepare [OF wf, of max_token] by (auto simp: bind_eq_Some_conv)
    then show ?thesis
      unfolding legacy_row_def Let_def prod.case spec
      by (simp only: Option.bind.bind_lunit prod.case scan miss assign dups trim order store)
  qed
  moreover have "length ?mark = length mark" using scratch eh by (cases ?sc) simp_all
  ultimately show ?thesis by blast
qed


section \<open>The launch\<close>

text \<open>The grid and block size of a launch, and the scratch of a thread.\<close>

definition legacy_grid :: "int \<Rightarrow> nat" where
  "legacy_grid num_reqs = (if num_reqs > int LRU_COMPACT_MAX_GRID_DIM then LRU_COMPACT_MAX_GRID_DIM
     else if num_reqs > 0 then nat num_reqs else 1)"

definition legacy_threads :: "int \<Rightarrow> int \<Rightarrow> nat" where
  "legacy_threads capacity max_token = (if capacity > 0 \<and> max_token \<ge> capacity
     then (let workspace_threads = max_token div capacity in
           if workspace_threads > int LRU_COMPACT_MAX_THREADS_PER_BLOCK then LRU_COMPACT_MAX_THREADS_PER_BLOCK
           else nat workspace_threads)
     else 1)"

definition legacy_base :: "nat \<Rightarrow> int \<Rightarrow> int \<Rightarrow> nat \<Rightarrow> nat" where
  "legacy_base grid capacity max_token thread = (thread mod grid) * nat max_token + (thread div grid) * nat capacity"

lemma legacy_grid_pos: "0 < legacy_grid num_reqs" "legacy_grid num_reqs \<le> LRU_COMPACT_MAX_GRID_DIM"
  by (auto simp: legacy_grid_def LRU_COMPACT_MAX_GRID_DIM_def)

lemma legacy_threads_fit:
  assumes "0 < capacity" "capacity \<le> max_token"
  shows "0 < legacy_threads capacity max_token" "legacy_threads capacity max_token * nat capacity \<le> nat max_token"
proof -
  have d: "1 \<le> max_token div capacity" "max_token div capacity * capacity \<le> max_token"
    using assms pos_mod_sign [of capacity max_token]
    by (simp_all add: pos_imp_zdiv_pos_iff int_one_le_iff_zero_less flip: minus_mod_eq_div_mult)
  then show "0 < legacy_threads capacity max_token"
    using assms by (auto simp: legacy_threads_def Let_def LRU_COMPACT_MAX_THREADS_PER_BLOCK_def)
  have "int (legacy_threads capacity max_token) \<le> max_token div capacity"
    using assms d(1) by (auto simp: legacy_threads_def Let_def)
  then have "int (legacy_threads capacity max_token) * capacity \<le> max_token div capacity * capacity"
    using assms(1) by (intro mult_right_mono) simp_all
  moreover have "int (legacy_threads capacity max_token * nat capacity) = int (legacy_threads capacity max_token) * capacity"
    using assms(1) by simp
  ultimately have "int (legacy_threads capacity max_token * nat capacity) \<le> max_token" using d(2) by linarith
  then show "legacy_threads capacity max_token * nat capacity \<le> nat max_token" by linarith
qed

lemma mult_add_mono:
  fixes a b :: nat
  assumes "a < g" "t < n" "n * c \<le> m"
  shows "a * m + t * c + c \<le> g * m"
proof -
  have "Suc t * c \<le> n * c" using assms(2) by (intro mult_le_mono1) simp
  then have "a * m + t * c + c \<le> Suc a * m" using assms(3) by simp
  also have "\<dots> \<le> g * m" using assms(1) by (intro mult_le_mono1) simp
  finally show ?thesis .
qed

lemma legacy_base_fits:
  assumes "0 < capacity" "capacity \<le> max_token" "thread < legacy_grid num_reqs * legacy_threads capacity max_token"
  shows "legacy_base (legacy_grid num_reqs) capacity max_token thread + nat capacity \<le> LRU_COMPACT_MAX_GRID_DIM * nat max_token"
proof -
  have "thread div legacy_grid num_reqs < legacy_threads capacity max_token"
    using assms(3) by (simp add: less_mult_imp_div_less mult.commute)
  then have "legacy_base (legacy_grid num_reqs) capacity max_token thread + nat capacity \<le> legacy_grid num_reqs * nat max_token"
    unfolding legacy_base_def using legacy_grid_pos(1) legacy_threads_fit(2) [OF assms(1,2)] by (intro mult_add_mono) simp_all
  also have "\<dots> \<le> LRU_COMPACT_MAX_GRID_DIM * nat max_token" using legacy_grid_pos(2) by (intro mult_le_mono1)
  finally show ?thesis .
qed

lemma legacy_thread_eq:
  assumes pos: "0 < topk" "0 < capacity" "0 < max_token" and rows: "list_all (legacy_ok topk capacity max_token) rows"
    and g: "0 < grid" "0 < threads"
    and scratch: "capacity \<le> max_token \<Longrightarrow> legacy_base grid capacity max_token thread + nat capacity \<le> length mark"
    and st: "\<And>i. i \<in> set (lane_items thread (grid * threads) (length rows)) \<Longrightarrow> i \<notin> R"
  shows "\<exists>mark'. OffloadLruCompactLegacySimtOps grid threads (int (length rows)) topk capacity max_token thread
      (overwrite R (\<lambda>i. legacy_spec capacity max_token (rows ! i)) rows, mark) =
    Some (overwrite (R \<union> set (lane_items thread (grid * threads) (length rows)))
      (\<lambda>i. legacy_spec capacity max_token (rows ! i)) rows, mark') \<and> length mark' = length mark"
proof -
  let ?f = "\<lambda>i. legacy_spec capacity max_token (rows ! i)"
  let ?items = "lane_items thread (grid * threads) (length rows)"
  let ?base = "int (thread mod grid) * max_token + int (thread div grid) * capacity"
  have base: "?base = int (legacy_base grid capacity max_token thread)" using pos by (simp add: legacy_base_def)
  let ?body = "\<lambda>row (rows, mark). do {
          r \<leftarrow> rd rows (int row);
          (r, mark) \<leftarrow> legacy_row topk capacity max_token ?base (r, mark);
          rows \<leftarrow> wr rows (int row) r;
          Some (rows, mark) }"
  have "\<exists>s'. for_each ?items ?body (overwrite R ?f rows, mark) = Some s' \<and>
      (fst s' = overwrite (R \<union> set ?items) ?f rows \<and> length (snd s') = length mark)"
  proof (rule for_each_set_rule_gen [where P = "\<lambda>D s. fst s = overwrite D ?f rows \<and> length (snd s) = length mark"])
    show "set ?items \<inter> R = {}" using st by blast
  next
    fix D x and s :: "lru_row list \<times> int list" assume x: "x \<in> set ?items" "x \<notin> D" and P: "fst s = overwrite D ?f rows \<and> length (snd s) = length mark"
    obtain mk where s: "s = (overwrite D ?f rows, mk)" "length mk = length mark" using P by (cases s) auto
    have xl: "x < length rows" using x(1) g by (simp add: set_lane_items)
    have ok: "legacy_ok topk capacity max_token (rows ! x)" using rows xl by (simp add: list_all_length)
    obtain mk' where "legacy_row topk capacity max_token ?base (rows ! x, mk) = Some (?f x, mk')" "length mk' = length mk"
      using legacy_row_eq [OF ok pos, of "legacy_base grid capacity max_token thread" mk] scratch s(2) unfolding base by auto
    then have "?body x s = Some (overwrite (insert x D) ?f rows, mk')"
      unfolding s(1) using xl x(2) by (simp add: overwrite_insert del: of_nat_mod of_nat_div)
    then show "\<exists>s'. ?body x s = Some s' \<and> (fst s' = overwrite (insert x D) ?f rows \<and> length (snd s') = length mark)"
      using \<open>length mk' = length mk\<close> s(2) by auto
  qed (simp_all add: distinct_lane_items)
  then show ?thesis
    unfolding OffloadLruCompactLegacySimtOps_def Let_def using pos by (auto simp: not_le simp del: of_nat_mod of_nat_div)
qed

lemma legacy_launch_eq:
  assumes "simt_ok m" and pos: "0 < topk" "0 < capacity" "0 < max_token" and rows: "list_all (legacy_ok topk capacity max_token) rows"
    and mark: "LRU_COMPACT_MAX_GRID_DIM * nat max_token \<le> length mark"
  shows "\<exists>mark'. LaunchLegacyLruCompact m p (int (length rows)) topk capacity max_token (rows, mark) =
    Some (map (legacy_spec capacity max_token) rows, mark') \<and> length mark' = length mark"
proof -
  let ?g = "legacy_grid (int (length rows))" and ?t = "legacy_threads capacity max_token"
  let ?f = "\<lambda>i. legacy_spec capacity max_token (rows ! i)"
  let ?R = "\<lambda>D. {i. i < length rows \<and> i mod (?g * ?t) \<in> D}"
  let ?P = "\<lambda>D s. fst s = overwrite (?R D) ?f rows \<and> length (snd s) = length mark"
  have t: "0 < ?t" using legacy_threads_fit(1) [OF pos(2)] by (cases "capacity \<le> max_token") (auto simp: legacy_threads_def)
  have T: "0 < ?g * ?t" using t legacy_grid_pos(1) by simp
  have "\<exists>s'. par_for m p (?g * ?t) (?g * ?t) (OffloadLruCompactLegacySimtOps ?g ?t (int (length rows)) topk capacity max_token) (rows, mark) =
      Some s' \<and> ?P {..<?g * ?t} s'"
  proof (rule par_for_rule [where P = ?P, OF assms(1) T])
    fix D i and s :: "lru_row list \<times> int list" assume i: "i < ?g * ?t" "i \<notin> D" and P: "?P D s"
    obtain mk where s: "s = (overwrite (?R D) ?f rows, mk)" "length mk = length mark" using P by (cases s) auto
    have items: "set (lane_items i (?g * ?t) (length rows)) = ?R {i}" using i(1) T by (auto simp: set_lane_items)
    have sc: "legacy_base ?g capacity max_token i + nat capacity \<le> length mk" if "capacity \<le> max_token"
      using legacy_base_fits [OF pos(2) that i(1)] mark s(2) by linarith
    have fresh: "j \<notin> ?R D" if "j \<in> set (lane_items i (?g * ?t) (length rows))" for j
      using that i(2) unfolding items by simp
    have "\<exists>mk'. OffloadLruCompactLegacySimtOps ?g ?t (int (length rows)) topk capacity max_token i s =
        Some (overwrite (?R D \<union> ?R {i}) ?f rows, mk') \<and> length mk' = length mk"
      unfolding items [symmetric] s(1) by (rule legacy_thread_eq [OF pos rows legacy_grid_pos(1) t sc fresh])
    then obtain mk' where "OffloadLruCompactLegacySimtOps ?g ?t (int (length rows)) topk capacity max_token i s =
        Some (overwrite (?R D \<union> ?R {i}) ?f rows, mk')" "length mk' = length mk" by blast
    moreover have "?R D \<union> ?R {i} = ?R (insert i D)" by auto
    ultimately show "\<exists>s'. OffloadLruCompactLegacySimtOps ?g ?t (int (length rows)) topk capacity max_token i s = Some s' \<and> ?P (insert i D) s'"
      using s(2) by auto
  qed simp
  moreover have "?R {..<?g * ?t} = {..<length rows}" using T by (auto simp del: mult_eq_0_iff)
  moreover have "overwrite {..<length rows} ?f rows = map (legacy_spec capacity max_token) rows"
    by (simp add: overwrite_all map_nth_take)
  ultimately show ?thesis
    unfolding LaunchLegacyLruCompact_def Let_def legacy_grid_def [symmetric] legacy_threads_def [unfolded Let_def, symmetric] by auto
qed


lemma legacy_spec_eq:
  assumes "cache_ok topk capacity max_token r" "topk \<le> capacity"
  shows "legacy_spec capacity max_token r = compact_spec capacity max_token r"
proof -
  have wf: "row_wf topk capacity r" using assms(1) by (simp add: cache_ok_def)
  let ?s2t = "sp_invalidate max_token (clamp_prefix max_token (stable_prefix_len r)) (sp_slots capacity r)"
  obtain cur ev hits ms n where call: "call_lists max_token capacity (topk_indices r) ?s2t (sp_lru capacity r) =
      (cur, ev, hits, ms, n)" by (metis surj_pair)
  then have parts: "ev = sp_evictable max_token capacity (topk_indices r) ?s2t (sp_lru capacity r)"
    "hits = sp_hits max_token capacity (topk_indices r) ?s2t (sp_lru capacity r)"
    "ms = sp_misses max_token (topk_indices r) (sp_current max_token capacity (topk_indices r) ?s2t (sp_lru capacity r))"
    "n = min (length ms) (length ev)"
    by (auto simp: call_lists_def Let_def)
  have "length hits + length ms \<le> length (topk_indices r)"
    unfolding parts by (rule hits_le_positions) (use cache_inputs [OF assms(1)] row_wf_inputs [OF wf] in blast)+
  moreover have "length ev + length hits = nat capacity"
    unfolding parts length_evictable_hits using lru_permD(3,4) [OF cache_inputs(1) [OF assms(1)]] by simp
  ultimately have n: "n = length ms" "length ms \<le> length (topk_indices r)"
    using row_wf_inputs(1) [OF wf] assms(2) parts(4) by linarith+
  note fields = compact_lists_fields [OF call refl, of "r\<lparr>last_req_id := req_id r\<rparr>"]
  have "pad (length (topk_indices r)) (- 1) (take n (pad (length (topk_indices r)) (- 1) (map ((!) (topk_indices r)) ms))) =
      pad (length (topk_indices r)) (- 1) (map ((!) (topk_indices r)) ms)"
    using n by (simp add: pad_def)
  then show ?thesis
    unfolding legacy_spec_def Let_def compact_spec_def fields nat_int
    using fields(5) by (metis (no_types, lifting) lru_row.surjective lru_row.update_convs(9))
qed

section \<open>The choice of the implementation\<close>

text \<open>\<^verbatim>\<open>OffloadOpsLruCompact\<close>. The slices of \<^verbatim>\<open>token_mark_workspace\<close> are one buffer to the legacy kernel.\<close>

definition split_mark :: "int \<Rightarrow> lru_ws list \<Rightarrow> int list \<Rightarrow> lru_ws list" where
  "split_mark max_token wss mark =
     map (\<lambda>i. (wss ! i)\<lparr>token_mark := take (nat max_token) (drop (i * nat max_token) mark)\<rparr>) [0..<length wss]"

definition OffloadOpsLruCompact ::
  "simt \<Rightarrow> nat \<Rightarrow> int \<Rightarrow> int \<Rightarrow> int \<Rightarrow> int \<Rightarrow> lru_row list \<times> lru_ws list \<Rightarrow> (lru_row list \<times> lru_ws list) option" where
  "OffloadOpsLruCompact m p num_reqs topk capacity max_token = (\<lambda>(rows, wss).
     if \<not> CanUseProductionPhasedLru num_reqs topk capacity max_token then do {
       (rows, mark) \<leftarrow> LaunchLegacyLruCompact m p num_reqs topk capacity max_token (rows, concat (map token_mark wss));
       Some (rows, split_mark max_token wss mark) }
     else LaunchProductionPhasedLru m num_reqs topk capacity max_token (rows, wss))"

lemma length_marks:
  "(\<And>w. w \<in> set wss \<Longrightarrow> length (token_mark w) = n) \<Longrightarrow> length (concat (map token_mark wss)) = length wss * n"
  by (induction wss) auto

lemma offload_compact_spec:
  assumes "simt_ok m" "0 < topk" "0 < capacity" "0 < max_token" "topk \<le> capacity"
    and "list_all (legacy_ok topk capacity max_token) rows"
    and "length wss = LRU_COMPACT_WORKSPACE_THREADS" "\<And>w. w \<in> set wss \<Longrightarrow> ws_wf max_token w"
  shows "\<exists>wss'. OffloadOpsLruCompact m p (int (length rows)) topk capacity max_token (rows, wss) =
    Some (map (compact_spec capacity max_token) rows, wss')"
proof (cases "CanUseProductionPhasedLru (int (length rows)) topk capacity max_token")
  case True
  have "row_wf topk capacity r" if "r \<in> set rows" for r
    using that assms(6) by (simp add: list_all_iff legacy_ok_def cache_ok_def)
  then show ?thesis
    using launch_phased_spec [OF assms(1) True refl _ assms(7,8)] True by (auto simp: OffloadOpsLruCompact_def)
next
  case False
  have marks: "length (concat (map token_mark wss)) = length wss * nat max_token"
    using assms(8) unfolding ws_wf_def by (intro length_marks) (metis nat_int)
  have "LRU_COMPACT_MAX_GRID_DIM * nat max_token \<le> length (concat (map token_mark wss))"
    unfolding marks using assms(7) by (simp add: LRU_COMPACT_MAX_GRID_DIM_def LRU_COMPACT_WORKSPACE_THREADS_def)
  from legacy_launch_eq [OF assms(1-4,6) this]
  obtain mark' where l: "LaunchLegacyLruCompact m p (int (length rows)) topk capacity max_token (rows, concat (map token_mark wss)) =
      Some (map (legacy_spec capacity max_token) rows, mark')" by blast
  have "map (legacy_spec capacity max_token) rows = map (compact_spec capacity max_token) rows"
    using assms(5,6) by (auto simp: list_all_iff legacy_ok_def intro: legacy_spec_eq)
  then show ?thesis using False l by (simp add: OffloadOpsLruCompact_def)
qed

section \<open>Properties\<close>

text \<open>C14. Threads of the legacy kernel never share scratch: the scratch areas of two threads of a launch are
  disjoint and all lie within the eight slices of the workspace.\<close>

theorem legacy_scratch_disjoint:
  assumes "0 < capacity" "capacity \<le> max_token" "i < legacy_grid num_reqs * legacy_threads capacity max_token"
    and "j < legacy_grid num_reqs * legacy_threads capacity max_token" "i \<noteq> j"
  shows "{legacy_base (legacy_grid num_reqs) capacity max_token i..<legacy_base (legacy_grid num_reqs) capacity max_token i + nat capacity} \<inter>
      {legacy_base (legacy_grid num_reqs) capacity max_token j..<legacy_base (legacy_grid num_reqs) capacity max_token j + nat capacity} = {} \<and>
    legacy_base (legacy_grid num_reqs) capacity max_token i + nat capacity \<le> LRU_COMPACT_MAX_GRID_DIM * nat max_token"
proof -
  let ?g = "legacy_grid num_reqs" and ?t = "legacy_threads capacity max_token"
  let ?b = "legacy_base ?g capacity max_token"
  have apart: "?b i + nat capacity \<le> ?b j"
    if "i < ?g * ?t" "j < ?g * ?t" "i mod ?g < j mod ?g \<or> i mod ?g = j mod ?g \<and> i div ?g < j div ?g" for i j
  proof -
    have t: "i div ?g < ?t" using that(1) by (simp add: less_mult_imp_div_less mult.commute)
    from that(3) show ?thesis
    proof
      assume "i mod ?g < j mod ?g"
      then have "(i mod ?g) * nat max_token + (i div ?g) * nat capacity + nat capacity \<le> (j mod ?g) * nat max_token"
        using t legacy_threads_fit(2) [OF assms(1,2)] by (rule mult_add_mono)
      then show ?thesis by (simp add: legacy_base_def)
    next
      assume *: "i mod ?g = j mod ?g \<and> i div ?g < j div ?g"
      then have "Suc (i div ?g) * nat capacity \<le> (j div ?g) * nat capacity" by (intro mult_le_mono1) simp
      then show ?thesis using * by (simp add: legacy_base_def)
    qed
  qed
  have "i mod ?g \<noteq> j mod ?g \<or> i div ?g \<noteq> j div ?g" using assms(5) by (metis div_mult_mod_eq)
  then consider "i mod ?g < j mod ?g \<or> i mod ?g = j mod ?g \<and> i div ?g < j div ?g"
    | "j mod ?g < i mod ?g \<or> j mod ?g = i mod ?g \<and> j div ?g < i div ?g" by linarith
  then have "{?b i..<?b i + nat capacity} \<inter> {?b j..<?b j + nat capacity} = {}"
    using apart [OF assms(3,4)] apart [OF assms(4,3)] by cases auto
  then show ?thesis using legacy_base_fits [OF assms(1-3)] by blast
qed

theorem legacy_scratch_witness:
  "{legacy_base (legacy_grid 3) 2 5 0..<legacy_base (legacy_grid 3) 2 5 0 + nat 2} \<inter>
      {legacy_base (legacy_grid 3) 2 5 4..<legacy_base (legacy_grid 3) 2 5 4 + nat 2} = {} \<and>
    legacy_base (legacy_grid 3) 2 5 0 + nat 2 \<le> LRU_COMPACT_MAX_GRID_DIM * nat 5"
  by (rule legacy_scratch_disjoint)
    (simp_all add: legacy_grid_def legacy_threads_def LRU_COMPACT_MAX_GRID_DIM_def LRU_COMPACT_MAX_THREADS_PER_BLOCK_def)


lemma example_legacy_ok: "legacy_ok 2 3 5 example_row"
  by (simp add: legacy_ok_def cache_ok_def example_wf) (simp add: example_row_def)


text \<open>Whichever implementation the generic entry point picks for a shape, the rows are the same.\<close>

theorem offload_compact_correct:
  assumes "simt_ok m" "0 < topk" "0 < capacity" "0 < max_token" "topk \<le> capacity"
    and "list_all (legacy_ok topk capacity max_token) rows"
    and "length wss = LRU_COMPACT_WORKSPACE_THREADS" "\<And>w. w \<in> set wss \<Longrightarrow> ws_wf max_token w"
  shows "\<exists>wss'. OffloadOpsLruCompact m p (int (length rows)) topk capacity max_token (rows, wss) =
    Some (map (compact_spec capacity max_token) rows, wss')"
  using assms by (rule offload_compact_spec)

theorem offload_compact_witness:
  "\<exists>wss'. OffloadOpsLruCompact example_simt 0 (int (length [example_row])) 2 3 5 ([example_row], replicate 8 example_ws) =
    Some (map (compact_spec 3 5) [example_row], wss')"
  by (rule offload_compact_correct) (simp_all add: example_legacy_ok example_wf LRU_COMPACT_WORKSPACE_THREADS_def)

end
