(* ===== verification/Warp_Scan.thy ===== *)
theory Warp_Scan
  imports Simt
begin

text \<open>
  The block-wide prefix sums of the mixed kernels: five register-shuffle stages scan each
  warp, the last lane of every warp publishes its total, warp 0 scans the totals, and every
  lane adds its warp's base (\<^verbatim>\<open>WarpScanPair1024\<close>, \<^verbatim>\<open>BlockAny1024\<close> of
  \<^verbatim>\<open>acc_offload_lru_compact_fused_v3.cpp\<close>, \<^verbatim>\<open>WarpExclusiveScan1024\<close> of
  \<^verbatim>\<open>acc_offload_lru_resident_addrs_mixed_parallel.cpp\<close>).
  The result is the ordinary prefix sum of the flags, for every conforming device.
\<close>

section \<open>One warp\<close>

text \<open>\<open>shfl_scan m width offset regs\<close> is the loop
  \<^verbatim>\<open>for (; offset < width; offset <<= 1) { prior = asc_shfl_up(x, offset); if (lane >= offset) x += prior; }\<close>
  on the registers \<open>regs\<close> of one warp.\<close>

definition shfl_add :: "simt \<Rightarrow> nat \<Rightarrow> int list \<Rightarrow> int list" where
  "shfl_add m offset regs =
     map (\<lambda>lane. let prior = shfl_up m regs offset lane
                 in if offset \<le> lane then regs ! lane + prior else regs ! lane) [0..<length regs]"

function shfl_scan :: "simt \<Rightarrow> nat \<Rightarrow> nat \<Rightarrow> int list \<Rightarrow> int list" where
  "shfl_scan m width offset regs =
     (if 0 < offset \<and> offset < width then shfl_scan m width (2 * offset) (shfl_add m offset regs)
      else regs)"
  by pat_completeness auto
termination
  by (relation "measure (\<lambda>(m, width, offset, regs). width - offset)") auto

declare shfl_scan.simps [simp del]

definition shfl_or :: "simt \<Rightarrow> nat \<Rightarrow> int list \<Rightarrow> int list" where
  "shfl_or m offset regs =
     map (\<lambda>lane. let prior = shfl_up m regs offset lane
                 in if offset \<le> lane \<and> prior \<noteq> 0 then 1 else regs ! lane) [0..<length regs]"

function shfl_any :: "simt \<Rightarrow> nat \<Rightarrow> nat \<Rightarrow> int list \<Rightarrow> int list" where
  "shfl_any m width offset regs =
     (if 0 < offset \<and> offset < width then shfl_any m width (2 * offset) (shfl_or m offset regs)
      else regs)"
  by pat_completeness auto
termination
  by (relation "measure (\<lambda>(m, width, offset, regs). width - offset)") auto

declare shfl_any.simps [simp del]

section \<open>The block\<close>

definition WARP_SIZE :: nat where "WARP_SIZE = 32"
definition WARP_COUNT :: nat where "WARP_COUNT = 32"
definition THREADS :: nat where "THREADS = WARP_COUNT * WARP_SIZE"

lemma WARP_pos [simp]: "0 < WARP_SIZE" "0 < WARP_COUNT" "0 < THREADS"
  by (simp_all add: WARP_SIZE_def WARP_COUNT_def THREADS_def)

definition warp_regs :: "int list \<Rightarrow> nat \<Rightarrow> int list" where
  "warp_regs regs warp = map (\<lambda>lane. regs ! (warp * WARP_SIZE + lane)) [0..<WARP_SIZE]"

text \<open>The scan of one predicate: the registers \<open>inclusive\<close> of every lane, the warp totals the last
  lanes publish, the exclusive bases warp 0 computes, and the value of every thread.\<close>

definition warp_inclusive :: "simt \<Rightarrow> int list \<Rightarrow> nat \<Rightarrow> int list" where
  "warp_inclusive m flags warp = shfl_scan m WARP_SIZE 1 (warp_regs flags warp)"

definition warp_totals :: "simt \<Rightarrow> int list \<Rightarrow> int list" where
  "warp_totals m flags = map (\<lambda>warp. warp_inclusive m flags warp ! (WARP_SIZE - 1)) [0..<WARP_COUNT]"

definition warp_bases :: "simt \<Rightarrow> int list \<Rightarrow> int list" where
  "warp_bases m flags =
     (let totals = warp_totals m flags; incl = shfl_scan m WARP_COUNT 1 totals
      in map (\<lambda>lane. incl ! lane - totals ! lane) [0..<WARP_COUNT])"

definition block_scan :: "simt \<Rightarrow> int list \<Rightarrow> int list" where
  "block_scan m flags =
     map (\<lambda>thread. warp_bases m flags ! (thread div WARP_SIZE) +
                   warp_inclusive m flags (thread div WARP_SIZE) ! (thread mod WARP_SIZE))
       [0..<THREADS]"

text \<open>\<^verbatim>\<open>WarpScanPair1024\<close> and \<^verbatim>\<open>StableScanPair1024\<close> run the scan for two predicates at once, in
  the arrays \<^verbatim>\<open>evictA/B\<close> and \<^verbatim>\<open>hitA/B\<close>; the result arrays are \<^verbatim>\<open>evictA\<close> and \<^verbatim>\<open>hitA\<close>.\<close>

definition StableScanPair1024 :: "simt \<Rightarrow> int list \<Rightarrow> int list \<Rightarrow> int list \<times> int list" where
  "StableScanPair1024 m evictFlags hitFlags = (block_scan m evictFlags, block_scan m hitFlags)"

text \<open>\<^verbatim>\<open>WarpExclusiveScan1024\<close>: the rank of every thread, and the total thread 0 leaves in
  \<^verbatim>\<open>control[CONTROL_TOTAL]\<close>.\<close>

definition WarpExclusiveScan1024 :: "simt \<Rightarrow> int list \<Rightarrow> int list \<times> int" where
  "WarpExclusiveScan1024 m flags =
     (map (\<lambda>thread. warp_bases m flags ! (thread div WARP_SIZE) +
                    warp_inclusive m flags (thread div WARP_SIZE) ! (thread mod WARP_SIZE) -
                    flags ! thread) [0..<THREADS],
      warp_bases m flags ! (WARP_COUNT - 1) + warp_totals m flags ! (WARP_COUNT - 1))"

text \<open>\<^verbatim>\<open>BlockAny1024\<close>.\<close>

definition BlockAny1024 :: "simt \<Rightarrow> int list \<Rightarrow> int" where
  "BlockAny1024 m preds =
     (let warpAny = map (\<lambda>warp. shfl_any m WARP_SIZE 1 (warp_regs preds warp) ! (WARP_SIZE - 1))
                        [0..<WARP_COUNT]
      in shfl_any m WARP_COUNT 1 warpAny ! (WARP_COUNT - 1))"

section \<open>Correctness of the shuffle loops\<close>

lemma length_shfl_add [simp]: "length (shfl_add m offset regs) = length regs"
  by (simp add: shfl_add_def)

lemma length_shfl_scan [simp]: "length (shfl_scan m width offset regs) = length regs"
  by (induction m width offset regs rule: shfl_scan.induct) (subst shfl_scan.simps, simp)

text \<open>After the stages below \<open>offset\<close>, a lane holds the sum of the last \<open>offset\<close> values up to its
  own.\<close>

definition window_sum :: "int list \<Rightarrow> nat \<Rightarrow> nat \<Rightarrow> int" where
  "window_sum vals k i = (\<Sum>j | j \<le> i \<and> i < j + k. vals ! j)"

lemma window_sum_double:
  "window_sum vals (2 * k) i =
     (if k \<le> i then window_sum vals k i + window_sum vals k (i - k) else window_sum vals k i)"
proof (cases "k \<le> i")
  case True
  have "{j. j \<le> i \<and> i < j + 2 * k} = {j. j \<le> i \<and> i < j + k} \<union> {j. j \<le> i - k \<and> i - k < j + k}"
    using True by auto
  moreover have "{j. j \<le> i \<and> i < j + k} \<inter> {j. j \<le> i - k \<and> i - k < j + k} = {}"
    using True by auto
  ultimately show ?thesis
    using True by (simp add: window_sum_def sum.union_disjoint)
next
  case False
  then have "{j. j \<le> i \<and> i < j + 2 * k} = {j. j \<le> i \<and> i < j + k}" by auto
  then show ?thesis using False by (simp add: window_sum_def)
qed

lemma shfl_scan_window:
  assumes "simt_ok m" "0 < offset" "i < length regs"
    and "\<And>i. i < length regs \<Longrightarrow> regs ! i = window_sum vals offset i"
  shows "\<exists>k \<ge> width. shfl_scan m width offset regs ! i = window_sum vals k i"
  using assms
proof (induction m width offset regs rule: shfl_scan.induct)
  case (1 m width offset regs)
  show ?case
  proof (cases "offset < width")
    case True
    have "shfl_add m offset regs ! i = window_sum vals (2 * offset) i" if "i < length regs" for i
      using that "1.prems" by (simp add: shfl_add_def window_sum_double dev_simps)
    then have "\<exists>k \<ge> width. shfl_scan m width (2 * offset) (shfl_add m offset regs) ! i = window_sum vals k i"
      using "1.prems" True by (intro "1.IH") auto
    then show ?thesis
      using True "1.prems"(2) by (simp add: shfl_scan.simps [of m width offset])
  next
    case False
    then show ?thesis
      using "1.prems" by (intro exI [of _ offset]) (simp add: shfl_scan.simps [of m width offset])
  qed
qed

lemma window_sum_1: "window_sum vals (Suc 0) i = vals ! i"
proof -
  have "{j. j \<le> i \<and> i < j + Suc 0} = {i}" by auto
  then show ?thesis by (simp add: window_sum_def)
qed

lemma window_sum_full:
  assumes "i < k" "i < length vals"
  shows "window_sum vals k i = sum_list (take (Suc i) vals)"
proof -
  have set: "{j. j \<le> i \<and> i < j + k} = {0..<Suc i}" using assms by auto
  have "sum_list (take (Suc i) vals) = (\<Sum>j \<in> {0..<Suc i}. take (Suc i) vals ! j)"
    using assms by (subst sum_list_sum_nth) (simp add: min_absorb2)
  also have "\<dots> = (\<Sum>j \<in> {0..<Suc i}. vals ! j)"
    by (rule sum.cong) auto
  finally show ?thesis by (simp only: window_sum_def set)
qed

lemma shfl_scan_prefix:
  assumes "simt_ok m" "length regs \<le> width" "i < length regs"
  shows "shfl_scan m width (Suc 0) regs ! i = sum_list (take (Suc i) regs)"
proof -
  have "\<exists>k \<ge> width. shfl_scan m width (Suc 0) regs ! i = window_sum regs k i"
    using assms by (intro shfl_scan_window) (simp_all add: window_sum_1)
  then show ?thesis
    using assms by (auto simp: window_sum_full)
qed

section \<open>Correctness of the block scan\<close>

lemma length_warp_regs [simp]: "length (warp_regs regs warp) = WARP_SIZE"
  by (simp add: warp_regs_def)

lemma warp_regs_eq:
  assumes "length flags = THREADS" "warp < WARP_COUNT"
  shows "warp_regs flags warp = take WARP_SIZE (drop (warp * WARP_SIZE) flags)"
proof -
  have "Suc warp * WARP_SIZE \<le> THREADS"
    unfolding THREADS_def using assms(2) by (intro mult_le_mono1) simp
  then show ?thesis
    using assms(1) by (intro nth_equalityI) (simp_all add: warp_regs_def)
qed

lemma sum_take_plus:
  "sum_list (take (n + k) xs) = sum_list (take n xs) + (sum_list (take k (drop n xs)) :: int)"
  by (simp add: take_add)

lemma warp_inclusive_nth:
  assumes "simt_ok m" "length flags = THREADS" "warp < WARP_COUNT" "lane < WARP_SIZE"
  shows "warp_inclusive m flags warp ! lane =
           sum_list (take (Suc lane) (drop (warp * WARP_SIZE) flags))"
proof -
  have "warp_inclusive m flags warp ! lane = sum_list (take (Suc lane) (warp_regs flags warp))"
    unfolding warp_inclusive_def One_nat_def using assms by (intro shfl_scan_prefix) simp_all
  also have "take (Suc lane) (warp_regs flags warp) = take (Suc lane) (drop (warp * WARP_SIZE) flags)"
    using assms by (simp add: warp_regs_eq min_def)
  finally show ?thesis .
qed

lemma warp_totals_nth:
  assumes "simt_ok m" "length flags = THREADS" "warp < WARP_COUNT"
  shows "warp_totals m flags ! warp = sum_list (take WARP_SIZE (drop (warp * WARP_SIZE) flags))"
  using assms warp_inclusive_nth [of m flags warp "WARP_SIZE - 1"]
  by (simp add: warp_totals_def)

lemma sum_take_warp_totals:
  assumes "simt_ok m" "length flags = THREADS" "k \<le> WARP_COUNT"
  shows "sum_list (take k (warp_totals m flags)) = sum_list (take (k * WARP_SIZE) flags)"
  using assms(3)
proof (induction k)
  case (Suc k)
  have "length (warp_totals m flags) = WARP_COUNT" by (simp add: warp_totals_def)
  then have "sum_list (take (Suc k) (warp_totals m flags)) =
      sum_list (take k (warp_totals m flags)) + warp_totals m flags ! k"
    using Suc.prems by (simp add: take_Suc_conv_app_nth)
  also have "\<dots> = sum_list (take (k * WARP_SIZE) flags) +
      sum_list (take WARP_SIZE (drop (k * WARP_SIZE) flags))"
    using Suc assms by (simp add: warp_totals_nth)
  also have "\<dots> = sum_list (take (Suc k * WARP_SIZE) flags)"
    using sum_take_plus [of "k * WARP_SIZE" WARP_SIZE flags] by (simp add: add.commute)
  finally show ?case .
qed simp

lemma warp_bases_nth:
  assumes "simt_ok m" "length flags = THREADS" "warp < WARP_COUNT"
  shows "warp_bases m flags ! warp = sum_list (take (warp * WARP_SIZE) flags)"
proof -
  have len: "length (warp_totals m flags) = WARP_COUNT" by (simp add: warp_totals_def)
  have "warp_bases m flags ! warp =
      sum_list (take (Suc warp) (warp_totals m flags)) - warp_totals m flags ! warp"
    using assms len by (simp add: warp_bases_def Let_def shfl_scan_prefix)
  also have "\<dots> = sum_list (take warp (warp_totals m flags))"
    using assms len by (simp add: take_Suc_conv_app_nth)
  finally show ?thesis
    using assms by (simp add: sum_take_warp_totals)
qed

lemma thread_split:
  assumes "t < THREADS"
  shows "t div WARP_SIZE < WARP_COUNT" "t mod WARP_SIZE < WARP_SIZE"
  using assms by (simp_all add: THREADS_def less_mult_imp_div_less)

lemma block_scan_nth:
  assumes "simt_ok m" "length flags = THREADS" "t < THREADS"
  shows "block_scan m flags ! t = sum_list (take (Suc t) flags)"
proof -
  let ?w = "t div WARP_SIZE" and ?l = "t mod WARP_SIZE"
  have "block_scan m flags ! t =
      sum_list (take (?w * WARP_SIZE) flags) + sum_list (take (Suc ?l) (drop (?w * WARP_SIZE) flags))"
    using assms thread_split [OF assms(3)]
    by (simp add: block_scan_def warp_bases_nth warp_inclusive_nth)
  also have "\<dots> = sum_list (take (?w * WARP_SIZE + Suc ?l) flags)"
    by (rule sum_take_plus [symmetric])
  also have "?w * WARP_SIZE + Suc ?l = Suc t" by simp
  finally show ?thesis .
qed

lemma length_block_scan [simp]: "length (block_scan m flags) = THREADS"
  by (simp add: block_scan_def)

section \<open>Correctness of the block disjunction\<close>

lemma length_shfl_or [simp]: "length (shfl_or m offset regs) = length regs"
  by (simp add: shfl_or_def)

lemma length_shfl_any [simp]: "length (shfl_any m width offset regs) = length regs"
  by (induction m width offset regs rule: shfl_any.induct) (subst shfl_any.simps, simp)

definition window_any :: "int list \<Rightarrow> nat \<Rightarrow> nat \<Rightarrow> bool" where
  "window_any vals k i \<longleftrightarrow> (\<exists>j. j \<le> i \<and> i < j + k \<and> vals ! j \<noteq> 0)"

lemma window_any_double:
  "window_any vals (2 * k) i \<longleftrightarrow> window_any vals k i \<or> (k \<le> i \<and> window_any vals k (i - k))"
proof -
  have "(j \<le> i \<and> i < j + 2 * k) \<longleftrightarrow>
      (j \<le> i \<and> i < j + k) \<or> (k \<le> i \<and> j \<le> i - k \<and> i - k < j + k)" for j
    by auto
  then show ?thesis by (auto simp: window_any_def)
qed

lemma shfl_any_window:
  assumes "simt_ok m" "0 < offset" "i < length regs"
    and "\<And>i. i < length regs \<Longrightarrow> regs ! i \<noteq> 0 \<longleftrightarrow> window_any vals offset i"
  shows "\<exists>k \<ge> width. shfl_any m width offset regs ! i \<noteq> 0 \<longleftrightarrow> window_any vals k i"
  using assms
proof (induction m width offset regs rule: shfl_any.induct)
  case (1 m width offset regs)
  show ?case
  proof (cases "offset < width")
    case True
    have "shfl_or m offset regs ! i \<noteq> 0 \<longleftrightarrow> window_any vals (2 * offset) i" if "i < length regs" for i
    proof -
      have "regs ! i \<noteq> 0 \<longleftrightarrow> window_any vals offset i"
        and "regs ! (i - offset) \<noteq> 0 \<longleftrightarrow> window_any vals offset (i - offset)"
        using "1.prems"(4) that by (simp_all add: less_imp_diff_less)
      then show ?thesis
        using that "1.prems"(1) by (auto simp: shfl_or_def window_any_double dev_simps Let_def)
    qed
    then have "\<exists>k \<ge> width. shfl_any m width (2 * offset) (shfl_or m offset regs) ! i \<noteq> 0 \<longleftrightarrow>
        window_any vals k i"
      using "1.prems" True by (intro "1.IH") auto
    then show ?thesis
      using True "1.prems"(2) by (simp add: shfl_any.simps [of m width offset])
  next
    case False
    then show ?thesis
      using "1.prems" by (intro exI [of _ offset]) (simp add: shfl_any.simps [of m width offset])
  qed
qed

lemma window_any_1: "window_any vals (Suc 0) i \<longleftrightarrow> vals ! i \<noteq> 0"
proof -
  have "(j \<le> i \<and> i < j + Suc 0) \<longleftrightarrow> j = i" for j by auto
  then show ?thesis by (simp add: window_any_def flip: conj_assoc)
qed

lemma shfl_any_last:
  assumes "simt_ok m" "length regs = n" "0 < n"
  shows "shfl_any m n (Suc 0) regs ! (n - Suc 0) \<noteq> 0 \<longleftrightarrow> (\<exists>i < n. regs ! i \<noteq> 0)"
proof -
  have "\<exists>k \<ge> n. shfl_any m n (Suc 0) regs ! (n - Suc 0) \<noteq> 0 \<longleftrightarrow> window_any regs k (n - Suc 0)"
    using assms by (intro shfl_any_window) (simp_all add: window_any_1)
  moreover have "window_any regs k (n - Suc 0) \<longleftrightarrow> (\<exists>i < n. regs ! i \<noteq> 0)" if "n \<le> k" for k
  proof -
    have "(j \<le> n - Suc 0 \<and> n - Suc 0 < j + k) \<longleftrightarrow> j < n" for j
      using that assms(3) by auto
    then show ?thesis by (simp add: window_any_def flip: conj_assoc)
  qed
  ultimately show ?thesis by blast
qed

lemma BlockAny1024_iff:
  assumes "simt_ok m" "length preds = THREADS"
  shows "BlockAny1024 m preds \<noteq> 0 \<longleftrightarrow> (\<exists>t < THREADS. preds ! t \<noteq> 0)"
proof -
  have "BlockAny1024 m preds \<noteq> 0 \<longleftrightarrow>
      (\<exists>w < WARP_COUNT. shfl_any m WARP_SIZE (Suc 0) (warp_regs preds w) ! (WARP_SIZE - Suc 0) \<noteq> 0)"
    unfolding BlockAny1024_def Let_def One_nat_def using assms by (subst shfl_any_last) auto
  also have "\<dots> \<longleftrightarrow> (\<exists>w < WARP_COUNT. \<exists>l < WARP_SIZE. preds ! (w * WARP_SIZE + l) \<noteq> 0)"
    using assms by (simp add: shfl_any_last warp_regs_def cong: conj_cong)
  also have "\<dots> \<longleftrightarrow> (\<exists>t < THREADS. preds ! t \<noteq> 0)"
  proof safe
    fix w l assume "w < WARP_COUNT" "l < WARP_SIZE" "preds ! (w * WARP_SIZE + l) \<noteq> 0"
    moreover from this have "w * WARP_SIZE + l < Suc w * WARP_SIZE" "Suc w * WARP_SIZE \<le> THREADS"
      unfolding THREADS_def by (simp, intro mult_le_mono1, simp)
    ultimately show "\<exists>t < THREADS. preds ! t \<noteq> 0" by (meson less_le_trans)
  next
    fix t assume "t < THREADS" "preds ! t \<noteq> 0"
    then show "\<exists>w < WARP_COUNT. \<exists>l < WARP_SIZE. preds ! (w * WARP_SIZE + l) \<noteq> 0"
      using thread_split [of t] by (intro exI [of _ "t div WARP_SIZE"] conjI exI [of _ "t mod WARP_SIZE"]) simp_all
  qed
  finally show ?thesis .
qed

end
