(* ===== verification/Lru_Compact_V3.thy ===== *)
theory Lru_Compact_V3
  imports Lru_Compact_Simt Warp_Scan
begin

text \<open>
  The fused Compact operator for the production shape,
  \<^verbatim>\<open>src/src/acc_offload/csrc/operators/acc_offload_lru_compact_fused_v3.cpp\<close>: one kernel per row that
  stages the row in the unified buffer (UB), does everything there with 1024 lanes, warp scans and
  atomics, and publishes the result.

  The UB is a row (the staged arrays, with \<^verbatim>\<open>control[CONTROL_MISS_COUNT]\<close> as its \<open>miss_count\<close>), a
  workspace (\<open>token_mark\<close>, \<open>token_pos\<close>, with \<^verbatim>\<open>control[CONTROL_CURRENT_EPOCH]\<close> as its \<open>epoch\<close>) and the
  other control words; its contents before the staging are arbitrary. The scan buffers only carry
  registers between lanes and are the lists the scans return. Code between two barriers is a
  \<open>par_for\<close>; a loop over tiles is sequential, and the lanes' private bases are one value because every
  lane computes the same.
\<close>

section \<open>Constants and the layout of the unified buffer\<close>

definition LRU_FUSED_V3_TOPK :: nat where "LRU_FUSED_V3_TOPK = 2048"
definition LRU_FUSED_V3_CAPACITY :: nat where "LRU_FUSED_V3_CAPACITY = 4096"
definition LRU_FUSED_V3_MAX_TOKEN :: nat where "LRU_FUSED_V3_MAX_TOKEN = 4096"
definition LRU_FUSED_V3_WORKSPACE_THREADS :: int where "LRU_FUSED_V3_WORKSPACE_THREADS = 8"
definition LRU_FUSED_V3_EPOCH :: int where "LRU_FUSED_V3_EPOCH = - 2"
definition V3_PROFILE_STAMPS :: nat where "V3_PROFILE_STAMPS = 8"

definition TOPK_OFFSET :: nat where "TOPK_OFFSET = 0"
definition SLOT_TO_TOKEN_OFFSET :: nat where "SLOT_TO_TOKEN_OFFSET = TOPK_OFFSET + LRU_FUSED_V3_TOPK"
definition LRU_SLOTS_OFFSET :: nat where "LRU_SLOTS_OFFSET = SLOT_TO_TOKEN_OFFSET + LRU_FUSED_V3_CAPACITY"
definition CURRENT_SLOTS_OFFSET :: nat where "CURRENT_SLOTS_OFFSET = LRU_SLOTS_OFFSET + LRU_FUSED_V3_CAPACITY"
definition MISS_TOKENS_OFFSET :: nat where "MISS_TOKENS_OFFSET = CURRENT_SLOTS_OFFSET + LRU_FUSED_V3_TOPK"
definition TOKEN_MARK_OFFSET :: nat where "TOKEN_MARK_OFFSET = MISS_TOKENS_OFFSET + LRU_FUSED_V3_TOPK"
definition TOKEN_POS_OFFSET :: nat where "TOKEN_POS_OFFSET = TOKEN_MARK_OFFSET + LRU_FUSED_V3_MAX_TOKEN"
definition MISS_SLOTS_OFFSET :: nat where "MISS_SLOTS_OFFSET = TOKEN_POS_OFFSET + LRU_FUSED_V3_MAX_TOKEN"
definition SCAN_EVICT_A_OFFSET :: nat where "SCAN_EVICT_A_OFFSET = MISS_SLOTS_OFFSET + LRU_FUSED_V3_TOPK"
definition SCAN_EVICT_B_OFFSET :: nat where "SCAN_EVICT_B_OFFSET = SCAN_EVICT_A_OFFSET + THREADS"
definition SCAN_HIT_A_OFFSET :: nat where "SCAN_HIT_A_OFFSET = SCAN_EVICT_B_OFFSET + THREADS"
definition SCAN_HIT_B_OFFSET :: nat where "SCAN_HIT_B_OFFSET = SCAN_HIT_A_OFFSET + THREADS"
definition SCAN_CONTROL_OFFSET :: nat where "SCAN_CONTROL_OFFSET = SCAN_HIT_B_OFFSET + THREADS"
definition CONTROL_ELEMENTS_ALIGNED :: nat where "CONTROL_ELEMENTS_ALIGNED = 8"
definition FUSED_V3_DYNAMIC_UB_BYTES :: nat where
  "FUSED_V3_DYNAMIC_UB_BYTES = (SCAN_CONTROL_OFFSET + CONTROL_ELEMENTS_ALIGNED) * 4"

lemmas v3_layout = TOPK_OFFSET_def SLOT_TO_TOKEN_OFFSET_def LRU_SLOTS_OFFSET_def CURRENT_SLOTS_OFFSET_def
  MISS_TOKENS_OFFSET_def TOKEN_MARK_OFFSET_def TOKEN_POS_OFFSET_def MISS_SLOTS_OFFSET_def SCAN_EVICT_A_OFFSET_def
  SCAN_EVICT_B_OFFSET_def SCAN_HIT_A_OFFSET_def SCAN_HIT_B_OFFSET_def SCAN_CONTROL_OFFSET_def
  CONTROL_ELEMENTS_ALIGNED_def FUSED_V3_DYNAMIC_UB_BYTES_def

lemmas v3_sizes = LRU_FUSED_V3_TOPK_def LRU_FUSED_V3_CAPACITY_def LRU_FUSED_V3_MAX_TOKEN_def

text \<open>The regions of the UB in elements, as (start, length).\<close>

definition v3_regions :: "(nat \<times> nat) list" where
  "v3_regions = [(TOPK_OFFSET, LRU_FUSED_V3_TOPK), (SLOT_TO_TOKEN_OFFSET, LRU_FUSED_V3_CAPACITY),
     (LRU_SLOTS_OFFSET, LRU_FUSED_V3_CAPACITY), (CURRENT_SLOTS_OFFSET, LRU_FUSED_V3_TOPK),
     (MISS_TOKENS_OFFSET, LRU_FUSED_V3_TOPK), (TOKEN_MARK_OFFSET, LRU_FUSED_V3_MAX_TOKEN),
     (TOKEN_POS_OFFSET, LRU_FUSED_V3_MAX_TOKEN), (MISS_SLOTS_OFFSET, LRU_FUSED_V3_TOPK),
     (SCAN_EVICT_A_OFFSET, THREADS), (SCAN_EVICT_B_OFFSET, THREADS), (SCAN_HIT_A_OFFSET, THREADS),
     (SCAN_HIT_B_OFFSET, THREADS), (SCAN_CONTROL_OFFSET, CONTROL_ELEMENTS_ALIGNED)]"

section \<open>The kernel\<close>

record v3_ub =
  ub_row :: lru_row
  ub_ws :: lru_ws
  control_evictable_count :: int
  control_hit_count :: int
  control_reset_row :: int
  control_stable_prefix :: int
  control_has_miss :: int

text \<open>The two strided loops of \<^verbatim>\<open>FusedV3ResetPrepareUb\<close>, which touch different arrays.\<close>

definition v3_clear_outputs :: "simt \<Rightarrow> nat \<Rightarrow> lru_row \<Rightarrow> lru_row option" where
  "v3_clear_outputs m p r =
     par_for m p THREADS LRU_FUSED_V3_TOPK (\<lambda>pos r. do {
       r \<leftarrow> put_current_slots r (int pos) LRU_INVALID_TOKEN;
       r \<leftarrow> put_miss_tokens r (int pos) LRU_INVALID_TOKEN;
       put_miss_slots r (int pos) LRU_INVALID_TOKEN }) r"

definition v3_prepare_slots :: "simt \<Rightarrow> nat \<Rightarrow> bool \<Rightarrow> int \<Rightarrow> lru_row \<Rightarrow> lru_row option" where
  "v3_prepare_slots m p resetRow stablePrefixLen r =
     par_for m p THREADS LRU_FUSED_V3_CAPACITY (\<lambda>slot r.
       if resetRow then do {
         r \<leftarrow> put_slot_to_token r (int slot) LRU_INVALID_TOKEN;
         put_lru_slots r (int slot) (int slot) }
       else do {
         token \<leftarrow> rd (slot_to_token r) (int slot);
         if token \<ge> 0 \<and> token < int LRU_FUSED_V3_MAX_TOKEN \<and> token \<ge> stablePrefixLen
         then put_slot_to_token r (int slot) LRU_INVALID_TOKEN else Some r }) r"

definition FusedV3ResetPrepareUb :: "simt \<Rightarrow> nat \<Rightarrow> int \<Rightarrow> int \<Rightarrow> int \<Rightarrow> v3_ub \<Rightarrow> v3_ub option" where
  "FusedV3ResetPrepareUb m p reqId lastReqId stablePrefix ub = do {
     let prefix = (if stablePrefix < 0 then 0
                   else if stablePrefix > int LRU_FUSED_V3_MAX_TOKEN then int LRU_FUSED_V3_MAX_TOKEN
                   else stablePrefix);
     let ub = ub\<lparr>ub_ws := (ub_ws ub)\<lparr>epoch := LRU_FUSED_V3_EPOCH\<rparr>, control_evictable_count := 0,
       control_hit_count := 0, ub_row := (ub_row ub)\<lparr>miss_count := 0\<rparr>,
       control_reset_row := (if lastReqId \<noteq> reqId then 1 else 0), control_stable_prefix := prefix\<rparr>;
     let resetRow = (control_reset_row ub \<noteq> 0);
     let stablePrefixLen = control_stable_prefix ub;
     r \<leftarrow> v3_clear_outputs m p (ub_row ub);
     r \<leftarrow> v3_prepare_slots m (p + 1) resetRow stablePrefixLen r;
     Some (ub\<lparr>ub_row := r\<rparr>) }"

text \<open>One tile of the fast path for a row that was reset: every valid token is a miss and takes the
  slot of its rank.\<close>

definition reset_fast_tile :: "simt \<Rightarrow> nat \<Rightarrow> nat \<Rightarrow> lru_row \<times> int \<Rightarrow> (lru_row \<times> int) option" where
  "reset_fast_tile m p tile = (\<lambda>(r, missBase). do {
     tokens \<leftarrow> lanes THREADS (\<lambda>thread. rd (topk_indices r) (int (tile + thread)));
     let validFlags = map (\<lambda>token. if token \<ge> 0 \<and> token < int LRU_FUSED_V3_MAX_TOKEN then 1 else 0) tokens;
     let (scanResult, _) = StableScanPair1024 m validFlags (replicate THREADS 0);
     r \<leftarrow> par_for m p THREADS THREADS (\<lambda>thread r. do {
            let validFlag = validFlags ! thread;
            let rank = missBase + scanResult ! thread - validFlag;
            if validFlag \<noteq> 0 \<and> rank < int LRU_FUSED_V3_CAPACITY then do {
              r \<leftarrow> put_current_slots r (int (tile + thread)) rank;
              r \<leftarrow> put_miss_tokens r rank (tokens ! thread);
              r \<leftarrow> put_miss_slots r rank rank;
              put_slot_to_token r rank (tokens ! thread) }
            else Some r }) r;
     Some (r, missBase + scanResult ! (THREADS - 1)) })"

definition FusedV3ResetFastPath :: "simt \<Rightarrow> nat \<Rightarrow> v3_ub \<Rightarrow> v3_ub option" where
  "FusedV3ResetFastPath m p ub = do {
     (r, missBase) \<leftarrow> for_each (lane_items 0 THREADS LRU_FUSED_V3_TOPK)
        (\<lambda>tile. reset_fast_tile m (p + tile) tile) (ub_row ub, 0);
     let assignCount = (if missBase > int LRU_FUSED_V3_CAPACITY then int LRU_FUSED_V3_CAPACITY else missBase);
     let r = r\<lparr>miss_count := assignCount\<rparr>;
     let remainingCount = int LRU_FUSED_V3_CAPACITY - assignCount;
     r \<leftarrow> par_for m (p + LRU_FUSED_V3_TOPK) THREADS LRU_FUSED_V3_CAPACITY (\<lambda>output r.
        put_lru_slots r (int output)
          (if int output < remainingCount then assignCount + int output else int output - remainingCount)) r;
     Some (ub\<lparr>ub_row := r\<rparr>) }"

definition FusedV3AssignRebuildUb :: "simt \<Rightarrow> nat \<Rightarrow> v3_ub \<Rightarrow> v3_ub option" where
  "FusedV3AssignRebuildUb m p ub = do {
     let w = ub_ws ub;
     let assignCount = miss_count (ub_row ub);
     r \<leftarrow> par_for m p THREADS (nat assignCount) (\<lambda>missIndex r. do {
            slot \<leftarrow> rd (token_mark w) (int missIndex);
            token \<leftarrow> rd (miss_tokens r) (int missIndex);
            pos \<leftarrow> rd (token_pos w) (int missIndex);
            if slot \<ge> 0 \<and> slot < int LRU_FUSED_V3_CAPACITY \<and> pos \<ge> 0 \<and> pos < int LRU_FUSED_V3_TOPK then do {
              r \<leftarrow> put_slot_to_token r slot token;
              r \<leftarrow> put_current_slots r pos slot;
              put_miss_slots r (int missIndex) slot }
            else Some r }) (ub_row ub);
     evictableCount \<leftarrow> rd (token_pos w) (int LRU_FUSED_V3_MAX_TOKEN - 2);
     hitCount \<leftarrow> rd (token_pos w) (int LRU_FUSED_V3_MAX_TOKEN - 1);
     let unassignedCount = evictableCount - assignCount;
     let validCount = evictableCount + hitCount;
     r \<leftarrow> par_for m (p + 1) THREADS LRU_FUSED_V3_CAPACITY (\<lambda>output r. do {
            slot \<leftarrow> (if int output < unassignedCount then rd (token_mark w) (assignCount + int output)
                    else if int output < evictableCount then rd (miss_slots r) (int output - unassignedCount)
                    else if int output < validCount
                      then rd (token_mark w) (int LRU_FUSED_V3_MAX_TOKEN - 1 - (int output - evictableCount))
                    else Some LRU_INVALID_TOKEN);
            put_lru_slots r (int output) slot }) r;
     Some (ub\<lparr>ub_row := r\<rparr>) }"

text \<open>\<^verbatim>\<open>FusedV3NormalPlan\<close>, one definition per barrier-separated part.\<close>

definition v3_init :: "simt \<Rightarrow> nat \<Rightarrow> lru_ws \<Rightarrow> lru_ws option" where
  "v3_init m p w =
     par_for m p THREADS LRU_FUSED_V3_MAX_TOKEN (\<lambda>token w. do {
       w \<leftarrow> put_mark w (int token) LRU_INVALID_TOKEN;
       put_pos w (int token) (int LRU_FUSED_V3_TOPK) }) w"

definition v3_first :: "simt \<Rightarrow> nat \<Rightarrow> lru_row \<Rightarrow> lru_ws \<Rightarrow> lru_ws option" where
  "v3_first m p r w =
     par_for m p THREADS LRU_FUSED_V3_TOPK (\<lambda>pos w. do {
       token \<leftarrow> rd (topk_indices r) (int pos);
       if token \<ge> 0 \<and> token < int LRU_FUSED_V3_MAX_TOKEN then do {
         old \<leftarrow> rd (token_pos w) token;
         put_pos w token (atomic_min m old (int pos)) }
       else Some w }) w"

definition v3_encode :: "simt \<Rightarrow> nat \<Rightarrow> lru_row \<times> lru_ws \<Rightarrow> (lru_row \<times> lru_ws) option" where
  "v3_encode m p st =
     par_for m p THREADS LRU_FUSED_V3_CAPACITY (\<lambda>order (r, w). do {
       slot \<leftarrow> rd (lru_slots r) (int order);
       (encoded, w) \<leftarrow>
         (if slot \<ge> 0 \<and> slot < int LRU_FUSED_V3_CAPACITY then do {
            token \<leftarrow> rd (slot_to_token r) slot;
            if token \<ge> 0 \<and> token < int LRU_FUSED_V3_MAX_TOKEN then do {
              pos \<leftarrow> rd (token_pos w) token;
              if pos < int LRU_FUSED_V3_TOPK then do {
                old \<leftarrow> rd (token_mark w) token;
                w \<leftarrow> put_mark w token (atomic_max m old (int order));
                Some (- slot - 2, w) }
              else Some (slot, w) }
            else Some (slot, w) }
          else Some (LRU_INVALID_TOKEN, w));
       r \<leftarrow> put_lru_slots r (int order) encoded;
       Some (r, w) }) st"

definition v3_elect :: "simt \<Rightarrow> nat \<Rightarrow> lru_ws \<Rightarrow> lru_row \<Rightarrow> lru_row option" where
  "v3_elect m p w r =
     par_for m p THREADS LRU_FUSED_V3_CAPACITY (\<lambda>order r. do {
       encoded \<leftarrow> rd (lru_slots r) (int order);
       if encoded \<le> - 2 then do {
         let slot = - encoded - 2;
         token \<leftarrow> rd (slot_to_token r) slot;
         mark \<leftarrow> rd (token_mark w) token;
         if mark = int order then do {
           pos \<leftarrow> rd (token_pos w) token;
           put_current_slots r pos slot }
         else Some r }
       else Some r }) r"

definition v3_split_tile ::
  "simt \<Rightarrow> nat \<Rightarrow> lru_row \<Rightarrow> nat \<Rightarrow> lru_ws \<times> int \<times> int \<Rightarrow> (lru_ws \<times> int \<times> int) option" where
  "v3_split_tile m p r tile = (\<lambda>(w, evictBase, hitBase). do {
     encoded \<leftarrow> lanes THREADS (\<lambda>thread. rd (lru_slots r) (int (tile + thread)));
     let evictFlag = map (\<lambda>e. if e \<ge> 0 \<and> e < int LRU_FUSED_V3_CAPACITY then 1 else 0) encoded;
     let hitFlag = map (\<lambda>e. if e \<le> - 2 then 1 else 0) encoded;
     let (scanEvict, scanHit) = StableScanPair1024 m evictFlag hitFlag;
     w \<leftarrow> par_for m p THREADS THREADS (\<lambda>thread w. do {
            let evictRank = scanEvict ! thread - evictFlag ! thread;
            let hitRank = scanHit ! thread - hitFlag ! thread;
            w \<leftarrow> (if evictFlag ! thread \<noteq> 0 then put_mark w (evictBase + evictRank) (encoded ! thread) else Some w);
            if hitFlag ! thread \<noteq> 0
            then put_mark w (int LRU_FUSED_V3_MAX_TOKEN - 1 - hitBase - hitRank) (- (encoded ! thread) - 2)
            else Some w }) w;
     Some (w, evictBase + scanEvict ! (THREADS - 1), hitBase + scanHit ! (THREADS - 1)) })"

text \<open>The strided loop of a lane that looks for a miss, for all lanes.\<close>

definition v3_has_miss :: "simt \<Rightarrow> lru_row \<Rightarrow> int option" where
  "v3_has_miss m r = do {
     localHasMiss \<leftarrow> lanes THREADS (\<lambda>thread.
       for_each (lane_items thread THREADS LRU_FUSED_V3_TOPK) (\<lambda>pos found. do {
         token \<leftarrow> rd (topk_indices r) (int pos);
         cur \<leftarrow> rd (current_slots r) (int pos);
         Some (if token \<ge> 0 \<and> token < int LRU_FUSED_V3_MAX_TOKEN \<and> cur < 0 then 1 else found) }) 0);
     Some (BlockAny1024 m localHasMiss) }"

definition v3_miss_tile ::
  "simt \<Rightarrow> nat \<Rightarrow> nat \<Rightarrow> lru_row \<times> lru_ws \<times> int \<Rightarrow> (lru_row \<times> lru_ws \<times> int) option" where
  "v3_miss_tile m p tile = (\<lambda>(r, w, missBase). do {
     tokens \<leftarrow> lanes THREADS (\<lambda>thread. rd (topk_indices r) (int (tile + thread)));
     curs \<leftarrow> lanes THREADS (\<lambda>thread. rd (current_slots r) (int (tile + thread)));
     let missFlag = map (\<lambda>(token, cur). if token \<ge> 0 \<and> token < int LRU_FUSED_V3_MAX_TOKEN \<and> cur < 0 then 1 else 0)
       (zip tokens curs);
     let (scanEvict, _) = StableScanPair1024 m missFlag (replicate THREADS 0);
     (r, w) \<leftarrow> par_for m p THREADS THREADS (\<lambda>thread (r, w). do {
            let missRank = scanEvict ! thread - missFlag ! thread;
            if missFlag ! thread \<noteq> 0 then do {
              let output = missBase + missRank;
              r \<leftarrow> put_miss_tokens r output (tokens ! thread);
              w \<leftarrow> put_pos w output (int (tile + thread));
              Some (r, w) }
            else Some (r, w) }) (r, w);
     Some (r, w, missBase + scanEvict ! (THREADS - 1)) })"

definition FusedV3NormalPlan :: "simt \<Rightarrow> nat \<Rightarrow> v3_ub \<Rightarrow> v3_ub option" where
  "FusedV3NormalPlan m p ub = do {
     w \<leftarrow> v3_init m p (ub_ws ub);
     w \<leftarrow> v3_first m (p + 1) (ub_row ub) w;
     (r, w) \<leftarrow> v3_encode m (p + 2) (ub_row ub, w);
     r \<leftarrow> v3_elect m (p + 3) w r;
     (w, evictBase, hitBase) \<leftarrow> for_each (lane_items 0 THREADS LRU_FUSED_V3_CAPACITY)
       (\<lambda>tile. v3_split_tile m (p + 4 + tile) r tile) (w, 0, 0);
     hasMiss \<leftarrow> v3_has_miss m r;
     (r, w, missBase) \<leftarrow>
       (if hasMiss \<noteq> 0
        then for_each (lane_items 0 THREADS LRU_FUSED_V3_TOPK)
          (\<lambda>tile. v3_miss_tile m (p + 4 + LRU_FUSED_V3_CAPACITY + tile) tile) (r, w, 0)
        else Some (r, w, 0));
     let r = r\<lparr>miss_count := (if missBase < evictBase then missBase else evictBase)\<rparr>;
     w \<leftarrow> put_pos w (int LRU_FUSED_V3_MAX_TOKEN - 2) evictBase;
     w \<leftarrow> put_pos w (int LRU_FUSED_V3_MAX_TOKEN - 1) hitBase;
     Some (ub\<lparr>ub_row := r, ub_ws := w, control_evictable_count := evictBase, control_hit_count := hitBase,
       control_has_miss := hasMiss\<rparr>) }"

section \<open>Staging, publishing and the launch\<close>

text \<open>Device memory as one call sees it: the row, and the workspace slice whose \<^verbatim>\<open>token_mark\<close> area
  takes the profile stamps. \<^verbatim>\<open>clock()\<close> is a parameter: \<open>clk stage\<close> is the pair of 32-bit words of the
  stamp.\<close>

definition RecordV3Stage :: "(nat \<Rightarrow> int \<times> int) \<Rightarrow> bool \<Rightarrow> nat \<Rightarrow> lru_ws \<Rightarrow> lru_ws option" where
  "RecordV3Stage clk profileEnabled stage gw =
     (if profileEnabled \<and> stage < V3_PROFILE_STAMPS then do {
        gw \<leftarrow> put_mark gw (int (2 * stage)) (fst (clk stage));
        put_mark gw (int (2 * stage + 1)) (snd (clk stage)) }
      else Some gw)"

definition CopyGmToUb :: "int list \<Rightarrow> nat \<Rightarrow> int list option" where
  "CopyGmToUb source n = lanes n (\<lambda>i. rd source (int i))"

definition PublishFusedV3StateDirectGm ::
  "simt \<Rightarrow> nat \<Rightarrow> v3_ub \<Rightarrow> lru_row \<times> lru_ws \<Rightarrow> (lru_row \<times> lru_ws) option" where
  "PublishFusedV3StateDirectGm m p ub = (\<lambda>(g, gw). do {
     let r = ub_row ub;
     g \<leftarrow> par_for m p THREADS LRU_FUSED_V3_CAPACITY (\<lambda>index g. do {
            token \<leftarrow> rd (slot_to_token r) (int index);
            g \<leftarrow> put_slot_to_token g (int index) token;
            slot \<leftarrow> rd (lru_slots r) (int index);
            put_lru_slots g (int index) slot }) g;
     g \<leftarrow> par_for m (p + 1) THREADS LRU_FUSED_V3_TOPK (\<lambda>index g. do {
            cur \<leftarrow> rd (current_slots r) (int index);
            g \<leftarrow> put_current_slots g (int index) cur;
            token \<leftarrow> rd (miss_tokens r) (int index);
            g \<leftarrow> put_miss_tokens g (int index) token;
            slot \<leftarrow> rd (miss_slots r) (int index);
            put_miss_slots g (int index) slot }) g;
     Some (g\<lparr>last_req_id := req_id g, miss_count := miss_count r\<rparr>, gw\<lparr>epoch := LRU_FUSED_V3_EPOCH\<rparr>) })"

text \<open>The phase numbers of the parts of the body are arbitrary but distinct.\<close>

definition LruCompactFusedV3Body ::
  "simt \<Rightarrow> (nat \<Rightarrow> int \<times> int) \<Rightarrow> bool \<Rightarrow> nat \<Rightarrow> v3_ub \<Rightarrow> lru_row \<times> lru_ws \<Rightarrow> (lru_row \<times> lru_ws) option" where
  "LruCompactFusedV3Body m clk profileEnabled p ub = (\<lambda>(g, gw). do {
     gw \<leftarrow> RecordV3Stage clk profileEnabled 0 gw;
     ub \<leftarrow> FusedV3ResetPrepareUb m p (req_id g) (last_req_id g) (stable_prefix_len g) ub;
     gw \<leftarrow> RecordV3Stage clk profileEnabled 1 gw;
     (ub, gw) \<leftarrow>
       (if control_reset_row ub \<noteq> 0 then do {
          ub \<leftarrow> FusedV3ResetFastPath m (p + 2) ub;
          Some (ub, gw) }
        else do {
          ub \<leftarrow> FusedV3NormalPlan m (p + 2) ub;
          gw \<leftarrow> for_each [2, 3, 4, 5] (RecordV3Stage clk profileEnabled) gw;
          ub \<leftarrow> FusedV3AssignRebuildUb m (p + 20000) ub;
          Some (ub, gw) });
     gw \<leftarrow> RecordV3Stage clk profileEnabled 6 gw;
     (g, gw) \<leftarrow> PublishFusedV3StateDirectGm m (p + 20002) ub (g, gw);
     gw \<leftarrow> RecordV3Stage clk profileEnabled 7 gw;
     Some (g, gw) })"

definition OffloadLruCompactFusedV3Kernel ::
  "simt \<Rightarrow> (nat \<Rightarrow> int \<times> int) \<Rightarrow> bool \<Rightarrow> nat \<Rightarrow> v3_ub \<Rightarrow> lru_row \<times> lru_ws \<Rightarrow> (lru_row \<times> lru_ws) option" where
  "OffloadLruCompactFusedV3Kernel m clk profileEnabled p ub = (\<lambda>(g, gw). do {
     tks \<leftarrow> CopyGmToUb (topk_indices g) LRU_FUSED_V3_TOPK;
     s2t \<leftarrow> CopyGmToUb (slot_to_token g) LRU_FUSED_V3_CAPACITY;
     lru \<leftarrow> CopyGmToUb (lru_slots g) LRU_FUSED_V3_CAPACITY;
     let ub = ub\<lparr>ub_row := (ub_row ub)\<lparr>topk_indices := tks, slot_to_token := s2t, lru_slots := lru\<rparr>\<rparr>;
     LruCompactFusedV3Body m clk profileEnabled p ub (g, gw) })"

text \<open>\<^verbatim>\<open>OffloadOpsLruCompactFusedV3\<close>: the launch of one row of the tensors, on the workspace slice its
  number selects. Other shapes are ignored.\<close>

definition LaunchFusedV3 ::
  "simt \<Rightarrow> (nat \<Rightarrow> int \<times> int) \<Rightarrow> bool \<Rightarrow> nat \<Rightarrow> v3_ub \<Rightarrow> int \<Rightarrow> int \<Rightarrow> int \<Rightarrow> int \<Rightarrow>
     lru_row list \<times> lru_ws list \<Rightarrow> (lru_row list \<times> lru_ws list) option" where
  "LaunchFusedV3 m clk profileEnabled p ub row topk capacity maxToken = (\<lambda>(rows, wss).
     if row < 0 \<or> topk \<noteq> int LRU_FUSED_V3_TOPK \<or> capacity \<noteq> int LRU_FUSED_V3_CAPACITY \<or>
        maxToken \<noteq> int LRU_FUSED_V3_MAX_TOKEN
     then Some (rows, wss)
     else do {
       let workspaceIndex = row mod LRU_FUSED_V3_WORKSPACE_THREADS;
       g \<leftarrow> rd rows row;
       gw \<leftarrow> rd wss workspaceIndex;
       (g, gw) \<leftarrow> OffloadLruCompactFusedV3Kernel m clk profileEnabled p ub (g, gw);
       rows \<leftarrow> wr rows row g;
       wss \<leftarrow> wr wss workspaceIndex gw;
       Some (rows, wss) })"

section \<open>Reset and prepare\<close>

lemma v3_sizes_pos [simp]: "0 < THREADS"
  by simp

text \<open>Room for the arrays in the UB.\<close>

definition ub_alloc :: "v3_ub \<Rightarrow> bool" where
  "ub_alloc ub \<longleftrightarrow>
     length (current_slots (ub_row ub)) = LRU_FUSED_V3_TOPK \<and> length (miss_tokens (ub_row ub)) = LRU_FUSED_V3_TOPK \<and>
     length (miss_slots (ub_row ub)) = LRU_FUSED_V3_TOPK \<and>
     length (token_mark (ub_ws ub)) = LRU_FUSED_V3_MAX_TOKEN \<and> length (token_pos (ub_ws ub)) = LRU_FUSED_V3_MAX_TOKEN"

definition v3_prepared :: "int list \<Rightarrow> int list \<Rightarrow> lru_row \<Rightarrow> lru_row" where
  "v3_prepared s2t lru r = r\<lparr>current_slots := replicate LRU_FUSED_V3_TOPK (- 1),
     miss_tokens := replicate LRU_FUSED_V3_TOPK (- 1), miss_slots := replicate LRU_FUSED_V3_TOPK (- 1),
     miss_count := 0, slot_to_token := s2t, lru_slots := lru\<rparr>"

lemma v3_outputs_correct:
  assumes "simt_ok m" "length (current_slots r) = LRU_FUSED_V3_TOPK" "length (miss_tokens r) = LRU_FUSED_V3_TOPK"
    and "length (miss_slots r) = LRU_FUSED_V3_TOPK"
  shows "v3_clear_outputs m p r =
    Some (r\<lparr>current_slots := replicate LRU_FUSED_V3_TOPK (- 1), miss_tokens := replicate LRU_FUSED_V3_TOPK (- 1),
      miss_slots := replicate LRU_FUSED_V3_TOPK (- 1)\<rparr>)"
proof -
  define g where "g D = r\<lparr>current_slots := overwrite D (\<lambda>_. - 1) (current_slots r),
      miss_tokens := overwrite D (\<lambda>_. - 1) (miss_tokens r),
      miss_slots := overwrite D (\<lambda>_. - 1) (miss_slots r)\<rparr>" for D
  have "v3_clear_outputs m p r = Some (g {..<LRU_FUSED_V3_TOPK})"
    unfolding v3_clear_outputs_def using assms(1)
    by (rule par_for_eq) (simp_all add: g_def put_defs assms LRU_INVALID_TOKEN_def overwrite_insert)
  then show ?thesis by (simp add: g_def overwrite_all assms map_replicate_const)
qed

lemma v3_slots_correct:
  assumes "simt_ok m" "length (slot_to_token r) = LRU_FUSED_V3_CAPACITY" "length (lru_slots r) = LRU_FUSED_V3_CAPACITY"
    and "s2t = (if reset then replicate LRU_FUSED_V3_CAPACITY (- 1)
                else sp_invalidate (int LRU_FUSED_V3_MAX_TOKEN) q (slot_to_token r))"
    and "lru = (if reset then map int [0..<LRU_FUSED_V3_CAPACITY] else lru_slots r)"
  shows "v3_prepare_slots m p reset q r =
    Some (r\<lparr>slot_to_token := s2t, lru_slots := lru\<rparr>)"
proof -
  define h where "h D = r\<lparr>slot_to_token := overwrite D ((!) s2t) (slot_to_token r),
      lru_slots := overwrite D ((!) lru) (lru_slots r)\<rparr>" for D
  have len: "length s2t = LRU_FUSED_V3_CAPACITY" "length lru = LRU_FUSED_V3_CAPACITY"
    using assms(2-5) by auto
  have "v3_prepare_slots m p reset q r = Some (h {..<LRU_FUSED_V3_CAPACITY})"
    unfolding v3_prepare_slots_def using assms(1)
  proof (rule par_for_eq)
    fix D i assume i: "i < LRU_FUSED_V3_CAPACITY" "i \<notin> D"
    show "(if reset then do {
              r \<leftarrow> put_slot_to_token (h D) (int i) LRU_INVALID_TOKEN;
              put_lru_slots r (int i) (int i) }
            else do {
              token \<leftarrow> rd (slot_to_token (h D)) (int i);
              if token \<ge> 0 \<and> token < int LRU_FUSED_V3_MAX_TOKEN \<and> token \<ge> q
              then put_slot_to_token (h D) (int i) LRU_INVALID_TOKEN else Some (h D) }) = Some (h (insert i D))"
    proof (cases reset)
      case True
      then show ?thesis
        using i assms(2-5) by (simp add: h_def put_defs overwrite_insert LRU_INVALID_TOKEN_def)
    next
      case False
      then have s: "s2t ! i = (if tok_ok (int LRU_FUSED_V3_MAX_TOKEN) (slot_to_token r ! i) \<and> slot_to_token r ! i \<ge> q
          then - 1 else slot_to_token r ! i)" and l: "lru ! i = lru_slots r ! i"
        using i assms(2-5) by (simp_all add: sp_invalidate_def)
      have "overwrite (insert i D) ((!) lru) (lru_slots r) = overwrite D ((!) lru) (lru_slots r)"
        using l by (rule overwrite_insert_same)
      then show ?thesis
        using False i s assms(2,3) by (auto simp: h_def put_defs overwrite_insert overwrite_insert_same tok_ok_def
            LRU_INVALID_TOKEN_def)
    qed
  qed (simp_all add: h_def)
  moreover have "overwrite {..<LRU_FUSED_V3_CAPACITY} ((!) s2t) (slot_to_token r) = s2t"
    using overwrite_front [of LRU_FUSED_V3_CAPACITY "slot_to_token r" s2t] assms(2) len by simp
  moreover have "overwrite {..<LRU_FUSED_V3_CAPACITY} ((!) lru) (lru_slots r) = lru"
    using overwrite_front [of LRU_FUSED_V3_CAPACITY "lru_slots r" lru] assms(3) len by simp
  ultimately show ?thesis by (simp add: h_def)
qed

lemma v3_reset_prepare_correct:
  assumes "simt_ok m" "ub_alloc ub" "length (slot_to_token (ub_row ub)) = LRU_FUSED_V3_CAPACITY"
    and "length (lru_slots (ub_row ub)) = LRU_FUSED_V3_CAPACITY"
    and "s2t = (if prev \<noteq> req then replicate LRU_FUSED_V3_CAPACITY (- 1)
                else sp_invalidate (int LRU_FUSED_V3_MAX_TOKEN) (clamp_prefix (int LRU_FUSED_V3_MAX_TOKEN) prefix)
                  (slot_to_token (ub_row ub)))"
    and "lru = (if prev \<noteq> req then map int [0..<LRU_FUSED_V3_CAPACITY] else lru_slots (ub_row ub))"
  shows "\<exists>ub'. FusedV3ResetPrepareUb m p req prev prefix ub = Some ub' \<and> ub_row ub' = v3_prepared s2t lru (ub_row ub) \<and>
    ub_alloc ub' \<and> epoch (ub_ws ub') = - 2 \<and> (control_reset_row ub' \<noteq> 0 \<longleftrightarrow> prev \<noteq> req)"
proof -
  have clamp: "(if prefix < 0 then 0 else if prefix > int LRU_FUSED_V3_MAX_TOKEN then int LRU_FUSED_V3_MAX_TOKEN
      else prefix) = clamp_prefix (int LRU_FUSED_V3_MAX_TOKEN) prefix" by (simp add: clamp_prefix_def)
  have slots: "v3_prepare_slots m (p + 1) (prev \<noteq> req) (clamp_prefix (int LRU_FUSED_V3_MAX_TOKEN) prefix) r =
      Some (r\<lparr>slot_to_token := s2t, lru_slots := lru\<rparr>)"
    if "slot_to_token r = slot_to_token (ub_row ub)" "lru_slots r = lru_slots (ub_row ub)" for r
    by (rule v3_slots_correct) (use assms that in simp_all)
  show ?thesis
    unfolding FusedV3ResetPrepareUb_def Let_def clamp
    using assms(2) slots by (auto simp: v3_outputs_correct [OF assms(1)] v3_prepared_def ub_alloc_def
        LRU_FUSED_V3_EPOCH_def)
qed

section \<open>Tiles\<close>

text \<open>A tile of 1024 lanes continues the compaction of the tiles before it.\<close>

lemma tile_ranks:
  assumes "simt_ok m" "flags = map (\<lambda>t. if Q (tile + t) then 1 else 0) [0..<THREADS]"
  shows "t < THREADS \<Longrightarrow> int (cnt Q tile) + block_scan m flags ! t - flags ! t = int (cnt Q (tile + t))"
    "int (cnt Q tile) + block_scan m flags ! (THREADS - 1) = int (cnt Q (tile + THREADS))"
proof -
  have scan: "int (cnt Q tile) + block_scan m flags ! t = int (cnt Q (tile + Suc t))" if "t < THREADS" for t
    using block_scan_nth [OF assms(1) _ that] sum_list_flags [of "Suc t" THREADS Q tile] that
    by (simp add: assms(2))
  show "int (cnt Q tile) + block_scan m flags ! t - flags ! t = int (cnt Q (tile + t))" if "t < THREADS"
    using scan [OF that] that by (simp add: assms(2))
  have "Suc (THREADS - 1) = THREADS" by simp
  then show "int (cnt Q tile) + block_scan m flags ! (THREADS - 1) = int (cnt Q (tile + THREADS))"
    using scan [of "THREADS - 1"] by simp
qed

text \<open>A loop over tiles whose body moves the state from \<open>g tile\<close> to the next tile's.\<close>

lemma tile_loop:
  assumes "n = k * THREADS" "s = g 0"
    and "\<And>tile. tile + THREADS \<le> n \<Longrightarrow> f tile (g tile) = Some (g (tile + THREADS))"
  shows "for_each (lane_items 0 THREADS n) f s = Some (g n)"
proof -
  have "for_each [0..<k] (\<lambda>i. f (i * THREADS)) s = Some (g (k * THREADS))"
  proof (rule for_each_upt_eq [where g = "\<lambda>i. g (i * THREADS)"])
    fix i assume "i < k"
    then have "Suc i * THREADS \<le> n" unfolding assms(1) by (intro mult_le_mono1) simp
    then have "i * THREADS + THREADS \<le> n" by simp
    from assms(3) [OF this] show "f (i * THREADS) (g (i * THREADS)) = Some (g (Suc i * THREADS))"
      by (simp add: add.commute)
  qed (simp add: assms(2))
  then show ?thesis by (simp add: assms(1) lane_items_tiles for_each_map)
qed

lemma v3_tile_counts: "LRU_FUSED_V3_TOPK = 2 * THREADS" "LRU_FUSED_V3_CAPACITY = 4 * THREADS"
    "LRU_FUSED_V3_MAX_TOKEN = 4 * THREADS" "1024 \<le> THREADS"
  by (simp_all add: v3_sizes THREADS_def WARP_COUNT_def WARP_SIZE_def)

section \<open>The fast path of a reset row\<close>

abbreviation v3_valid :: "int list \<Rightarrow> nat \<Rightarrow> bool" where
  "v3_valid tks pos \<equiv> tok_ok (int LRU_FUSED_V3_MAX_TOKEN) (tks ! pos)"

definition fast_row :: "int list \<Rightarrow> nat \<Rightarrow> lru_row \<Rightarrow> lru_row" where
  "fast_row tks i r = (let c = cnt (v3_valid tks); toks = map ((!) tks) (filter (v3_valid tks) [0..<i]) in
     r\<lparr>current_slots := map (\<lambda>p. if p < i \<and> v3_valid tks p then int (c p) else - 1) [0..<LRU_FUSED_V3_TOPK],
       miss_tokens := pad LRU_FUSED_V3_TOPK (- 1) toks,
       miss_slots := pad LRU_FUSED_V3_TOPK (- 1) (map int [0..<c i]),
       slot_to_token := pad LRU_FUSED_V3_CAPACITY (- 1) toks\<rparr>)"

lemma fast_row_step:
  assumes "i < LRU_FUSED_V3_TOPK" "k = cnt (v3_valid tks) i"
  shows "(if v3_valid tks i
      then (fast_row tks i r)\<lparr>current_slots := (current_slots (fast_row tks i r))[i := int k],
          miss_tokens := (miss_tokens (fast_row tks i r))[k := tks ! i],
          miss_slots := (miss_slots (fast_row tks i r))[k := int k],
          slot_to_token := (slot_to_token (fast_row tks i r))[k := tks ! i]\<rparr>
      else fast_row tks i r) = fast_row tks (Suc i) r"
proof -
  have "k < LRU_FUSED_V3_TOPK" "k < LRU_FUSED_V3_CAPACITY" "length (filter (v3_valid tks) [0..<i]) = k"
    using cnt_le [of "v3_valid tks" i] assms by (simp_all add: v3_tile_counts cnt_def)
  moreover have "(map (\<lambda>p. if p < i \<and> v3_valid tks p then int (cnt (v3_valid tks) p) else - 1) [0..<LRU_FUSED_V3_TOPK])
      [i := int k] = map (\<lambda>p. if p < Suc i \<and> v3_valid tks p then int (cnt (v3_valid tks) p) else - 1) [0..<LRU_FUSED_V3_TOPK]"
    if "v3_valid tks i"
    by (rule nth_equalityI) (use that assms in \<open>auto simp: nth_list_update less_Suc_eq\<close>)
  moreover have "map (\<lambda>p. if p < i \<and> v3_valid tks p then int (cnt (v3_valid tks) p) else - 1) [0..<LRU_FUSED_V3_TOPK] =
      map (\<lambda>p. if p < Suc i \<and> v3_valid tks p then int (cnt (v3_valid tks) p) else - 1) [0..<LRU_FUSED_V3_TOPK]"
    if "\<not> v3_valid tks i"
    by (rule map_cong) (use that in \<open>auto simp: less_Suc_eq\<close>)
  ultimately show ?thesis
    using assms by (simp add: fast_row_def Let_def pad_write)
qed

lemma reset_fast_tile_correct:
  assumes "simt_ok m" "length tks = LRU_FUSED_V3_TOPK" "topk_indices r = tks" "tile + THREADS \<le> LRU_FUSED_V3_TOPK"
  shows "reset_fast_tile m p tile (fast_row tks tile r, int (cnt (v3_valid tks) tile)) =
    Some (fast_row tks (tile + THREADS) r, int (cnt (v3_valid tks) (tile + THREADS)))"
proof -
  let ?V = "v3_valid tks"
  have tks: "topk_indices (fast_row tks i r) = tks" for i by (simp add: fast_row_def Let_def assms(3))
  define toks where "toks = map (\<lambda>t. tks ! (tile + t)) [0..<THREADS]"
  have read: "lanes THREADS (\<lambda>thread. rd tks (int (tile + thread))) = Some toks"
    unfolding toks_def by (rule lanes_Some) (use assms in \<open>simp del: of_nat_add\<close>)
  define flags where "flags = map (\<lambda>t. if ?V (tile + t) then 1 else (0::int)) [0..<THREADS]"
  have flags: "map (\<lambda>token. if token \<ge> 0 \<and> token < int LRU_FUSED_V3_MAX_TOKEN then 1 else 0) toks = flags"
    by (simp add: flags_def toks_def tok_ok_def)
  note ranks = tile_ranks [OF assms(1) flags_def]
  define u where "u t r = (let i = tile + t; k = cnt ?V i in
     if ?V i then r\<lparr>current_slots := (current_slots r)[i := int k], miss_tokens := (miss_tokens r)[k := tks ! i],
          miss_slots := (miss_slots r)[k := int k], slot_to_token := (slot_to_token r)[k := tks ! i]\<rparr>
     else r)" for t and r :: lru_row
  have "par_for m p THREADS THREADS (\<lambda>thread r. do {
            let validFlag = flags ! thread;
            let rank = int (cnt ?V tile) + block_scan m flags ! thread - validFlag;
            if validFlag \<noteq> 0 \<and> rank < int LRU_FUSED_V3_CAPACITY then do {
              r \<leftarrow> put_current_slots r (int (tile + thread)) rank;
              r \<leftarrow> put_miss_tokens r rank (toks ! thread);
              r \<leftarrow> put_miss_slots r rank rank;
              put_slot_to_token r rank (toks ! thread) }
            else Some r }) (fast_row tks tile r) = Some (fast_row tks (tile + THREADS) r)"
  proof (rule par_for_seq [where u = u and ok = "\<lambda>r :: lru_row. length (current_slots r) = LRU_FUSED_V3_TOPK \<and>
      length (miss_tokens r) = LRU_FUSED_V3_TOPK \<and> length (miss_slots r) = LRU_FUSED_V3_TOPK \<and>
      length (slot_to_token r) = LRU_FUSED_V3_CAPACITY" and g = "\<lambda>t. fast_row tks (tile + t) r"])
    fix t and r :: lru_row
    assume t: "t < THREADS" and ok: "length (current_slots r) = LRU_FUSED_V3_TOPK \<and>
      length (miss_tokens r) = LRU_FUSED_V3_TOPK \<and> length (miss_slots r) = LRU_FUSED_V3_TOPK \<and>
      length (slot_to_token r) = LRU_FUSED_V3_CAPACITY"
    have i: "tile + t < LRU_FUSED_V3_TOPK" using t assms(4) by simp
    have k: "cnt ?V (tile + t) < LRU_FUSED_V3_TOPK" "cnt ?V (tile + t) < LRU_FUSED_V3_CAPACITY"
      using cnt_le [of ?V "tile + t"] i by (simp_all add: v3_tile_counts)
    have toks: "toks ! t = tks ! (tile + t)" and flag: "flags ! t = (if ?V (tile + t) then 1 else 0)"
      using t by (simp_all add: toks_def flags_def)
    show "(do {
            let validFlag = flags ! t;
            let rank = int (cnt ?V tile) + block_scan m flags ! t - validFlag;
            if validFlag \<noteq> 0 \<and> rank < int LRU_FUSED_V3_CAPACITY then do {
              r \<leftarrow> put_current_slots r (int (tile + t)) rank;
              r \<leftarrow> put_miss_tokens r rank (toks ! t);
              r \<leftarrow> put_miss_slots r rank rank;
              put_slot_to_token r rank (toks ! t) }
            else Some r }) = Some (u t r) \<and> (length (current_slots (u t r)) = LRU_FUSED_V3_TOPK \<and>
      length (miss_tokens (u t r)) = LRU_FUSED_V3_TOPK \<and> length (miss_slots (u t r)) = LRU_FUSED_V3_TOPK \<and>
      length (slot_to_token (u t r)) = LRU_FUSED_V3_CAPACITY)"
      unfolding Let_def unfolding ranks(1) [OF t] unfolding flag toks using ok i k
      by (simp add: u_def Let_def put_defs del: of_nat_add)
  next
    fix t t' :: nat and r :: lru_row assume "t \<noteq> t'"
    then have "cnt ?V (tile + t) \<noteq> cnt ?V (tile + t')" if "?V (tile + t)" "?V (tile + t')"
      using cnt_inj [of ?V "tile + t" "tile + t'"] that by auto
    then show "u t (u t' r) = u t' (u t r)"
      using \<open>t \<noteq> t'\<close>
      by (simp add: u_def Let_def list_update_swap [of "tile + t" "tile + t'"]
          list_update_swap [of "cnt ?V (tile + t)" "cnt ?V (tile + t')"])
  next
    fix t assume "t < THREADS"
    then show "u t (fast_row tks (tile + t) r) = fast_row tks (tile + Suc t) r"
      using fast_row_step [of "tile + t" _ tks r] assms(4) by (simp add: u_def Let_def)
  next
    have "cnt ?V tile \<le> LRU_FUSED_V3_TOPK" "cnt ?V tile \<le> LRU_FUSED_V3_CAPACITY"
      using cnt_le [of ?V tile] assms(4) by (simp_all add: v3_tile_counts)
    then show "length (current_slots (fast_row tks tile r)) = LRU_FUSED_V3_TOPK \<and>
      length (miss_tokens (fast_row tks tile r)) = LRU_FUSED_V3_TOPK \<and>
      length (miss_slots (fast_row tks tile r)) = LRU_FUSED_V3_TOPK \<and>
      length (slot_to_token (fast_row tks tile r)) = LRU_FUSED_V3_CAPACITY"
      by (simp add: fast_row_def Let_def cnt_def)
  qed (use assms(1) in simp_all)
  then show ?thesis
    unfolding reset_fast_tile_def prod.case StableScanPair1024_def tks
    by (simp only: read Option.bind.bind_lunit Let_def flags prod.case ranks(2))
qed

text \<open>What the specification says of a reset row.\<close>

lemma reset_call_lists:
  assumes "length tks = LRU_FUSED_V3_TOPK"
  shows "call_lists (int LRU_FUSED_V3_MAX_TOKEN) (int LRU_FUSED_V3_CAPACITY) tks
      (replicate LRU_FUSED_V3_CAPACITY (- 1)) (map int [0..<LRU_FUSED_V3_CAPACITY]) =
    (replicate LRU_FUSED_V3_TOPK (- 1), map int [0..<LRU_FUSED_V3_CAPACITY], [],
     filter (v3_valid tks) [0..<LRU_FUSED_V3_TOPK], cnt (v3_valid tks) LRU_FUSED_V3_TOPK)"
proof -
  let ?mt = "int LRU_FUSED_V3_MAX_TOKEN" and ?cap = "int LRU_FUSED_V3_CAPACITY"
  let ?s2t = "replicate LRU_FUSED_V3_CAPACITY (- 1) :: int list" and ?lru = "map int [0..<LRU_FUSED_V3_CAPACITY]"
  have no_hit: "\<not> sp_hit ?mt ?cap tks ?s2t s" for s
    by (auto simp: sp_hit_def slot_ok_def tok_ok_def)
  have none: "last_slot ?cap ?s2t t ?lru = - 1" if "tok_ok ?mt t" for t
    using last_slot_cases [of ?cap ?s2t t ?lru] that by (auto simp: slot_ok_def tok_ok_def)
  have cur: "sp_current ?mt ?cap tks ?s2t ?lru = replicate LRU_FUSED_V3_TOPK (- 1)"
    by (rule nth_equalityI) (simp_all add: sp_current_def assms none)
  have ms: "sp_misses ?mt tks (replicate LRU_FUSED_V3_TOPK (- 1)) = filter (v3_valid tks) [0..<LRU_FUSED_V3_TOPK]"
    unfolding sp_misses_def assms by (rule filter_cong) auto
  have ev: "sp_evictable ?mt ?cap tks ?s2t ?lru = ?lru"
    unfolding sp_evictable_def filter_id_conv by (simp add: no_hit slot_ok_def)
  have hits: "sp_hits ?mt ?cap tks ?s2t ?lru = []"
    by (simp add: sp_hits_def no_hit)
  have "cnt (v3_valid tks) LRU_FUSED_V3_TOPK \<le> LRU_FUSED_V3_CAPACITY"
    using cnt_le [of "v3_valid tks" LRU_FUSED_V3_TOPK] by (simp add: v3_tile_counts)
  then show ?thesis by (simp add: call_lists_def Let_def cur ms ev hits cnt_def)
qed

lemma fast_current:
  assumes "c = cnt (v3_valid tks)" "n = c LRU_FUSED_V3_TOPK"
  shows "scatter (filter (v3_valid tks) [0..<LRU_FUSED_V3_TOPK]) (map int [0..<n]) (replicate LRU_FUSED_V3_TOPK (- 1)) =
    map (\<lambda>p. if v3_valid tks p then int (c p) else - 1) [0..<LRU_FUSED_V3_TOPK]"
    (is "scatter ?ms ?vs _ = _")
proof (rule nth_equalityI)
  fix p assume "p < length (scatter ?ms ?vs (replicate LRU_FUSED_V3_TOPK (- 1)))"
  then have p: "p < LRU_FUSED_V3_TOPK" by simp
  have len: "length ?ms = n" using assms by (simp add: cnt_def)
  show "scatter ?ms ?vs (replicate LRU_FUSED_V3_TOPK (- 1)) ! p =
      map (\<lambda>p. if v3_valid tks p then int (c p) else - 1) [0..<LRU_FUSED_V3_TOPK] ! p"
  proof (cases "v3_valid tks p")
    case True
    have "c p < n" unfolding assms using p True by (rule cnt_less)
    moreover have "?ms ! c p = p" unfolding assms(1) using True p by (rule nth_filter_cnt)
    ultimately have "scatter ?ms ?vs (replicate LRU_FUSED_V3_TOPK (- 1)) ! p = ?vs ! c p"
      using nth_scatter [of ?ms ?vs "c p" "replicate LRU_FUSED_V3_TOPK (- 1)"] len p by simp
    then show ?thesis using True p \<open>c p < n\<close> by simp
  next
    case False
    then show ?thesis using p by (simp add: nth_scatter_other)
  qed
qed simp

lemma reset_fast_correct:
  assumes "simt_ok m" "length tks = LRU_FUSED_V3_TOPK" "topk_indices (ub_row ub) = tks"
    and "s2t = replicate LRU_FUSED_V3_CAPACITY (- 1)" "lru = map int [0..<LRU_FUSED_V3_CAPACITY]"
    and "ub_row ub = v3_prepared s2t lru r0"
  shows "FusedV3ResetFastPath m p ub = Some (ub\<lparr>ub_row :=
    compact_lists (int LRU_FUSED_V3_MAX_TOKEN) (int LRU_FUSED_V3_CAPACITY) tks s2t lru (ub_row ub)\<rparr>)"
proof -
  let ?V = "v3_valid tks" and ?cap = "LRU_FUSED_V3_CAPACITY" and ?n = "cnt (v3_valid tks) LRU_FUSED_V3_TOPK"
  define ms where "ms = filter ?V [0..<LRU_FUSED_V3_TOPK]"
  have n: "?n \<le> LRU_FUSED_V3_TOPK" "?n \<le> ?cap"
    using cnt_le [of ?V LRU_FUSED_V3_TOPK] by (simp_all add: v3_tile_counts)
  have start: "fast_row tks 0 (ub_row ub) = ub_row ub"
    by (simp add: fast_row_def assms(4-6) v3_prepared_def Let_def map_replicate_const)
  have tiles: "for_each (lane_items 0 THREADS LRU_FUSED_V3_TOPK) (\<lambda>tile. reset_fast_tile m (p + tile) tile) (ub_row ub, 0) =
      Some (fast_row tks LRU_FUSED_V3_TOPK (ub_row ub), int ?n)"
    by (rule tile_loop [where g = "\<lambda>i. (fast_row tks i (ub_row ub), int (cnt ?V i))", OF v3_tile_counts(1)])
      (simp_all add: start reset_fast_tile_correct [OF assms(1-3)])
  define r where "r = (fast_row tks LRU_FUSED_V3_TOPK (ub_row ub))\<lparr>miss_count := int ?n\<rparr>"
  define order where "order = drop ?n (map int [0..<?cap]) @ take ?n (map int [0..<?cap])"
  have order: "order ! o' = (if int o' < int ?cap - int ?n then int ?n + int o' else int o' - (int ?cap - int ?n))"
    if "o' < ?cap" for o'
    using that n by (auto simp: order_def nth_append of_nat_diff)
  have len: "length (lru_slots r) = ?cap" "length order = ?cap"
    using n(2) by (simp_all add: r_def fast_row_def Let_def assms(5,6) v3_prepared_def order_def)
  have "par_for m (p + LRU_FUSED_V3_TOPK) THREADS ?cap (\<lambda>output r.
        put_lru_slots r (int output)
          (if int output < int ?cap - int ?n then int ?n + int output else int output - (int ?cap - int ?n))) r =
      Some ((\<lambda>D. r\<lparr>lru_slots := overwrite D ((!) order) (lru_slots r)\<rparr>) {..<?cap})"
    using assms(1) by (rule par_for_eq) (simp_all add: order put_defs len overwrite_insert)
  then have rebuild: "par_for m (p + LRU_FUSED_V3_TOPK) THREADS ?cap (\<lambda>output r.
        put_lru_slots r (int output)
          (if int output < int ?cap - int ?n then int ?n + int output else int output - (int ?cap - int ?n))) r =
      Some (r\<lparr>lru_slots := order\<rparr>)"
    using overwrite_front [of ?cap "lru_slots r" order] len by simp
  note call = reset_call_lists [OF assms(2)]
  have front: "scatter (map nat (take ?n (map int [0..<?cap]))) (map ((!) tks) (take ?n ms)) (replicate ?cap (- 1)) =
      pad ?cap (- 1) (map ((!) tks) ms)"
    using scatter_front [of "map ((!) tks) ms" "replicate ?cap (- 1)"] n
    by (simp add: ms_def take_map [symmetric] comp_def pad_def cnt_def)
  have "r\<lparr>lru_slots := order\<rparr> = compact_lists (int LRU_FUSED_V3_MAX_TOKEN) (int ?cap) tks s2t lru (ub_row ub)"
  proof (rule lru_row.equality)
    show "slot_to_token (r\<lparr>lru_slots := order\<rparr>) =
        slot_to_token (compact_lists (int LRU_FUSED_V3_MAX_TOKEN) (int ?cap) tks s2t lru (ub_row ub))"
      unfolding assms(4,5) compact_lists_fields(1) [OF call refl] front [unfolded ms_def]
      by (simp add: r_def fast_row_def Let_def)
    show "current_slots (r\<lparr>lru_slots := order\<rparr>) =
        current_slots (compact_lists (int LRU_FUSED_V3_MAX_TOKEN) (int ?cap) tks s2t lru (ub_row ub))"
      unfolding assms(4,5) compact_lists_fields(3) [OF call refl]
    proof -
      have "take ?n (map int [0..<?cap]) = map int [0..<?n]" "take ?n ms = ms"
        using n by (simp_all add: take_map ms_def cnt_def)
      moreover have "current_slots (r\<lparr>lru_slots := order\<rparr>) =
          map (\<lambda>p. if ?V p then int (cnt ?V p) else - 1) [0..<LRU_FUSED_V3_TOPK]"
        by (simp add: r_def fast_row_def Let_def)
      ultimately show "current_slots (r\<lparr>lru_slots := order\<rparr>) = scatter (take ?n (filter ?V [0..<LRU_FUSED_V3_TOPK]))
          (take ?n (map int [0..<?cap])) (replicate LRU_FUSED_V3_TOPK (- 1))"
        using fast_current [OF refl refl, of tks] by (simp add: ms_def)
    qed
    show "lru_slots (r\<lparr>lru_slots := order\<rparr>) =
        lru_slots (compact_lists (int LRU_FUSED_V3_MAX_TOKEN) (int ?cap) tks s2t lru (ub_row ub))"
      unfolding assms(4,5) compact_lists_fields(2) [OF call refl] using n by (simp add: order_def pad_def)
    show "miss_tokens (r\<lparr>lru_slots := order\<rparr>) =
        miss_tokens (compact_lists (int LRU_FUSED_V3_MAX_TOKEN) (int ?cap) tks s2t lru (ub_row ub))"
      unfolding assms(4,5) compact_lists_fields(5) [OF call refl] assms(2)
      by (simp add: r_def fast_row_def Let_def)
    show "miss_slots (r\<lparr>lru_slots := order\<rparr>) =
        miss_slots (compact_lists (int LRU_FUSED_V3_MAX_TOKEN) (int ?cap) tks s2t lru (ub_row ub))"
      unfolding assms(4,5) compact_lists_fields(6) [OF call refl] assms(2)
      using n by (simp add: r_def fast_row_def Let_def take_map)
    show "miss_count (r\<lparr>lru_slots := order\<rparr>) =
        miss_count (compact_lists (int LRU_FUSED_V3_MAX_TOKEN) (int ?cap) tks s2t lru (ub_row ub))"
      unfolding assms(4,5) compact_lists_fields(4) [OF call refl] by (simp add: r_def)
  qed (simp_all add: r_def fast_row_def Let_def compact_lists_def)
  then show ?thesis
    using rebuild n(2) by (simp add: FusedV3ResetFastPath_def tiles Let_def r_def)
qed

section \<open>The plan of a row that keeps its cache\<close>

lemma v3_init_correct:
  assumes "simt_ok m" "length (token_mark w) = LRU_FUSED_V3_MAX_TOKEN" "length (token_pos w) = LRU_FUSED_V3_MAX_TOKEN"
  shows "v3_init m p w = Some (w\<lparr>token_mark := replicate LRU_FUSED_V3_MAX_TOKEN (- 1),
    token_pos := replicate LRU_FUSED_V3_MAX_TOKEN (int LRU_FUSED_V3_TOPK)\<rparr>)"
proof -
  define g where "g D = w\<lparr>token_mark := overwrite D (\<lambda>_. - 1) (token_mark w),
      token_pos := overwrite D (\<lambda>_. int LRU_FUSED_V3_TOPK) (token_pos w)\<rparr>" for D
  have "v3_init m p w = Some (g {..<LRU_FUSED_V3_MAX_TOKEN})"
    unfolding v3_init_def using assms(1)
    by (rule par_for_eq)
      (simp_all add: g_def put_mark_def put_pos_def assms LRU_INVALID_TOKEN_def overwrite_insert)
  then show ?thesis by (simp add: g_def overwrite_all assms map_replicate_const)
qed

text \<open>\<^verbatim>\<open>asc_atomic_min\<close> finds the first position of every token.\<close>

definition min_pos :: "int list \<Rightarrow> nat set \<Rightarrow> nat \<Rightarrow> nat" where
  "min_pos tks D t = Min (insert (length tks) {p \<in> D. tks ! p = int t})"

lemma min_pos_insert:
  "finite D \<Longrightarrow> min_pos tks (insert p D) t = (if tks ! p = int t then min (min_pos tks D t) p else min_pos tks D t)"
proof -
  assume "finite D"
  have "{x \<in> insert p D. tks ! x = int t} =
      (if tks ! p = int t then insert p {x \<in> D. tks ! x = int t} else {x \<in> D. tks ! x = int t})" by auto
  then show ?thesis using \<open>finite D\<close>
    by (simp add: min_pos_def insert_commute [of _ p] Min_insert [where x = p] min.commute)
qed

lemma min_pos_all: "min_pos tks {..<length tks} t = first_pos tks (int t)"
proof -
  have le: "first_pos tks (int t) \<le> x" if "x \<in> insert (length tks) {p \<in> {..<length tks}. tks ! p = int t}" for x
    using that first_pos_le [of x tks "int t"] first_pos_le [of _ tks "int t"]
    by (auto simp: first_pos_def intro: order_trans [OF length_takeWhile_le])
  have "first_pos tks (int t) \<in> insert (length tks) {p \<in> {..<length tks}. tks ! p = int t}"
    using first_pos_less first_pos_nth first_pos_absent by (cases "int t \<in> set tks") fastforce+
  then show ?thesis unfolding min_pos_def by (intro Min_eqI) (use le in auto)
qed

lemma v3_first_correct:
  assumes "simt_ok m" "length (topk_indices r) = LRU_FUSED_V3_TOPK"
    and "token_pos w = replicate LRU_FUSED_V3_MAX_TOKEN (int LRU_FUSED_V3_TOPK)"
  shows "v3_first m p r w = Some (w\<lparr>token_pos :=
    map (\<lambda>t. int (first_pos (topk_indices r) (int t))) [0..<LRU_FUSED_V3_MAX_TOKEN]\<rparr>)"
proof -
  let ?tks = "topk_indices r"
  define g where "g D = w\<lparr>token_pos := map (\<lambda>t. int (min_pos ?tks D t)) [0..<LRU_FUSED_V3_MAX_TOKEN]\<rparr>" for D
  have "v3_first m p r w = Some (g {..<LRU_FUSED_V3_TOPK})"
    unfolding v3_first_def using assms(1)
  proof (rule par_for_eq)
    show "w = g {}" using assms(2,3) by (simp add: g_def min_pos_def map_replicate_const)
    fix D i assume i: "i < LRU_FUSED_V3_TOPK" "D \<subseteq> {..<LRU_FUSED_V3_TOPK}"
    then have fin: "finite D" using finite_subset by blast
    let ?t = "?tks ! i"
    show "(do {
       token \<leftarrow> rd ?tks (int i);
       if token \<ge> 0 \<and> token < int LRU_FUSED_V3_MAX_TOKEN then do {
         old \<leftarrow> rd (token_pos (g D)) token;
         put_pos (g D) token (atomic_min m old (int i)) }
       else Some (g D) }) = Some (g (insert i D))"
    proof (cases "tok_ok (int LRU_FUSED_V3_MAX_TOKEN) ?t")
      case True
      then have t: "nat ?t < LRU_FUSED_V3_MAX_TOKEN" "int (nat ?t) = ?t" by (auto simp: tok_ok_def)
      have "(map (\<lambda>t. int (min_pos ?tks D t)) [0..<LRU_FUSED_V3_MAX_TOKEN])[nat ?t := min (int (min_pos ?tks D (nat ?t))) (int i)] =
          map (\<lambda>t. int (min_pos ?tks (insert i D) t)) [0..<LRU_FUSED_V3_MAX_TOKEN]"
        by (rule nth_equalityI) (use t in \<open>auto simp: nth_list_update min_pos_insert [OF fin]\<close>)
      then show ?thesis
        using slot_okD [of "int LRU_FUSED_V3_MAX_TOKEN" ?t] True i assms(2) t(1)
        by (simp add: g_def tok_ok_def slot_ok_def rd_Some put_pos_def wr_Some atomic_min_min [OF assms(1)])
    next
      case False
      have "min_pos ?tks (insert i D) t = min_pos ?tks D t" if "t < LRU_FUSED_V3_MAX_TOKEN" for t
        using False that by (auto simp: min_pos_insert [OF fin] tok_ok_def)
      then have "g (insert i D) = g D" by (simp add: g_def)
      then show ?thesis using False i assms(2) by (auto simp: tok_ok_def)
    qed
  qed simp
  then show ?thesis using min_pos_all [of ?tks] assms(2) by (simp add: g_def)
qed

text \<open>\<^verbatim>\<open>asc_atomic_max\<close> finds the last order of every resident Top-K token.\<close>

abbreviation v3_hit :: "int list \<Rightarrow> int list \<Rightarrow> int \<Rightarrow> bool" where
  "v3_hit tks s2t \<equiv> sp_hit (int LRU_FUSED_V3_MAX_TOKEN) (int LRU_FUSED_V3_CAPACITY) tks s2t"

definition holders :: "int list \<Rightarrow> int list \<Rightarrow> int list \<Rightarrow> nat set \<Rightarrow> int \<Rightarrow> nat set" where
  "holders tks s2t lru D t = {order \<in> D. v3_hit tks s2t (lru ! order) \<and> s2t ! nat (lru ! order) = t}"

definition max_order :: "int list \<Rightarrow> int list \<Rightarrow> int list \<Rightarrow> nat set \<Rightarrow> int \<Rightarrow> int" where
  "max_order tks s2t lru D t = Max (insert (- 1) (int ` holders tks s2t lru D t))"

lemma max_order_insert:
  assumes "finite D"
  shows "max_order tks s2t lru (insert i D) t =
    (if v3_hit tks s2t (lru ! i) \<and> s2t ! nat (lru ! i) = t
     then max (max_order tks s2t lru D t) (int i) else max_order tks s2t lru D t)"
proof -
  have "holders tks s2t lru (insert i D) t =
      (if v3_hit tks s2t (lru ! i) \<and> s2t ! nat (lru ! i) = t then insert i (holders tks s2t lru D t)
       else holders tks s2t lru D t)" by (auto simp: holders_def)
  moreover have "finite (holders tks s2t lru D t)" using assms by (simp add: holders_def)
  ultimately show ?thesis
    by (simp add: max_order_def insert_commute [of _ "int i"] Max_insert [where x = "int i"] max.commute)
qed

lemma v3_encode_correct:
  assumes "simt_ok m" "topk_indices r = tks" "slot_to_token r = s2t" "lru_slots r = lru"
    and "length tks = LRU_FUSED_V3_TOPK" "length s2t = LRU_FUSED_V3_CAPACITY" "length lru = LRU_FUSED_V3_CAPACITY"
    and "token_mark w = replicate LRU_FUSED_V3_MAX_TOKEN (- 1)"
    and "token_pos w = map (\<lambda>t. int (first_pos tks (int t))) [0..<LRU_FUSED_V3_MAX_TOKEN]"
  shows "v3_encode m p (r, w) =
    Some (r\<lparr>lru_slots := map (encode_slot (int LRU_FUSED_V3_MAX_TOKEN) (int LRU_FUSED_V3_CAPACITY) tks s2t) lru\<rparr>,
      w\<lparr>token_mark := map (\<lambda>t. max_order tks s2t lru {..<LRU_FUSED_V3_CAPACITY} (int t)) [0..<LRU_FUSED_V3_MAX_TOKEN]\<rparr>)"
proof -
  let ?mt = "int LRU_FUSED_V3_MAX_TOKEN" and ?cap = "int LRU_FUSED_V3_CAPACITY"
  let ?enc = "encode_slot ?mt ?cap tks s2t"
  let ?mark = "\<lambda>D. map (\<lambda>t. max_order tks s2t lru D (int t)) [0..<LRU_FUSED_V3_MAX_TOKEN]"
  define g where "g D = (r\<lparr>lru_slots := overwrite D (\<lambda>i. ?enc (lru ! i)) lru\<rparr>, w\<lparr>token_mark := ?mark D\<rparr>)" for D
  have "v3_encode m p (r, w) = Some (g {..<LRU_FUSED_V3_CAPACITY})"
    unfolding v3_encode_def using assms(1)
  proof (rule par_for_eq)
    show "(r, w) = g {}"
      using assms(4,8) by (simp add: g_def max_order_def holders_def map_replicate_const)
    fix D i assume i: "i < LRU_FUSED_V3_CAPACITY" "i \<notin> D" "D \<subseteq> {..<LRU_FUSED_V3_CAPACITY}"
    then have fin: "finite D" using finite_subset by blast
    let ?s = "lru ! i"
    let ?t = "s2t ! nat ?s"
    have pos: "rd (token_pos w) ?t = Some (int (first_pos tks ?t))" if "tok_ok ?mt ?t"
    proof -
      have "nat ?t < LRU_FUSED_V3_MAX_TOKEN" using that by (auto simp: tok_ok_def)
      then show ?thesis using that assms(9) by (simp add: rd_Some tok_ok_def)
    qed
    have tok: "rd s2t ?s = Some ?t" if "slot_ok ?cap ?s"
      using that assms(6) by (simp add: rd_Some slot_ok_def)
    have in_tks: "first_pos tks t < LRU_FUSED_V3_TOPK \<longleftrightarrow> t \<in> set tks" for t
      using first_pos_less [of t tks] first_pos_absent [of t tks] assms(5) by (cases "t \<in> set tks") auto
    have lru: "overwrite (insert i D) (\<lambda>i. ?enc (lru ! i)) lru = (overwrite D (\<lambda>i. ?enc (lru ! i)) lru)[i := ?enc ?s]"
      by (simp add: overwrite_insert)
    have same: "?mark (insert i D) = ?mark D" if "\<not> v3_hit tks s2t ?s"
      using that by (simp add: max_order_insert [OF fin])
    have new: "?mark (insert i D) = (?mark D)[nat ?t := max (max_order tks s2t lru D ?t) (int i)]"
      if "v3_hit tks s2t ?s"
      by (rule nth_equalityI) (use that in \<open>auto simp: nth_list_update max_order_insert [OF fin] sp_hit_def tok_ok_def\<close>)
    consider (bad) "\<not> slot_ok ?cap ?s" | (miss) "slot_ok ?cap ?s" "\<not> tok_ok ?mt ?t"
      | (other) "slot_ok ?cap ?s" "tok_ok ?mt ?t" "?t \<notin> set tks" | (hit) "slot_ok ?cap ?s" "tok_ok ?mt ?t" "?t \<in> set tks"
      by blast
    then show "(case g D of (r, w) \<Rightarrow> do {
       slot \<leftarrow> rd (lru_slots r) (int i);
       (encoded, w) \<leftarrow>
         (if slot \<ge> 0 \<and> slot < ?cap then do {
            token \<leftarrow> rd (slot_to_token r) slot;
            if token \<ge> 0 \<and> token < ?mt then do {
              pos \<leftarrow> rd (token_pos w) token;
              if pos < int LRU_FUSED_V3_TOPK then do {
                old \<leftarrow> rd (token_mark w) token;
                w \<leftarrow> put_mark w token (atomic_max m old (int i));
                Some (- slot - 2, w) }
              else Some (slot, w) }
            else Some (slot, w) }
          else Some (LRU_INVALID_TOKEN, w));
       r \<leftarrow> put_lru_slots r (int i) encoded;
       Some (r, w) }) = Some (g (insert i D))"
    proof cases
      case bad
      then have "?enc ?s = LRU_INVALID_TOKEN" "\<not> v3_hit tks s2t ?s"
        by (simp_all add: encode_slot_def LRU_INVALID_TOKEN_def sp_hit_def)
      then show ?thesis using bad i assms(7) same by (auto simp: g_def lru put_defs slot_ok_def)
    next
      case miss
      then have "?enc ?s = ?s" "\<not> v3_hit tks s2t ?s" by (simp_all add: encode_slot_def sp_hit_def)
      then show ?thesis using miss i assms(3,7) same tok by (auto simp: g_def lru put_defs slot_ok_def tok_ok_def)
    next
      case other
      then have "?enc ?s = ?s" "\<not> v3_hit tks s2t ?s" by (simp_all add: encode_slot_def sp_hit_def)
      then show ?thesis
        using other i assms(3,7) same tok pos in_tks by (simp add: g_def lru put_defs slot_ok_def tok_ok_def)
    next
      case hit
      then have h: "?enc ?s = - ?s - 2" "v3_hit tks s2t ?s" by (simp_all add: encode_slot_def sp_hit_def)
      have "nat ?t < LRU_FUSED_V3_MAX_TOKEN" "0 \<le> ?t" "?t < ?mt" using hit(2) by (auto simp: tok_ok_def)
      then show ?thesis
        using hit h i assms(3,7) new tok pos in_tks
        by (simp add: g_def lru put_defs put_mark_def rd_Some wr_Some slot_ok_def tok_ok_def atomic_max_max [OF assms(1)])
    qed
  qed simp
  moreover have "overwrite {..<LRU_FUSED_V3_CAPACITY} (\<lambda>i. ?enc (lru ! i)) lru = map ?enc lru"
    using assms(7) by (intro nth_equalityI) auto
  ultimately show ?thesis by (simp add: g_def)
qed

text \<open>The entry with the greatest order of a token is the one whose slot the specification takes.\<close>

definition wins :: "int list \<Rightarrow> int list \<Rightarrow> int list \<Rightarrow> nat \<Rightarrow> bool" where
  "wins tks s2t lru i \<longleftrightarrow> v3_hit tks s2t (lru ! i) \<and>
     max_order tks s2t lru {..<length lru} (s2t ! nat (lru ! i)) = int i"

lemma wins_last_slot:
  assumes "wins tks s2t lru i" "i < length lru" "t = s2t ! nat (lru ! i)"
  shows "last_slot (int LRU_FUSED_V3_CAPACITY) s2t t lru = lru ! i"
proof (rule last_slot_eq [OF assms(2)])
  have hit: "v3_hit tks s2t (lru ! i)" and max: "max_order tks s2t lru {..<length lru} t = int i"
    using assms by (simp_all add: wins_def)
  show "slot_ok (int LRU_FUSED_V3_CAPACITY) (lru ! i)" using hit by (simp add: sp_hit_def)
  fix j assume j: "i < j" "j < length lru"
  show "\<not> (slot_ok (int LRU_FUSED_V3_CAPACITY) (lru ! j) \<and> s2t ! nat (lru ! j) = t)"
  proof
    assume "slot_ok (int LRU_FUSED_V3_CAPACITY) (lru ! j) \<and> s2t ! nat (lru ! j) = t"
    then have "j \<in> holders tks s2t lru {..<length lru} t"
      using hit j assms(3) by (simp add: holders_def sp_hit_def)
    moreover have "finite (holders tks s2t lru {..<length lru} t)" by (simp add: holders_def)
    ultimately have "int j \<le> max_order tks s2t lru {..<length lru} t"
      unfolding max_order_def by (intro Max_ge) auto
    then show False using max j(1) by simp
  qed
qed (use assms(3) in simp)

lemma wins_exists:
  assumes "tok_ok (int LRU_FUSED_V3_MAX_TOKEN) t" "t \<in> set tks"
    and "0 \<le> last_slot (int LRU_FUSED_V3_CAPACITY) s2t t lru"
  shows "\<exists>i < length lru. wins tks s2t lru i \<and> s2t ! nat (lru ! i) = t"
proof -
  let ?H = "holders tks s2t lru {..<length lru} t"
  obtain j where "j < length lru" "slot_ok (int LRU_FUSED_V3_CAPACITY) (lru ! j)" "s2t ! nat (lru ! j) = t"
    using assms(3) last_slot_nonneg_iff by (metis in_set_conv_nth)
  then have "j \<in> ?H" using assms(1,2) by (simp add: holders_def sp_hit_def)
  have fin: "finite ?H" by (simp add: holders_def)
  have "- 1 < int j" by simp
  also have "int j \<le> max_order tks s2t lru {..<length lru} t"
    unfolding max_order_def using fin \<open>j \<in> ?H\<close> by (intro Max_ge) auto
  finally have "max_order tks s2t lru {..<length lru} t \<noteq> - 1" by simp
  moreover have "max_order tks s2t lru {..<length lru} t \<in> insert (- 1) (int ` ?H)"
    unfolding max_order_def using fin by (intro Max_in) auto
  ultimately obtain i where "i \<in> ?H" "max_order tks s2t lru {..<length lru} t = int i" by auto
  then show ?thesis by (auto simp: holders_def wins_def)
qed

lemma v3_elect_correct:
  assumes "simt_ok m" "topk_indices r = tks" "slot_to_token r = s2t"
    and "lru_slots r = map (encode_slot (int LRU_FUSED_V3_MAX_TOKEN) (int LRU_FUSED_V3_CAPACITY) tks s2t) lru"
    and "current_slots r = replicate LRU_FUSED_V3_TOPK (- 1)"
    and "length tks = LRU_FUSED_V3_TOPK" "length s2t = LRU_FUSED_V3_CAPACITY" "length lru = LRU_FUSED_V3_CAPACITY"
    and "token_mark w = map (\<lambda>t. max_order tks s2t lru {..<LRU_FUSED_V3_CAPACITY} (int t)) [0..<LRU_FUSED_V3_MAX_TOKEN]"
    and "token_pos w = map (\<lambda>t. int (first_pos tks (int t))) [0..<LRU_FUSED_V3_MAX_TOKEN]"
  shows "v3_elect m p w r =
    Some (r\<lparr>current_slots := sp_current (int LRU_FUSED_V3_MAX_TOKEN) (int LRU_FUSED_V3_CAPACITY) tks s2t lru\<rparr>)"
proof -
  let ?mt = "int LRU_FUSED_V3_MAX_TOKEN" and ?cap = "int LRU_FUSED_V3_CAPACITY"
  let ?enc = "encode_slot ?mt ?cap tks s2t"
  let ?tok = "\<lambda>i. s2t ! nat (lru ! i)"
  define found where "found D pos \<longleftrightarrow> (\<exists>i \<in> D. wins tks s2t lru i \<and> pos = first_pos tks (?tok i))" for D pos
  define g where "g D = r\<lparr>current_slots :=
      map (\<lambda>pos. if found D pos then last_slot ?cap s2t (tks ! pos) lru else - 1) [0..<LRU_FUSED_V3_TOPK]\<rparr>" for D
  have "v3_elect m p w r = Some (g {..<LRU_FUSED_V3_CAPACITY})"
    unfolding v3_elect_def using assms(1)
  proof (rule par_for_eq)
    show "r = g {}" using assms(5) by (simp add: g_def found_def map_replicate_const)
    fix D i assume i: "i < LRU_FUSED_V3_CAPACITY" "i \<notin> D" "D \<subseteq> {..<LRU_FUSED_V3_CAPACITY}"
    let ?s = "lru ! i"
    have g: "lru_slots (g D) = lru_slots r" "slot_to_token (g D) = s2t" by (simp_all add: g_def assms(3))
    show "(do {
       encoded \<leftarrow> rd (lru_slots (g D)) (int i);
       if encoded \<le> - 2 then do {
         let slot = - encoded - 2;
         token \<leftarrow> rd (slot_to_token (g D)) slot;
         mark \<leftarrow> rd (token_mark w) token;
         if mark = int i then do {
           pos \<leftarrow> rd (token_pos w) token;
           put_current_slots (g D) pos slot }
         else Some (g D) }
       else Some (g D) }) = Some (g (insert i D))"
    proof (cases "v3_hit tks s2t ?s")
      case True
      then have s: "?enc ?s = - ?s - 2" "0 \<le> ?s" "?s < ?cap" "nat ?s < LRU_FUSED_V3_CAPACITY"
        and t: "0 \<le> ?tok i" "?tok i < ?mt" "nat (?tok i) < LRU_FUSED_V3_MAX_TOKEN" "?tok i \<in> set tks"
        by (auto simp: encode_slot_def sp_hit_def slot_ok_def tok_ok_def)
      have reads: "rd s2t ?s = Some (?tok i)"
          "rd (token_mark w) (?tok i) = Some (max_order tks s2t lru {..<LRU_FUSED_V3_CAPACITY} (?tok i))"
          "rd (token_pos w) (?tok i) = Some (int (first_pos tks (?tok i)))"
        using s t by (simp_all add: rd_Some assms(7,9,10))
      show ?thesis
      proof (cases "wins tks s2t lru i")
        case w: True
        have p: "first_pos tks (?tok i) < LRU_FUSED_V3_TOPK" "tks ! first_pos tks (?tok i) = ?tok i"
          using first_pos_less [OF t(4)] first_pos_nth [OF t(4)] assms(6) by simp_all
        have "last_slot ?cap s2t (?tok i) lru = ?s" using w i assms(8) by (intro wins_last_slot) simp_all
        then have "(current_slots (g D))[first_pos tks (?tok i) := ?s] = current_slots (g (insert i D))"
          using w p by (intro nth_equalityI) (auto simp: g_def found_def nth_list_update)
        then show ?thesis
          using True w i s(1,2) p(1) assms(8)
          by (simp add: g assms(4) reads wins_def put_defs) (simp add: g_def)
      next
        case nw: False
        then have "g (insert i D) = g D" by (simp add: g_def found_def)
        moreover have "max_order tks s2t lru {..<LRU_FUSED_V3_CAPACITY} (?tok i) \<noteq> int i"
          using nw True assms(8) by (simp add: wins_def)
        ultimately show ?thesis using i s(1,2) assms(8) by (simp add: g assms(4) reads)
      qed
    next
      case False
      then have "g (insert i D) = g D" by (simp add: g_def found_def wins_def)
      moreover have "\<not> ?enc ?s \<le> - 2" using False by (simp add: encode_slot_def slot_ok_def)
      ultimately show ?thesis using i assms(8) by (simp add: g assms(4))
    qed
  qed simp
  moreover have "(if found {..<LRU_FUSED_V3_CAPACITY} pos then last_slot ?cap s2t (tks ! pos) lru else - 1) =
      sp_current ?mt ?cap tks s2t lru ! pos" if pos: "pos < LRU_FUSED_V3_TOPK" for pos
  proof (cases "found {..<LRU_FUSED_V3_CAPACITY} pos")
    case True
    then obtain i where i: "i < length lru" "wins tks s2t lru i" "pos = first_pos tks (?tok i)"
      using assms(8) by (auto simp: found_def)
    then have "tok_ok ?mt (?tok i)" "?tok i \<in> set tks" by (auto simp: wins_def sp_hit_def)
    then have "tks ! pos = ?tok i" "tok_ok ?mt (tks ! pos)" using i first_pos_nth by metis+
    then show ?thesis using True pos i(3) assms(6) by (simp add: sp_current_def)
  next
    case False
    have "last_slot ?cap s2t (tks ! pos) lru = - 1" if v: "tok_ok ?mt (tks ! pos)" "first_pos tks (tks ! pos) = pos"
    proof (rule ccontr)
      assume "last_slot ?cap s2t (tks ! pos) lru \<noteq> - 1"
      then have "0 \<le> last_slot ?cap s2t (tks ! pos) lru"
        using last_slot_range [of ?cap s2t "tks ! pos" lru] by (auto simp: slot_ok_def)
      then obtain i where "i < length lru" "wins tks s2t lru i" "?tok i = tks ! pos"
        using wins_exists [OF v(1)] pos assms(6) by (metis nth_mem)
      then show False using False v(2) assms(8) by (auto simp: found_def)
    qed
    then show ?thesis using False pos assms(6) by (auto simp: sp_current_def)
  qed
  then have "map (\<lambda>pos. if found {..<LRU_FUSED_V3_CAPACITY} pos then last_slot ?cap s2t (tks ! pos) lru else - 1)
      [0..<LRU_FUSED_V3_TOPK] = sp_current ?mt ?cap tks s2t lru"
    using assms(6) by (intro nth_equalityI) (simp_all cong: if_cong split del: if_split)
  ultimately show ?thesis by (simp add: g_def)
qed

text \<open>The tiles that split the order, one after the other, are the sequential split.\<close>

lemma v3_split_tile_correct:
  fixes lru tks s2t :: "int list"
  defines "enc \<equiv> encode_slot (int LRU_FUSED_V3_MAX_TOKEN) (int LRU_FUSED_V3_CAPACITY) tks s2t"
    and "ev \<equiv> \<lambda>i. sp_evictable (int LRU_FUSED_V3_MAX_TOKEN) (int LRU_FUSED_V3_CAPACITY) tks s2t (take i lru)"
    and "hits \<equiv> \<lambda>i. sp_hits (int LRU_FUSED_V3_MAX_TOKEN) (int LRU_FUSED_V3_CAPACITY) tks s2t (take i lru)"
  assumes "simt_ok m" "lru_slots r = map enc lru" "length lru = LRU_FUSED_V3_CAPACITY"
    and "length (token_mark w) = LRU_FUSED_V3_MAX_TOKEN" "tile + THREADS \<le> LRU_FUSED_V3_CAPACITY"
  shows "v3_split_tile m p r tile
      (w\<lparr>token_mark := two_ended (ev tile) (hits tile) (token_mark w)\<rparr>, int (length (ev tile)), int (length (hits tile))) =
    Some (w\<lparr>token_mark := two_ended (ev (tile + THREADS)) (hits (tile + THREADS)) (token_mark w)\<rparr>,
      int (length (ev (tile + THREADS))), int (length (hits (tile + THREADS))))"
proof -
  let ?mt = "int LRU_FUSED_V3_MAX_TOKEN" and ?cap = "int LRU_FUSED_V3_CAPACITY"
  define E where "E i \<longleftrightarrow> slot_ok ?cap (lru ! i) \<and> \<not> v3_hit tks s2t (lru ! i)" for i
  define H where "H i \<longleftrightarrow> v3_hit tks s2t (lru ! i)" for i
  have len: "length (ev i) = cnt E i" "length (hits i) = cnt H i" if "i \<le> LRU_FUSED_V3_CAPACITY" for i
    using that assms(6)
    by (simp_all add: ev_def hits_def sp_evictable_def sp_hits_def length_filter_take_cnt E_def [abs_def] H_def [abs_def])
  have EH: "\<not> (E i \<and> H i)" for i by (simp add: E_def H_def)
  have total: "cnt E i + cnt H i \<le> i" for i
    using EH by (induction i) auto
  define encoded where "encoded = map (\<lambda>t. enc (lru ! (tile + t))) [0..<THREADS]"
  have read: "lanes THREADS (\<lambda>thread. rd (lru_slots r) (int (tile + thread))) = Some encoded"
    unfolding encoded_def by (rule lanes_Some) (use assms(5,6,8) in \<open>simp del: of_nat_add\<close>)
  define ef where "ef = map (\<lambda>t. if E (tile + t) then 1 else (0::int)) [0..<THREADS]"
  define hf where "hf = map (\<lambda>t. if H (tile + t) then 1 else (0::int)) [0..<THREADS]"
  have enc: "(0 \<le> enc (lru ! i) \<and> enc (lru ! i) < ?cap) = E i" "(enc (lru ! i) \<le> - 2) = H i" for i
    by (cases rule: encode_slot_cases [of ?mt ?cap tks s2t "lru ! i"]; simp add: enc_def E_def H_def)+
  have flags: "map (\<lambda>e. if e \<ge> 0 \<and> e < ?cap then 1 else 0) encoded = ef"
      "map (\<lambda>e. if e \<le> - 2 then 1 else 0) encoded = hf"
    by (simp_all add: encoded_def ef_def hf_def enc)
  note er = tile_ranks [OF assms(4) ef_def] and hr = tile_ranks [OF assms(4) hf_def]
  define u where "u t w = (let i = tile + t in
      if E i then w\<lparr>token_mark := (token_mark w)[cnt E i := lru ! i]\<rparr>
      else if H i then w\<lparr>token_mark := (token_mark w)[LRU_FUSED_V3_MAX_TOKEN - Suc (cnt H i) := lru ! i]\<rparr>
      else w)" for t and w :: lru_ws
  define g where "g t = w\<lparr>token_mark := two_ended (ev (tile + t)) (hits (tile + t)) (token_mark w)\<rparr>" for t
  have par: "par_for m p THREADS THREADS (\<lambda>thread w. do {
            let evictRank = block_scan m ef ! thread - ef ! thread;
            let hitRank = block_scan m hf ! thread - hf ! thread;
            w \<leftarrow> (if ef ! thread \<noteq> 0 then put_mark w (int (cnt E tile) + evictRank) (encoded ! thread) else Some w);
            if hf ! thread \<noteq> 0
            then put_mark w (?mt - 1 - int (cnt H tile) - hitRank) (- (encoded ! thread) - 2)
            else Some w }) (g 0) = Some (g THREADS)"
  proof (rule par_for_seq [where u = u and ok = "\<lambda>w :: lru_ws. length (token_mark w) = LRU_FUSED_V3_MAX_TOKEN"])
    fix t and w :: lru_ws assume t: "t < THREADS" and ok: "length (token_mark w) = LRU_FUSED_V3_MAX_TOKEN"
    have i: "tile + t < LRU_FUSED_V3_MAX_TOKEN" using t assms(8) by (simp add: v3_tile_counts)
    have k: "cnt E (tile + t) < LRU_FUSED_V3_MAX_TOKEN" "cnt H (tile + t) < LRU_FUSED_V3_MAX_TOKEN"
      using total [of "tile + t"] i by simp_all
    have keys: "int (cnt E tile) + (block_scan m ef ! t - ef ! t) = int (cnt E (tile + t))"
      "?mt - 1 - int (cnt H tile) - (block_scan m hf ! t - hf ! t) = int (LRU_FUSED_V3_MAX_TOKEN - Suc (cnt H (tile + t)))"
      using er(1) [OF t] hr(1) [OF t] k by simp_all
    have flag: "ef ! t = (if E (tile + t) then 1 else 0)" "hf ! t = (if H (tile + t) then 1 else 0)"
      "encoded ! t = enc (lru ! (tile + t))" using t by (simp_all add: ef_def hf_def encoded_def)
    have val: "enc (lru ! i) = lru ! i" if "E i" for i using that by (simp add: E_def enc_def encode_slot_def)
    have val': "- enc (lru ! i) - 2 = lru ! i" if "H i" for i
      using that by (simp add: H_def enc_def encode_slot_def sp_hit_def)
    show "(do {
            let evictRank = block_scan m ef ! t - ef ! t;
            let hitRank = block_scan m hf ! t - hf ! t;
            w \<leftarrow> (if ef ! t \<noteq> 0 then put_mark w (int (cnt E tile) + evictRank) (encoded ! t) else Some w);
            if hf ! t \<noteq> 0
            then put_mark w (?mt - 1 - int (cnt H tile) - hitRank) (- (encoded ! t) - 2)
            else Some w }) = Some (u t w) \<and> length (token_mark (u t w)) = LRU_FUSED_V3_MAX_TOKEN"
      unfolding Let_def unfolding keys unfolding flag using ok k EH [of "tile + t"] val [of "tile + t"] val' [of "tile + t"]
      by (simp add: u_def Let_def put_mark_def del: of_nat_diff)
  next
    fix t t' :: nat and w :: lru_ws assume t: "t < THREADS" "t' < THREADS" "t \<noteq> t'"
    have i: "tile + t < LRU_FUSED_V3_MAX_TOKEN" "tile + t' < LRU_FUSED_V3_MAX_TOKEN"
      using t assms(8) by (simp_all add: v3_tile_counts)
    have front: "cnt E i \<noteq> LRU_FUSED_V3_MAX_TOKEN - Suc (cnt H j)"
      if "E i" "H j" "i < LRU_FUSED_V3_MAX_TOKEN" "j < LRU_FUSED_V3_MAX_TOKEN" for i j
    proof -
      have "cnt E i < cnt E LRU_FUSED_V3_MAX_TOKEN" "cnt H j < cnt H LRU_FUSED_V3_MAX_TOKEN"
        using that by (auto intro: cnt_less)
      then show ?thesis using total [of LRU_FUSED_V3_MAX_TOKEN] by linarith
    qed
    have evs: "cnt E (tile + t) \<noteq> cnt E (tile + t')" if "E (tile + t)" "E (tile + t')"
      using cnt_inj [of E "tile + t" "tile + t'"] that t by auto
    have hs: "LRU_FUSED_V3_MAX_TOKEN - Suc (cnt H (tile + t)) \<noteq> LRU_FUSED_V3_MAX_TOKEN - Suc (cnt H (tile + t'))"
      if "H (tile + t)" "H (tile + t')"
    proof -
      have "cnt H (tile + t) \<noteq> cnt H (tile + t')" using cnt_inj [of H "tile + t" "tile + t'"] that t by auto
      then show ?thesis using total [of "tile + t"] total [of "tile + t'"] i by linarith
    qed
    show "u t (u t' w) = u t' (u t w)"
      using front [OF _ _ i] front [OF _ _ i(2,1)] evs hs unfolding u_def Let_def
      by (cases "E (tile + t)"; cases "E (tile + t')"; cases "H (tile + t)"; cases "H (tile + t')")
        (simp_all add: list_update_swap [of "cnt E (tile + t)" "cnt E (tile + t')"]
          list_update_swap [of "cnt E (tile + t)" "LRU_FUSED_V3_MAX_TOKEN - Suc (cnt H (tile + t'))"]
          list_update_swap [of "LRU_FUSED_V3_MAX_TOKEN - Suc (cnt H (tile + t))" "cnt E (tile + t')"]
          list_update_swap [of "LRU_FUSED_V3_MAX_TOKEN - Suc (cnt H (tile + t))"
            "LRU_FUSED_V3_MAX_TOKEN - Suc (cnt H (tile + t'))"])
  next
    fix t assume t: "t < THREADS"
    let ?i = "tile + t"
    have i: "?i < length lru" using t assms(6,8) by simp
    have less: "length (ev ?i) + length (hits ?i) < length (token_mark w)"
      using evictable_hits_take_less [OF i] assms(6,7) unfolding ev_def hits_def by (simp add: v3_tile_counts)
    have step: "ev (Suc ?i) = ev ?i @ (if E ?i then [lru ! ?i] else [])" "hits (Suc ?i) = hits ?i @ (if H ?i then [lru ! ?i] else [])"
      using i by (simp_all add: ev_def hits_def take_Suc_conv_app_nth sp_evictable_snoc sp_hits_snoc E_def H_def)
    have l: "length (ev ?i) = cnt E ?i" "length (hits ?i) = cnt H ?i" using len [of ?i] i assms(6) by simp_all
    show "u t (g t) = g (Suc t)"
      using EH [of ?i] less assms(7)
      by (simp add: u_def g_def Let_def step l [symmetric] two_ended_front two_ended_back)
  qed (use assms(4,7) in \<open>simp_all add: g_def\<close>)
  have ends: "w\<lparr>token_mark := two_ended (ev tile) (hits tile) (token_mark w)\<rparr> = g 0"
    "w\<lparr>token_mark := two_ended (ev (tile + THREADS)) (hits (tile + THREADS)) (token_mark w)\<rparr> = g THREADS"
    by (simp_all add: g_def)
  have lens: "length (ev tile) = cnt E tile" "length (hits tile) = cnt H tile"
    "length (ev (tile + THREADS)) = cnt E (tile + THREADS)" "length (hits (tile + THREADS)) = cnt H (tile + THREADS)"
    using assms(8) by (simp_all add: len)
  show ?thesis
    unfolding v3_split_tile_def prod.case StableScanPair1024_def ends lens
    by (simp only: read Option.bind.bind_lunit Let_def flags prod.case par [unfolded Let_def] er(2) hr(2))
qed

lemma v3_split_correct:
  fixes lru tks s2t :: "int list"
  defines "ev \<equiv> sp_evictable (int LRU_FUSED_V3_MAX_TOKEN) (int LRU_FUSED_V3_CAPACITY) tks s2t lru"
    and "hits \<equiv> sp_hits (int LRU_FUSED_V3_MAX_TOKEN) (int LRU_FUSED_V3_CAPACITY) tks s2t lru"
  assumes "simt_ok m" "length lru = LRU_FUSED_V3_CAPACITY" "length (token_mark w) = LRU_FUSED_V3_MAX_TOKEN"
    and "lru_slots r = map (encode_slot (int LRU_FUSED_V3_MAX_TOKEN) (int LRU_FUSED_V3_CAPACITY) tks s2t) lru"
  shows "for_each (lane_items 0 THREADS LRU_FUSED_V3_CAPACITY) (\<lambda>tile. v3_split_tile m (p + tile) r tile) (w, 0, 0) =
    Some (w\<lparr>token_mark := two_ended ev hits (token_mark w)\<rparr>, int (length ev), int (length hits))"
proof -
  let ?ev = "\<lambda>i. sp_evictable (int LRU_FUSED_V3_MAX_TOKEN) (int LRU_FUSED_V3_CAPACITY) tks s2t (take i lru)"
  let ?hits = "\<lambda>i. sp_hits (int LRU_FUSED_V3_MAX_TOKEN) (int LRU_FUSED_V3_CAPACITY) tks s2t (take i lru)"
  have "for_each (lane_items 0 THREADS LRU_FUSED_V3_CAPACITY) (\<lambda>tile. v3_split_tile m (p + tile) r tile) (w, 0, 0) =
      Some ((\<lambda>i. (w\<lparr>token_mark := two_ended (?ev i) (?hits i) (token_mark w)\<rparr>,
        int (length (?ev i)), int (length (?hits i)))) LRU_FUSED_V3_CAPACITY)"
    by (rule tile_loop [OF v3_tile_counts(2)])
      (use v3_split_tile_correct [OF assms(3,6,4,5)] in \<open>simp_all add: sp_evictable_def sp_hits_def\<close>)
  then show ?thesis using assms(4) by (simp add: ev_def hits_def)
qed

text \<open>A lane's search and the block disjunction find whether there is a miss.\<close>

abbreviation v3_miss :: "int list \<Rightarrow> int list \<Rightarrow> nat \<Rightarrow> bool" where
  "v3_miss tks cur pos \<equiv> v3_valid tks pos \<and> cur ! pos < 0"

lemma for_each_found:
  assumes "\<And>i. i \<in> set xs \<Longrightarrow> \<forall>s. f i s = Some (if Q i then 1 else s)"
  shows "for_each xs f (s :: int) = Some (if \<exists>i \<in> set xs. Q i then 1 else s)"
  using assms by (induction xs arbitrary: s) auto

lemma v3_has_miss_correct:
  assumes "simt_ok m" "length (topk_indices r) = LRU_FUSED_V3_TOPK" "length (current_slots r) = LRU_FUSED_V3_TOPK"
  shows "\<exists>h. v3_has_miss m r = Some h \<and>
    (h \<noteq> 0 \<longleftrightarrow> (\<exists>pos < LRU_FUSED_V3_TOPK. v3_miss (topk_indices r) (current_slots r) pos))"
proof -
  let ?Q = "v3_miss (topk_indices r) (current_slots r)"
  define found where "found thread = (if \<exists>pos \<in> set (lane_items thread THREADS LRU_FUSED_V3_TOPK). ?Q pos then 1 else (0::int))" for thread
  have "for_each (lane_items thread THREADS LRU_FUSED_V3_TOPK) (\<lambda>pos found. do {
         token \<leftarrow> rd (topk_indices r) (int pos);
         cur \<leftarrow> rd (current_slots r) (int pos);
         Some (if token \<ge> 0 \<and> token < int LRU_FUSED_V3_MAX_TOKEN \<and> cur < 0 then 1 else found) }) 0 = Some (found thread)"
    for thread
    unfolding found_def
    by (rule for_each_found) (use assms(2,3) in \<open>auto simp: set_lane_items tok_ok_def\<close>)
  then have "v3_has_miss m r = Some (BlockAny1024 m (map found [0..<THREADS]))"
    by (simp add: v3_has_miss_def lanes_Some)
  moreover have "BlockAny1024 m (map found [0..<THREADS]) \<noteq> 0 \<longleftrightarrow> (\<exists>t < THREADS. found t \<noteq> 0)"
    using BlockAny1024_iff [OF assms(1), of "map found [0..<THREADS]"] by auto
  moreover have "(\<exists>t < THREADS. found t \<noteq> 0) \<longleftrightarrow> (\<exists>pos < LRU_FUSED_V3_TOPK. ?Q pos)"
  proof
    assume "\<exists>pos < LRU_FUSED_V3_TOPK. ?Q pos"
    then obtain pos where pos: "pos < LRU_FUSED_V3_TOPK" "?Q pos" by blast
    then have "pos \<in> set (lane_items (pos mod THREADS) THREADS LRU_FUSED_V3_TOPK)"
      by (simp add: set_lane_items)
    then have "found (pos mod THREADS) \<noteq> 0" using pos by (auto simp: found_def)
    then show "\<exists>t < THREADS. found t \<noteq> 0" by (meson mod_less_divisor v3_sizes_pos)
  qed (auto simp: found_def set_lane_items split: if_splits)
  ultimately show ?thesis by blast
qed

definition miss_state :: "int list \<Rightarrow> int list \<Rightarrow> lru_row \<Rightarrow> lru_ws \<Rightarrow> nat \<Rightarrow> lru_row \<times> lru_ws" where
  "miss_state tks cur r w i = (let ms = filter (v3_miss tks cur) [0..<i] in
     (r\<lparr>miss_tokens := pad LRU_FUSED_V3_TOPK (- 1) (map ((!) tks) ms)\<rparr>,
      w\<lparr>token_pos := map int ms @ drop (length ms) (token_pos w)\<rparr>))"

lemma miss_state_step:
  assumes "i < LRU_FUSED_V3_TOPK" "length (token_pos w) = LRU_FUSED_V3_MAX_TOKEN" "k = cnt (v3_miss tks cur) i"
  shows "(case miss_state tks cur r w i of (r', w') \<Rightarrow>
      if v3_miss tks cur i
      then (r'\<lparr>miss_tokens := (miss_tokens r')[k := tks ! i]\<rparr>, w'\<lparr>token_pos := (token_pos w')[k := int i]\<rparr>)
      else (r', w')) = miss_state tks cur r w (Suc i)"
proof -
  let ?ms = "filter (v3_miss tks cur) [0..<i]"
  have k: "k < LRU_FUSED_V3_TOPK" "k < length (token_pos w)" "length ?ms = k"
    using cnt_le [of "v3_miss tks cur" i] assms by (simp_all add: v3_tile_counts cnt_def)
  then show ?thesis
    using front_write [of "map int ?ms" "token_pos w" "int i"] by (simp add: miss_state_def Let_def pad_write)
qed

lemma v3_miss_tile_correct:
  assumes "simt_ok m" "topk_indices r = tks" "current_slots r = cur" "length tks = LRU_FUSED_V3_TOPK"
    and "length cur = LRU_FUSED_V3_TOPK" "length (token_pos w) = LRU_FUSED_V3_MAX_TOKEN"
    and "tile + THREADS \<le> LRU_FUSED_V3_TOPK"
  shows "v3_miss_tile m p tile
      (fst (miss_state tks cur r w tile), snd (miss_state tks cur r w tile), int (cnt (v3_miss tks cur) tile)) =
    Some (fst (miss_state tks cur r w (tile + THREADS)), snd (miss_state tks cur r w (tile + THREADS)),
      int (cnt (v3_miss tks cur) (tile + THREADS)))"
proof -
  let ?Q = "v3_miss tks cur" and ?mt = "int LRU_FUSED_V3_MAX_TOKEN"
  have row: "topk_indices (fst (miss_state tks cur r w i)) = tks" "current_slots (fst (miss_state tks cur r w i)) = cur" for i
    by (simp_all add: miss_state_def Let_def assms(2,3))
  define toks where "toks = map (\<lambda>t. tks ! (tile + t)) [0..<THREADS]"
  define curs where "curs = map (\<lambda>t. cur ! (tile + t)) [0..<THREADS]"
  have read: "lanes THREADS (\<lambda>thread. rd tks (int (tile + thread))) = Some toks"
      "lanes THREADS (\<lambda>thread. rd cur (int (tile + thread))) = Some curs"
    unfolding toks_def curs_def by (rule lanes_Some, use assms in \<open>simp del: of_nat_add\<close>)+
  define flags where "flags = map (\<lambda>t. if ?Q (tile + t) then 1 else (0::int)) [0..<THREADS]"
  have flags: "map (\<lambda>(token, cur). if token \<ge> 0 \<and> token < ?mt \<and> cur < 0 then 1 else 0) (zip toks curs) = flags"
    by (rule nth_equalityI) (simp_all add: toks_def curs_def flags_def tok_ok_def)
  note ranks = tile_ranks [OF assms(1) flags_def]
  define u where "u t = (\<lambda>(r :: lru_row, w :: lru_ws). let i = tile + t; k = cnt ?Q i in
      if ?Q i then (r\<lparr>miss_tokens := (miss_tokens r)[k := tks ! i]\<rparr>, w\<lparr>token_pos := (token_pos w)[k := int i]\<rparr>)
      else (r, w))" for t
  have par: "par_for m p THREADS THREADS (\<lambda>thread (r, w). do {
            let missRank = block_scan m flags ! thread - flags ! thread;
            if flags ! thread \<noteq> 0 then do {
              let output = int (cnt ?Q tile) + missRank;
              r \<leftarrow> put_miss_tokens r output (toks ! thread);
              w \<leftarrow> put_pos w output (int (tile + thread));
              Some (r, w) }
            else Some (r, w) }) (miss_state tks cur r w tile) = Some (miss_state tks cur r w (tile + THREADS))"
  proof (rule par_for_seq [where u = u and g = "\<lambda>t. miss_state tks cur r w (tile + t)"
        and ok = "\<lambda>st :: lru_row \<times> lru_ws. length (miss_tokens (fst st)) = LRU_FUSED_V3_TOPK \<and> length (token_pos (snd st)) = LRU_FUSED_V3_MAX_TOKEN"])
    fix t and st :: "lru_row \<times> lru_ws" assume t: "t < THREADS" and ok: "length (miss_tokens (fst st)) = LRU_FUSED_V3_TOPK \<and>
        length (token_pos (snd st)) = LRU_FUSED_V3_MAX_TOKEN"
    obtain r' w' where st: "st = (r', w')" by (cases st)
    have k: "cnt ?Q (tile + t) < LRU_FUSED_V3_TOPK" "cnt ?Q (tile + t) < LRU_FUSED_V3_MAX_TOKEN"
      using cnt_le [of ?Q "tile + t"] t assms(7) by (simp_all add: v3_tile_counts)
    have key: "int (cnt ?Q tile) + (block_scan m flags ! t - flags ! t) = int (cnt ?Q (tile + t))"
      using ranks(1) [OF t] by simp
    have vals: "toks ! t = tks ! (tile + t)" "flags ! t = (if ?Q (tile + t) then 1 else 0)"
      using t by (simp_all add: toks_def flags_def)
    show "(case st of (r, w) \<Rightarrow> do {
            let missRank = block_scan m flags ! t - flags ! t;
            if flags ! t \<noteq> 0 then do {
              let output = int (cnt ?Q tile) + missRank;
              r \<leftarrow> put_miss_tokens r output (toks ! t);
              w \<leftarrow> put_pos w output (int (tile + t));
              Some (r, w) }
            else Some (r, w) }) = Some (u t st) \<and>
        (length (miss_tokens (fst (u t st))) = LRU_FUSED_V3_TOPK \<and> length (token_pos (snd (u t st))) = LRU_FUSED_V3_MAX_TOKEN)"
      unfolding st prod.case Let_def unfolding key unfolding vals using ok k
      by (simp add: st u_def Let_def put_defs put_pos_def del: of_nat_add)
  next
    fix t t' :: nat and st :: "lru_row \<times> lru_ws" assume t: "t \<noteq> t'"
    then have "cnt ?Q (tile + t) \<noteq> cnt ?Q (tile + t')" if "?Q (tile + t)" "?Q (tile + t')"
      using cnt_inj [of ?Q "tile + t" "tile + t'"] that by auto
    then show "u t (u t' st) = u t' (u t st)"
      by (cases st) (simp add: u_def Let_def list_update_swap [of "cnt ?Q (tile + t)" "cnt ?Q (tile + t')"])
  next
    fix t assume "t < THREADS"
    then show "u t (miss_state tks cur r w (tile + t)) = miss_state tks cur r w (tile + Suc t)"
      using miss_state_step [OF _ assms(6) refl, of "tile + t" tks cur r] assms(7)
      by (simp add: u_def Let_def case_prod_unfold)
  next
    have "cnt ?Q tile \<le> LRU_FUSED_V3_TOPK" "cnt ?Q tile \<le> LRU_FUSED_V3_MAX_TOKEN"
      using cnt_le [of ?Q tile] assms(7) by (simp_all add: v3_tile_counts)
    then show "length (miss_tokens (fst (miss_state tks cur r w tile))) = LRU_FUSED_V3_TOPK \<and>
        length (token_pos (snd (miss_state tks cur r w tile))) = LRU_FUSED_V3_MAX_TOKEN"
      using assms(6) by (simp add: miss_state_def Let_def cnt_def)
  qed (use assms(1) in simp_all)
  obtain r1 w1 where after: "miss_state tks cur r w (tile + THREADS) = (r1, w1)" by fastforce
  show ?thesis
    unfolding v3_miss_tile_def prod.case StableScanPair1024_def row after fst_conv snd_conv
    by (simp only: read Option.bind.bind_lunit Let_def flags prod.case prod.collapse
        par [unfolded Let_def after] ranks(2))
qed

lemma v3_misses_correct:
  assumes "simt_ok m" "topk_indices r = tks" "current_slots r = cur" "length tks = LRU_FUSED_V3_TOPK"
    and "length cur = LRU_FUSED_V3_TOPK" "length (token_pos w) = LRU_FUSED_V3_MAX_TOKEN"
    and "miss_tokens r = replicate LRU_FUSED_V3_TOPK (- 1)"
    and "ms = sp_misses (int LRU_FUSED_V3_MAX_TOKEN) tks cur"
  shows "for_each (lane_items 0 THREADS LRU_FUSED_V3_TOPK) (\<lambda>tile. v3_miss_tile m (p + tile) tile) (r, w, 0) =
    Some (r\<lparr>miss_tokens := pad LRU_FUSED_V3_TOPK (- 1) (map ((!) tks) ms)\<rparr>,
      w\<lparr>token_pos := map int ms @ drop (length ms) (token_pos w)\<rparr>, int (length ms))"
proof -
  have ms: "ms = filter (v3_miss tks cur) [0..<LRU_FUSED_V3_TOPK]" by (simp add: assms(4,8) sp_misses_def)
  have "for_each (lane_items 0 THREADS LRU_FUSED_V3_TOPK) (\<lambda>tile. v3_miss_tile m (p + tile) tile) (r, w, 0) =
      Some ((\<lambda>i. (fst (miss_state tks cur r w i), snd (miss_state tks cur r w i), int (cnt (v3_miss tks cur) i))) LRU_FUSED_V3_TOPK)"
    by (rule tile_loop [OF v3_tile_counts(1)])
      (use v3_miss_tile_correct [OF assms(1-6)] assms(7) in \<open>simp_all add: miss_state_def Let_def\<close>)
  then show ?thesis by (simp add: miss_state_def Let_def ms cnt_def)
qed

lemma max_order_ge: "- 1 \<le> max_order tks s2t lru {..<n} t"
  unfolding max_order_def by (rule Max_ge) (auto simp: holders_def)

lemma v3_plan_correct:
  fixes tks s2t lru :: "int list"
  defines "ev \<equiv> sp_evictable (int LRU_FUSED_V3_MAX_TOKEN) (int LRU_FUSED_V3_CAPACITY) tks s2t lru"
    and "hits \<equiv> sp_hits (int LRU_FUSED_V3_MAX_TOKEN) (int LRU_FUSED_V3_CAPACITY) tks s2t lru"
    and "cur \<equiv> sp_current (int LRU_FUSED_V3_MAX_TOKEN) (int LRU_FUSED_V3_CAPACITY) tks s2t lru"
  defines "ms \<equiv> sp_misses (int LRU_FUSED_V3_MAX_TOKEN) tks cur"
  assumes dev: "simt_ok m" and alloc: "ub_alloc ub" and epoch: "epoch (ub_ws ub) = - 2"
    and row: "ub_row ub = v3_prepared s2t lru r0" "topk_indices r0 = tks"
    and len: "length tks = LRU_FUSED_V3_TOPK" "length s2t = LRU_FUSED_V3_CAPACITY" "length lru = LRU_FUSED_V3_CAPACITY"
  shows "\<exists>ub' lru'. FusedV3NormalPlan m p ub = Some ub' \<and>
    ub_row ub' = (ub_row ub)\<lparr>lru_slots := lru', current_slots := cur,
      miss_tokens := pad LRU_FUSED_V3_TOPK (- 1) (map ((!) tks) ms), miss_count := int (min (length ms) (length ev))\<rparr> \<and>
    length lru' = LRU_FUSED_V3_CAPACITY \<and> planned (int LRU_FUSED_V3_MAX_TOKEN) ev hits ms (ub_ws ub')"
proof -
  let ?mt = "int LRU_FUSED_V3_MAX_TOKEN" and ?cap = "int LRU_FUSED_V3_CAPACITY"
  define r where "r = ub_row ub"
  have r: "topk_indices r = tks" "slot_to_token r = s2t" "lru_slots r = lru"
    "current_slots r = replicate LRU_FUSED_V3_TOPK (- 1)" "miss_tokens r = replicate LRU_FUSED_V3_TOPK (- 1)"
    by (simp_all add: r_def row v3_prepared_def)
  define w1 where "w1 = (ub_ws ub)\<lparr>token_mark := replicate LRU_FUSED_V3_MAX_TOKEN (- 1),
    token_pos := replicate LRU_FUSED_V3_MAX_TOKEN (int LRU_FUSED_V3_TOPK)\<rparr>"
  have init: "v3_init m p (ub_ws ub) = Some w1"
    unfolding w1_def using alloc by (intro v3_init_correct [OF dev]) (simp_all add: ub_alloc_def)
  define w2 where "w2 = w1\<lparr>token_pos := map (\<lambda>t. int (first_pos tks (int t))) [0..<LRU_FUSED_V3_MAX_TOKEN]\<rparr>"
  have first: "v3_first m (p + 1) r w1 = Some w2"
    using v3_first_correct [OF dev, of r w1 "p + 1"] len(1) by (simp add: w2_def w1_def r)
  define r3 where "r3 = r\<lparr>lru_slots := map (encode_slot ?mt ?cap tks s2t) lru\<rparr>"
  define w3 where "w3 = w2\<lparr>token_mark := map (\<lambda>t. max_order tks s2t lru {..<LRU_FUSED_V3_CAPACITY} (int t)) [0..<LRU_FUSED_V3_MAX_TOKEN]\<rparr>"
  have encode: "v3_encode m (p + 2) (r, w2) = Some (r3, w3)"
    unfolding r3_def w3_def by (rule v3_encode_correct [OF dev r(1-3) len]) (simp_all add: w2_def w1_def)
  define r4 where "r4 = r3\<lparr>current_slots := cur\<rparr>"
  have elect: "v3_elect m (p + 3) w3 r3 = Some r4"
    unfolding r4_def cur_def
    by (rule v3_elect_correct [OF dev, where tks = tks and s2t = s2t and lru = lru])
      (use len in \<open>simp_all add: r3_def r w3_def w2_def\<close>)
  define w5 where "w5 = w3\<lparr>token_mark := two_ended ev hits (token_mark w3)\<rparr>"
  have split: "for_each (lane_items 0 THREADS LRU_FUSED_V3_CAPACITY) (\<lambda>tile. v3_split_tile m (p + 4 + tile) r4 tile) (w3, 0, 0) =
      Some (w5, int (length ev), int (length hits))"
    unfolding w5_def ev_def hits_def
    by (rule v3_split_correct [OF dev len(3)]) (simp_all add: w3_def r4_def r3_def)
  obtain h where has: "v3_has_miss m r4 = Some h" "h \<noteq> 0 \<longleftrightarrow> (\<exists>pos < LRU_FUSED_V3_TOPK. v3_miss tks cur pos)"
    using v3_has_miss_correct [OF dev, of r4] len(1) by (auto simp: r4_def r3_def r cur_def)
  define r6 where "r6 = r4\<lparr>miss_tokens := pad LRU_FUSED_V3_TOPK (- 1) (map ((!) tks) ms)\<rparr>"
  define w6 where "w6 = w5\<lparr>token_pos := map int ms @ drop (length ms) (token_pos w5)\<rparr>"
  have misses: "(if h \<noteq> 0
        then for_each (lane_items 0 THREADS LRU_FUSED_V3_TOPK)
          (\<lambda>tile. v3_miss_tile m (p + 4 + LRU_FUSED_V3_CAPACITY + tile) tile) (r4, w5, 0)
        else Some (r4, w5, 0)) = Some (r6, w6, int (length ms))"
  proof (cases "h \<noteq> 0")
    case True
    have "for_each (lane_items 0 THREADS LRU_FUSED_V3_TOPK)
          (\<lambda>tile. v3_miss_tile m (p + 4 + LRU_FUSED_V3_CAPACITY + tile) tile) (r4, w5, 0) = Some (r6, w6, int (length ms))"
      unfolding r6_def w6_def
      by (rule v3_misses_correct [OF dev, where cur = cur])
        (use len in \<open>simp_all add: r4_def r3_def r w5_def w3_def w2_def cur_def ms_def\<close>)
    then show ?thesis using True by simp
  next
    case False
    then have "\<forall>pos < LRU_FUSED_V3_TOPK. \<not> v3_miss tks cur pos" using has(2) by blast
    then have "ms = []" by (simp add: ms_def sp_misses_def len(1) filter_empty_conv)
    then show ?thesis using False by (simp add: r6_def w6_def r4_def r3_def r)
  qed
  have ms: "int (length ms) \<le> int LRU_FUSED_V3_TOPK"
    using sp_misses_props(1) [of ?mt tks cur] len(1) by (simp add: ms_def)
  have small: "int LRU_FUSED_V3_TOPK \<le> ?mt - 2" by (simp add: v3_sizes)
  define w7 where "w7 = w3\<lparr>token_mark := two_ended ev hits (token_mark w3),
    token_pos := (map int ms @ drop (length ms) (token_pos w3))
         [nat (?mt - 2) := int (length ev), nat (?mt - 1) := int (length hits)]\<rparr>"
  have w3: "length (token_mark w3) = LRU_FUSED_V3_MAX_TOKEN" "length (token_pos w3) = LRU_FUSED_V3_MAX_TOKEN"
    by (simp_all add: w3_def w2_def)
  have stores: "put_pos w6 (?mt - 2) (int (length ev)) \<bind> (\<lambda>w. put_pos w (?mt - 1) (int (length hits))) = Some w7"
    using ms small w3 by (simp add: put_pos_def wr_Some w6_def w5_def w7_def)
  have planned: "planned ?mt ev hits ms w7"
    unfolding w7_def
  proof (rule planned_intro)
    show "length ev + length hits \<le> length (token_mark w3)"
      using evictable_hits_le [of ?mt ?cap tks s2t lru] len(3) w3(1)
      unfolding ev_def hits_def by (simp add: v3_sizes)
    show "\<forall>x\<in>set (token_mark w3). epoch w3 \<le> x"
      using max_order_ge [of tks s2t lru LRU_FUSED_V3_CAPACITY] epoch by (auto simp: w3_def w2_def w1_def intro: order_trans [of _ "- 1"])
    show "\<forall>x\<in>set ev \<union> set hits. epoch w3 \<le> x"
      using epoch by (auto simp: ev_def hits_def sp_evictable_def sp_hits_def sp_hit_def slot_ok_def w3_def w2_def w1_def)
  qed (use w3 ms small in simp_all)
  define ub' where "ub' = ub\<lparr>ub_row := r6\<lparr>miss_count := int (min (length ms) (length ev))\<rparr>, ub_ws := w7,
    control_evictable_count := int (length ev), control_hit_count := int (length hits), control_has_miss := h\<rparr>"
  have count: "(if int (length ms) < int (length ev) then int (length ms) else int (length ev)) =
      int (min (length ms) (length ev))" by simp
  have "FusedV3NormalPlan m p ub = Some ub'"
    unfolding FusedV3NormalPlan_def r_def [symmetric]
    using stores
    by (simp only: init first encode elect split has(1) misses Option.bind.bind_lunit prod.case Let_def count ub'_def)
      (auto simp: bind_eq_Some_conv)
  moreover have "ub_row ub' = r\<lparr>lru_slots := map (encode_slot ?mt ?cap tks s2t) lru, current_slots := cur,
      miss_tokens := pad LRU_FUSED_V3_TOPK (- 1) (map ((!) tks) ms), miss_count := int (min (length ms) (length ev))\<rparr>"
    by (simp add: ub'_def r6_def r4_def r3_def)
  ultimately show ?thesis using planned len(3) by (auto simp: r_def ub'_def)
qed

section \<open>The whole kernel\<close>

lemma v3_assign_rebuild_correct:
  assumes "simt_ok m" "planned (int LRU_FUSED_V3_MAX_TOKEN) ev hits ms (ub_ws ub)" "n = min (length ms) (length ev)"
    and "miss_count (ub_row ub) = int n" "length (slot_to_token (ub_row ub)) = LRU_FUSED_V3_CAPACITY"
    and "length (current_slots (ub_row ub)) = LRU_FUSED_V3_TOPK"
    and "miss_slots (ub_row ub) = replicate LRU_FUSED_V3_TOPK (- 1)" "length (lru_slots (ub_row ub)) = LRU_FUSED_V3_CAPACITY"
    and "miss_tokens (ub_row ub) = pad LRU_FUSED_V3_TOPK (- 1) (map ((!) tks) ms)" "length ms \<le> LRU_FUSED_V3_TOPK"
    and "\<And>s. s \<in> set ev \<Longrightarrow> slot_ok (int LRU_FUSED_V3_CAPACITY) s" "distinct (map nat ev)"
    and "\<And>p. p \<in> set ms \<Longrightarrow> p < LRU_FUSED_V3_TOPK" "distinct ms"
    and "length ev + length hits \<le> LRU_FUSED_V3_CAPACITY"
  shows "FusedV3AssignRebuildUb m p ub = Some (ub\<lparr>ub_row := (ub_row ub)\<lparr>
      slot_to_token := scatter (map nat (take n ev)) (map ((!) tks) (take n ms)) (slot_to_token (ub_row ub)),
      current_slots := scatter (take n ms) (take n ev) (current_slots (ub_row ub)),
      miss_slots := pad LRU_FUSED_V3_TOPK (- 1) (take n ev),
      lru_slots := pad LRU_FUSED_V3_CAPACITY (- 1) (drop n ev @ take n ev @ hits)\<rparr>\<rparr>)"
proof -
  let ?r = "ub_row ub" and ?w = "ub_ws ub"
  let ?cap = "int LRU_FUSED_V3_CAPACITY" and ?mt = "int LRU_FUSED_V3_MAX_TOKEN" and ?topk = "int LRU_FUSED_V3_TOPK"
  have n: "n \<le> length ev" "n \<le> LRU_FUSED_V3_TOPK" using assms(3,10) by simp_all
  define r1 where "r1 = ?r\<lparr>
      slot_to_token := scatter (map nat (take n ev)) (map ((!) tks) (take n ms)) (slot_to_token (ub_row ub)),
      current_slots := scatter (take n ms) (take n ev) (current_slots (ub_row ub)),
      miss_slots := pad LRU_FUSED_V3_TOPK (- 1) (take n ev)\<rparr>"
  have assign: "par_for m p THREADS n (assign_lane ?topk ?cap ?w) ?r = Some r1"
    using assign_lanes_correct [OF assms(1-3) v3_sizes_pos, of ?r ?cap ?topk tks p] assms n
    by (simp add: r1_def pad_def)
  have rebuild: "par_for m (p + 1) THREADS LRU_FUSED_V3_CAPACITY
      (rebuild_lane ?mt ?w (int n) (int (length ev)) (int (length hits))) r1 =
      Some (r1\<lparr>lru_slots := pad LRU_FUSED_V3_CAPACITY (- 1) (drop n ev @ take n ev @ hits)\<rparr>)"
    using rebuild_lanes_correct [OF assms(1-3) v3_sizes_pos, of r1 ?cap "p + 1"] assms n
    by (simp add: r1_def pad_def)
  have counts: "rd (token_pos ?w) (?mt - 2) = Some (int (length ev))" "rd (token_pos ?w) (?mt - 1) = Some (int (length hits))"
    using assms(2) by (simp_all add: planned_def)
  have "FusedV3AssignRebuildUb m p ub =
      Some (ub\<lparr>ub_row := r1\<lparr>lru_slots := pad LRU_FUSED_V3_CAPACITY (- 1) (drop n ev @ take n ev @ hits)\<rparr>\<rparr>)"
    unfolding FusedV3AssignRebuildUb_def Let_def assms(4) nat_int assign_lane_def [symmetric, abs_def]
    using assign rebuild
    by (simp only: counts Option.bind.bind_lunit assign_lane_def [abs_def] rebuild_lane_def [abs_def] Let_def)
  then show ?thesis by (simp add: r1_def)
qed

lemma publish_correct:
  assumes "simt_ok m" "r = ub_row ub"
    and "length (slot_to_token r) = LRU_FUSED_V3_CAPACITY" "length (lru_slots r) = LRU_FUSED_V3_CAPACITY"
    and "length (current_slots r) = LRU_FUSED_V3_TOPK" "length (miss_tokens r) = LRU_FUSED_V3_TOPK"
    and "length (miss_slots r) = LRU_FUSED_V3_TOPK"
    and "row_wf (int LRU_FUSED_V3_TOPK) (int LRU_FUSED_V3_CAPACITY) g"
  shows "PublishFusedV3StateDirectGm m p ub (g, gw) =
    Some (g\<lparr>slot_to_token := slot_to_token r, lru_slots := lru_slots r, current_slots := current_slots r,
      miss_tokens := miss_tokens r, miss_slots := miss_slots r, last_req_id := req_id g, miss_count := miss_count r\<rparr>,
      gw\<lparr>epoch := - 2\<rparr>)"
proof -
  have len: "length (slot_to_token g) = LRU_FUSED_V3_CAPACITY" "length (lru_slots g) = LRU_FUSED_V3_CAPACITY"
    "length (current_slots g) = LRU_FUSED_V3_TOPK" "length (miss_tokens g) = LRU_FUSED_V3_TOPK"
    "length (miss_slots g) = LRU_FUSED_V3_TOPK"
    using assms(8) by (simp_all add: row_wf_def)
  define a where "a D = g\<lparr>slot_to_token := overwrite D ((!) (slot_to_token r)) (slot_to_token g),
      lru_slots := overwrite D ((!) (lru_slots r)) (lru_slots g)\<rparr>" for D
  have slots: "par_for m p THREADS LRU_FUSED_V3_CAPACITY (\<lambda>index g. do {
            token \<leftarrow> rd (slot_to_token r) (int index);
            g \<leftarrow> put_slot_to_token g (int index) token;
            slot \<leftarrow> rd (lru_slots r) (int index);
            put_lru_slots g (int index) slot }) g = Some (a {..<LRU_FUSED_V3_CAPACITY})"
    using assms(1) by (rule par_for_eq) (simp_all add: a_def put_defs len assms(3,4) overwrite_insert)
  define b where "b D = g\<lparr>slot_to_token := slot_to_token r, lru_slots := lru_slots r,
      current_slots := overwrite D ((!) (current_slots r)) (current_slots g),
      miss_tokens := overwrite D ((!) (miss_tokens r)) (miss_tokens g),
      miss_slots := overwrite D ((!) (miss_slots r)) (miss_slots g)\<rparr>" for D
  have start: "a {..<LRU_FUSED_V3_CAPACITY} = b {}"
    using overwrite_front [of LRU_FUSED_V3_CAPACITY "slot_to_token g" "slot_to_token r"]
      overwrite_front [of LRU_FUSED_V3_CAPACITY "lru_slots g" "lru_slots r"] len assms(3,4)
    by (simp add: a_def b_def)
  have outputs: "par_for m (p + 1) THREADS LRU_FUSED_V3_TOPK (\<lambda>index g. do {
            cur \<leftarrow> rd (current_slots r) (int index);
            g \<leftarrow> put_current_slots g (int index) cur;
            token \<leftarrow> rd (miss_tokens r) (int index);
            g \<leftarrow> put_miss_tokens g (int index) token;
            slot \<leftarrow> rd (miss_slots r) (int index);
            put_miss_slots g (int index) slot }) (b {}) = Some (b {..<LRU_FUSED_V3_TOPK})"
    using assms(1) by (rule par_for_eq) (simp_all add: b_def put_defs len assms(5-7) overwrite_insert)
  have final: "b {..<LRU_FUSED_V3_TOPK} = g\<lparr>slot_to_token := slot_to_token r, lru_slots := lru_slots r,
      current_slots := current_slots r, miss_tokens := miss_tokens r, miss_slots := miss_slots r\<rparr>"
    using overwrite_front [of LRU_FUSED_V3_TOPK "current_slots g" "current_slots r"]
      overwrite_front [of LRU_FUSED_V3_TOPK "miss_tokens g" "miss_tokens r"]
      overwrite_front [of LRU_FUSED_V3_TOPK "miss_slots g" "miss_slots r"] len assms(5-7)
    by (simp add: b_def)
  show ?thesis
    unfolding PublishFusedV3StateDirectGm_def prod.case Let_def assms(2) [symmetric] slots Option.bind.bind_lunit
      start outputs final
    by (simp add: LRU_FUSED_V3_EPOCH_def)
qed

text \<open>The device-memory workspace slice of V3: only its size matters.\<close>

definition v3_ws_ok :: "int \<Rightarrow> lru_ws \<Rightarrow> bool" where
  "v3_ws_ok max_token w \<longleftrightarrow> int (length (token_mark w)) = max_token \<and> int (length (token_pos w)) = max_token"

lemma record_stage_correct:
  assumes "v3_ws_ok (int LRU_FUSED_V3_MAX_TOKEN) gw"
  shows "\<exists>gw'. RecordV3Stage clk prof stage gw = Some gw' \<and> v3_ws_ok (int LRU_FUSED_V3_MAX_TOKEN) gw' \<and> (\<not> prof \<longrightarrow> gw' = gw)"
  using assms
  by (auto simp: RecordV3Stage_def v3_ws_ok_def put_mark_def V3_PROFILE_STAMPS_def LRU_FUSED_V3_MAX_TOKEN_def
      simp flip: of_nat_Suc of_nat_mult of_nat_add)

lemma record_stages_correct:
  assumes "v3_ws_ok (int LRU_FUSED_V3_MAX_TOKEN) gw"
  shows "\<exists>gw'. for_each stages (RecordV3Stage clk prof) gw = Some gw' \<and> v3_ws_ok (int LRU_FUSED_V3_MAX_TOKEN) gw' \<and>
    (\<not> prof \<longrightarrow> gw' = gw)"
  using assms
proof (induction stages arbitrary: gw)
  case (Cons stage stages)
  then show ?case using record_stage_correct [OF Cons.prems, of clk prof stage] by auto
qed simp

text \<open>What happens in the UB: the row becomes what the specification says, for a reset row and for a row
  that keeps its cache.\<close>

lemma v3_ub_correct:
  fixes g :: lru_row
  defines "s2t \<equiv> sp_invalidate (int LRU_FUSED_V3_MAX_TOKEN) (clamp_prefix (int LRU_FUSED_V3_MAX_TOKEN) (stable_prefix_len g))
      (sp_slots (int LRU_FUSED_V3_CAPACITY) g)"
    and "lru \<equiv> sp_lru (int LRU_FUSED_V3_CAPACITY) g"
  assumes dev: "simt_ok m" and alloc: "ub_alloc ub" and wf: "row_wf (int LRU_FUSED_V3_TOPK) (int LRU_FUSED_V3_CAPACITY) g"
    and staged: "topk_indices (ub_row ub) = topk_indices g" "slot_to_token (ub_row ub) = slot_to_token g"
      "lru_slots (ub_row ub) = lru_slots g"
  shows "\<exists>ub1 ub2. FusedV3ResetPrepareUb m p (req_id g) (last_req_id g) (stable_prefix_len g) ub = Some ub1 \<and>
    (if control_reset_row ub1 \<noteq> 0 then FusedV3ResetFastPath m (p + 2) ub1
     else FusedV3NormalPlan m (p + 2) ub1 \<bind> FusedV3AssignRebuildUb m (p + 20000)) = Some ub2 \<and>
    ub_row ub2 = compact_lists (int LRU_FUSED_V3_MAX_TOKEN) (int LRU_FUSED_V3_CAPACITY) (topk_indices g) s2t lru (ub_row ub1)"
proof -
  let ?mt = "int LRU_FUSED_V3_MAX_TOKEN" and ?cap = "int LRU_FUSED_V3_CAPACITY" and ?tks = "topk_indices g"
  have len: "length ?tks = LRU_FUSED_V3_TOPK" "length s2t = LRU_FUSED_V3_CAPACITY" "length lru = LRU_FUSED_V3_CAPACITY"
    using row_wf_inputs(1,3) [OF wf] row_wf_inputs(2) [OF wf, of ?mt "clamp_prefix ?mt (stable_prefix_len g)"]
    by (simp_all add: s2t_def lru_def)
  have inputs: "s2t = (if last_req_id g \<noteq> req_id g then replicate LRU_FUSED_V3_CAPACITY (- 1)
      else sp_invalidate ?mt (clamp_prefix ?mt (stable_prefix_len g)) (slot_to_token (ub_row ub)))"
    "lru = (if last_req_id g \<noteq> req_id g then map int [0..<LRU_FUSED_V3_CAPACITY] else lru_slots (ub_row ub))"
    by (simp_all add: s2t_def lru_def sp_slots_def sp_lru_def staged sp_invalidate_def tok_ok_def)
  have room: "length (slot_to_token (ub_row ub)) = LRU_FUSED_V3_CAPACITY" "length (lru_slots (ub_row ub)) = LRU_FUSED_V3_CAPACITY"
    using wf by (simp_all add: staged row_wf_def)
  obtain ub1 where prep: "FusedV3ResetPrepareUb m p (req_id g) (last_req_id g) (stable_prefix_len g) ub = Some ub1"
    and ub1: "ub_row ub1 = v3_prepared s2t lru (ub_row ub)" "ub_alloc ub1" "epoch (ub_ws ub1) = - 2"
      "control_reset_row ub1 \<noteq> 0 \<longleftrightarrow> last_req_id g \<noteq> req_id g"
    using v3_reset_prepare_correct [OF dev alloc room inputs] by blast
  have tks: "topk_indices (ub_row ub1) = ?tks" by (simp add: ub1 v3_prepared_def staged)
  show ?thesis
  proof (cases "control_reset_row ub1 \<noteq> 0")
    case True
    then have "s2t = replicate LRU_FUSED_V3_CAPACITY (- 1)" "lru = map int [0..<LRU_FUSED_V3_CAPACITY]"
      using ub1(4) inputs by simp_all
    from reset_fast_correct [OF dev len(1) tks this ub1(1), of "p + 2"] show ?thesis using True prep by simp
  next
    case False
    define ev where "ev = sp_evictable ?mt ?cap ?tks s2t lru"
    define hits where "hits = sp_hits ?mt ?cap ?tks s2t lru"
    define cur where "cur = sp_current ?mt ?cap ?tks s2t lru"
    define ms where "ms = sp_misses ?mt ?tks cur"
    define n where "n = min (length ms) (length ev)"
    obtain ub2 lru2 where plan: "FusedV3NormalPlan m (p + 2) ub1 = Some ub2"
      and ub2: "ub_row ub2 = (ub_row ub1)\<lparr>lru_slots := lru2, current_slots := cur,
        miss_tokens := pad LRU_FUSED_V3_TOPK (- 1) (map ((!) ?tks) ms), miss_count := int n\<rparr>"
        "length lru2 = LRU_FUSED_V3_CAPACITY" "planned ?mt ev hits ms (ub_ws ub2)"
      using v3_plan_correct [OF dev ub1(2,3,1) staged(1) len, of "p + 2"]
      unfolding ev_def hits_def cur_def ms_def n_def by blast
    have dist: "distinct (filter (slot_ok ?cap) lru)"
      using row_wf_inputs(4) [OF wf] by (simp add: lru_def)
    have ms: "length ms \<le> LRU_FUSED_V3_TOPK" "distinct ms" "\<And>p. p \<in> set ms \<Longrightarrow> p < LRU_FUSED_V3_TOPK"
      using sp_misses_props [where max_token = ?mt and topk = ?tks and cur = cur] len(1) by (auto simp: ms_def)
    have ev: "distinct (map nat ev)" "\<And>s. s \<in> set ev \<Longrightarrow> slot_ok ?cap s"
      using distinct_nat_evictable [OF dist] evictable_slot_ok unfolding ev_def by blast+
    have "length ev + length hits \<le> LRU_FUSED_V3_CAPACITY"
      using evictable_hits_le [of ?mt ?cap ?tks s2t lru] len(3) by (simp add: ev_def hits_def)
    from v3_assign_rebuild_correct [OF dev ub2(3) n_def _ _ _ _ _ _ ms(1) ev(2,1) ms(3,2) this, of ?tks "p + 20000"]
    have assign: "FusedV3AssignRebuildUb m (p + 20000) ub2 = Some (ub2\<lparr>ub_row := (ub_row ub2)\<lparr>
      slot_to_token := scatter (map nat (take n ev)) (map ((!) ?tks) (take n ms)) s2t,
      current_slots := scatter (take n ms) (take n ev) cur,
      miss_slots := pad LRU_FUSED_V3_TOPK (- 1) (take n ev),
      lru_slots := pad LRU_FUSED_V3_CAPACITY (- 1) (drop n ev @ take n ev @ hits)\<rparr>\<rparr>)"
      using ub2(2) len by (simp add: ub2(1) ub1(1) v3_prepared_def cur_def)
    have "(ub_row ub2)\<lparr>
      slot_to_token := scatter (map nat (take n ev)) (map ((!) ?tks) (take n ms)) s2t,
      current_slots := scatter (take n ms) (take n ev) cur,
      miss_slots := pad LRU_FUSED_V3_TOPK (- 1) (take n ev),
      lru_slots := pad LRU_FUSED_V3_CAPACITY (- 1) (drop n ev @ take n ev @ hits)\<rparr> =
      compact_lists ?mt ?cap ?tks s2t lru (ub_row ub1)"
      by (simp add: ub2(1) compact_lists_def Let_def len(1) ev_def hits_def cur_def ms_def n_def)
    then show ?thesis using False prep plan assign by simp
  qed
qed

lemma compact_lists_cong:
  assumes "slot_to_token r' = slot_to_token (compact_lists mt cap tks s2t lru r)"
    and "lru_slots r' = lru_slots (compact_lists mt cap tks s2t lru r)"
    and "current_slots r' = current_slots (compact_lists mt cap tks s2t lru r)"
    and "miss_count r' = miss_count (compact_lists mt cap tks s2t lru r)"
    and "miss_tokens r' = miss_tokens (compact_lists mt cap tks s2t lru r)"
    and "miss_slots r' = miss_slots (compact_lists mt cap tks s2t lru r)"
    and "topk_indices r' = topk_indices g" "req_id r' = req_id g" "last_req_id r' = req_id g"
    and "stable_prefix_len r' = stable_prefix_len g"
  shows "r' = compact_lists mt cap tks s2t lru (g\<lparr>last_req_id := req_id g\<rparr>)"
  using assms by (intro lru_row.equality) (simp_all add: compact_lists_def Let_def)

lemma v3_kernel_correct:
  assumes dev: "simt_ok m" and alloc: "ub_alloc ub" and wf: "row_wf (int LRU_FUSED_V3_TOPK) (int LRU_FUSED_V3_CAPACITY) g"
    and ws: "v3_ws_ok (int LRU_FUSED_V3_MAX_TOKEN) gw"
  shows "\<exists>gw'. OffloadLruCompactFusedV3Kernel m clk prof p ub (g, gw) =
      Some (compact_spec (int LRU_FUSED_V3_CAPACITY) (int LRU_FUSED_V3_MAX_TOKEN) g, gw') \<and>
    v3_ws_ok (int LRU_FUSED_V3_MAX_TOKEN) gw' \<and> (\<not> prof \<longrightarrow> gw' = gw\<lparr>epoch := - 2\<rparr>)"
proof -
  let ?mt = "int LRU_FUSED_V3_MAX_TOKEN" and ?cap = "int LRU_FUSED_V3_CAPACITY" and ?tks = "topk_indices g"
  have copy: "CopyGmToUb xs (length xs) = Some xs" for xs
    unfolding CopyGmToUb_def by (subst lanes_Some [where g = "(!) xs"]) (simp_all add: map_nth)
  have lens: "length ?tks = LRU_FUSED_V3_TOPK" "length (slot_to_token g) = LRU_FUSED_V3_CAPACITY"
    "length (lru_slots g) = LRU_FUSED_V3_CAPACITY" using wf by (simp_all add: row_wf_def)
  define ub0 where "ub0 = ub\<lparr>ub_row := (ub_row ub)\<lparr>topk_indices := ?tks, slot_to_token := slot_to_token g,
      lru_slots := lru_slots g\<rparr>\<rparr>"
  have stage: "OffloadLruCompactFusedV3Kernel m clk prof p ub (g, gw) = LruCompactFusedV3Body m clk prof p ub0 (g, gw)"
    using copy [of ?tks] copy [of "slot_to_token g"] copy [of "lru_slots g"] lens
    by (simp add: OffloadLruCompactFusedV3Kernel_def ub0_def)
  have alloc0: "ub_alloc ub0" using alloc by (simp add: ub0_def ub_alloc_def)
  obtain ub1 ub2 where prep: "FusedV3ResetPrepareUb m p (req_id g) (last_req_id g) (stable_prefix_len g) ub0 = Some ub1"
    and main: "(if control_reset_row ub1 \<noteq> 0 then FusedV3ResetFastPath m (p + 2) ub1
     else FusedV3NormalPlan m (p + 2) ub1 \<bind> FusedV3AssignRebuildUb m (p + 20000)) = Some ub2"
    and row: "ub_row ub2 = compact_lists ?mt ?cap ?tks
      (sp_invalidate ?mt (clamp_prefix ?mt (stable_prefix_len g)) (sp_slots ?cap g)) (sp_lru ?cap g) (ub_row ub1)"
    using v3_ub_correct [OF dev alloc0 wf, of p] by (simp add: ub0_def) blast
  obtain gw1 where gw1: "RecordV3Stage clk prof 0 gw = Some gw1" "v3_ws_ok ?mt gw1" "\<not> prof \<longrightarrow> gw1 = gw"
    using record_stage_correct [OF ws] by blast
  obtain gw2 where gw2: "RecordV3Stage clk prof 1 gw1 = Some gw2" "v3_ws_ok ?mt gw2" "\<not> prof \<longrightarrow> gw2 = gw1"
    using record_stage_correct [OF gw1(2)] by blast
  obtain gw3 where gw3: "for_each [2, 3, 4, 5] (RecordV3Stage clk prof) gw2 = Some gw3" "v3_ws_ok ?mt gw3" "\<not> prof \<longrightarrow> gw3 = gw2"
    using record_stages_correct [OF gw2(2)] by blast
  define gw4 where "gw4 = (if control_reset_row ub1 \<noteq> 0 then gw2 else gw3)"
  have mid: "(if control_reset_row ub1 \<noteq> 0 then do {
          ub \<leftarrow> FusedV3ResetFastPath m (p + 2) ub1;
          Some (ub, gw2) }
        else do {
          ub \<leftarrow> FusedV3NormalPlan m (p + 2) ub1;
          gw \<leftarrow> for_each [2, 3, 4, 5] (RecordV3Stage clk prof) gw2;
          ub \<leftarrow> FusedV3AssignRebuildUb m (p + 20000) ub;
          Some (ub, gw) }) = Some (ub2, gw4)"
    using main by (simp only: gw3(1) Option.bind.bind_lunit gw4_def split: if_splits) (auto simp: bind_eq_Some_conv)
  have ws4: "v3_ws_ok ?mt gw4" "\<not> prof \<longrightarrow> gw4 = gw"
    using gw1(3) gw2(2,3) gw3(2,3) by (auto simp: gw4_def)
  obtain gw5 where gw5: "RecordV3Stage clk prof 6 gw4 = Some gw5" "v3_ws_ok ?mt gw5" "\<not> prof \<longrightarrow> gw5 = gw4"
    using record_stage_correct [OF ws4(1)] by blast
  define g' where "g' = g\<lparr>slot_to_token := slot_to_token (ub_row ub2), lru_slots := lru_slots (ub_row ub2),
      current_slots := current_slots (ub_row ub2), miss_tokens := miss_tokens (ub_row ub2),
      miss_slots := miss_slots (ub_row ub2), last_req_id := req_id g, miss_count := miss_count (ub_row ub2)\<rparr>"
  have spec: "g' = compact_spec ?cap ?mt g"
    unfolding compact_spec_def by (rule compact_lists_cong [where r = "ub_row ub1"]) (simp_all add: g'_def row)
  have "row_wf (int LRU_FUSED_V3_TOPK) ?cap g'" unfolding spec using wf by (rule compact_spec_row_wf)
  then have out: "length (slot_to_token (ub_row ub2)) = LRU_FUSED_V3_CAPACITY" "length (lru_slots (ub_row ub2)) = LRU_FUSED_V3_CAPACITY"
    "length (current_slots (ub_row ub2)) = LRU_FUSED_V3_TOPK" "length (miss_tokens (ub_row ub2)) = LRU_FUSED_V3_TOPK"
    "length (miss_slots (ub_row ub2)) = LRU_FUSED_V3_TOPK"
    by (simp_all add: row_wf_def g'_def)
  have pub: "PublishFusedV3StateDirectGm m (p + 20002) ub2 (g, gw5) = Some (g', gw5\<lparr>epoch := - 2\<rparr>)"
    unfolding g'_def using publish_correct [OF dev refl out wf] .
  have "v3_ws_ok ?mt (gw5\<lparr>epoch := - 2\<rparr>)" using gw5(2) by (simp add: v3_ws_ok_def)
  then obtain gw6 where gw6: "RecordV3Stage clk prof 7 (gw5\<lparr>epoch := - 2\<rparr>) = Some gw6" "v3_ws_ok ?mt gw6"
      "\<not> prof \<longrightarrow> gw6 = gw5\<lparr>epoch := - 2\<rparr>"
    using record_stage_correct by blast
  moreover have "LruCompactFusedV3Body m clk prof p ub0 (g, gw) = Some (g', gw6)"
    unfolding LruCompactFusedV3Body_def prod.case
    by (simp only: gw1(1) gw2(1) prep mid gw5(1) pub gw6(1) Option.bind.bind_lunit prod.case)
  ultimately show ?thesis using stage spec gw5(3) ws4(2) by auto
qed

text \<open>The fused kernel meets the contract of Compact, whatever the UB contains before.\<close>

definition v3_shape :: "int \<Rightarrow> int \<Rightarrow> int \<Rightarrow> bool" where
  "v3_shape topk capacity max_token \<longleftrightarrow> topk = int LRU_FUSED_V3_TOPK \<and> capacity = int LRU_FUSED_V3_CAPACITY \<and>
     max_token = int LRU_FUSED_V3_MAX_TOKEN"

definition v3_run ::
  "(nat \<Rightarrow> int \<times> int) \<times> bool \<times> v3_ub \<Rightarrow> simt \<Rightarrow> int \<Rightarrow> int \<Rightarrow> int \<Rightarrow> nat \<Rightarrow> lru_row \<times> lru_ws \<Rightarrow>
     (lru_row \<times> lru_ws) option" where
  "v3_run e m topk capacity max_token row =
     (case e of (clk, prof, ub) \<Rightarrow> OffloadLruCompactFusedV3Kernel m clk prof (40000 * row) ub)"

interpretation v3: compact_op "\<lambda>(clk, prof, ub). ub_alloc ub" v3_shape v3_ws_ok v3_run
proof unfold_locales
  fix e :: "(nat \<Rightarrow> int \<times> int) \<times> bool \<times> v3_ub" and m topk capacity max_token r w row
  assume e: "case e of (clk, prof, ub) \<Rightarrow> ub_alloc ub" and "simt_ok m" and shape: "v3_shape topk capacity max_token"
    and "row_wf topk capacity r" "v3_ws_ok max_token w"
  obtain clk prof ub where "e = (clk, prof, ub)" by (cases e)
  then show "\<exists>w'. v3_run e m topk capacity max_token row (r, w) = Some (compact_spec capacity max_token r, w') \<and>
      v3_ws_ok max_token w'"
    using v3_kernel_correct [of m ub r w clk prof "40000 * row"] \<open>simt_ok m\<close> \<open>row_wf topk capacity r\<close>
      \<open>v3_ws_ok max_token w\<close> e shape
    by (auto simp: v3_run_def v3_shape_def)
qed

section \<open>Properties\<close>

text \<open>A production row that holds token 5 in slot 3 and is asked for tokens 5 and 9.\<close>

definition v3_example_row :: lru_row where
  "v3_example_row = \<lparr>req_id = 1, last_req_id = 1, topk_indices = (replicate LRU_FUSED_V3_TOPK (- 1))[0 := 5, 1 := 9],
     stable_prefix_len = 4096, slot_to_token = (replicate LRU_FUSED_V3_CAPACITY (- 1))[3 := 5],
     lru_slots = map int [0..<LRU_FUSED_V3_CAPACITY], current_slots = replicate LRU_FUSED_V3_TOPK 0, miss_count = 0,
     miss_tokens = replicate LRU_FUSED_V3_TOPK 0, miss_slots = replicate LRU_FUSED_V3_TOPK 0\<rparr>"

definition v3_example_ws :: lru_ws where
  "v3_example_ws = \<lparr>token_mark = replicate LRU_FUSED_V3_MAX_TOKEN 0, token_pos = replicate LRU_FUSED_V3_MAX_TOKEN 0, epoch = 0\<rparr>"

definition v3_example_ub :: v3_ub where
  "v3_example_ub = \<lparr>ub_row = v3_example_row, ub_ws = v3_example_ws, control_evictable_count = 0, control_hit_count = 0,
     control_reset_row = 0, control_stable_prefix = 0, control_has_miss = 0\<rparr>"

lemma v3_example_ok:
  "row_wf (int LRU_FUSED_V3_TOPK) (int LRU_FUSED_V3_CAPACITY) v3_example_row"
  "v3_ws_ok (int LRU_FUSED_V3_MAX_TOKEN) v3_example_ws" "ws_wf (int LRU_FUSED_V3_MAX_TOKEN) v3_example_ws"
  "ub_alloc v3_example_ub" "lru_perm (int LRU_FUSED_V3_CAPACITY) (lru_slots v3_example_row)"
  by (simp_all add: row_wf_def v3_example_row_def v3_ws_ok_def ws_wf_def v3_example_ws_def ub_alloc_def
      v3_example_ub_def lru_perm_def distinct_map)

lemma v3_launch_spec:
  assumes "simt_ok m" "ub_alloc ub" "row < length rows"
    and "row_wf (int LRU_FUSED_V3_TOPK) (int LRU_FUSED_V3_CAPACITY) (rows ! row)"
    and "length wss = 8" "\<And>w. w \<in> set wss \<Longrightarrow> v3_ws_ok (int LRU_FUSED_V3_MAX_TOKEN) w"
  shows "\<exists>gw. LaunchFusedV3 m clk profileEnabled p ub (int row) (int LRU_FUSED_V3_TOPK) (int LRU_FUSED_V3_CAPACITY)
      (int LRU_FUSED_V3_MAX_TOKEN) (rows, wss) =
    Some (rows[row := compact_spec (int LRU_FUSED_V3_CAPACITY) (int LRU_FUSED_V3_MAX_TOKEN) (rows ! row)],
      wss[row mod 8 := gw]) \<and> v3_ws_ok (int LRU_FUSED_V3_MAX_TOKEN) gw \<and>
    (\<not> profileEnabled \<longrightarrow> gw = (wss ! (row mod 8))\<lparr>epoch := - 2\<rparr>)"
proof -
  have slot: "int row mod LRU_FUSED_V3_WORKSPACE_THREADS = int (row mod 8)"
    by (simp add: LRU_FUSED_V3_WORKSPACE_THREADS_def zmod_int)
  have "row mod 8 < length wss" using assms(5) by simp
  then show ?thesis
    using v3_kernel_correct [OF assms(1,2,4) assms(6), of "wss ! (row mod 8)" clk profileEnabled p] assms(3)
    by (auto simp: LaunchFusedV3_def slot Let_def simp del: of_nat_mod)
qed

text \<open>C4. One launch of the fused V3 operator on a row of the production shape stays within the unified
  buffer and the tensors whatever the buffer held before and whatever the lane schedule, returns, and
  leaves the row as \<open>compact_spec\<close> says; other rows are untouched, and without profiling the workspace
  slice only gets the epoch \<open>-2\<close>.\<close>

theorem v3_launch_correct:
  assumes "simt_ok m" "ub_alloc ub" "row < length rows"
    and "row_wf (int LRU_FUSED_V3_TOPK) (int LRU_FUSED_V3_CAPACITY) (rows ! row)"
    and "length wss = 8" "\<And>w. w \<in> set wss \<Longrightarrow> v3_ws_ok (int LRU_FUSED_V3_MAX_TOKEN) w"
  shows "\<exists>gw. LaunchFusedV3 m clk profileEnabled p ub (int row) (int LRU_FUSED_V3_TOPK) (int LRU_FUSED_V3_CAPACITY)
      (int LRU_FUSED_V3_MAX_TOKEN) (rows, wss) =
    Some (rows[row := compact_spec (int LRU_FUSED_V3_CAPACITY) (int LRU_FUSED_V3_MAX_TOKEN) (rows ! row)],
      wss[row mod 8 := gw]) \<and> v3_ws_ok (int LRU_FUSED_V3_MAX_TOKEN) gw \<and>
    (\<not> profileEnabled \<longrightarrow> gw = (wss ! (row mod 8))\<lparr>epoch := - 2\<rparr>)"
  using assms by (rule v3_launch_spec)

theorem v3_launch_witness:
  "\<exists>gw. LaunchFusedV3 example_simt (\<lambda>_. (0, 0)) False 0 v3_example_ub (int 0) (int LRU_FUSED_V3_TOPK)
      (int LRU_FUSED_V3_CAPACITY) (int LRU_FUSED_V3_MAX_TOKEN) ([v3_example_row], replicate 8 v3_example_ws) =
    Some ([v3_example_row][0 := compact_spec (int LRU_FUSED_V3_CAPACITY) (int LRU_FUSED_V3_MAX_TOKEN) ([v3_example_row] ! 0)],
      (replicate 8 v3_example_ws)[0 mod 8 := gw]) \<and> v3_ws_ok (int LRU_FUSED_V3_MAX_TOKEN) gw \<and>
    (\<not> False \<longrightarrow> gw = (replicate 8 v3_example_ws ! (0 mod 8))\<lparr>epoch := - 2\<rparr>)"
  by (rule v3_launch_correct) (auto simp: v3_example_ok)

text \<open>C5. On the production shape the fused kernel and the generic five-kernel path compute the same row,
  even on devices that schedule their lanes differently.\<close>

theorem v3_equals_phased:
  assumes "simt_ok m" "simt_ok m'" "ub_alloc ub"
    and "row_wf (int LRU_FUSED_V3_TOPK) (int LRU_FUSED_V3_CAPACITY) r"
    and "ws_wf (int LRU_FUSED_V3_MAX_TOKEN) w" "v3_ws_ok (int LRU_FUSED_V3_MAX_TOKEN) w'"
  shows "map_option fst (phased_row m (int LRU_FUSED_V3_TOPK) (int LRU_FUSED_V3_CAPACITY) (int LRU_FUSED_V3_MAX_TOKEN) k (r, w)) =
      map_option fst (OffloadLruCompactFusedV3Kernel m' clk profileEnabled p ub (r, w')) \<and>
    OffloadLruCompactFusedV3Kernel m' clk profileEnabled p ub (r, w') \<noteq> None"
proof -
  have "phased_shape (int LRU_FUSED_V3_TOPK) (int LRU_FUSED_V3_CAPACITY) (int LRU_FUSED_V3_MAX_TOKEN)"
    by (simp add: phased_shape_def v3_sizes)
  then obtain w1 where "phased_row m (int LRU_FUSED_V3_TOPK) (int LRU_FUSED_V3_CAPACITY) (int LRU_FUSED_V3_MAX_TOKEN) k (r, w) =
      Some (compact_spec (int LRU_FUSED_V3_CAPACITY) (int LRU_FUSED_V3_MAX_TOKEN) r, w1)"
    using phased.run_cases [OF TrueI assms(1) _ assms(4,5)] by blast
  moreover obtain w2 where "OffloadLruCompactFusedV3Kernel m' clk profileEnabled p ub (r, w') =
      Some (compact_spec (int LRU_FUSED_V3_CAPACITY) (int LRU_FUSED_V3_MAX_TOKEN) r, w2)"
    using v3_kernel_correct [OF assms(2,3,4,6), of clk profileEnabled p] by blast
  ultimately show ?thesis by simp
qed

theorem v3_equals_phased_witness:
  "map_option fst (phased_row example_simt (int LRU_FUSED_V3_TOPK) (int LRU_FUSED_V3_CAPACITY) (int LRU_FUSED_V3_MAX_TOKEN)
      0 (v3_example_row, v3_example_ws)) =
    map_option fst (OffloadLruCompactFusedV3Kernel example_simt (\<lambda>_. (0, 0)) False 0 v3_example_ub (v3_example_row, v3_example_ws)) \<and>
    OffloadLruCompactFusedV3Kernel example_simt (\<lambda>_. (0, 0)) False 0 v3_example_ub (v3_example_row, v3_example_ws) \<noteq> None"
  by (rule v3_equals_phased) (simp_all add: v3_example_ok)


end
