(* ===== verification/Resident_Addrs.thy ===== *)
theory Resident_Addrs
  imports Lru_Spec Warp_Scan
begin

text \<open>
  The ResidentAddrs operator: for every miss of Compact it computes where the token's K and V data lie
  in the offload pool and where they belong in the resident buffer, packed as all K descriptors followed
  by all V descriptors. Two implementations:
  \<^verbatim>\<open>src/src/acc_offload/csrc/operators/acc_offload_lru_resident_addrs_simt.cpp\<close>, where every thread scans
  the misses of all rows to find where its rows start, and
  \<^verbatim>\<open>acc_offload_lru_resident_addrs_mixed_parallel.cpp\<close>, one block of 1024 lanes with warp scans for a
  single row. Both are proved equal to \<open>ra_spec\<close>.

  Row \<open>r\<close> of the inputs is a record, so the flat index \<^verbatim>\<open>r * topk + i\<close> is index \<open>i\<close> of row \<open>r\<close>.
\<close>

section \<open>The operators\<close>

record ra_cfg =
  block_size :: int
  token_size_bytes_k :: int
  token_size_bytes_v :: int
  gvas_k_base :: int
  gvas_v_base :: int
  addr_k_base :: int
  addr_v_base :: int
  resident_capacity :: int
  ra_topk :: int
  max_num_blocks :: int

record ra_row =
  ra_miss_count :: int
  ra_miss_tokens :: "int list"
  ra_miss_slots :: "int list"
  block_table :: "int list"

record ra_out =
  gvas_buffer :: "int list"
  addr_buffer :: "int list"
  size_buffer :: "int list"
  num_tokens_buffer :: int

definition put_gvas :: "ra_out \<Rightarrow> int \<Rightarrow> int \<Rightarrow> ra_out option" where
  "put_gvas o' i v = do { a \<leftarrow> wr (gvas_buffer o') i v; Some (o'\<lparr>gvas_buffer := a\<rparr>) }"

definition put_addr :: "ra_out \<Rightarrow> int \<Rightarrow> int \<Rightarrow> ra_out option" where
  "put_addr o' i v = do { a \<leftarrow> wr (addr_buffer o') i v; Some (o'\<lparr>addr_buffer := a\<rparr>) }"

definition put_size :: "ra_out \<Rightarrow> int \<Rightarrow> int \<Rightarrow> ra_out option" where
  "put_size o' i v = do { a \<leftarrow> wr (size_buffer o') i v; Some (o'\<lparr>size_buffer := a\<rparr>) }"

text \<open>\<^verbatim>\<open>static_cast<int32_t>\<close>.\<close>

definition to_int32 :: "int \<Rightarrow> int" where
  "to_int32 x = (x + 2 ^ 31) mod 2 ^ 32 - 2 ^ 31"

definition ra_count :: "ra_cfg \<Rightarrow> ra_row \<Rightarrow> int" where
  "ra_count cfg row = 
     (if ra_miss_count row < 0 then 0 else if ra_miss_count row > ra_topk cfg then ra_topk cfg else ra_miss_count row)"

text \<open>The checks on miss \<open>i\<close> of a row, which all loops repeat: \<open>None\<close> for a skipped miss, else its token,
  slot and block index.\<close>

definition ra_item :: "ra_cfg \<Rightarrow> ra_row \<Rightarrow> int \<Rightarrow> (int \<times> int \<times> int) option option" where
  "ra_item cfg row i = do {
     token \<leftarrow> rd (ra_miss_tokens row) i;
     slot \<leftarrow> rd (ra_miss_slots row) i;
     if token < 0 \<or> slot < 0 \<or> slot \<ge> resident_capacity cfg then Some None
     else let block_id = token div block_size cfg in
       if block_id < 0 \<or> block_id \<ge> max_num_blocks cfg then Some None
       else do {
         block_index \<leftarrow> rd (block_table row) block_id;
         if block_index < 0 then Some None else Some (Some (token, slot, block_index)) } }"

definition ra_valid_count :: "ra_cfg \<Rightarrow> ra_row \<Rightarrow> int option" where
  "ra_valid_count cfg row =
     for_each [0..<nat (ra_count cfg row)] (\<lambda>i valid_count. do {
       it \<leftarrow> ra_item cfg row (int i);
       Some (case it of None \<Rightarrow> valid_count | Some _ \<Rightarrow> valid_count + 1) }) 0"

definition ra_prefix :: "ra_cfg \<Rightarrow> nat \<Rightarrow> ra_row list \<Rightarrow> nat \<Rightarrow> (int \<times> int) option" where
  "ra_prefix cfg num_reqs rows req =
     for_each [0..<num_reqs] (\<lambda>r (req_start, total_valid). do {
       row \<leftarrow> rd rows (int r);
       valid_count \<leftarrow> ra_valid_count cfg row;
       Some (if r < req then req_start + valid_count else req_start, total_valid + valid_count) }) (0, 0)"

definition ra_next_start :: "ra_cfg \<Rightarrow> ra_row list \<Rightarrow> nat \<Rightarrow> int option" where
  "ra_next_start cfg rows next_req =
     for_each [0..<next_req] (\<lambda>r req_start. do {
       row \<leftarrow> rd rows (int r);
       for_each [0..<nat (ra_count cfg row)] (\<lambda>i req_start. do {
         it \<leftarrow> ra_item cfg row (int i);
         Some (case it of None \<Rightarrow> req_start | Some _ \<Rightarrow> req_start + 1) }) req_start }) 0"

definition ra_row_publish ::
  "ra_cfg \<Rightarrow> int \<Rightarrow> nat \<Rightarrow> ra_row \<Rightarrow> int \<Rightarrow> ra_out \<Rightarrow> ra_out option" where
  "ra_row_publish cfg total_valid req row req_start out = do {
     let block_bytes_k = block_size cfg * token_size_bytes_k cfg;
     let block_bytes_v = block_size cfg * token_size_bytes_v cfg;
     (packed_index, out) \<leftarrow> for_each [0..<nat (ra_count cfg row)] (\<lambda>i (packed_index, out). do {
       it \<leftarrow> ra_item cfg row (int i);
       case it of None \<Rightarrow> Some (packed_index, out)
       | Some (token, slot, block_index) \<Rightarrow> do {
           let offset_in_block = token mod block_size cfg;
           let k_pos = packed_index;
           let v_pos = total_valid + packed_index;
           out \<leftarrow> put_gvas out k_pos (gvas_k_base cfg + block_index * block_bytes_k + offset_in_block * token_size_bytes_k cfg);
           out \<leftarrow> put_gvas out v_pos (gvas_v_base cfg + block_index * block_bytes_v + offset_in_block * token_size_bytes_v cfg);
           out \<leftarrow> put_addr out k_pos (addr_k_base cfg + (int req * resident_capacity cfg + slot) * token_size_bytes_k cfg);
           out \<leftarrow> put_addr out v_pos (addr_v_base cfg + (int req * resident_capacity cfg + slot) * token_size_bytes_v cfg);
           out \<leftarrow> put_size out k_pos (token_size_bytes_k cfg);
           out \<leftarrow> put_size out v_pos (token_size_bytes_v cfg);
           Some (packed_index + 1, out) } }) (req_start, out);
     Some out }"

text \<open>One thread of \<^verbatim>\<open>OffloadComputeLruResidentAddrsSimtOps\<close>; \<open>first\<close> is its first row
  \<^verbatim>\<open>blockIdx.x + threadIdx.x * gridDim.x\<close> and \<open>row_stride\<close> the number of threads.\<close>

definition OffloadComputeLruResidentAddrsSimtOps ::
  "ra_cfg \<Rightarrow> int \<Rightarrow> nat \<Rightarrow> ra_row list \<Rightarrow> nat \<Rightarrow> ra_out \<Rightarrow> ra_out option" where
  "OffloadComputeLruResidentAddrsSimtOps cfg num_reqs row_stride rows first out =
     (if num_reqs \<le> 0 \<or> block_size cfg \<le> 0 \<or> resident_capacity cfg \<le> 0 \<or> ra_topk cfg \<le> 0 \<or> max_num_blocks cfg \<le> 0
      then Some (if first = 0 then out\<lparr>num_tokens_buffer := 0\<rparr> else out)
      else if int first \<ge> num_reqs then Some out
      else do {
        (req_start, total_valid) \<leftarrow> ra_prefix cfg (nat num_reqs) rows first;
        let out = (if first = 0 then out\<lparr>num_tokens_buffer := to_int32 (total_valid * 2)\<rparr> else out);
        (out, req_start) \<leftarrow> for_each (lane_items first row_stride (nat num_reqs)) (\<lambda>req (out, req_start). do {
          row \<leftarrow> rd rows (int req);
          out \<leftarrow> ra_row_publish cfg total_valid req row req_start out;
          let next_req = req + row_stride;
          req_start \<leftarrow> (if int next_req < num_reqs then ra_next_start cfg rows next_req else Some req_start);
          Some (out, req_start) }) (out, req_start);
        Some out })"

definition LRU_ADDRS_MAX_GRID_DIM :: nat where "LRU_ADDRS_MAX_GRID_DIM = 8"
definition LRU_ADDRS_THREADS_PER_BLOCK :: nat where "LRU_ADDRS_THREADS_PER_BLOCK = 128"

text \<open>The launch. The rows \<^verbatim>\<open>blockIdx.x + threadIdx.x * gridDim.x\<close> of the threads are the numbers below
  the number of threads, each once, so a thread is named by its first row.\<close>

definition OffloadOpsComputeLruResidentAddrs ::
  "simt \<Rightarrow> nat \<Rightarrow> ra_cfg \<Rightarrow> int \<Rightarrow> ra_row list \<Rightarrow> ra_out \<Rightarrow> ra_out option" where
  "OffloadOpsComputeLruResidentAddrs m p cfg num_reqs rows out = do {
     let grid_dim = (if num_reqs > int LRU_ADDRS_MAX_GRID_DIM then LRU_ADDRS_MAX_GRID_DIM
                     else if num_reqs > 0 then nat num_reqs else 1);
     let row_stride = grid_dim * LRU_ADDRS_THREADS_PER_BLOCK;
     par_for m p row_stride row_stride (OffloadComputeLruResidentAddrsSimtOps cfg num_reqs row_stride rows) out }"

section \<open>The single-row block\<close>

definition RESIDENT_ADDRS_MAX_TOPK :: int where "RESIDENT_ADDRS_MAX_TOPK = 2048"

definition PublishResidentAddressItem ::
  "ra_cfg \<Rightarrow> int \<Rightarrow> int \<Rightarrow> int \<Rightarrow> int \<Rightarrow> int \<Rightarrow> ra_out \<Rightarrow> ra_out option" where
  "PublishResidentAddressItem cfg rank totalValid slot blockIndex offsetInBlock out = do {
     let blockBytesK = block_size cfg * token_size_bytes_k cfg;
     let blockBytesV = block_size cfg * token_size_bytes_v cfg;
     let kPos = rank;
     let vPos = totalValid + rank;
     out \<leftarrow> put_gvas out kPos (gvas_k_base cfg + blockIndex * blockBytesK + offsetInBlock * token_size_bytes_k cfg);
     out \<leftarrow> put_gvas out vPos (gvas_v_base cfg + blockIndex * blockBytesV + offsetInBlock * token_size_bytes_v cfg);
     out \<leftarrow> put_addr out kPos (addr_k_base cfg + slot * token_size_bytes_k cfg);
     out \<leftarrow> put_addr out vPos (addr_v_base cfg + slot * token_size_bytes_v cfg);
     out \<leftarrow> put_size out kPos (token_size_bytes_k cfg);
     put_size out vPos (token_size_bytes_v cfg) }"

text \<open>The registers \<^verbatim>\<open>valid\<close>, \<^verbatim>\<open>slot\<close>, \<^verbatim>\<open>blockIndex\<close> and \<^verbatim>\<open>offsetInBlock\<close> of a lane for one index.\<close>

definition lane_record :: "ra_cfg \<Rightarrow> ra_row \<Rightarrow> int \<Rightarrow> nat \<Rightarrow> (int \<times> int \<times> int \<times> int) option" where
  "lane_record cfg row misses index =
     (if int index < misses then do {
        token \<leftarrow> rd (ra_miss_tokens row) (int index);
        candidateSlot \<leftarrow> rd (ra_miss_slots row) (int index);
        if token \<ge> 0 \<and> candidateSlot \<ge> 0 \<and> candidateSlot < resident_capacity cfg then
          let blockId = token div block_size cfg in
          if blockId < max_num_blocks cfg then do {
            candidateBlock \<leftarrow> rd (block_table row) blockId;
            if candidateBlock \<ge> 0 then Some (1, candidateSlot, candidateBlock, token mod block_size cfg)
            else Some (0, 0, 0, 0) }
          else Some (0, 0, 0, 0)
        else Some (0, 0, 0, 0) }
      else Some (0, 0, 0, 0))"

definition ResidentAddrsParallelVf :: "simt \<Rightarrow> nat \<Rightarrow> ra_cfg \<Rightarrow> ra_row \<Rightarrow> ra_out \<Rightarrow> ra_out option" where
  "ResidentAddrsParallelVf m p cfg row out = do {
     let control_count = (if ra_topk cfg > 0 \<and> ra_topk cfg \<le> RESIDENT_ADDRS_MAX_TOPK \<and> block_size cfg > 0 \<and>
                     resident_capacity cfg > 0 \<and> max_num_blocks cfg > 0
                  then (if ra_miss_count row < 0 then 0
                        else if ra_miss_count row > ra_topk cfg then ra_topk cfg else ra_miss_count row)
                  else 0);
     recs0 \<leftarrow> lanes THREADS (\<lambda>thread. lane_record cfg row control_count thread);
     recs1 \<leftarrow> lanes THREADS (\<lambda>thread. lane_record cfg row control_count (thread + THREADS));
     let (rank0, total0) = WarpExclusiveScan1024 m (map fst recs0);
     let (rank1Local, total1) = WarpExclusiveScan1024 m (map fst recs1);
     let totalValid = total0 + total1;
     par_for m p THREADS THREADS (\<lambda>thread out. do {
       let out = (if thread = 0 then out\<lparr>num_tokens_buffer := totalValid * 2\<rparr> else out);
       let (valid0, slot0, blockIndex0, offsetInBlock0) = recs0 ! thread;
       let (valid1, slot1, blockIndex1, offsetInBlock1) = recs1 ! thread;
       out \<leftarrow> (if valid0 \<noteq> 0
              then PublishResidentAddressItem cfg (rank0 ! thread) totalValid slot0 blockIndex0 offsetInBlock0 out
              else Some out);
       if valid1 \<noteq> 0
       then PublishResidentAddressItem cfg (total0 + rank1Local ! thread) totalValid slot1 blockIndex1 offsetInBlock1 out
       else Some out }) out }"

definition OffloadOpsComputeLruResidentAddrsMixedParallel ::
  "simt \<Rightarrow> nat \<Rightarrow> ra_cfg \<Rightarrow> int \<Rightarrow> ra_row list \<Rightarrow> ra_out \<Rightarrow> ra_out option" where
  "OffloadOpsComputeLruResidentAddrsMixedParallel m p cfg num_reqs rows out =
     (if num_reqs \<noteq> 1 \<or> ra_topk cfg \<le> 0 \<or> ra_topk cfg > RESIDENT_ADDRS_MAX_TOPK then Some out
      else do { row \<leftarrow> rd rows 0; ResidentAddrsParallelVf m p cfg row out })"


section \<open>What both compute\<close>

text \<open>The valid misses of a row, in order, and all descriptors of a call, row by row.\<close>

definition item_of :: "ra_cfg \<Rightarrow> ra_row \<Rightarrow> nat \<Rightarrow> (int \<times> int \<times> int) option" where
  "item_of cfg row i = (let token = ra_miss_tokens row ! i; slot = ra_miss_slots row ! i;
       block_id = token div block_size cfg; block_index = block_table row ! nat block_id in
     if 0 \<le> token \<and> 0 \<le> slot \<and> slot < resident_capacity cfg \<and> block_id < max_num_blocks cfg \<and> 0 \<le> block_index
     then Some (token, slot, block_index) else None)"

definition items_upto :: "ra_cfg \<Rightarrow> ra_row \<Rightarrow> nat \<Rightarrow> (int \<times> int \<times> int) list" where
  "items_upto cfg row n = List.map_filter (item_of cfg row) [0..<n]"

definition row_items :: "ra_cfg \<Rightarrow> ra_row \<Rightarrow> (int \<times> int \<times> int) list" where
  "row_items cfg row = items_upto cfg row (nat (ra_count cfg row))"

definition descs :: "ra_cfg \<Rightarrow> ra_row list \<Rightarrow> (nat \<times> int \<times> int \<times> int) list" where
  "descs cfg rows = concat (map (\<lambda>r. map (Pair r) (row_items cfg (rows ! r))) [0..<length rows])"

fun gva_k :: "ra_cfg \<Rightarrow> nat \<times> int \<times> int \<times> int \<Rightarrow> int" where
  "gva_k cfg (r, token, slot, b) =
     gvas_k_base cfg + b * (block_size cfg * token_size_bytes_k cfg) + (token mod block_size cfg) * token_size_bytes_k cfg"

fun gva_v :: "ra_cfg \<Rightarrow> nat \<times> int \<times> int \<times> int \<Rightarrow> int" where
  "gva_v cfg (r, token, slot, b) =
     gvas_v_base cfg + b * (block_size cfg * token_size_bytes_v cfg) + (token mod block_size cfg) * token_size_bytes_v cfg"

fun addr_k :: "ra_cfg \<Rightarrow> nat \<times> int \<times> int \<times> int \<Rightarrow> int" where
  "addr_k cfg (r, token, slot, b) = addr_k_base cfg + (int r * resident_capacity cfg + slot) * token_size_bytes_k cfg"

fun addr_v :: "ra_cfg \<Rightarrow> nat \<times> int \<times> int \<times> int \<Rightarrow> int" where
  "addr_v cfg (r, token, slot, b) = addr_v_base cfg + (int r * resident_capacity cfg + slot) * token_size_bytes_v cfg"

text \<open>K descriptors, then V descriptors, at the front of the buffers.\<close>

definition packed :: "'d list \<Rightarrow> ('d \<Rightarrow> int) \<Rightarrow> ('d \<Rightarrow> int) \<Rightarrow> int list" where
  "packed ds k v = map k ds @ map v ds"

definition ra_spec :: "ra_cfg \<Rightarrow> ra_row list \<Rightarrow> ra_out \<Rightarrow> ra_out" where
  "ra_spec cfg rows out = (let ds = descs cfg rows; n = 2 * length ds in
     \<lparr>gvas_buffer = packed ds (gva_k cfg) (gva_v cfg) @ drop n (gvas_buffer out),
      addr_buffer = packed ds (addr_k cfg) (addr_v cfg) @ drop n (addr_buffer out),
      size_buffer = packed ds (\<lambda>_. token_size_bytes_k cfg) (\<lambda>_. token_size_bytes_v cfg) @ drop n (size_buffer out),
      num_tokens_buffer = int n\<rparr>)"

text \<open>The shapes of the tensors of a call.\<close>

definition ra_wf :: "ra_cfg \<Rightarrow> ra_row \<Rightarrow> bool" where
  "ra_wf cfg row \<longleftrightarrow> int (length (ra_miss_tokens row)) = ra_topk cfg \<and> int (length (ra_miss_slots row)) = ra_topk cfg \<and>
     int (length (block_table row)) = max_num_blocks cfg"

definition ra_cfg_ok :: "ra_cfg \<Rightarrow> bool" where
  "ra_cfg_ok cfg \<longleftrightarrow> 0 < block_size cfg \<and> 0 < resident_capacity cfg \<and> 0 < ra_topk cfg \<and> 0 < max_num_blocks cfg"

definition ra_fits :: "ra_cfg \<Rightarrow> ra_row list \<Rightarrow> ra_out \<Rightarrow> bool" where
  "ra_fits cfg rows out \<longleftrightarrow> 2 * length rows * nat (ra_topk cfg) \<le> length (gvas_buffer out) \<and>
     2 * length rows * nat (ra_topk cfg) \<le> length (addr_buffer out) \<and>
     2 * length rows * nat (ra_topk cfg) \<le> length (size_buffer out) \<and>
     2 * int (length rows) * ra_topk cfg < 2 ^ 31"

section \<open>Rows\<close>

lemma ra_count_bounds: "ra_cfg_ok cfg \<Longrightarrow> 0 \<le> ra_count cfg row \<and> ra_count cfg row \<le> ra_topk cfg"
  by (simp add: ra_count_def ra_cfg_ok_def)

lemma ra_item_Some:
  assumes "ra_cfg_ok cfg" "ra_wf cfg row" "int i < ra_topk cfg"
  shows "ra_item cfg row (int i) = Some (item_of cfg row i)"
proof -
  have i: "i < length (ra_miss_tokens row)" "i < length (ra_miss_slots row)"
    using assms by (simp_all add: ra_wf_def)
  let ?t = "ra_miss_tokens row ! i"
  have *: "0 \<le> ?t div block_size cfg" if "0 \<le> ?t" using that assms(1)
    by (simp add: ra_cfg_ok_def pos_imp_zdiv_nonneg_iff)
  show ?thesis
  proof (cases "0 \<le> ?t \<and> ?t div block_size cfg < max_num_blocks cfg")
    case True
    then show ?thesis
      using i * assms(2) by (simp add: ra_item_def item_of_def Let_def rd_Some ra_wf_def)
  next
    case False
    then show ?thesis using i * by (auto simp: ra_item_def item_of_def Let_def)
  qed
qed

lemma items_upto_0 [simp]: "items_upto cfg row 0 = []"
  by (simp add: items_upto_def List.map_filter_def)

lemma items_upto_Suc:
  "items_upto cfg row (Suc n) =
     items_upto cfg row n @ (case item_of cfg row n of None \<Rightarrow> [] | Some x \<Rightarrow> [x])"
  by (simp add: items_upto_def List.map_filter_def split: option.split)

lemma length_items_upto: "length (items_upto cfg row n) \<le> n"
  by (induction n) (simp_all add: items_upto_Suc split: option.split)

lemma row_items_prefix:
  assumes "n \<le> m"
  shows "items_upto cfg row n = take (length (items_upto cfg row n)) (items_upto cfg row m)"
  using assms
proof (induction rule: dec_induct)
  case (step k)
  have "length (items_upto cfg row n) \<le> length (items_upto cfg row k)"
    using step.IH by (metis length_take min.cobounded1 min.commute)
  then show ?case using step.IH by (simp add: items_upto_Suc)
qed simp

lemma row_items_nth:
  assumes i: "i < nat (ra_count cfg row)" and x: "item_of cfg row i = Some x"
  shows "length (items_upto cfg row i) < length (row_items cfg row)"
    and "row_items cfg row ! length (items_upto cfg row i) = x"
proof -
  let ?j = "length (items_upto cfg row i)"
  have S: "items_upto cfg row (Suc i) = items_upto cfg row i @ [x]" using x by (simp add: items_upto_Suc)
  have pre: "items_upto cfg row (Suc i) = take (Suc ?j) (row_items cfg row)"
    using row_items_prefix [of "Suc i" "nat (ra_count cfg row)" cfg row] i S by (simp add: row_items_def)
  show j: "?j < length (row_items cfg row)" using arg_cong [OF pre, of length] S by simp
  show "row_items cfg row ! ?j = x" using arg_cong [OF pre, of "\<lambda>l. l ! ?j"] S j by simp
qed

lemma length_row_items: "ra_cfg_ok cfg \<Longrightarrow> length (row_items cfg row) \<le> nat (ra_topk cfg)"
  using length_items_upto [of cfg row "nat (ra_count cfg row)"] ra_count_bounds [of cfg row]
  by (simp add: row_items_def) linarith

lemma ra_count_loop:
  assumes "ra_cfg_ok cfg" "ra_wf cfg row"
  shows "for_each [0..<nat (ra_count cfg row)] (\<lambda>i n. do {
       it \<leftarrow> ra_item cfg row (int i);
       Some (case it of None \<Rightarrow> n | Some _ \<Rightarrow> n + 1) }) (k :: int) = Some (k + int (length (row_items cfg row)))"
  unfolding row_items_def
proof (rule for_each_upt_eq)
  fix i assume "i < nat (ra_count cfg row)"
  then have "int i < ra_topk cfg" using ra_count_bounds [OF assms(1), of row] by linarith
  then show "do { it \<leftarrow> ra_item cfg row (int i);
       Some (case it of None \<Rightarrow> k + int (length (items_upto cfg row i)) | Some _ \<Rightarrow> k + int (length (items_upto cfg row i)) + 1) } =
     Some (k + int (length (items_upto cfg row (Suc i))))"
    using assms by (simp add: ra_item_Some items_upto_Suc split: option.split)
qed simp

lemma ra_valid_count_Some:
  "ra_cfg_ok cfg \<Longrightarrow> ra_wf cfg row \<Longrightarrow> ra_valid_count cfg row = Some (int (length (row_items cfg row)))"
  using ra_count_loop [of cfg row 0] by (simp add: ra_valid_count_def)

text \<open>The position of the first descriptor of row \<open>r\<close>.\<close>

definition start :: "ra_cfg \<Rightarrow> ra_row list \<Rightarrow> nat \<Rightarrow> nat" where
  "start cfg rows r = sum_list (map (\<lambda>r. length (row_items cfg (rows ! r))) [0..<r])"

lemma start_0 [simp]: "start cfg rows 0 = 0" by (simp add: start_def)

lemma start_Suc [simp]: "start cfg rows (Suc r) = start cfg rows r + length (row_items cfg (rows ! r))"
  by (simp add: start_def)

lemma start_mono: "r \<le> r' \<Longrightarrow> start cfg rows r \<le> start cfg rows r'"
  by (rule lift_Suc_mono_le) simp_all

lemma length_descs: "length (descs cfg rows) = start cfg rows (length rows)"
  by (simp add: descs_def start_def length_concat comp_def)

lemma descs_nth:
  assumes "r < length rows" "j < length (row_items cfg (rows ! r))"
  shows "descs cfg rows ! (start cfg rows r + j) = (r, row_items cfg (rows ! r) ! j)"
proof -
  let ?f = "\<lambda>r. map (Pair r) (row_items cfg (rows ! r))"
  have "[0..<length rows] = [0..<r] @ r # [Suc r..<length rows]"
    using assms(1) upt_add_eq_append [of 0 r "length rows - r"] by (simp add: upt_conv_Cons)
  then have "descs cfg rows = concat (map ?f [0..<r]) @ ?f r @ concat (map ?f [Suc r..<length rows])"
    by (simp add: descs_def)
  moreover have "length (concat (map ?f [0..<r])) = start cfg rows r"
    by (simp add: start_def length_concat comp_def)
  ultimately show ?thesis using assms(2) by (simp add: nth_append)
qed

lemma ra_prefix_Some:
  assumes "ra_cfg_ok cfg" "\<forall>row \<in> set rows. ra_wf cfg row" "req \<le> length rows"
  shows "ra_prefix cfg (length rows) rows req =
    Some (int (start cfg rows req), int (start cfg rows (length rows)))"
proof -
  have "ra_prefix cfg (length rows) rows req =
    Some (int (start cfg rows (min (length rows) req)), int (start cfg rows (length rows)))"
    unfolding ra_prefix_def
    by (rule for_each_upt_eq [where g = "\<lambda>r. (int (start cfg rows (min r req)), int (start cfg rows r))"])
      (use assms in \<open>auto simp: ra_valid_count_Some min_def less_Suc_eq_le\<close>)
  then show ?thesis using assms(3) by (simp add: min_def)
qed

lemma ra_next_start_Some:
  assumes "ra_cfg_ok cfg" "\<forall>row \<in> set rows. ra_wf cfg row" "req \<le> length rows"
  shows "ra_next_start cfg rows req = Some (int (start cfg rows req))"
  unfolding ra_next_start_def
  by (rule for_each_upt_eq) (use assms in \<open>simp_all add: ra_count_loop del: for_each.simps\<close>)


section \<open>Publishing descriptors\<close>

text \<open>The buffers when the cells \<open>W\<close> have their final content.\<close>

definition filled :: "ra_cfg \<Rightarrow> ra_row list \<Rightarrow> ra_out \<Rightarrow> nat set \<Rightarrow> int \<Rightarrow> ra_out" where
  "filled cfg rows out W t = (let ds = descs cfg rows in
     \<lparr>gvas_buffer = overwrite W ((!) (packed ds (gva_k cfg) (gva_v cfg))) (gvas_buffer out),
      addr_buffer = overwrite W ((!) (packed ds (addr_k cfg) (addr_v cfg))) (addr_buffer out),
      size_buffer = overwrite W ((!) (packed ds (\<lambda>_. token_size_bytes_k cfg) (\<lambda>_. token_size_bytes_v cfg))) (size_buffer out),
      num_tokens_buffer = t\<rparr>)"

lemma filled_empty: "filled cfg rows out {} (num_tokens_buffer out) = out"
  by (simp add: filled_def Let_def)

lemma filled_num [simp]: "(filled cfg rows out W t)\<lparr>num_tokens_buffer := t'\<rparr> = filled cfg rows out W t'"
  by (simp add: filled_def Let_def)

lemma packed_nth:
  "a < length ds \<Longrightarrow> packed ds k v ! a = k (ds ! a)"
  "a < length ds \<Longrightarrow> packed ds k v ! (length ds + a) = v (ds ! a)"
  by (simp_all add: packed_def nth_append)

definition room :: "ra_cfg \<Rightarrow> ra_row list \<Rightarrow> ra_out \<Rightarrow> bool" where
  "room cfg rows out \<longleftrightarrow> 2 * length (descs cfg rows) \<le> length (gvas_buffer out) \<and>
     2 * length (descs cfg rows) \<le> length (addr_buffer out) \<and> 2 * length (descs cfg rows) \<le> length (size_buffer out)"

lemma filled_all:
  assumes "room cfg rows out"
  shows "filled cfg rows out {..<2 * length (descs cfg rows)} (2 * int (length (descs cfg rows))) = ra_spec cfg rows out"
  using assms by (simp add: filled_def ra_spec_def Let_def room_def overwrite_front packed_def)

lemma start_le_rows:
  assumes "ra_cfg_ok cfg"
  shows "start cfg rows r \<le> r * nat (ra_topk cfg)"
proof (induction r)
  case (Suc r)
  then show ?case using length_row_items [OF assms, of "rows ! r"] by simp
qed simp

lemma fits_room:
  assumes "ra_cfg_ok cfg" "ra_fits cfg rows out"
  shows "room cfg rows out"
  using assms(2) start_le_rows [OF assms(1), of rows "length rows"]
  by (simp add: ra_fits_def room_def length_descs)

lemma fits_small:
  assumes "ra_cfg_ok cfg" "ra_fits cfg rows out"
  shows "2 * length (descs cfg rows) < 2 ^ 31"
proof -
  have "int (start cfg rows (length rows)) \<le> int (length rows * nat (ra_topk cfg))"
    using start_le_rows [OF assms(1), of rows "length rows"] by (simp only: zle_int)
  also have "\<dots> = int (length rows) * ra_topk cfg" using assms(1) by (simp add: ra_cfg_ok_def)
  finally have "2 * int (start cfg rows (length rows)) < 2 ^ 31"
    using assms(2) unfolding ra_fits_def by linarith
  then show ?thesis by (simp add: length_descs)
qed

lemma fits_int32:
  assumes "ra_cfg_ok cfg" "ra_fits cfg rows out"
  shows "to_int32 (int (start cfg rows (length rows)) * 2) = 2 * int (length (descs cfg rows))"
  using fits_small [OF assms] by (simp add: to_int32_def length_descs)

lemma publish_filled:
  assumes "room cfg rows out" "a < length (descs cfg rows)" "descs cfg rows ! a = (r, token, slot, b)"
  shows "PublishResidentAddressItem cfg (int a) (int (length (descs cfg rows)))
      (int r * resident_capacity cfg + slot) b (token mod block_size cfg) (filled cfg rows out W t) =
    Some (filled cfg rows out (insert (length (descs cfg rows) + a) (insert a W)) t)"
proof -
  let ?n = "length (descs cfg rows)"
  have v: "int ?n + int a = int (?n + a)" by simp
  have i: "a < length (gvas_buffer out)" "a < length (addr_buffer out)" "a < length (size_buffer out)"
    "?n + a < length (gvas_buffer out)" "?n + a < length (addr_buffer out)" "?n + a < length (size_buffer out)"
    using assms(1,2) by (simp_all add: room_def)
  show ?thesis
    unfolding PublishResidentAddressItem_def put_gvas_def put_addr_def put_size_def Let_def v filled_def
    using assms(2,3) i by (simp add: packed_nth overwrite_insert del: of_nat_add)
qed

text \<open>The cells of row \<open>r\<close>, and the loop that writes them.\<close>

definition row_cells :: "ra_cfg \<Rightarrow> ra_row list \<Rightarrow> nat \<Rightarrow> nat \<Rightarrow> nat set" where
  "row_cells cfg rows r j = {start cfg rows r..<start cfg rows r + j} \<union>
     (+) (length (descs cfg rows)) ` {start cfg rows r..<start cfg rows r + j}"

lemma row_cells_0 [simp]: "row_cells cfg rows r 0 = {}"
  by (simp add: row_cells_def)

lemma row_cells_Suc: "row_cells cfg rows r (Suc j) =
    insert (length (descs cfg rows) + (start cfg rows r + j)) (insert (start cfg rows r + j) (row_cells cfg rows r j))"
  by (auto simp: row_cells_def atLeastLessThanSuc)

lemma ra_row_publish_filled:
  assumes ok: "ra_cfg_ok cfg" "ra_wf cfg (rows ! r)" "room cfg rows out" and r: "r < length rows"
  shows "ra_row_publish cfg (int (length (descs cfg rows))) r (rows ! r) (int (start cfg rows r)) (filled cfg rows out W t) =
    Some (filled cfg rows out (W \<union> row_cells cfg rows r (length (row_items cfg (rows ! r)))) t)"
proof -
  let ?row = "rows ! r" and ?total = "int (length (descs cfg rows))"
  let ?st = "\<lambda>i. (int (start cfg rows r + length (items_upto cfg ?row i)),
      filled cfg rows out (W \<union> row_cells cfg rows r (length (items_upto cfg ?row i))) t)"
  let ?body = "\<lambda>i (packed_index, out). do {
     it \<leftarrow> ra_item cfg ?row (int i);
     case it of None \<Rightarrow> Some (packed_index, out)
     | Some (token, slot, block_index) \<Rightarrow> do {
         out \<leftarrow> PublishResidentAddressItem cfg packed_index ?total (int r * resident_capacity cfg + slot) block_index
           (token mod block_size cfg) out;
         Some (packed_index + 1, out) } }"
  have step: "?body i (?st i) = Some (?st (Suc i))" if i: "i < nat (ra_count cfg ?row)" for i
  proof -
    have "int i < ra_topk cfg" using i ra_count_bounds [OF ok(1), of ?row] by linarith
    then have it: "ra_item cfg ?row (int i) = Some (item_of cfg ?row i)" by (rule ra_item_Some [OF ok(1,2)])
    show ?thesis
    proof (cases "item_of cfg ?row i")
      case None
      then show ?thesis by (simp add: it items_upto_Suc)
    next
      case (Some x)
      obtain token slot b where x: "x = (token, slot, b)" by (cases x)
      let ?j = "length (items_upto cfg ?row i)"
      have S: "items_upto cfg ?row (Suc i) = items_upto cfg ?row i @ [x]" using Some by (simp add: items_upto_Suc)
      note j = row_items_nth(1) [OF i Some] and nth = row_items_nth(2) [OF i Some]
      have d: "descs cfg rows ! (start cfg rows r + ?j) = (r, token, slot, b)"
        using descs_nth [OF r j] nth x by simp
      have "start cfg rows r + ?j < length (descs cfg rows)"
        using start_mono [of "Suc r" "length rows" cfg rows] j r by (simp add: length_descs)
      from publish_filled [OF ok(3) this d] show ?thesis
        using Some x by (simp add: it S row_cells_Suc)
    qed
  qed
  have "for_each [0..<nat (ra_count cfg ?row)] ?body (int (start cfg rows r), filled cfg rows out W t) =
      Some (?st (nat (ra_count cfg ?row)))"
    by (rule for_each_upt_eq) (use step in simp_all)
  moreover have "ra_row_publish cfg ?total r ?row (int (start cfg rows r)) (filled cfg rows out W t) =
     do { (packed_index, out) \<leftarrow> for_each [0..<nat (ra_count cfg ?row)] ?body (int (start cfg rows r), filled cfg rows out W t);
          Some out }"
    unfolding ra_row_publish_def PublishResidentAddressItem_def Let_def
    by (simp cong: option.case_cong)
  ultimately show ?thesis by (simp add: row_items_def)
qed


section \<open>The scanning kernel\<close>

definition cells_of :: "ra_cfg \<Rightarrow> ra_row list \<Rightarrow> nat set \<Rightarrow> nat set" where
  "cells_of cfg rows R = (\<Union>r \<in> R. row_cells cfg rows r (length (row_items cfg (rows ! r))))"

lemma cells_of_Un: "cells_of cfg rows (R \<union> S) = cells_of cfg rows R \<union> cells_of cfg rows S"
  by (simp add: cells_of_def)

lemma starts_cover:
  "(\<Union>r \<in> {..<n}. {start cfg rows r..<start cfg rows (Suc r)}) = {..<start cfg rows n}"
proof (induction n)
  case (Suc n)
  then show ?case by (auto simp: lessThan_Suc)
qed simp

lemma cells_of_all: "cells_of cfg rows {..<length rows} = {..<2 * length (descs cfg rows)}"
proof -
  let ?n = "length (descs cfg rows)"
  have "cells_of cfg rows {..<length rows} =
      (\<Union>r \<in> {..<length rows}. {start cfg rows r..<start cfg rows (Suc r)}) \<union>
      (+) ?n ` (\<Union>r \<in> {..<length rows}. {start cfg rows r..<start cfg rows (Suc r)})"
    by (simp only: cells_of_def row_cells_def start_Suc UN_Un_distrib image_UN)
  also have "\<dots> = {..<?n} \<union> (+) ?n ` {..<?n}" by (simp only: starts_cover length_descs)
  also have "\<dots> = {..<2 * ?n}" by (auto simp: image_iff Bex_def) presburger
  finally show ?thesis .
qed

lemma ra_rows_loop:
  assumes ok: "ra_cfg_ok cfg" "\<forall>row \<in> set rows. ra_wf cfg row" "room cfg rows out" and f: "first < length rows"
  shows "\<exists>s. for_each (lane_items first T (length rows)) (\<lambda>req (out, req_start). do {
          row \<leftarrow> rd rows (int req);
          out \<leftarrow> ra_row_publish cfg (int (start cfg rows (length rows))) req row req_start out;
          req_start \<leftarrow> (if int (req + T) < int (length rows) then ra_next_start cfg rows (req + T) else Some req_start);
          Some (out, req_start) }) (filled cfg rows out W t, int (start cfg rows first)) =
     Some (filled cfg rows out (W \<union> cells_of cfg rows (set (lane_items first T (length rows)))) t, s)"
  using f
proof (induction first T "length rows" arbitrary: W rule: lane_items.induct)
  case (1 first T)
  let ?W = "W \<union> cells_of cfg rows {first}"
  have row: "ra_row_publish cfg (int (start cfg rows (length rows))) first (rows ! first) (int (start cfg rows first))
      (filled cfg rows out W t) = Some (filled cfg rows out ?W t)"
    using ra_row_publish_filled [OF ok(1) _ ok(3) 1(2)] ok(2) 1(2) by (simp add: length_descs cells_of_def)
  show ?case
  proof (cases "0 < T \<and> first + T < length rows")
    case True
    have next_start: "ra_next_start cfg rows (first + T) = Some (int (start cfg rows (first + T)))"
      using ok(1,2) True by (intro ra_next_start_Some) simp_all
    have li: "lane_items first T (length rows) = first # lane_items (first + T) T (length rows)"
      using 1(2) True by (simp add: lane_items.simps [of first])
    have "W \<union> cells_of cfg rows (set (lane_items first T (length rows))) =
        ?W \<union> cells_of cfg rows (set (lane_items (first + T) T (length rows)))"
      by (simp add: li cells_of_def Un_assoc)
    then show ?thesis
      using 1(1) [of ?W] 1(2) True row next_start by (simp add: li)
  next
    case False
    have li: "lane_items first T (length rows) = (if 0 < T then [first] else [])"
      using 1(2) False by (auto simp: lane_items.simps [of first] lane_items.simps [of "first + T"])
    show ?thesis
      using 1(2) False row by (auto simp: li cells_of_def)
  qed
qed

lemma ra_thread_filled:
  assumes ok: "ra_cfg_ok cfg" "\<forall>row \<in> set rows. ra_wf cfg row" "ra_fits cfg rows out" and "rows \<noteq> []"
  shows "OffloadComputeLruResidentAddrsSimtOps cfg (int (length rows)) T rows first (filled cfg rows out W t) =
    Some (filled cfg rows out (W \<union> cells_of cfg rows (set (lane_items first T (length rows))))
      (if first = 0 then 2 * int (length (descs cfg rows)) else t))"
proof (cases "first < length rows")
  case True
  have room: "room cfg rows out" by (rule fits_room [OF ok(1,3)])
  have guard: "\<not> (int (length rows) \<le> 0 \<or> block_size cfg \<le> 0 \<or> resident_capacity cfg \<le> 0 \<or> ra_topk cfg \<le> 0 \<or>
      max_num_blocks cfg \<le> 0)" "\<not> int first \<ge> int (length rows)"
    using ok(1) assms(4) True by (auto simp: ra_cfg_ok_def)
  let ?t = "if first = 0 then 2 * int (length (descs cfg rows)) else t"
  have num: "(if first = 0 then (filled cfg rows out W t)\<lparr>num_tokens_buffer := to_int32 (int (start cfg rows (length rows)) * 2)\<rparr>
      else filled cfg rows out W t) = filled cfg rows out W ?t"
    using fits_int32 [OF ok(1,3)] by simp
  have pre: "ra_prefix cfg (nat (int (length rows))) rows first =
      Some (int (start cfg rows first), int (start cfg rows (length rows)))"
    using ra_prefix_Some [OF ok(1,2), of first] True by simp
  obtain s where s: "for_each (lane_items first T (length rows)) (\<lambda>req (out, req_start). do {
          row \<leftarrow> rd rows (int req);
          out \<leftarrow> ra_row_publish cfg (int (start cfg rows (length rows))) req row req_start out;
          req_start \<leftarrow> (if int (req + T) < int (length rows) then ra_next_start cfg rows (req + T) else Some req_start);
          Some (out, req_start) }) (filled cfg rows out W ?t, int (start cfg rows first)) =
     Some (filled cfg rows out (W \<union> cells_of cfg rows (set (lane_items first T (length rows)))) ?t, s)"
    using ra_rows_loop [OF ok(1,2) room True, of T W ?t] by blast
  show ?thesis
    unfolding OffloadComputeLruResidentAddrsSimtOps_def pre Let_def
    by (simp only: guard if_False Option.bind.bind_lunit prod.case num nat_int s)
next
  case False
  have "\<not> (int (length rows) \<le> 0 \<or> block_size cfg \<le> 0 \<or> resident_capacity cfg \<le> 0 \<or> ra_topk cfg \<le> 0 \<or>
      max_num_blocks cfg \<le> 0)"
    using ok(1) assms(4) by (auto simp: ra_cfg_ok_def)
  moreover have "lane_items first T (length rows) = []" using False by (simp add: lane_items.simps)
  moreover have "0 < first" using False assms(4) by (cases first) auto
  ultimately show ?thesis
    using False by (simp add: OffloadComputeLruResidentAddrsSimtOps_def cells_of_def)
qed

lemma resident_addrs_simt:
  assumes ok: "simt_ok m" "ra_cfg_ok cfg" "\<forall>row \<in> set rows. ra_wf cfg row" "ra_fits cfg rows out" and "rows \<noteq> []"
  shows "OffloadOpsComputeLruResidentAddrs m p cfg (int (length rows)) rows out = Some (ra_spec cfg rows out)"
proof -
  let ?grid = "if int (length rows) > int LRU_ADDRS_MAX_GRID_DIM then LRU_ADDRS_MAX_GRID_DIM
                     else if int (length rows) > 0 then nat (int (length rows)) else 1"
  let ?T = "?grid * LRU_ADDRS_THREADS_PER_BLOCK" and ?n = "length rows"
  let ?R = "\<lambda>D. {r. r < ?n \<and> r mod ?T \<in> D}"
  let ?g = "\<lambda>D. filled cfg rows out (cells_of cfg rows (?R D))
      (if 0 \<in> D then 2 * int (length (descs cfg rows)) else num_tokens_buffer out)"
  have T: "0 < ?T" using assms(5) by (simp add: LRU_ADDRS_MAX_GRID_DIM_def LRU_ADDRS_THREADS_PER_BLOCK_def)
  have "par_for m p ?T ?T (OffloadComputeLruResidentAddrsSimtOps cfg (int ?n) ?T rows) out = Some (?g {..<?T})"
  proof (rule par_for_eq [OF ok(1) T])
    show "out = ?g {}" by (simp add: cells_of_def filled_empty)
  next
    fix D i assume i: "i < ?T" "i \<notin> D"
    have "set (lane_items i ?T ?n) = ?R {i}" using i(1) T by (auto simp: set_lane_items)
    then have "cells_of cfg rows (?R D) \<union> cells_of cfg rows (set (lane_items i ?T ?n)) = cells_of cfg rows (?R (insert i D))"
      by (auto simp: cells_of_def)
    then show "OffloadComputeLruResidentAddrsSimtOps cfg (int ?n) ?T rows i (?g D) = Some (?g (insert i D))"
      using ra_thread_filled [OF ok(2-4) assms(5), of ?T i "cells_of cfg rows (?R D)"] i(2) by auto
  qed
  moreover have "?R {..<?T} = {..<?n}" using T by (auto simp del: mult_eq_0_iff)
  ultimately show ?thesis
    using T filled_all [OF fits_room [OF ok(2,4)]]
    unfolding OffloadOpsComputeLruResidentAddrs_def Let_def by (simp only: cells_of_all lessThan_iff if_True)
qed


section \<open>The single-row block\<close>

lemma WarpExclusiveScan1024_eq:
  assumes "simt_ok m" "length flags = THREADS"
  shows "WarpExclusiveScan1024 m flags = (map (\<lambda>t. sum_list (take t flags)) [0..<THREADS], sum_list flags)"
proof -
  have "fst (WarpExclusiveScan1024 m flags) ! t = sum_list (take t flags)" if "t < THREADS" for t
  proof -
    have "fst (WarpExclusiveScan1024 m flags) ! t = block_scan m flags ! t - flags ! t"
      using that by (simp add: WarpExclusiveScan1024_def block_scan_def)
    then show ?thesis using that assms by (simp add: block_scan_nth take_Suc_conv_app_nth)
  qed
  then have "fst (WarpExclusiveScan1024 m flags) = map (\<lambda>t. sum_list (take t flags)) [0..<THREADS]"
    by (intro nth_equalityI) (simp_all add: WarpExclusiveScan1024_def)
  moreover have "snd (WarpExclusiveScan1024 m flags) = sum_list flags"
  proof -
    let ?w = "WARP_COUNT - 1"
    have "snd (WarpExclusiveScan1024 m flags) =
        sum_list (take (?w * WARP_SIZE) flags) + sum_list (take WARP_SIZE (drop (?w * WARP_SIZE) flags))"
      using assms by (simp add: WarpExclusiveScan1024_def warp_bases_nth warp_totals_nth)
    also have "\<dots> = sum_list (take (?w * WARP_SIZE + WARP_SIZE) flags)" by (rule sum_take_plus [symmetric])
    also have "?w * WARP_SIZE + WARP_SIZE = length flags"
      using assms(2) by (simp add: THREADS_def WARP_COUNT_def)
    finally show ?thesis by simp
  qed
  ultimately show ?thesis by (simp add: prod_eq_iff)
qed

definition lane_flag :: "ra_cfg \<Rightarrow> ra_row \<Rightarrow> nat \<Rightarrow> nat \<Rightarrow> int" where
  "lane_flag cfg row n i = (if i < n \<and> item_of cfg row i \<noteq> None then 1 else 0)"

lemma sum_lane_flag:
  "sum_list (map (lane_flag cfg row n) [0..<i]) = int (length (items_upto cfg row (min i n)))"
proof (induction i)
  case (Suc i)
  then show ?case
    by (cases "i < n") (auto simp: lane_flag_def min_def items_upto_Suc split: option.split)
qed simp

lemma lane_ranks:
  assumes "simt_ok m"
    and "flags0 = map (lane_flag cfg row n) [0..<THREADS]"
    and "flags1 = map (\<lambda>t. lane_flag cfg row n (t + THREADS)) [0..<THREADS]"
  shows "\<And>t. t < THREADS \<Longrightarrow> fst (WarpExclusiveScan1024 m flags0) ! t = int (length (items_upto cfg row (min t n)))"
    and "\<And>t. t < THREADS \<Longrightarrow> snd (WarpExclusiveScan1024 m flags0) + fst (WarpExclusiveScan1024 m flags1) ! t =
        int (length (items_upto cfg row (min (t + THREADS) n)))"
    and "snd (WarpExclusiveScan1024 m flags0) + snd (WarpExclusiveScan1024 m flags1) =
        int (length (items_upto cfg row (min (2 * THREADS) n)))"
proof -
  have len: "length flags0 = THREADS" "length flags1 = THREADS" using assms by simp_all
  note scan = WarpExclusiveScan1024_eq [OF assms(1)]
  have shift: "sum_list (map (lane_flag cfg row n) [0..<THREADS]) + sum_list (map (\<lambda>t. lane_flag cfg row n (t + THREADS)) [0..<t]) =
      int (length (items_upto cfg row (min (t + THREADS) n)))" for t
  proof -
    have "map (lane_flag cfg row n) [0..<t + THREADS] =
        map (lane_flag cfg row n) [0..<THREADS] @ map (\<lambda>t. lane_flag cfg row n (t + THREADS)) [0..<t]"
      using upt_add_eq_append [of 0 THREADS t] map_add_upt [of THREADS t]
      by (simp add: add.commute [of t] flip: map_map [unfolded comp_def, of "lane_flag cfg row n" "\<lambda>t. t + THREADS"])
    then show ?thesis by (simp flip: sum_lane_flag)
  qed
  show "fst (WarpExclusiveScan1024 m flags0) ! t = int (length (items_upto cfg row (min t n)))" if "t < THREADS" for t
    unfolding scan [OF len(1)] unfolding assms(2) using that by (simp add: take_map take_upt sum_lane_flag)
  show "snd (WarpExclusiveScan1024 m flags0) + fst (WarpExclusiveScan1024 m flags1) ! t =
        int (length (items_upto cfg row (min (t + THREADS) n)))" if "t < THREADS" for t
    unfolding scan [OF len(1)] scan [OF len(2)] unfolding assms(2,3)
    using that shift [of t] by (simp add: take_map take_upt)
  show "snd (WarpExclusiveScan1024 m flags0) + snd (WarpExclusiveScan1024 m flags1) =
        int (length (items_upto cfg row (min (2 * THREADS) n)))"
    unfolding scan [OF len(1)] scan [OF len(2)] unfolding assms(2,3) using shift [of THREADS] by (simp add: mult_2)
qed

text \<open>The register record of a lane.\<close>

definition record_of :: "ra_cfg \<Rightarrow> ra_row \<Rightarrow> nat \<Rightarrow> nat \<Rightarrow> int \<times> int \<times> int \<times> int" where
  "record_of cfg row n i = (if i < n then (case item_of cfg row i of None \<Rightarrow> (0, 0, 0, 0)
     | Some (token, slot, b) \<Rightarrow> (1, slot, b, token mod block_size cfg)) else (0, 0, 0, 0))"

lemma fst_record_of: "fst (record_of cfg row n i) = lane_flag cfg row n i"
  by (simp add: record_of_def lane_flag_def split: option.split prod.split)

lemma lane_record_Some:
  assumes "ra_cfg_ok cfg" "ra_wf cfg row" "int n \<le> ra_topk cfg"
  shows "lane_record cfg row (int n) i = Some (record_of cfg row n i)"
proof (cases "i < n")
  case True
  then have i: "i < length (ra_miss_tokens row)" "i < length (ra_miss_slots row)"
    using assms by (simp_all add: ra_wf_def)
  let ?t = "ra_miss_tokens row ! i"
  have *: "0 \<le> ?t div block_size cfg" if "0 \<le> ?t" using that assms(1)
    by (simp add: ra_cfg_ok_def pos_imp_zdiv_nonneg_iff)
  show ?thesis
  proof (cases "0 \<le> ?t \<and> ?t div block_size cfg < max_num_blocks cfg")
    case True
    then show ?thesis
      using \<open>i < n\<close> i * assms(2) by (simp add: lane_record_def record_of_def item_of_def Let_def rd_Some ra_wf_def)
  next
    case False
    then show ?thesis using \<open>i < n\<close> i * by (auto simp: lane_record_def record_of_def item_of_def Let_def)
  qed
next
  case False
  then show ?thesis by (simp add: lane_record_def record_of_def)
qed

text \<open>The cells of a set of miss indices of the single row.\<close>

definition index_cells :: "ra_cfg \<Rightarrow> ra_row \<Rightarrow> nat set \<Rightarrow> nat set" where
  "index_cells cfg row I = (let P = (\<lambda>i. length (items_upto cfg row i)) ` {i \<in> I. i < nat (ra_count cfg row) \<and> item_of cfg row i \<noteq> None}
     in P \<union> (+) (length (row_items cfg row)) ` P)"

lemma index_cells_insert:
  "index_cells cfg row (insert i I) = (if i < nat (ra_count cfg row) \<and> item_of cfg row i \<noteq> None
     then insert (length (row_items cfg row) + length (items_upto cfg row i)) (insert (length (items_upto cfg row i)) (index_cells cfg row I))
     else index_cells cfg row I)"
proof -
  let ?V = "\<lambda>I. {i \<in> I. i < nat (ra_count cfg row) \<and> item_of cfg row i \<noteq> None}"
  have "?V (insert i I) = (if i < nat (ra_count cfg row) \<and> item_of cfg row i \<noteq> None then insert i (?V I) else ?V I)"
    by auto
  then show ?thesis by (auto simp: index_cells_def Let_def)
qed

lemma items_positions:
  "(\<lambda>i. length (items_upto cfg row i)) ` {i. i < k \<and> item_of cfg row i \<noteq> None} = {..<length (items_upto cfg row k)}"
proof (induction k)
  case (Suc k)
  have "{i. i < Suc k \<and> item_of cfg row i \<noteq> None} =
      {i. i < k \<and> item_of cfg row i \<noteq> None} \<union> (if item_of cfg row k = None then {} else {k})"
    by (auto simp: less_Suc_eq)
  then show ?case using Suc by (auto simp: items_upto_Suc lessThan_Suc image_Un)
qed simp

lemma index_cells_all:
  assumes "nat (ra_count cfg row) \<le> k"
  shows "index_cells cfg row {..<k} = {..<2 * length (row_items cfg row)}"
proof -
  let ?n = "length (row_items cfg row)"
  let ?P = "(\<lambda>i. length (items_upto cfg row i)) ` {i. i < nat (ra_count cfg row) \<and> item_of cfg row i \<noteq> None}"
  have "index_cells cfg row {..<k} = ?P \<union> (+) ?n ` ?P"
  proof -
    have "{i \<in> {..<k}. i < nat (ra_count cfg row) \<and> item_of cfg row i \<noteq> None} =
        {i. i < nat (ra_count cfg row) \<and> item_of cfg row i \<noteq> None}" using assms by auto
    then show ?thesis by (simp only: index_cells_def Let_def)
  qed
  also have "?P = {..<?n}" by (simp only: items_positions row_items_def)
  also have "{..<?n} \<union> (+) ?n ` {..<?n} = {..<2 * ?n}" by (auto simp: image_iff Bex_def) presburger
  finally show ?thesis .
qed


lemma descs_single: "descs cfg [row] = map (Pair 0) (row_items cfg row)"
  by (simp add: descs_def)

definition lane_publish :: "ra_cfg \<Rightarrow> int \<Rightarrow> int \<Rightarrow> int \<times> int \<times> int \<times> int \<Rightarrow> ra_out \<Rightarrow> ra_out option" where
  "lane_publish cfg rank tot = (\<lambda>(valid, slot, blockIndex, offsetInBlock) out.
     if valid \<noteq> 0 then PublishResidentAddressItem cfg rank tot slot blockIndex offsetInBlock out else Some out)"

lemma lane_publish_filled:
  assumes "room cfg [row] out"
    and rank: "rank = int (length (items_upto cfg row (min i (nat (ra_count cfg row)))))"
    and tot: "tot = int (length (row_items cfg row))"
  shows "lane_publish cfg rank tot (record_of cfg row (nat (ra_count cfg row)) i)
      (filled cfg [row] out (index_cells cfg row I) t) = Some (filled cfg [row] out (index_cells cfg row (insert i I)) t)"
proof (cases "i < nat (ra_count cfg row) \<and> item_of cfg row i \<noteq> None")
  case True
  then obtain token slot b where x: "item_of cfg row i = Some (token, slot, b)" by (cases "item_of cfg row i") auto
  let ?a = "length (items_upto cfg row i)"
  have a: "?a < length (row_items cfg row)" "row_items cfg row ! ?a = (token, slot, b)"
    using row_items_nth [of i cfg row] True x by simp_all
  have r: "rank = int ?a" using rank True by (simp add: min_def)
  have "PublishResidentAddressItem cfg (int ?a) (int (length (descs cfg [row])))
      (int 0 * resident_capacity cfg + slot) b (token mod block_size cfg) (filled cfg [row] out (index_cells cfg row I) t) =
    Some (filled cfg [row] out (insert (length (descs cfg [row]) + ?a) (insert ?a (index_cells cfg row I))) t)"
    using assms(1) a by (intro publish_filled) (simp_all add: descs_single)
  then show ?thesis
    using True x tot r by (simp add: lane_publish_def record_of_def index_cells_insert descs_single)
next
  case False
  then show ?thesis by (auto simp: lane_publish_def record_of_def index_cells_insert split: option.split)
qed

text \<open>The phase after the scans.\<close>

definition publish_phase :: "ra_cfg \<Rightarrow> int \<Rightarrow> (nat \<Rightarrow> int) \<Rightarrow> (nat \<Rightarrow> int) \<Rightarrow> (nat \<Rightarrow> int \<times> int \<times> int \<times> int) \<Rightarrow>
    (nat \<Rightarrow> int \<times> int \<times> int \<times> int) \<Rightarrow> nat \<Rightarrow> ra_out \<Rightarrow> ra_out option" where
  "publish_phase cfg tot rank0 rank1 rec0 rec1 thread out = do {
     out \<leftarrow> lane_publish cfg (rank0 thread) tot (rec0 thread)
       (if thread = 0 then out\<lparr>num_tokens_buffer := tot * 2\<rparr> else out);
     lane_publish cfg (rank1 thread) tot (rec1 thread) out }"

lemma publish_phase_all:
  assumes "simt_ok m" "room cfg [row] out" and c: "nat (ra_count cfg row) \<le> 2 * THREADS"
    and tot: "tot = int (length (row_items cfg row))"
    and rank0: "\<And>t. t < THREADS \<Longrightarrow> rank0 t = int (length (items_upto cfg row (min t (nat (ra_count cfg row)))))"
    and rank1: "\<And>t. t < THREADS \<Longrightarrow> rank1 t = int (length (items_upto cfg row (min (t + THREADS) (nat (ra_count cfg row)))))"
    and rec0: "\<And>t. t < THREADS \<Longrightarrow> rec0 t = record_of cfg row (nat (ra_count cfg row)) t"
    and rec1: "\<And>t. t < THREADS \<Longrightarrow> rec1 t = record_of cfg row (nat (ra_count cfg row)) (t + THREADS)"
  shows "par_for m p THREADS THREADS (publish_phase cfg tot rank0 rank1 rec0 rec1) out = Some (ra_spec cfg [row] out)"
proof -
  let ?I = "\<lambda>D. D \<union> (\<lambda>t. t + THREADS) ` D"
  let ?g = "\<lambda>D. filled cfg [row] out (index_cells cfg row (?I D)) (if 0 \<in> D then tot * 2 else num_tokens_buffer out)"
  have "par_for m p THREADS THREADS (publish_phase cfg tot rank0 rank1 rec0 rec1) out = Some (?g {..<THREADS})"
  proof (rule par_for_eq [OF assms(1)])
    show "out = ?g {}" by (simp add: index_cells_def filled_empty)
  next
    fix D i assume i: "i < THREADS" "i \<notin> D"
    let ?t = "if 0 \<in> insert i D then tot * 2 else num_tokens_buffer out"
    have "?I (insert i D) = insert (i + THREADS) (insert i (?I D))" by auto
    moreover have "(if i = 0 then (?g D)\<lparr>num_tokens_buffer := tot * 2\<rparr> else ?g D) =
        filled cfg [row] out (index_cells cfg row (?I D)) ?t" by simp
    ultimately show "publish_phase cfg tot rank0 rank1 rec0 rec1 i (?g D) = Some (?g (insert i D))"
      unfolding publish_phase_def
      using lane_publish_filled [OF assms(2) rank0 [OF i(1)] tot, of "?I D" ?t]
        lane_publish_filled [OF assms(2) rank1 [OF i(1)] tot, of "insert i (?I D)" ?t]
      by (simp only: rec0 [OF i(1)] rec1 [OF i(1)] Option.bind.bind_lunit)
  qed simp
  moreover have "?I {..<THREADS} = {..<2 * THREADS}" by (auto simp: image_iff Bex_def) presburger
  moreover have "filled cfg [row] out (index_cells cfg row {..<2 * THREADS}) (tot * 2) = ra_spec cfg [row] out"
    using filled_all [OF assms(2)] index_cells_all [OF c] tot by (simp add: descs_single mult.commute)
  ultimately show ?thesis by simp
qed

lemma ResidentAddrsParallelVf_phase:
  "ResidentAddrsParallelVf m p cfg row out = do {
     let n = (if ra_cfg_ok cfg \<and> ra_topk cfg \<le> RESIDENT_ADDRS_MAX_TOPK then ra_count cfg row else 0);
     recs0 \<leftarrow> lanes THREADS (\<lambda>thread. lane_record cfg row n thread);
     recs1 \<leftarrow> lanes THREADS (\<lambda>thread. lane_record cfg row n (thread + THREADS));
     let scan0 = WarpExclusiveScan1024 m (map fst recs0);
     let scan1 = WarpExclusiveScan1024 m (map fst recs1);
     par_for m p THREADS THREADS (publish_phase cfg (snd scan0 + snd scan1) ((!) (fst scan0))
       (\<lambda>t. snd scan0 + fst scan1 ! t) ((!) recs0) ((!) recs1)) out }"
proof -
  have "(if ra_topk cfg > 0 \<and> ra_topk cfg \<le> RESIDENT_ADDRS_MAX_TOPK \<and> block_size cfg > 0 \<and>
                     resident_capacity cfg > 0 \<and> max_num_blocks cfg > 0
                  then (if ra_miss_count row < 0 then 0
                        else if ra_miss_count row > ra_topk cfg then ra_topk cfg else ra_miss_count row)
                  else 0) = (if ra_cfg_ok cfg \<and> ra_topk cfg \<le> RESIDENT_ADDRS_MAX_TOPK then ra_count cfg row else 0)"
    by (auto simp: ra_cfg_ok_def ra_count_def)
  then show ?thesis
    unfolding ResidentAddrsParallelVf_def publish_phase_def [abs_def] lane_publish_def
    by (simp add: Let_def case_prod_beta)
qed

lemma resident_addrs_mixed:
  assumes ok: "simt_ok m" "ra_cfg_ok cfg" "ra_wf cfg row" "ra_fits cfg [row] out" and topk: "ra_topk cfg \<le> RESIDENT_ADDRS_MAX_TOPK"
  shows "ResidentAddrsParallelVf m p cfg row out = Some (ra_spec cfg [row] out)"
proof -
  let ?n = "nat (ra_count cfg row)"
  let ?recs0 = "map (record_of cfg row ?n) [0..<THREADS]"
  let ?recs1 = "map (\<lambda>t. record_of cfg row ?n (t + THREADS)) [0..<THREADS]"
  let ?scan0 = "WarpExclusiveScan1024 m (map fst ?recs0)" and ?scan1 = "WarpExclusiveScan1024 m (map fst ?recs1)"
  have n: "ra_count cfg row = int ?n" "int ?n \<le> ra_topk cfg" using ra_count_bounds [OF ok(2), of row] by simp_all
  have flags: "map fst ?recs0 = map (lane_flag cfg row ?n) [0..<THREADS]"
    "map fst ?recs1 = map (\<lambda>t. lane_flag cfg row ?n (t + THREADS)) [0..<THREADS]"
    by (simp_all add: fst_record_of)
  note ranks = lane_ranks [OF ok(1) flags]
  have c: "?n \<le> 2 * THREADS" using n topk by (simp add: RESIDENT_ADDRS_MAX_TOPK_def THREADS_def WARP_COUNT_def WARP_SIZE_def)
  have tot: "snd ?scan0 + snd ?scan1 = int (length (row_items cfg row))"
    using ranks(3) c by (simp add: row_items_def min_def)
  have "par_for m p THREADS THREADS (publish_phase cfg (snd ?scan0 + snd ?scan1) ((!) (fst ?scan0))
       (\<lambda>t. snd ?scan0 + fst ?scan1 ! t) ((!) ?recs0) ((!) ?recs1)) out = Some (ra_spec cfg [row] out)"
    by (rule publish_phase_all [OF ok(1) fits_room [OF ok(2,4)] c tot]) (use ranks(1,2) in simp_all)
  moreover have "lanes THREADS (\<lambda>thread. lane_record cfg row (int ?n) thread) = Some ?recs0"
    "lanes THREADS (\<lambda>thread. lane_record cfg row (int ?n) (thread + THREADS)) = Some ?recs1"
    by (rule lanes_Some, rule lane_record_Some [OF ok(2,3) n(2)])+
  moreover have "(if ra_cfg_ok cfg \<and> ra_topk cfg \<le> RESIDENT_ADDRS_MAX_TOPK then ra_count cfg row else 0) = int ?n"
    using ok(2) topk n(1) by simp
  ultimately show ?thesis
    unfolding ResidentAddrsParallelVf_phase Let_def by (simp only: Option.bind.bind_lunit)
qed


section \<open>Configurations without a valid descriptor\<close>

lemma resident_addrs_mixed_invalid:
  assumes "simt_ok m" "\<not> ra_cfg_ok cfg"
  shows "ResidentAddrsParallelVf m p cfg row out = Some (out\<lparr>num_tokens_buffer := 0\<rparr>)"
proof -
  let ?z = "map (\<lambda>_. (0, 0, 0, 0)) [0..<THREADS] :: (int \<times> int \<times> int \<times> int) list"
  let ?scan = "WarpExclusiveScan1024 m (map fst ?z)"
  let ?g = "\<lambda>D :: nat set. out\<lparr>num_tokens_buffer := (if 0 \<in> D then 0 else num_tokens_buffer out)\<rparr>"
  have recs: "lanes THREADS (\<lambda>thread. lane_record cfg row 0 (h thread)) = Some ?z" for h
    by (rule lanes_Some) (simp add: lane_record_def)
  have scan: "snd ?scan = 0"
    using WarpExclusiveScan1024_eq [OF assms(1), of "map fst ?z"] by (simp add: comp_def map_replicate_const sum_list_replicate)
  have "par_for m p THREADS THREADS (publish_phase cfg (snd ?scan + snd ?scan) ((!) (fst ?scan))
       (\<lambda>t. snd ?scan + fst ?scan ! t) ((!) ?z) ((!) ?z)) out = Some (?g {..<THREADS})"
  proof (rule par_for_eq [OF assms(1)])
    fix D i assume i: "i < THREADS" "i \<notin> D"
    show "publish_phase cfg (snd ?scan + snd ?scan) ((!) (fst ?scan)) (\<lambda>t. snd ?scan + fst ?scan ! t) ((!) ?z) ((!) ?z) i (?g D) =
        Some (?g (insert i D))"
      unfolding scan publish_phase_def lane_publish_def using i by auto
  qed simp_all
  then show ?thesis
    unfolding ResidentAddrsParallelVf_phase Let_def using assms(2) by (simp only: recs Option.bind.bind_lunit if_False simp_thms) simp
qed

lemma resident_addrs_simt_invalid:
  assumes "simt_ok m" "num_reqs \<le> 0 \<or> \<not> ra_cfg_ok cfg"
  shows "OffloadOpsComputeLruResidentAddrs m p cfg num_reqs rows out = Some (out\<lparr>num_tokens_buffer := 0\<rparr>)"
proof -
  let ?grid = "if num_reqs > int LRU_ADDRS_MAX_GRID_DIM then LRU_ADDRS_MAX_GRID_DIM
                     else if num_reqs > 0 then nat num_reqs else 1"
  let ?T = "?grid * LRU_ADDRS_THREADS_PER_BLOCK"
  let ?g = "\<lambda>D :: nat set. out\<lparr>num_tokens_buffer := (if 0 \<in> D then 0 else num_tokens_buffer out)\<rparr>"
  have guard: "num_reqs \<le> 0 \<or> block_size cfg \<le> 0 \<or> resident_capacity cfg \<le> 0 \<or> ra_topk cfg \<le> 0 \<or> max_num_blocks cfg \<le> 0"
    using assms(2) by (auto simp: ra_cfg_ok_def)
  have T: "0 < ?T" by (simp add: LRU_ADDRS_MAX_GRID_DIM_def LRU_ADDRS_THREADS_PER_BLOCK_def)
  have "par_for m p ?T ?T (OffloadComputeLruResidentAddrsSimtOps cfg num_reqs ?T rows) out = Some (?g {..<?T})"
  proof (rule par_for_eq [OF assms(1) T])
    fix D i assume "i < ?T" "i \<notin> D"
    then show "OffloadComputeLruResidentAddrsSimtOps cfg num_reqs ?T rows i (?g D) = Some (?g (insert i D))"
      unfolding OffloadComputeLruResidentAddrsSimtOps_def if_P [OF guard] by auto
  qed simp
  then show ?thesis unfolding OffloadOpsComputeLruResidentAddrs_def Let_def using T by simp
qed

section \<open>Properties\<close>

definition ra_example_cfg :: ra_cfg where
  "ra_example_cfg = \<lparr>block_size = 2, token_size_bytes_k = 4, token_size_bytes_v = 2, gvas_k_base = 1000, gvas_v_base = 2000,
     addr_k_base = 100, addr_v_base = 200, resident_capacity = 3, ra_topk = 2, max_num_blocks = 2\<rparr>"

definition ra_example_row :: ra_row where
  "ra_example_row = \<lparr>ra_miss_count = 2, ra_miss_tokens = [3, 0], ra_miss_slots = [1, 2], block_table = [5, 7]\<rparr>"

definition ra_example_out :: ra_out where
  "ra_example_out = \<lparr>gvas_buffer = replicate 8 0, addr_buffer = replicate 8 0, size_buffer = replicate 8 0, num_tokens_buffer = 9\<rparr>"

lemma ra_example_ok:
  "ra_cfg_ok ra_example_cfg" "ra_wf ra_example_cfg ra_example_row"
  "ra_fits ra_example_cfg [ra_example_row] ra_example_out"
  "ra_fits ra_example_cfg [ra_example_row, ra_example_row] ra_example_out"
  by (simp_all add: ra_example_cfg_def ra_example_row_def ra_example_out_def ra_cfg_ok_def ra_wf_def ra_fits_def)

text \<open>C10. The generic ResidentAddrs kernel, on any number of rows and any schedule of its threads, packs the
  descriptors of exactly the valid misses, row by row and in miss order, K before V, without touching
  the rest of the buffers, and reports twice their number.\<close>

theorem resident_addrs_simt_correct:
  assumes "simt_ok m" "ra_cfg_ok cfg" "\<forall>row \<in> set rows. ra_wf cfg row" "ra_fits cfg rows out" "rows \<noteq> []"
  shows "OffloadOpsComputeLruResidentAddrs m p cfg (int (length rows)) rows out = Some (ra_spec cfg rows out)"
  using assms by (rule resident_addrs_simt)

theorem resident_addrs_simt_witness:
  "OffloadOpsComputeLruResidentAddrs example_simt 0 ra_example_cfg (int (length [ra_example_row, ra_example_row]))
     [ra_example_row, ra_example_row] ra_example_out =
   Some (ra_spec ra_example_cfg [ra_example_row, ra_example_row] ra_example_out)"
  by (rule resident_addrs_simt_correct) (simp_all add: ra_example_ok)

text \<open>C11. For one row of at most 2048 misses the block-parallel backend and the generic backend leave the
  same buffers, whatever the configuration: also when a dimension is zero or negative.\<close>

theorem resident_addrs_backends_agree:
  assumes "simt_ok m" "simt_ok m'" "0 < ra_topk cfg" "ra_topk cfg \<le> RESIDENT_ADDRS_MAX_TOPK"
    and "ra_cfg_ok cfg \<longrightarrow> ra_wf cfg row \<and> ra_fits cfg [row] out"
  shows "OffloadOpsComputeLruResidentAddrsMixedParallel m p cfg 1 [row] out = OffloadOpsComputeLruResidentAddrs m' p' cfg 1 [row] out \<and>
    OffloadOpsComputeLruResidentAddrs m' p' cfg 1 [row] out \<noteq> None"
proof -
  have mixed: "OffloadOpsComputeLruResidentAddrsMixedParallel m p cfg 1 [row] out = ResidentAddrsParallelVf m p cfg row out"
    using assms(3,4) by (simp add: OffloadOpsComputeLruResidentAddrsMixedParallel_def rd_def)
  show ?thesis
  proof (cases "ra_cfg_ok cfg")
    case True
    then show ?thesis
      using resident_addrs_simt [OF assms(2) True, of "[row]" out p'] resident_addrs_mixed [OF assms(1) True, of row out p]
        assms(4,5) mixed by simp
  next
    case False
    then show ?thesis
      using resident_addrs_simt_invalid [OF assms(2), of 1 cfg p' "[row]" out] resident_addrs_mixed_invalid [OF assms(1) False] mixed
      by simp
  qed
qed

theorem resident_addrs_backends_agree_witness:
  "OffloadOpsComputeLruResidentAddrsMixedParallel example_simt 0 ra_example_cfg 1 [ra_example_row] ra_example_out =
     OffloadOpsComputeLruResidentAddrs example_simt 1 ra_example_cfg 1 [ra_example_row] ra_example_out \<and>
   OffloadOpsComputeLruResidentAddrs example_simt 1 ra_example_cfg 1 [ra_example_row] ra_example_out \<noteq> None"
  by (rule resident_addrs_backends_agree)
    (simp_all add: ra_example_ok, simp_all add: ra_example_cfg_def RESIDENT_ADDRS_MAX_TOPK_def)

text \<open>With no rows or a configuration that is not positive the generic kernel reads nothing, whatever the
  tensors, and publishes an empty work list.\<close>

theorem resident_addrs_empty:
  assumes "simt_ok m" "num_reqs \<le> 0 \<or> \<not> ra_cfg_ok cfg"
  shows "OffloadOpsComputeLruResidentAddrs m p cfg num_reqs rows out = Some (out\<lparr>num_tokens_buffer := 0\<rparr>)"
  using assms by (rule resident_addrs_simt_invalid)

theorem resident_addrs_empty_witness:
  "OffloadOpsComputeLruResidentAddrs example_simt 0 (ra_example_cfg\<lparr>block_size := 0\<rparr>) 5 [] ra_example_out =
   Some (ra_example_out\<lparr>num_tokens_buffer := 0\<rparr>)"
  by (rule resident_addrs_empty) (simp_all add: ra_cfg_ok_def)

end
