(* ===== verification/Sparse_Copy.thy ===== *)
theory Sparse_Copy
  imports Simt
begin

text \<open>
  The SparseCopy operator
  (\<^verbatim>\<open>src/src/acc_offload/csrc/operators/acc_offload_sparse_copy.h\<close> and \<^verbatim>\<open>.cpp\<close>): the cores of the device
  share a list of copy descriptors, the first half K and the second half V, and copy each region through
  their unified buffer in pieces. Proved: the partition gives every descriptor to exactly one core, the
  piece loop ends, and the memory afterwards is the memory before with all regions copied.

  Global memory maps addresses to bytes; an access to an unmapped address is \<open>None\<close>. The data moves of
  the device (\<^verbatim>\<open>AscendC::DataCopyPad\<close>) are not part of the repository: they are the parameter \<open>aiv\<close>, and
  \<open>aiv_ok\<close> is what their documentation promises.
\<close>

section \<open>Memory and data moves\<close>

type_synonym gm = "int \<Rightarrow> nat option"

definition gm_read :: "gm \<Rightarrow> int \<Rightarrow> nat \<Rightarrow> nat list option" where
  "gm_read mem a n = those (map (\<lambda>i. mem (a + int i)) [0..<n])"

definition gm_write :: "gm \<Rightarrow> int \<Rightarrow> nat list \<Rightarrow> gm option" where
  "gm_write mem a bs = (if list_all (\<lambda>i. mem (a + int i) \<noteq> None) [0..<length bs]
     then Some (\<lambda>x. if a \<le> x \<and> x < a + int (length bs) then Some (bs ! nat (x - a)) else mem x) else None)"

record aiv =
  data_copy_in :: "gm \<Rightarrow> int \<Rightarrow> nat \<Rightarrow> nat list option"
  data_copy_out :: "gm \<Rightarrow> int \<Rightarrow> nat list \<Rightarrow> gm option"

text \<open>32 bit unsigned arithmetic.\<close>

definition u32 :: "nat \<Rightarrow> nat" where "u32 x = x mod 2 ^ 32"

lemma u32_small [simp]: "x < 2 ^ 32 \<Longrightarrow> u32 x = x"
  by (simp add: u32_def)

definition UB_ONCE_SIZE :: nat where "UB_ONCE_SIZE = 176 * 1024"

lemma UB_ONCE_SIZE_pos [simp]: "0 < UB_ONCE_SIZE"
  by (simp add: UB_ONCE_SIZE_def)

definition aiv_ok :: "aiv \<Rightarrow> bool" where
  "aiv_ok d \<longleftrightarrow>
     (\<forall>mem a n. 0 < n \<and> n \<le> UB_ONCE_SIZE \<longrightarrow> data_copy_in d mem a n = gm_read mem a n) \<and>
     (\<forall>mem a bs. 0 < length bs \<and> length bs \<le> UB_ONCE_SIZE \<longrightarrow> data_copy_out d mem a bs = gm_write mem a bs)"

definition example_aiv :: aiv where
  "example_aiv = \<lparr>data_copy_in = gm_read, data_copy_out = gm_write\<rparr>"

lemma example_aiv_ok [simp]: "aiv_ok example_aiv"
  by (simp add: aiv_ok_def example_aiv_def)

section \<open>The kernel\<close>

text \<open>\<^verbatim>\<open>CpGM2GM\<close> for bytes (\<^verbatim>\<open>sizeof(T)\<close> is 1): the loop on \<^verbatim>\<open>leftLen\<close> and \<^verbatim>\<open>times\<close>.\<close>

function CpGM2GM_loop :: "aiv \<Rightarrow> int \<Rightarrow> int \<Rightarrow> nat \<Rightarrow> nat \<Rightarrow> gm \<Rightarrow> gm option" where
  "CpGM2GM_loop d inputGm outputGm leftLen rounds mem =
     (if leftLen > 0 then do {
        let curCopySize = (if leftLen > UB_ONCE_SIZE then UB_ONCE_SIZE else leftLen);
        local \<leftarrow> data_copy_in d mem (inputGm + int (u32 (rounds * UB_ONCE_SIZE))) curCopySize;
        mem \<leftarrow> data_copy_out d mem (outputGm + int (u32 (rounds * UB_ONCE_SIZE))) local;
        CpGM2GM_loop d inputGm outputGm (if leftLen > UB_ONCE_SIZE then leftLen - UB_ONCE_SIZE else 0) (rounds + 1) mem }
      else Some mem)"
  by pat_completeness auto
termination
  by (relation "measure (\<lambda>(d, a, b, leftLen, rounds, mem). leftLen)") auto

declare CpGM2GM_loop.simps [simp del]

definition CpGM2GM :: "aiv \<Rightarrow> int \<Rightarrow> int \<Rightarrow> nat \<Rightarrow> gm \<Rightarrow> gm option" where
  "CpGM2GM d inputGm outputGm len mem = CpGM2GM_loop d inputGm outputGm len 0 mem"

record sc_args =
  sc_inputs :: "int list"
  sc_outputs :: "int list"
  sc_lens :: "nat list"
  sc_size :: nat

definition sc_item :: "aiv \<Rightarrow> sc_args \<Rightarrow> nat \<Rightarrow> gm \<Rightarrow> gm option" where
  "sc_item d a i mem = do {
     inputPtr \<leftarrow> rd (sc_inputs a) (int i);
     outputPtr \<leftarrow> rd (sc_outputs a) (int i);
     len \<leftarrow> rd (sc_lens a) (int i);
     CpGM2GM d inputPtr outputPtr len mem }"

text \<open>The index ranges of core \<open>aivIndex\<close>: \<^verbatim>\<open>kStart\<close>, \<^verbatim>\<open>kEnd\<close>, \<^verbatim>\<open>vStart\<close>, \<^verbatim>\<open>vEnd\<close>.\<close>

definition core_ranges :: "nat \<Rightarrow> nat \<Rightarrow> nat \<Rightarrow> nat \<times> nat \<times> nat \<times> nat" where
  "core_ranges n aivNum aivIndex =
     (let perCoreSize = n div aivNum;
          kStart = u32 (aivIndex * perCoreSize);
          vStart = u32 (n + kStart);
          lastAivIdx = aivNum - 1;
          perCoreSize = (if aivIndex = lastAivIdx then n - u32 (lastAivIdx * perCoreSize) else perCoreSize)
      in (kStart, u32 (kStart + perCoreSize), vStart, u32 (vStart + perCoreSize)))"

definition Process :: "aiv \<Rightarrow> sc_args \<Rightarrow> nat \<Rightarrow> nat \<Rightarrow> gm \<Rightarrow> gm option" where
  "Process d a aivNum aivIndex mem = do {
     let oriSize = sc_size a;
     let (kStart, kEnd, vStart, vEnd) = core_ranges (oriSize div 2) aivNum aivIndex;
     mem \<leftarrow> for_each [kStart..<kEnd] (sc_item d a) mem;
     for_each [vStart..<vEnd] (sc_item d a) mem }"

definition SPARSE_COPY_BLOCK_DIM :: nat where "SPARSE_COPY_BLOCK_DIM = 32"

definition OffloadOpsSparseCopy :: "simt \<Rightarrow> aiv \<Rightarrow> nat \<Rightarrow> sc_args \<Rightarrow> gm \<Rightarrow> gm option" where
  "OffloadOpsSparseCopy m d p a mem =
     par_for m p SPARSE_COPY_BLOCK_DIM SPARSE_COPY_BLOCK_DIM (Process d a SPARSE_COPY_BLOCK_DIM) mem"

section \<open>One region\<close>

definition mapped :: "gm \<Rightarrow> int \<Rightarrow> nat \<Rightarrow> bool" where
  "mapped mem a n \<longleftrightarrow> (\<forall>j < n. mem (a + int j) \<noteq> None)"

lemma mappedD: "mapped mem a n \<Longrightarrow> j < n \<Longrightarrow> mem (a + int j) \<noteq> None"
  by (simp add: mapped_def)

definition region :: "int \<Rightarrow> nat \<Rightarrow> int set" where
  "region a n = {a..<a + int n}"

lemma region_iff: "x \<in> region a n \<longleftrightarrow> (\<exists>j < n. x = a + int j)"
proof
  assume "x \<in> region a n"
  then have "nat (x - a) < n \<and> x = a + int (nat (x - a))" by (auto simp: region_def)
  then show "\<exists>j < n. x = a + int j" by blast
qed (auto simp: region_def)

lemma gm_read_Some:
  assumes "mapped mem a n"
  shows "gm_read mem a n = Some (map (\<lambda>j. the (mem (a + int j))) [0..<n])"
proof -
  have "lanes n (\<lambda>i. mem (a + int i)) = Some (map (\<lambda>j. the (mem (a + int j))) [0..<n])"
    by (rule lanes_Some) (use assms in \<open>auto simp: mapped_def\<close>)
  then show ?thesis by (simp add: gm_read_def lanes_def)
qed

text \<open>Memory \<open>mem'\<close> is \<open>mem\<close> with the first \<open>n\<close> bytes at \<open>a\<close> copied to \<open>b\<close>.\<close>

definition copied :: "gm \<Rightarrow> int \<Rightarrow> int \<Rightarrow> nat \<Rightarrow> gm" where
  "copied mem a b n = (\<lambda>x. if x \<in> region b n then mem (a + (x - b)) else mem x)"

lemma copied_0 [simp]: "copied mem a b 0 = mem"
  by (simp add: copied_def region_def)

lemma copied_dom:
  assumes "mapped mem a n" "mapped mem b n"
  shows "copied mem a b n x \<noteq> None \<longleftrightarrow> mem x \<noteq> None"
proof (cases "x \<in> region b n")
  case True
  then obtain j where "j < n" "x = b + int j" by (auto simp: region_iff)
  then show ?thesis using assms True by (auto simp: copied_def mapped_def)
qed (simp add: copied_def)

lemma CpGM2GM_loop_copied:
  assumes "aiv_ok d" "mapped mem a n" "mapped mem b n" "region a n \<inter> region b n = {}" "n < 2 ^ 32"
    and "k * UB_ONCE_SIZE + left = n \<or> left = 0 \<and> n \<le> k * UB_ONCE_SIZE"
  shows "CpGM2GM_loop d a b left k (copied mem a b (min n (k * UB_ONCE_SIZE))) = Some (copied mem a b n)"
  using assms(6)
proof (induction left arbitrary: k rule: less_induct)
  case (less left)
  show ?case
  proof (cases "left = 0")
    case True
    then have "min n (k * UB_ONCE_SIZE) = n" using less.prems by auto
    then show ?thesis using True by (simp add: CpGM2GM_loop.simps)
  next
    case False
    let ?o = "k * UB_ONCE_SIZE" and ?cur = "if left > UB_ONCE_SIZE then UB_ONCE_SIZE else left"
    let ?mem = "copied mem a b ?o"
    have n: "?o + left = n" using less.prems False by simp
    have cur: "0 < ?cur" "?cur \<le> UB_ONCE_SIZE" "?o + ?cur \<le> n" using n False by auto
    have o32: "u32 ?o = ?o" using n assms(5) by simp
    have out: "?mem (a + int (?o + j)) = mem (a + int (?o + j))" if "?o + j < n" for j
    proof -
      have "a + int (?o + j) \<in> region a n" using that unfolding region_iff by blast
      then have "a + int (?o + j) \<notin> region b n" using assms(4) by blast
      then show ?thesis using n by (auto simp: copied_def region_def)
    qed
    have src: "mapped ?mem (a + int ?o) ?cur"
      unfolding mapped_def
    proof (intro allI impI)
      fix j assume "j < ?cur"
      then have jn: "?o + j < n" using cur(3) by linarith
      show "?mem (a + int ?o + int j) \<noteq> None"
        using out [OF jn] mappedD [OF assms(2) jn] by (simp only: of_nat_add add.assoc simp_thms)
    qed
    have m: "mapped mem a ?o" "mapped mem b ?o" using assms(2,3) n by (auto simp: mapped_def)
    have dst: "mapped ?mem (b + int ?o) ?cur"
      unfolding mapped_def
    proof (intro allI impI)
      fix j assume "j < ?cur"
      then have jn: "?o + j < n" using cur(3) by linarith
      show "?mem (b + int ?o + int j) \<noteq> None"
        using copied_dom [OF m] mappedD [OF assms(3) jn] by (simp only: of_nat_add add.assoc simp_thms)
    qed
    let ?bs = "map (\<lambda>j. the (?mem (a + int ?o + int j))) [0..<?cur]"
    have rd: "data_copy_in d ?mem (a + int (u32 ?o)) ?cur = Some ?bs"
      using assms(1) cur gm_read_Some [OF src] by (simp only: aiv_ok_def o32)
    have wr: "data_copy_out d ?mem (b + int (u32 ?o)) ?bs = Some (copied mem a b (?o + ?cur))"
    proof -
      have "gm_write ?mem (b + int ?o) ?bs =
          Some (\<lambda>x. if b + int ?o \<le> x \<and> x < b + int ?o + int ?cur then Some (?bs ! nat (x - (b + int ?o))) else ?mem x)"
        using dst by (auto simp: gm_write_def mapped_def list_all_iff)
      also have "(\<lambda>x. if b + int ?o \<le> x \<and> x < b + int ?o + int ?cur then Some (?bs ! nat (x - (b + int ?o))) else ?mem x) =
          copied mem a b (?o + ?cur)"
      proof
        fix x
        show "(if b + int ?o \<le> x \<and> x < b + int ?o + int ?cur then Some (?bs ! nat (x - (b + int ?o))) else ?mem x) =
            copied mem a b (?o + ?cur) x"
        proof (cases "b + int ?o \<le> x \<and> x < b + int ?o + int ?cur")
          case True
          define j where "j = nat (x - (b + int ?o))"
          have j: "x = b + int ?o + int j" "j < ?cur" using True by (auto simp: j_def)
          have jn: "?o + j < n" using j(2) cur(3) by linarith
          have "?mem (a + int ?o + int j) = mem (a + int ?o + int j)" using out [OF jn] by (simp add: add.assoc)
          moreover have "mem (a + int ?o + int j) \<noteq> None"
            using mappedD [OF assms(2) jn] by (simp only: of_nat_add add.assoc simp_thms)
          ultimately have "Some (?bs ! j) = mem (a + int ?o + int j)" using j(2) by simp
          moreover have "x \<in> region b (?o + ?cur)" using True unfolding region_def atLeastLessThan_iff of_nat_add by linarith
          moreover have "a + (x - b) = a + int ?o + int j" using j(1) by simp
          ultimately show ?thesis using True by (simp only: copied_def if_True j_def [symmetric] simp_thms)
        next
          case False
          then show ?thesis by (auto simp: copied_def region_def)
        qed
      qed
      finally show ?thesis using assms(1) cur by (simp only: aiv_ok_def o32 length_map length_upt diff_zero)
    qed
    have "min n ?o = ?o" using n by simp
    moreover have "CpGM2GM_loop d a b (if left > UB_ONCE_SIZE then left - UB_ONCE_SIZE else 0) (k + 1) (copied mem a b (?o + ?cur)) =
        Some (copied mem a b n)"
    proof -
      let ?left = "if left > UB_ONCE_SIZE then left - UB_ONCE_SIZE else 0"
      have "min n ((k + 1) * UB_ONCE_SIZE) = ?o + ?cur" using n by auto
      then show ?thesis using less.IH [of ?left "k + 1"] n False by auto
    qed
    ultimately show ?thesis
      using False rd wr by (subst CpGM2GM_loop.simps) (simp only: Let_def Option.bind.bind_lunit if_True neq0_conv)
  qed
qed


lemma CpGM2GM_copied:
  assumes "aiv_ok d" "mapped mem a n" "mapped mem b n" "region a n \<inter> region b n = {}" "n < 2 ^ 32"
  shows "CpGM2GM d a b n mem = Some (copied mem a b n)"
  using CpGM2GM_loop_copied [OF assms, of 0 n] by (simp add: CpGM2GM_def)

section \<open>The partition\<close>

definition core_items :: "nat \<Rightarrow> nat \<Rightarrow> nat \<Rightarrow> nat list" where
  "core_items n aivNum aivIndex =
     (case core_ranges n aivNum aivIndex of (kStart, kEnd, vStart, vEnd) \<Rightarrow> [kStart..<kEnd] @ [vStart..<vEnd])"

text \<open>No wrap-around happens: the work list has fewer than \<open>2 ^ 32\<close> entries.\<close>

definition core_start :: "nat \<Rightarrow> nat \<Rightarrow> nat \<Rightarrow> nat" where
  "core_start n c i = (if i < c then i * (n div c) else n)"

lemma core_start_mono:
  assumes "i \<le> j"
  shows "core_start n c i \<le> core_start n c j"
proof -
  have "i * (n div c) \<le> n" if "i \<le> c" for i
    using mult_le_mono1 [OF that, of "n div c"] by (meson le_trans times_div_less_eq_dividend)
  then show ?thesis using assms by (auto simp: core_start_def mult_le_mono1)
qed

lemma core_ranges_eq:
  assumes "i < c" "2 * n < 2 ^ 32"
  shows "core_ranges n c i = (core_start n c i, core_start n c (Suc i), n + core_start n c i, n + core_start n c (Suc i))"
proof -
  have le: "core_start n c i \<le> core_start n c (Suc i)" "core_start n c (Suc i) \<le> n"
    using core_start_mono [of i "Suc i" n c] core_start_mono [of "Suc i" "max (Suc i) c" n c] by (simp_all add: core_start_def)
  have s: "core_start n c i = i * (n div c)" using assms(1) by (simp add: core_start_def)
  have d: "core_start n c (Suc i) = i * (n div c) + (if i = c - 1 then n - i * (n div c) else n div c)"
    using le(2) assms(1) s le(1) by (auto simp: core_start_def)
  have w: "u32 (i * (n div c)) = i * (n div c)" "u32 (n + i * (n div c)) = n + i * (n div c)"
    "u32 (core_start n c (Suc i)) = core_start n c (Suc i)" "u32 (n + core_start n c (Suc i)) = n + core_start n c (Suc i)"
    using le assms(2) s by simp_all
  moreover have "(if i = c - 1 then n - u32 ((c - 1) * (n div c)) else n div c) =
      (if i = c - 1 then n - i * (n div c) else n div c)"
    using w(1) by auto
  ultimately show ?thesis unfolding core_ranges_def Let_def d s by (simp only: add.assoc)
qed

lemma core_starts_cover: "0 < c \<Longrightarrow> (\<Union>i \<in> {..<k}. {core_start n c i..<core_start n c (Suc i)}) = {..<core_start n c k}"
proof (induction k)
  case (Suc k)
  have "{..<core_start n c k} \<union> {core_start n c k..<core_start n c (Suc k)} = {..<core_start n c (Suc k)}"
    using core_start_mono [of k "Suc k" n c] by (intro ivl_disj_un_one(2)) simp
  then show ?case using Suc by (simp only: lessThan_Suc UN_insert Un_commute)
qed (simp add: core_start_def)

lemma core_start_0 [simp]: "0 < c \<Longrightarrow> core_start n c 0 = 0"
  by (simp add: core_start_def)

lemma core_items_set:
  assumes "i < c" "2 * n < 2 ^ 32"
  shows "set (core_items n c i) = {core_start n c i..<core_start n c (Suc i)} \<union> (+) n ` {core_start n c i..<core_start n c (Suc i)}"
  using core_ranges_eq [OF assms] by (simp add: core_items_def add.commute)

lemma core_items_distinct:
  assumes "i < c" "2 * n < 2 ^ 32"
  shows "distinct (core_items n c i)"
proof -
  have "core_start n c (Suc i) \<le> n"
    using core_start_mono [of "Suc i" "max (Suc i) c" n c] by (simp add: core_start_def)
  then show ?thesis using core_ranges_eq [OF assms] by (auto simp: core_items_def)
qed

lemma core_items_disjoint:
  assumes "i < c" "j < c" "i \<noteq> j" "2 * n < 2 ^ 32"
  shows "set (core_items n c i) \<inter> set (core_items n c j) = {}"
proof -
  have *: "set (core_items n c i) \<inter> set (core_items n c j) = {}" if "i < j" "i < c" "j < c" for i j
  proof -
    have "core_start n c (Suc i) \<le> core_start n c j" "core_start n c (Suc j) \<le> n"
      using that core_start_mono [of "Suc i" j n c] core_start_mono [of "Suc j" "max (Suc j) c" n c]
      by (simp_all add: core_start_def)
    then show ?thesis unfolding core_items_set [OF that(2) assms(4)] core_items_set [OF that(3) assms(4)] by auto
  qed
  show ?thesis using *[of i j] *[of j i] assms(1-3) by (cases "i < j") auto
qed

lemma core_items_cover:
  assumes "0 < c" "2 * n < 2 ^ 32"
  shows "(\<Union>i \<in> {..<c}. set (core_items n c i)) = {..<2 * n}"
proof -
  let ?K = "\<Union>i \<in> {..<c}. {core_start n c i..<core_start n c (Suc i)}"
  have "(\<Union>i \<in> {..<c}. set (core_items n c i)) = (\<Union>i \<in> {..<c}. {core_start n c i..<core_start n c (Suc i)} \<union>
      (+) n ` {core_start n c i..<core_start n c (Suc i)})"
    by (rule SUP_cong) (simp_all only: lessThan_iff core_items_set [OF _ assms(2)])
  also have "\<dots> = ?K \<union> (+) n ` ?K" by (simp only: UN_Un_distrib image_UN)
  also have "?K = {..<n}" unfolding core_starts_cover [OF assms(1)] by (simp add: core_start_def)
  also have "{..<n} \<union> (+) n ` {..<n} = {..<2 * n}" by (auto simp: image_iff Bex_def) presburger
  finally show ?thesis .
qed

section \<open>The operator\<close>

text \<open>The work list of a call: every region is mapped, the destinations do not overlap, and no
  destination overlaps a source.\<close>

definition sc_dst :: "sc_args \<Rightarrow> nat \<Rightarrow> int set" where
  "sc_dst a i = region (sc_outputs a ! i) (sc_lens a ! i)"

definition sc_src :: "sc_args \<Rightarrow> nat \<Rightarrow> int set" where
  "sc_src a i = region (sc_inputs a ! i) (sc_lens a ! i)"

definition sc_ok :: "gm \<Rightarrow> sc_args \<Rightarrow> bool" where
  "sc_ok mem a \<longleftrightarrow> (let n = 2 * (sc_size a div 2) in
     sc_size a < 2 ^ 32 \<and> n \<le> length (sc_inputs a) \<and> n \<le> length (sc_outputs a) \<and> n \<le> length (sc_lens a) \<and>
     (\<forall>i < n. sc_lens a ! i < 2 ^ 32 \<and> mapped mem (sc_inputs a ! i) (sc_lens a ! i) \<and> mapped mem (sc_outputs a ! i) (sc_lens a ! i)) \<and>
     (\<forall>i < n. \<forall>j < n. sc_src a i \<inter> sc_dst a j = {}) \<and>
     (\<forall>i < n. \<forall>j < n. i \<noteq> j \<longrightarrow> sc_dst a i \<inter> sc_dst a j = {}))"

lemma sc_ok_32: "sc_ok mem a \<Longrightarrow> 2 * (sc_size a div 2) < 2 ^ 32"
  unfolding sc_ok_def Let_def by linarith

text \<open>The regions \<open>S\<close> are copied and nothing else has changed.\<close>

definition sc_done :: "gm \<Rightarrow> sc_args \<Rightarrow> nat set \<Rightarrow> gm \<Rightarrow> bool" where
  "sc_done mem a S mem' \<longleftrightarrow>
     (\<forall>i \<in> S. \<forall>j < sc_lens a ! i. mem' (sc_outputs a ! i + int j) = mem (sc_inputs a ! i + int j)) \<and>
     (\<forall>x. x \<notin> (\<Union>i \<in> S. sc_dst a i) \<longrightarrow> mem' x = mem x)"

lemma sc_done_empty [simp]: "sc_done mem a {} mem"
  by (simp add: sc_done_def)

lemma sc_done_mapped:
  assumes "sc_done mem a S mem'" "sc_ok mem a" "S \<subseteq> {..<2 * (sc_size a div 2)}"
  shows "mem' x \<noteq> None \<longleftrightarrow> mem x \<noteq> None"
proof (cases "x \<in> (\<Union>i \<in> S. sc_dst a i)")
  case True
  then obtain i j where i: "i \<in> S" "j < sc_lens a ! i" "x = sc_outputs a ! i + int j"
    by (auto simp: sc_dst_def region_iff)
  have "mapped mem (sc_inputs a ! i) (sc_lens a ! i)" "mapped mem (sc_outputs a ! i) (sc_lens a ! i)"
    using assms(2,3) i(1) by (auto simp: sc_ok_def Let_def)
  moreover have "mem' x = mem (sc_inputs a ! i + int j)" using assms(1) i by (simp add: sc_done_def)
  ultimately show ?thesis using i by (auto dest: mappedD)
next
  case False
  then show ?thesis using assms(1) by (simp add: sc_done_def)
qed

lemma sc_item_done:
  assumes ok: "aiv_ok d" "sc_ok mem a" and S: "S \<subseteq> {..<2 * (sc_size a div 2)}" "i < 2 * (sc_size a div 2)" "i \<notin> S"
    and "sc_done mem a S mem'"
  shows "\<exists>mem''. sc_item d a i mem' = Some mem'' \<and> sc_done mem a (insert i S) mem''"
proof -
  let ?a = "sc_inputs a ! i" and ?b = "sc_outputs a ! i" and ?n = "sc_lens a ! i"
  have i: "i < length (sc_inputs a)" "i < length (sc_outputs a)" "i < length (sc_lens a)" "?n < 2 ^ 32"
    "mapped mem ?a ?n" "mapped mem ?b ?n" "sc_src a i \<inter> sc_dst a i = {}"
    using ok(2) S(2) by (auto simp: sc_ok_def Let_def)
  have disj: "sc_dst a j \<inter> sc_dst a i = {}" "sc_src a i \<inter> sc_dst a j = {}" if "j \<in> S" for j
    using ok(2) S that unfolding sc_ok_def Let_def by (blast, blast)
  have m: "mapped mem' ?a ?n" "mapped mem' ?b ?n"
    using i(5,6) sc_done_mapped [OF assms(6) ok(2) S(1)] by (simp_all add: mapped_def)
  have cp: "sc_item d a i mem' = Some (copied mem' ?a ?b ?n)"
    using i CpGM2GM_copied [OF ok(1) m _ i(4)] by (simp add: sc_item_def sc_src_def sc_dst_def)
  have new: "copied mem' ?a ?b ?n (?b + int j) = mem (?a + int j)" if "j < ?n" for j
  proof -
    have "?a + int j \<in> sc_src a i" using that unfolding sc_src_def region_iff by blast
    then have "?a + int j \<notin> (\<Union>k \<in> S. sc_dst a k)" using disj(2) by blast
    then have "mem' (?a + int j) = mem (?a + int j)" using assms(6) by (simp add: sc_done_def)
    then show ?thesis using that by (simp add: copied_def region_def)
  qed
  have old: "copied mem' ?a ?b ?n (sc_outputs a ! k + int j) = mem (sc_inputs a ! k + int j)"
    if "k \<in> S" "j < sc_lens a ! k" for j k
  proof -
    have "sc_outputs a ! k + int j \<in> sc_dst a k" using that(2) unfolding sc_dst_def region_iff by blast
    then have "sc_outputs a ! k + int j \<notin> region ?b ?n" using disj(1) [OF that(1)] by (auto simp: sc_dst_def)
    then show ?thesis using assms(6) that by (simp add: copied_def sc_done_def)
  qed
  have "copied mem' ?a ?b ?n x = mem x" if "x \<notin> (\<Union>k \<in> insert i S. sc_dst a k)" for x
  proof -
    have "x \<notin> region ?b ?n" "x \<notin> (\<Union>k \<in> S. sc_dst a k)" using that by (simp_all add: sc_dst_def)
    then show ?thesis using assms(6) by (simp add: copied_def sc_done_def)
  qed
  then have "sc_done mem a (insert i S) (copied mem' ?a ?b ?n)" using new old by (simp add: sc_done_def)
  then show ?thesis using cp by blast
qed

lemma Process_done:
  assumes ok: "aiv_ok d" "sc_ok mem a" and c: "core < c"
    and S: "S \<subseteq> {..<2 * (sc_size a div 2)}" "set (core_items (sc_size a div 2) c core) \<inter> S = {}"
    and "sc_done mem a S mem'"
  shows "\<exists>mem''. Process d a c core mem' = Some mem'' \<and> sc_done mem a (S \<union> set (core_items (sc_size a div 2) c core)) mem''"
proof -
  let ?n = "sc_size a div 2" and ?xs = "core_items (sc_size a div 2) c core"
  note n = sc_ok_32 [OF ok(2)]
  have "set ?xs \<subseteq> {..<2 * ?n}" using core_items_cover [of c ?n] c n by blast
  then have "\<exists>mem''. for_each ?xs (sc_item d a) mem' = Some mem'' \<and>
      (S \<union> set ?xs \<subseteq> {..<2 * ?n} \<and> sc_done mem a (S \<union> set ?xs) mem'')"
    using assms(6) S(1)
  proof (intro for_each_set_rule_gen [where P = "\<lambda>D m. D \<subseteq> {..<2 * ?n} \<and> sc_done mem a D m"])
    fix D x s assume "set ?xs \<subseteq> {..<2 * ?n}" "x \<in> set ?xs" "x \<notin> D" "D \<subseteq> {..<2 * ?n} \<and> sc_done mem a D s"
    then show "\<exists>s'. sc_item d a x s = Some s' \<and> (insert x D \<subseteq> {..<2 * ?n} \<and> sc_done mem a (insert x D) s')"
      using sc_item_done [OF ok, of D x s] by blast
  qed (simp_all add: core_items_distinct [OF c n] S(2))
  moreover have "Process d a c core mem' = for_each ?xs (sc_item d a) mem'"
    by (cases "core_ranges ?n c core") (simp add: Process_def core_items_def Let_def for_each_append)
  ultimately show ?thesis by auto
qed

lemma sparse_copy_done:
  assumes "simt_ok m" "aiv_ok d" "sc_ok mem a"
  shows "\<exists>mem'. OffloadOpsSparseCopy m d p a mem = Some mem' \<and> sc_done mem a {..<2 * (sc_size a div 2)} mem'"
proof -
  let ?n = "sc_size a div 2" and ?c = "SPARSE_COPY_BLOCK_DIM"
  let ?I = "\<lambda>D. \<Union>i \<in> D. set (core_items ?n ?c i)"
  note n = sc_ok_32 [OF assms(3)]
  have c: "0 < ?c" by (simp add: SPARSE_COPY_BLOCK_DIM_def)
  note cover = core_items_cover [OF c n]
  have "\<exists>mem'. par_for m p ?c ?c (Process d a ?c) mem = Some mem' \<and> ({..<?c} \<subseteq> {..<?c} \<and> sc_done mem a (?I {..<?c}) mem')"
  proof (rule par_for_rule [where P = "\<lambda>D s. D \<subseteq> {..<?c} \<and> sc_done mem a (?I D) s", OF assms(1) c])
    fix D i s assume i: "i < ?c" "i \<notin> D" and D: "D \<subseteq> {..<?c} \<and> sc_done mem a (?I D) s"
    have "?I D \<subseteq> ?I {..<?c}" using D by (intro UN_mono) simp_all
    then have "?I D \<subseteq> {..<2 * ?n}" by (simp only: cover)
    moreover have "set (core_items ?n ?c i) \<inter> ?I D = {}" 
    proof -
      have "set (core_items ?n ?c i) \<inter> set (core_items ?n ?c j) = {}" if "j \<in> D" for j
        using that i D by (intro core_items_disjoint [OF i(1) _ _ n]) auto
      then show ?thesis by (simp add: Int_UN_distrib)
    qed
    ultimately obtain s' where "Process d a ?c i s = Some s'" "sc_done mem a (?I D \<union> set (core_items ?n ?c i)) s'"
      using Process_done [OF assms(2,3) i(1) _ _ conjunct2 [OF D]] by blast
    then show "\<exists>s'. Process d a ?c i s = Some s' \<and> (insert i D \<subseteq> {..<?c} \<and> sc_done mem a (?I (insert i D)) s')"
      using i(1) D by (simp add: Un_commute)
  qed simp
  then show ?thesis unfolding OffloadOpsSparseCopy_def cover by blast
qed


section \<open>Properties\<close>

text \<open>The cores take every descriptor of the work list exactly once, and no other index, for any number
  of cores and any even work list that fits 32 bit.\<close>

theorem sparse_copy_partition:
  assumes "0 < c" "2 * n < 2 ^ 32"
  shows "mset (concat (map (core_items n c) [0..<c])) = mset [0..<2 * n]"
proof -
  have "distinct (concat (map (core_items n c) [0..<c]))"
    by (rule distinct_concat_map) (simp_all add: core_items_distinct core_items_disjoint assms(2) del: power_numeral)
  moreover have "set (concat (map (core_items n c) [0..<c])) = set [0..<2 * n]"
    using core_items_cover [OF assms] by (simp add: atLeast0LessThan)
  ultimately show ?thesis using set_eq_iff_mset_eq_distinct distinct_upt by blast
qed

theorem sparse_copy_partition_witness:
  "mset (concat (map (core_items 70 32) [0..<32])) = mset [0..<2 * 70]"
  by (rule sparse_copy_partition) simp_all

text \<open>C12. SparseCopy ends with every region of the work list copied, byte for byte and whatever its length,
  and all other memory as it was; it touches no unmapped address.\<close>

theorem sparse_copy_correct:
  assumes "simt_ok m" "aiv_ok d" "sc_ok mem a"
  shows "\<exists>mem'. OffloadOpsSparseCopy m d p a mem = Some mem' \<and>
    (\<forall>i < 2 * (sc_size a div 2). \<forall>j < sc_lens a ! i. mem' (sc_outputs a ! i + int j) = mem (sc_inputs a ! i + int j)) \<and>
    (\<forall>x. (\<forall>i < 2 * (sc_size a div 2). x \<notin> sc_dst a i) \<longrightarrow> mem' x = mem x)"
  using sparse_copy_done [OF assms, of p] by (auto simp: sc_done_def)

definition sc_example_mem :: gm where
  "sc_example_mem = (\<lambda>x. if 0 \<le> x \<and> x < 64 then Some (nat x) else None)"

definition sc_example_args :: sc_args where
  "sc_example_args = \<lparr>sc_inputs = [0, 8], sc_outputs = [32, 40], sc_lens = [4, 3], sc_size = 2\<rparr>"

lemma sc_example_ok: "sc_ok sc_example_mem sc_example_args"
proof -
  have "(\<forall>i < 2. Q i) \<longleftrightarrow> Q 0 \<and> Q (Suc 0)" for Q :: "nat \<Rightarrow> bool" by (auto simp: less_2_cases_iff)
  then show ?thesis
    by (simp add: sc_ok_def sc_example_args_def sc_example_mem_def mapped_def sc_src_def sc_dst_def region_def)
qed

theorem sparse_copy_witness:
  "\<exists>mem'. OffloadOpsSparseCopy example_simt example_aiv 0 sc_example_args sc_example_mem = Some mem' \<and>
    (\<forall>i < 2 * (sc_size sc_example_args div 2). \<forall>j < sc_lens sc_example_args ! i.
       mem' (sc_outputs sc_example_args ! i + int j) = sc_example_mem (sc_inputs sc_example_args ! i + int j)) \<and>
    (\<forall>x. (\<forall>i < 2 * (sc_size sc_example_args div 2). x \<notin> sc_dst sc_example_args i) \<longrightarrow> mem' x = sc_example_mem x)"
  by (rule sparse_copy_correct) (simp_all add: sc_example_ok)

end
