(* ===== verification/Operators_Launch.thy ===== *)
theory Operators_Launch
  imports Lru_Legacy Lru_Compact_V3 Resident_Addrs Sparse_Copy
begin

text \<open>
  The host side of the operators, \<^verbatim>\<open>src/src/acc_offload/csrc/launch/acc_offload_operators_launch.cpp\<close>: which
  implementation each call runs; and one decoding step of the K/V offload, the three operators in the order
  of \<^verbatim>\<open>README_SIMT.md\<close>: Compact decides which tokens get which resident slots, ResidentAddrs turns the misses
  into copy descriptors, SparseCopy moves the data. Proved: after a step every resident slot holds the K and V
  data of the token the cache says it holds.
\<close>

section \<open>Dispatch\<close>

definition IsCompactV3Shape :: "int \<Rightarrow> int \<Rightarrow> int \<Rightarrow> int \<Rightarrow> bool" where
  "IsCompactV3Shape numReqs topk capacity maxToken \<longleftrightarrow>
     numReqs > 0 \<and> topk = 2048 \<and> capacity = 4096 \<and> maxToken = 4096"

definition IsResidentAddrsParallelShape :: "int \<Rightarrow> int \<Rightarrow> bool" where
  "IsResidentAddrsParallelShape numReqs topk \<longleftrightarrow> numReqs = 1 \<and> topk > 0 \<and> topk \<le> 2048"

definition GetLruV3ProfileEnabled :: "(string \<Rightarrow> string option) \<Rightarrow> bool" where
  "GetLruV3ProfileEnabled getenv = (getenv ''MF_LRU_COMPACT_V3_PROFILE'' = Some ''1'')"

text \<open>\<open>ubs\<close> is what the unified buffer holds when the launch of a row begins, \<open>clk\<close> the device clock.\<close>

definition AccOffloadLruCompact ::
  "simt \<Rightarrow> (string \<Rightarrow> string option) \<Rightarrow> (nat \<Rightarrow> int \<times> int) \<Rightarrow> (nat \<Rightarrow> v3_ub) \<Rightarrow> nat \<Rightarrow> int \<Rightarrow> int \<Rightarrow> int \<Rightarrow> int \<Rightarrow>
    lru_row list \<times> lru_ws list \<Rightarrow> (lru_row list \<times> lru_ws list) option" where
  "AccOffloadLruCompact m getenv clk ubs p num_reqs topk capacity max_token st =
     (if IsCompactV3Shape num_reqs topk capacity max_token
      then for_each [0..<nat num_reqs] (\<lambda>row.
        LaunchFusedV3 m clk (GetLruV3ProfileEnabled getenv) p (ubs row) (int row) topk capacity max_token) st
      else OffloadOpsLruCompact m p num_reqs topk capacity max_token st)"

definition AccOffloadComputeLruResidentAddrs :: "simt \<Rightarrow> nat \<Rightarrow> ra_cfg \<Rightarrow> int \<Rightarrow> ra_row list \<Rightarrow> ra_out \<Rightarrow> ra_out option" where
  "AccOffloadComputeLruResidentAddrs m p cfg num_reqs rows out =
     (if IsResidentAddrsParallelShape num_reqs (ra_topk cfg)
      then OffloadOpsComputeLruResidentAddrsMixedParallel m p cfg num_reqs rows out
      else OffloadOpsComputeLruResidentAddrs m p cfg num_reqs rows out)"

definition AccOffloadSparseCopy :: "simt \<Rightarrow> aiv \<Rightarrow> nat \<Rightarrow> sc_args \<Rightarrow> gm \<Rightarrow> gm option" where
  "AccOffloadSparseCopy m d p a mem = OffloadOpsSparseCopy m d p a mem"

section \<open>Every backend meets the contract\<close>

text \<open>The workspaces a call of a given shape starts from.\<close>

definition call_ws_ok :: "int \<Rightarrow> int \<Rightarrow> int \<Rightarrow> int \<Rightarrow> lru_ws list \<Rightarrow> bool" where
  "call_ws_ok num_reqs topk capacity max_token wss \<longleftrightarrow> length wss = 8 \<and>
     list_all (if IsCompactV3Shape num_reqs topk capacity max_token then v3_ws_ok max_token else ws_wf max_token) wss"

lemma v3_shape_sizes:
  "IsCompactV3Shape num_reqs topk capacity max_token \<Longrightarrow>
    topk = int LRU_FUSED_V3_TOPK \<and> capacity = int LRU_FUSED_V3_CAPACITY \<and> max_token = int LRU_FUSED_V3_MAX_TOKEN"
  by (simp add: IsCompactV3Shape_def LRU_FUSED_V3_TOPK_def LRU_FUSED_V3_CAPACITY_def LRU_FUSED_V3_MAX_TOKEN_def)

lemma v3_rows_spec:
  fixes T C M :: int
  defines "T \<equiv> int LRU_FUSED_V3_TOPK" and "C \<equiv> int LRU_FUSED_V3_CAPACITY" and "M \<equiv> int LRU_FUSED_V3_MAX_TOKEN"
  assumes "simt_ok m" "\<And>row. ub_alloc (ubs row)" "\<And>r. r \<in> set rows \<Longrightarrow> row_wf T C r"
    and "length wss = 8" "\<And>w. w \<in> set wss \<Longrightarrow> v3_ws_ok M w"
  shows "\<exists>wss'. for_each [0..<length rows] (\<lambda>row. LaunchFusedV3 m clk profile p (ubs row) (int row) T C M) (rows, wss) =
    Some (map (compact_spec C M) rows, wss') \<and> length wss' = 8 \<and> (\<forall>w \<in> set wss'. v3_ws_ok M w)"
proof -
  let ?f = "\<lambda>j. compact_spec C M (rows ! j)"
  let ?Q = "\<lambda>i st. fst st = overwrite {..<i} ?f rows \<and> length (snd st) = 8 \<and> (\<forall>w \<in> set (snd st). v3_ws_ok M w)"
  have "\<exists>st. for_each [0..<length rows] (\<lambda>row. LaunchFusedV3 m clk profile p (ubs row) (int row) T C M) (rows, wss) = Some st \<and>
      ?Q (length rows) st"
  proof (rule for_each_upt_rule [where P = ?Q])
    show "?Q 0 (rows, wss)" using assms(7,8) by simp
  next
    fix i and st :: "lru_row list \<times> lru_ws list" assume i: "i < length rows" and Q: "?Q i st"
    obtain ws where st: "st = (overwrite {..<i} ?f rows, ws)" "length ws = 8" "\<And>w. w \<in> set ws \<Longrightarrow> v3_ws_ok M w"
      using Q by (cases st) auto
    have nth: "overwrite {..<i} ?f rows ! i = rows ! i" using i by simp
    have wf: "row_wf T C (rows ! i)" using assms(6) i by simp
    obtain gw where gw: "LaunchFusedV3 m clk profile p (ubs i) (int i) T C M st =
        Some ((overwrite {..<i} ?f rows)[i := ?f i], ws[i mod 8 := gw])" "v3_ws_ok M gw"
      using v3_launch_spec [of m "ubs i" i "overwrite {..<i} ?f rows" ws clk profile p] assms(4,5) i nth wf st
      unfolding T_def C_def M_def by auto
    have "\<forall>w \<in> set (ws[i mod 8 := gw]). v3_ws_ok M w"
      using st(3) gw(2) set_update_subset_insert [of ws "i mod 8" gw] by blast
    then show "\<exists>st'. LaunchFusedV3 m clk profile p (ubs i) (int i) T C M st = Some st' \<and> ?Q (Suc i) st'"
      using gw(1) st(2) by (simp add: overwrite_insert lessThan_Suc)
  qed
  moreover have "overwrite {..<length rows} ?f rows = map (compact_spec C M) rows"
    by (simp add: overwrite_all map_nth_take)
  ultimately show ?thesis by auto
qed

lemma acc_compact_spec:
  assumes "simt_ok m" "\<And>row. ub_alloc (ubs row)" "0 < topk" "0 < capacity" "0 < max_token" "topk \<le> capacity"
    and "list_all (legacy_ok topk capacity max_token) rows" "call_ws_ok (int (length rows)) topk capacity max_token wss"
  shows "\<exists>wss'. AccOffloadLruCompact m getenv clk ubs p (int (length rows)) topk capacity max_token (rows, wss) =
      Some (map (compact_spec capacity max_token) rows, wss') \<and>
    (CanUseProductionPhasedLru (int (length rows)) topk capacity max_token \<longrightarrow>
      call_ws_ok (int (length rows)) topk capacity max_token wss')"
proof (cases "IsCompactV3Shape (int (length rows)) topk capacity max_token")
  case True
  have "row_wf topk capacity r" if "r \<in> set rows" for r
    using that assms(7) by (simp add: list_all_iff legacy_ok_def cache_ok_def)
  moreover have "v3_ws_ok max_token w" if "w \<in> set wss" for w using that assms(8) True by (simp add: call_ws_ok_def list_all_iff)
  moreover have "length wss = 8" using assms(8) by (simp add: call_ws_ok_def)
  ultimately show ?thesis
    using v3_rows_spec [where ubs = ubs, OF assms(1,2), of rows wss clk "GetLruV3ProfileEnabled getenv" p] True v3_shape_sizes [OF True]
    unfolding AccOffloadLruCompact_def by (auto simp: call_ws_ok_def list_all_iff)
next
  case False
  have ws: "length wss = LRU_COMPACT_WORKSPACE_THREADS" "\<And>w. w \<in> set wss \<Longrightarrow> ws_wf max_token w"
    using assms(8) False by (simp_all add: call_ws_ok_def list_all_iff LRU_COMPACT_WORKSPACE_THREADS_def)
  show ?thesis
  proof (cases "CanUseProductionPhasedLru (int (length rows)) topk capacity max_token")
    case True
    have "row_wf topk capacity r" if "r \<in> set rows" for r
      using that assms(7) by (simp add: list_all_iff legacy_ok_def cache_ok_def)
    from launch_phased_spec [OF assms(1) True refl this ws] show ?thesis
      using False True
      by (auto simp: AccOffloadLruCompact_def OffloadOpsLruCompact_def call_ws_ok_def list_all_iff LRU_COMPACT_WORKSPACE_THREADS_def)
  next
    case no_phased: False
    then show ?thesis
      using offload_compact_spec [OF assms(1,3-7) ws] False unfolding AccOffloadLruCompact_def by simp
  qed
qed

lemma acc_resident_addrs_spec:
  assumes "simt_ok m" "ra_cfg_ok cfg" "\<forall>row \<in> set rows. ra_wf cfg row" "ra_fits cfg rows out" "rows \<noteq> []"
  shows "AccOffloadComputeLruResidentAddrs m p cfg (int (length rows)) rows out = Some (ra_spec cfg rows out)"
proof (cases "IsResidentAddrsParallelShape (int (length rows)) (ra_topk cfg)")
  case True
  then obtain row where row: "rows = [row]" by (auto simp: IsResidentAddrsParallelShape_def length_Suc_conv)
  have topk: "ra_topk cfg \<le> RESIDENT_ADDRS_MAX_TOPK" "0 < ra_topk cfg"
    using True by (simp_all add: IsResidentAddrsParallelShape_def RESIDENT_ADDRS_MAX_TOPK_def)
  then show ?thesis
    using resident_addrs_mixed [OF assms(1,2) _ _ topk(1), of row out p] assms(3,4) True
    by (simp add: AccOffloadComputeLruResidentAddrs_def OffloadOpsComputeLruResidentAddrsMixedParallel_def row rd_def)
next
  case False
  then show ?thesis using resident_addrs_simt [OF assms] by (simp add: AccOffloadComputeLruResidentAddrs_def)
qed


section \<open>One decoding step\<close>

definition miss_rows :: "lru_row list \<Rightarrow> int list list \<Rightarrow> ra_row list" where
  "miss_rows rows tables = map2 (\<lambda>r table. \<lparr>ra_miss_count = miss_count r, ra_miss_tokens = miss_tokens r,
     ra_miss_slots = miss_slots r, block_table = table\<rparr>) rows tables"

text \<open>SparseCopy reads the buffers ResidentAddrs wrote; the count is read as unsigned.\<close>

definition copy_args :: "ra_out \<Rightarrow> sc_args" where
  "copy_args out = \<lparr>sc_inputs = gvas_buffer out, sc_outputs = addr_buffer out, sc_lens = map nat (size_buffer out),
     sc_size = nat (num_tokens_buffer out mod 2 ^ 32)\<rparr>"

definition decode_step ::
  "simt \<Rightarrow> aiv \<Rightarrow> (string \<Rightarrow> string option) \<Rightarrow> (nat \<Rightarrow> int \<times> int) \<Rightarrow> (nat \<Rightarrow> v3_ub) \<Rightarrow> nat \<Rightarrow> ra_cfg \<Rightarrow> int \<Rightarrow> int list list \<Rightarrow>
    lru_row list \<times> lru_ws list \<times> ra_out \<times> gm \<Rightarrow> (lru_row list \<times> lru_ws list \<times> ra_out \<times> gm) option" where
  "decode_step m d getenv clk ubs p cfg max_token tables = (\<lambda>(rows, wss, out, mem). do {
     (rows, wss) \<leftarrow> AccOffloadLruCompact m getenv clk ubs p (int (length rows)) (ra_topk cfg) (resident_capacity cfg) max_token (rows, wss);
     out \<leftarrow> AccOffloadComputeLruResidentAddrs m p cfg (int (length rows)) (miss_rows rows tables) out;
     mem \<leftarrow> AccOffloadSparseCopy m d p (copy_args out) mem;
     Some (rows, wss, out, mem) })"

text \<open>The descriptor of token \<open>t\<close> in slot \<open>s\<close> of row \<open>r\<close>; and what it means that slots hold their tokens.\<close>

definition desc :: "ra_cfg \<Rightarrow> int list list \<Rightarrow> nat \<Rightarrow> int \<Rightarrow> int \<Rightarrow> nat \<times> int \<times> int \<times> int" where
  "desc cfg tables r t s = (r, t, s, tables ! r ! nat (t div block_size cfg))"

definition holds :: "ra_cfg \<Rightarrow> gm \<Rightarrow> nat \<times> int \<times> int \<times> int \<Rightarrow> bool" where
  "holds cfg mem x \<longleftrightarrow>
     (\<forall>j < nat (token_size_bytes_k cfg). mem (addr_k cfg x + int j) = mem (gva_k cfg x + int j)) \<and>
     (\<forall>j < nat (token_size_bytes_v cfg). mem (addr_v cfg x + int j) = mem (gva_v cfg x + int j))"

text \<open>What a step may rely on: the slots of a request that goes on hold their tokens below the stable prefix. New
  requests and speculative tokens need not.\<close>

definition kv_stable :: "ra_cfg \<Rightarrow> int \<Rightarrow> int list list \<Rightarrow> lru_row list \<Rightarrow> gm \<Rightarrow> bool" where
  "kv_stable cfg max_token tables rows mem \<longleftrightarrow>
     (\<forall>r < length rows. \<forall>s < nat (resident_capacity cfg). let t = slot_to_token (rows ! r) ! s in
        last_req_id (rows ! r) = req_id (rows ! r) \<and> tok_ok max_token t \<and>
        t < clamp_prefix max_token (stable_prefix_len (rows ! r)) \<longrightarrow>
        holds cfg mem (desc cfg tables r t (int s)))"

definition kv_ok :: "ra_cfg \<Rightarrow> int \<Rightarrow> int list list \<Rightarrow> lru_row list \<Rightarrow> gm \<Rightarrow> bool" where
  "kv_ok cfg max_token tables rows mem \<longleftrightarrow>
     (\<forall>r < length rows. \<forall>s < nat (resident_capacity cfg). tok_ok max_token (slot_to_token (rows ! r) ! s) \<longrightarrow>
        holds cfg mem (desc cfg tables r (slot_to_token (rows ! r) ! s) (int s)))"

text \<open>The memory layout: the resident buffers of K and V do not overlap, every token below \<open>max_token\<close> has a
  block in the pool, and the pool lies outside the resident buffers.\<close>

definition resident_k :: "ra_cfg \<Rightarrow> nat \<Rightarrow> int set" where
  "resident_k cfg n = region (addr_k_base cfg) (n * nat (resident_capacity cfg) * nat (token_size_bytes_k cfg))"

definition resident_v :: "ra_cfg \<Rightarrow> nat \<Rightarrow> int set" where
  "resident_v cfg n = region (addr_v_base cfg) (n * nat (resident_capacity cfg) * nat (token_size_bytes_v cfg))"

definition pool_ok :: "ra_cfg \<Rightarrow> int \<Rightarrow> int list list \<Rightarrow> nat \<Rightarrow> gm \<Rightarrow> bool" where
  "pool_ok cfg max_token tables n mem \<longleftrightarrow>
     0 < token_size_bytes_k cfg \<and> token_size_bytes_k cfg < 2 ^ 32 \<and> 0 < token_size_bytes_v cfg \<and> token_size_bytes_v cfg < 2 ^ 32 \<and>
     resident_k cfg n \<inter> resident_v cfg n = {} \<and> (\<forall>x \<in> resident_k cfg n \<union> resident_v cfg n. mem x \<noteq> None) \<and>
     length tables = n \<and>
     (\<forall>r < n. int (length (tables ! r)) = max_num_blocks cfg \<and>
       (\<forall>t. tok_ok max_token t \<longrightarrow> (let x = desc cfg tables r t 0 in
          t div block_size cfg < max_num_blocks cfg \<and> 0 \<le> tables ! r ! nat (t div block_size cfg) \<and>
          mapped mem (gva_k cfg x) (nat (token_size_bytes_k cfg)) \<and> mapped mem (gva_v cfg x) (nat (token_size_bytes_v cfg)) \<and>
          region (gva_k cfg x) (nat (token_size_bytes_k cfg)) \<inter> (resident_k cfg n \<union> resident_v cfg n) = {} \<and>
          region (gva_v cfg x) (nat (token_size_bytes_v cfg)) \<inter> (resident_k cfg n \<union> resident_v cfg n) = {})))"

subsection \<open>Slots in memory\<close>

lemma slot_index:
  assumes "r < n" "slot_ok cap s"
  shows "0 \<le> int r * cap + s" "int r * cap + s < int (n * nat cap)"
proof -
  have s: "0 \<le> s" "s < cap" using assms(2) by (simp_all add: slot_ok_def)
  then show "0 \<le> int r * cap + s" by simp
  have "int r * cap + s < int (Suc r) * cap" using s by (simp add: algebra_simps)
  also have "\<dots> \<le> int n * cap" using assms(1) s by (intro mult_right_mono) simp_all
  also have "\<dots> = int (n * nat cap)" using s by simp
  finally show "int r * cap + s < int (n * nat cap)" .
qed

lemma slot_index_inj:
  assumes "slot_ok cap s" "slot_ok cap s'" "int r * cap + s = int r' * cap + s'"
  shows "r = r' \<and> s = s'"
proof -
  have s: "0 \<le> s" "s < cap" "0 \<le> s'" "s' < cap" using assms(1,2) by (simp_all add: slot_ok_def)
  have "(int r * cap + s) div cap = int r" "(int r' * cap + s') div cap = int r'" using s by simp_all
  then have "int r = int r'" using assms(3) by simp
  then show ?thesis using assms(3) by simp
qed

lemma cell_region:
  assumes "0 \<le> i" "i < int N"
  shows "region (base + i * int k) k \<subseteq> region base (N * k)"
proof
  fix x assume "x \<in> region (base + i * int k) k"
  then have x: "base + i * int k \<le> x" "x < base + i * int k + int k" by (simp_all add: region_def)
  have "0 \<le> i * int k" using assms(1) by simp
  moreover have "(i + 1) * int k \<le> int N * int k" using assms(2) by (intro mult_right_mono) simp_all
  then have "i * int k + int k \<le> int (N * k)" by (simp add: algebra_simps)
  ultimately show "x \<in> region base (N * k)" using x by (simp add: region_def)
qed

lemma cell_disjoint:
  assumes "i \<noteq> j"
  shows "region (base + i * int k) k \<inter> region (base + j * int k) k = {}"
proof -
  have *: "region (base + i * int k) k \<inter> region (base + j * int k) k = {}" if "i < j" for i j
  proof -
    have "(i + 1) * int k \<le> j * int k" using that by (intro mult_right_mono) simp_all
    then show ?thesis by (auto simp: region_def algebra_simps)
  qed
  show ?thesis using *[of i j] *[of j i] assms by (cases "i < j") auto
qed

lemma addr_region:
  assumes "0 < token_size_bytes_k cfg" "0 < token_size_bytes_v cfg" "r < n" "slot_ok (resident_capacity cfg) s"
  shows "region (addr_k cfg (r, t, s, b)) (nat (token_size_bytes_k cfg)) \<subseteq> resident_k cfg n"
    "region (addr_v cfg (r, t, s, b)) (nat (token_size_bytes_v cfg)) \<subseteq> resident_v cfg n"
  unfolding resident_k_def resident_v_def
  using cell_region [OF slot_index [OF assms(3,4)], of "addr_k_base cfg" "nat (token_size_bytes_k cfg)"]
    cell_region [OF slot_index [OF assms(3,4)], of "addr_v_base cfg" "nat (token_size_bytes_v cfg)"] assms(1,2) by simp_all

lemma addr_disjoint:
  assumes "0 < token_size_bytes_k cfg" "0 < token_size_bytes_v cfg"
    and "slot_ok (resident_capacity cfg) s" "slot_ok (resident_capacity cfg) s'" "(r, s) \<noteq> (r', s')"
  shows "region (addr_k cfg (r, t, s, b)) (nat (token_size_bytes_k cfg)) \<inter>
      region (addr_k cfg (r', t', s', b')) (nat (token_size_bytes_k cfg)) = {}"
    "region (addr_v cfg (r, t, s, b)) (nat (token_size_bytes_v cfg)) \<inter>
      region (addr_v cfg (r', t', s', b')) (nat (token_size_bytes_v cfg)) = {}"
proof -
  have "int r * resident_capacity cfg + s \<noteq> int r' * resident_capacity cfg + s'"
    using slot_index_inj [OF assms(3,4), of r r'] assms(5) by blast
  then show "region (addr_k cfg (r, t, s, b)) (nat (token_size_bytes_k cfg)) \<inter>
      region (addr_k cfg (r', t', s', b')) (nat (token_size_bytes_k cfg)) = {}"
    "region (addr_v cfg (r, t, s, b)) (nat (token_size_bytes_v cfg)) \<inter>
      region (addr_v cfg (r', t', s', b')) (nat (token_size_bytes_v cfg)) = {}"
    using assms(1,2) cell_disjoint [of _ _ "addr_k_base cfg" "nat (token_size_bytes_k cfg)"]
      cell_disjoint [of _ _ "addr_v_base cfg" "nat (token_size_bytes_v cfg)"] by simp_all
qed


subsection \<open>The work list of a step\<close>

text \<open>The misses of one row after Compact: token and slot of each.\<close>

definition assigned_misses :: "lru_row \<Rightarrow> (int \<times> int) list" where
  "assigned_misses r = zip (take (nat (miss_count r)) (miss_tokens r)) (take (nat (miss_count r)) (miss_slots r))"

lemma compact_misses:
  assumes "cache_ok topk capacity max_token r" "r' = compact_spec capacity max_token r"
  shows "int (length (miss_tokens r')) = topk" "int (length (miss_slots r')) = topk" "0 \<le> miss_count r'" "miss_count r' \<le> topk"
    "distinct (map snd (assigned_misses r'))"
    "(t, s) \<in> set (assigned_misses r') \<Longrightarrow> tok_ok max_token t \<and> slot_ok capacity s \<and> slot_to_token r' ! nat s = t"
    "slot_ok capacity s \<Longrightarrow> s \<notin> snd ` set (assigned_misses r') \<Longrightarrow> tok_ok max_token (slot_to_token r' ! nat s) \<Longrightarrow>
      slot_to_token r' ! nat s = slot_to_token r ! nat s \<and> last_req_id r = req_id r \<and>
      slot_to_token r ! nat s < clamp_prefix max_token (stable_prefix_len r)"
proof -
  have wf: "row_wf topk capacity r" using assms(1) by (simp add: cache_ok_def)
  have "row_wf topk capacity r'" using compact_spec_row_wf [OF wf] assms(2) by simp
  then show len: "int (length (miss_tokens r')) = topk" "int (length (miss_slots r')) = topk" by (simp_all add: row_wf_def)
  let ?s2t = "sp_invalidate max_token (clamp_prefix max_token (stable_prefix_len r)) (sp_slots capacity r)"
  let ?tks = "topk_indices r"
  obtain cur ev hits ms n where call: "call_lists max_token capacity ?tks ?s2t (sp_lru capacity r) = (cur, ev, hits, ms, n)"
    by (metis surj_pair)
  have r': "r' = compact_lists max_token capacity ?tks ?s2t (sp_lru capacity r) (r\<lparr>last_req_id := req_id r\<rparr>)"
    using assms(2) by (simp add: compact_spec_def)
  note fields = compact_lists_fields [OF call r']
  have parts: "ev = sp_evictable max_token capacity ?tks ?s2t (sp_lru capacity r)" "ms = sp_misses max_token ?tks cur"
    "n \<le> length ms" "n \<le> length ev"
    using call by (auto simp: call_lists_def Let_def)
  have tl: "int (length ?tks) = topk" and sl: "int (length ?s2t) = capacity" and dl: "distinct (filter (slot_ok capacity) (sp_lru capacity r))"
    using row_wf_inputs [OF wf] by simp_all
  have msl: "length ms \<le> length ?tks" using sp_misses_props(1) [of max_token ?tks cur] parts(2) by simp
  show "0 \<le> miss_count r'" "miss_count r' \<le> topk" using fields(4) parts(3) msl tl by simp_all
  have a: "assigned_misses r' = zip (map ((!) ?tks) (take n ms)) (take n ev)"
    using parts(3,4) msl unfolding assigned_misses_def fields nat_int by (simp add: pad_def take_map)
  have l: "length (map ((!) ?tks) (take n ms)) = length (take n ev)" using parts(3,4) by simp
  show "distinct (map snd (assigned_misses r'))"
    unfolding a map_snd_zip [OF l] unfolding parts(1) using distinct_evictable(1) [OF dl] by (rule distinct_take)
  show "tok_ok max_token t \<and> slot_ok capacity s \<and> slot_to_token r' ! nat s = t" if ts: "(t, s) \<in> set (assigned_misses r')" for t s
  proof -
    obtain i where i: "i < n" "t = ?tks ! (ms ! i)" "s = ev ! i"
      using ts parts(3,4) unfolding a by (auto simp: in_set_zip)
    have "tok_ok max_token t" using sp_misses_props(3) [of "ms ! i" max_token ?tks cur] i parts(2,3) by simp
    then show ?thesis using compact_assigned(2,3) [OF call r' sl dl i(1)] i by simp
  qed
  show "slot_to_token r' ! nat s = slot_to_token r ! nat s \<and> last_req_id r = req_id r \<and>
      slot_to_token r ! nat s < clamp_prefix max_token (stable_prefix_len r)"
    if s: "slot_ok capacity s" "s \<notin> snd ` set (assigned_misses r')" "tok_ok max_token (slot_to_token r' ! nat s)" for s
  proof -
    have "snd ` set (assigned_misses r') = set (take n ev)" using map_snd_zip [OF l] unfolding a by (metis set_map)
    then have frame: "slot_to_token r' ! nat s = ?s2t ! nat s" using compact_frame [OF call r' s(1)] s(2) by simp
    have "nat s < length ?s2t" using sl s(1) by (auto simp: slot_ok_def)
    then show ?thesis
      using s(3) unfolding frame by (auto simp: sp_invalidate_def sp_slots_def tok_ok_def split: if_splits)
  qed
qed

lemma miss_row_items:
  assumes cfg: "ra_cfg_ok cfg" and len: "int (length toks) = ra_topk cfg" "int (length slots) = ra_topk cfg" "0 \<le> c" "c \<le> ra_topk cfg"
    and ok: "\<And>t s. (t, s) \<in> set (zip (take (nat c) toks) (take (nat c) slots)) \<Longrightarrow>
      0 \<le> t \<and> slot_ok (resident_capacity cfg) s \<and> t div block_size cfg < max_num_blocks cfg \<and> 0 \<le> table ! nat (t div block_size cfg)"
  shows "row_items cfg \<lparr>ra_miss_count = c, ra_miss_tokens = toks, ra_miss_slots = slots, block_table = table\<rparr> =
    map (\<lambda>(t, s). (t, s, table ! nat (t div block_size cfg))) (zip (take (nat c) toks) (take (nat c) slots))"
proof -
  let ?row = "\<lparr>ra_miss_count = c, ra_miss_tokens = toks, ra_miss_slots = slots, block_table = table\<rparr>"
  let ?f = "\<lambda>(t, s). (t, s, table ! nat (t div block_size cfg))"
  have it: "item_of cfg ?row i = Some (?f (toks ! i, slots ! i))" if "i < nat c" for i
  proof -
    have "(toks ! i, slots ! i) \<in> set (zip (take (nat c) toks) (take (nat c) slots))"
      using that len by (auto simp: in_set_zip intro!: exI [of _ i])
    from ok [OF this] show ?thesis by (simp add: item_of_def Let_def slot_ok_def)
  qed
  have "items_upto cfg ?row k = map ?f (zip (take k toks) (take k slots))" if "k \<le> nat c" for k
    using that
  proof (induction k)
    case (Suc k)
    have "k < length toks" "k < length slots" using Suc.prems len by linarith+
    then show ?case using Suc it [of k] by (simp add: items_upto_Suc take_Suc_conv_app_nth)
  qed simp
  moreover have "ra_count cfg ?row = c" using len(3,4) by (simp add: ra_count_def)
  ultimately show ?thesis by (simp add: row_items_def)
qed


text \<open>A work list is sound for \<open>n\<close> rows when its descriptors name tokens of the pool and different slots.\<close>

definition desc_slot :: "nat \<times> int \<times> int \<times> int \<Rightarrow> nat \<times> int" where
  "desc_slot = (\<lambda>(r, t, s, b). (r, s))"

definition descs_ok :: "ra_cfg \<Rightarrow> int \<Rightarrow> int list list \<Rightarrow> nat \<Rightarrow> (nat \<times> int \<times> int \<times> int) list \<Rightarrow> bool" where
  "descs_ok cfg max_token tables n ds \<longleftrightarrow> distinct (map desc_slot ds) \<and>
     (\<forall>x \<in> set ds. \<exists>r t s. x = desc cfg tables r t s \<and> r < n \<and> tok_ok max_token t \<and> slot_ok (resident_capacity cfg) s)"

lemma set_desc_concat:
  "x \<in> set (concat (map (\<lambda>r. map (\<lambda>(t, s). desc cfg tables r t s) (A r)) [0..<N])) \<longleftrightarrow>
    (\<exists>r t s. r < N \<and> (t, s) \<in> set (A r) \<and> x = desc cfg tables r t s)" (is "?L \<longleftrightarrow> ?R")
proof
  assume ?L
  then obtain r y where "r < N" "y \<in> set (A r)" "x = (\<lambda>(t, s). desc cfg tables r t s) y" by auto
  then show ?R by (cases y) auto
next
  assume ?R
  then show ?L by force
qed

lemma step_descs:
  assumes cfg: "ra_cfg_ok cfg" and rows: "list_all (cache_ok (ra_topk cfg) (resident_capacity cfg) max_token) rows"
    and rows': "rows' = map (compact_spec (resident_capacity cfg) max_token) rows" and pool: "pool_ok cfg max_token tables (length rows) mem"
  shows "descs cfg (miss_rows rows' tables) =
      concat (map (\<lambda>r. map (\<lambda>(t, s). desc cfg tables r t s) (assigned_misses (rows' ! r))) [0..<length rows])"
    and "descs_ok cfg max_token tables (length rows) (descs cfg (miss_rows rows' tables))"
    and "\<forall>row \<in> set (miss_rows rows' tables). ra_wf cfg row" "length (miss_rows rows' tables) = length rows"
proof -
  let ?N = "length rows" and ?cap = "resident_capacity cfg" and ?mr = "miss_rows rows' tables"
  have tl: "length tables = ?N" using pool by (simp add: pool_ok_def)
  have pool_t: "t div block_size cfg < max_num_blocks cfg" "0 \<le> tables ! r ! nat (t div block_size cfg)"
    if "r < ?N" "tok_ok max_token t" for r t
    using pool that by (simp_all add: pool_ok_def Let_def)
  have c: "cache_ok (ra_topk cfg) ?cap max_token (rows ! r)" "rows' ! r = compact_spec ?cap max_token (rows ! r)" if "r < ?N" for r
    using rows that rows' by (simp_all add: list_all_length)
  show len: "length ?mr = ?N" using tl rows' by (simp add: miss_rows_def)
  have mr: "?mr ! r = \<lparr>ra_miss_count = miss_count (rows' ! r), ra_miss_tokens = miss_tokens (rows' ! r),
     ra_miss_slots = miss_slots (rows' ! r), block_table = tables ! r\<rparr>" if "r < ?N" for r
    using that tl rows' by (simp add: miss_rows_def)
  have wf: "ra_wf cfg (?mr ! r)" if "r < ?N" for r
    using compact_misses(1,2) [OF c [OF that]] pool that by (simp add: mr ra_wf_def pool_ok_def)
  then show "\<forall>row \<in> set ?mr. ra_wf cfg row" using len by (auto simp: in_set_conv_nth)
  have items: "row_items cfg (?mr ! r) = map (\<lambda>(t, s). (t, s, tables ! r ! nat (t div block_size cfg))) (assigned_misses (rows' ! r))"
    if r: "r < ?N" for r
    unfolding mr [OF r] assigned_misses_def
  proof (rule miss_row_items [OF cfg compact_misses(1-4) [OF c [OF r]]])
    fix t s assume "(t, s) \<in> set (zip (take (nat (miss_count (rows' ! r))) (miss_tokens (rows' ! r)))
        (take (nat (miss_count (rows' ! r))) (miss_slots (rows' ! r))))"
    then have ts: "tok_ok max_token t \<and> slot_ok ?cap s"
      using compact_misses(6) [OF c [OF r]] by (simp add: assigned_misses_def)
    then have "0 \<le> t" by (simp add: tok_ok_def)
    then show "0 \<le> t \<and> slot_ok ?cap s \<and> t div block_size cfg < max_num_blocks cfg \<and> 0 \<le> tables ! r ! nat (t div block_size cfg)"
      using ts pool_t [OF r] by blast
  qed
  show eq: "descs cfg ?mr = concat (map (\<lambda>r. map (\<lambda>(t, s). desc cfg tables r t s) (assigned_misses (rows' ! r))) [0..<?N])"
    unfolding descs_def len by (intro arg_cong [of _ _ concat] map_cong) (auto simp: items desc_def)
  have "distinct (map desc_slot (descs cfg ?mr))"
  proof -
    have "map desc_slot (descs cfg ?mr) = concat (map (\<lambda>r. map (Pair r) (map snd (assigned_misses (rows' ! r)))) [0..<?N])"
      unfolding eq map_concat map_map comp_def by (intro arg_cong [of _ _ concat] map_cong) (auto simp: desc_slot_def desc_def)
    moreover have "distinct \<dots>"
      by (rule distinct_concat_map) (use compact_misses(5) [OF c] in \<open>auto simp: distinct_map inj_on_def\<close>)
    ultimately show ?thesis by simp
  qed
  moreover have "\<exists>r t s. x = desc cfg tables r t s \<and> r < ?N \<and> tok_ok max_token t \<and> slot_ok ?cap s" if x: "x \<in> set (descs cfg ?mr)" for x
  proof -
    obtain r t s where "r < ?N" "(t, s) \<in> set (assigned_misses (rows' ! r))" "x = desc cfg tables r t s"
      using x unfolding eq set_desc_concat by blast
    then show ?thesis using compact_misses(6) [OF c] by blast
  qed
  ultimately show "descs_ok cfg max_token tables ?N (descs cfg ?mr)" by (auto simp: descs_ok_def)
qed

lemma copy_args_nth:
  fixes cfg rows out
  defines "ds \<equiv> descs cfg rows" and "a \<equiv> copy_args (ra_spec cfg rows out)"
  assumes "room cfg rows out" "k < length ds"
  shows "sc_inputs a ! k = gva_k cfg (ds ! k)" "sc_outputs a ! k = addr_k cfg (ds ! k)" "sc_lens a ! k = nat (token_size_bytes_k cfg)"
    "sc_inputs a ! (length ds + k) = gva_v cfg (ds ! k)" "sc_outputs a ! (length ds + k) = addr_v cfg (ds ! k)"
    "sc_lens a ! (length ds + k) = nat (token_size_bytes_v cfg)"
  using assms(3,4) unfolding a_def copy_args_def ra_spec_def Let_def ds_def [symmetric]
  by (simp_all add: packed_def nth_append)

lemma index_cases:
  fixes n :: nat
  assumes "i < 2 * n"
  obtains (k) k where "k < n" "i = k" | (v) k where "k < n" "i = n + k"
proof (cases "i < n")
  case False
  then have "i = n + (i - n)" "i - n < n" using assms by linarith+
  then show ?thesis using v by blast
qed (use k in blast)

lemma step_args_ok:
  assumes ok: "descs_ok cfg max_token tables n (descs cfg rows)" and pool: "pool_ok cfg max_token tables n mem"
    and room: "room cfg rows out" and "2 * length (descs cfg rows) < 2 ^ 31"
  shows "sc_size (copy_args (ra_spec cfg rows out)) = 2 * length (descs cfg rows)" "sc_ok mem (copy_args (ra_spec cfg rows out))"
proof -
  let ?ds = "descs cfg rows" and ?a = "copy_args (ra_spec cfg rows out)"
  let ?n = "length ?ds" and ?tk = "nat (token_size_bytes_k cfg)" and ?tv = "nat (token_size_bytes_v cfg)"
  let ?Res = "resident_k cfg n \<union> resident_v cfg n"
  show sz: "sc_size ?a = 2 * ?n" using assms(4) by (simp add: copy_args_def ra_spec_def Let_def)
  have size: "0 < token_size_bytes_k cfg" "0 < token_size_bytes_v cfg" "?tk < 2 ^ 32" "?tv < 2 ^ 32"
    using pool by (auto simp: pool_ok_def nat_less_iff)
  have res: "resident_k cfg n \<inter> resident_v cfg n = {}" "\<And>x. x \<in> ?Res \<Longrightarrow> mem x \<noteq> None" using pool by (auto simp: pool_ok_def)
  note nth = copy_args_nth [OF room]
  have src: "mapped mem (gva_k cfg (?ds ! k)) ?tk" "mapped mem (gva_v cfg (?ds ! k)) ?tv"
    "region (gva_k cfg (?ds ! k)) ?tk \<inter> ?Res = {}" "region (gva_v cfg (?ds ! k)) ?tv \<inter> ?Res = {}"
    and dst: "region (addr_k cfg (?ds ! k)) ?tk \<subseteq> resident_k cfg n" "region (addr_v cfg (?ds ! k)) ?tv \<subseteq> resident_v cfg n"
    if k: "k < ?n" for k
  proof -
    obtain r t s where x: "?ds ! k = desc cfg tables r t s" "r < n" "tok_ok max_token t" "slot_ok (resident_capacity cfg) s"
      using ok nth_mem [OF k] by (auto simp: descs_ok_def)
    then show "region (addr_k cfg (?ds ! k)) ?tk \<subseteq> resident_k cfg n" "region (addr_v cfg (?ds ! k)) ?tv \<subseteq> resident_v cfg n"
      using addr_region [OF size(1,2) x(2,4)] by (simp_all add: desc_def)
    show "mapped mem (gva_k cfg (?ds ! k)) ?tk" "mapped mem (gva_v cfg (?ds ! k)) ?tv"
      "region (gva_k cfg (?ds ! k)) ?tk \<inter> ?Res = {}" "region (gva_v cfg (?ds ! k)) ?tv \<inter> ?Res = {}"
      using pool x by (simp_all add: pool_ok_def Let_def desc_def)
  qed
  have mapped_dst: "mapped mem (addr_k cfg (?ds ! k)) ?tk" "mapped mem (addr_v cfg (?ds ! k)) ?tv" if "k < ?n" for k
    unfolding mapped_def using res(2) dst [OF that] region_iff by blast+
  have apart: "region (addr_k cfg (?ds ! k)) ?tk \<inter> region (addr_k cfg (?ds ! l)) ?tk = {}"
    "region (addr_v cfg (?ds ! k)) ?tv \<inter> region (addr_v cfg (?ds ! l)) ?tv = {}" if kl: "k < ?n" "l < ?n" "k \<noteq> l" for k l
  proof -
    obtain r t s where x: "?ds ! k = desc cfg tables r t s" "slot_ok (resident_capacity cfg) s"
      using ok nth_mem [OF kl(1)] by (auto simp: descs_ok_def)
    obtain r' t' s' where y: "?ds ! l = desc cfg tables r' t' s'" "slot_ok (resident_capacity cfg) s'"
      using ok nth_mem [OF kl(2)] by (auto simp: descs_ok_def)
    have "map desc_slot ?ds ! k \<noteq> map desc_slot ?ds ! l" 
      using ok kl nth_eq_iff_index_eq [of "map desc_slot ?ds" k l] unfolding descs_ok_def length_map by blast
    then have ne: "(r, s) \<noteq> (r', s')" using kl x(1) y(1) by (auto simp: desc_slot_def desc_def)
    show "region (addr_k cfg (?ds ! k)) ?tk \<inter> region (addr_k cfg (?ds ! l)) ?tk = {}"
      "region (addr_v cfg (?ds ! k)) ?tv \<inter> region (addr_v cfg (?ds ! l)) ?tv = {}"
      unfolding x(1) y(1) desc_def by (rule addr_disjoint [OF size(1,2) x(2) y(2) ne])+
  qed
  have len: "2 * ?n \<le> length (sc_inputs ?a)" "2 * ?n \<le> length (sc_outputs ?a)" "2 * ?n \<le> length (sc_lens ?a)"
    by (simp_all add: copy_args_def ra_spec_def Let_def packed_def)
  have D: "sc_dst ?a k = region (addr_k cfg (?ds ! k)) ?tk" "sc_dst ?a (?n + k) = region (addr_v cfg (?ds ! k)) ?tv"
    "sc_src ?a k = region (gva_k cfg (?ds ! k)) ?tk" "sc_src ?a (?n + k) = region (gva_v cfg (?ds ! k)) ?tv" if "k < ?n" for k
    using nth [OF that] by (simp_all add: sc_dst_def sc_src_def)
  have dst_res: "sc_dst ?a j \<subseteq> ?Res" if j: "j < 2 * ?n" for j
  proof (cases rule: index_cases [OF j])
    case (1 k)
    then show ?thesis using D(1) [of k] dst(1) [of k] by (simp add: le_supI1)
  next
    case (2 k)
    then show ?thesis using D(2) [of k] dst(2) [of k] by (simp add: le_supI2)
  qed
  have src_res: "sc_src ?a j \<inter> ?Res = {}" if j: "j < 2 * ?n" for j
  proof (cases rule: index_cases [OF j])
    case (1 k)
    then show ?thesis using D(3) [of k] src(3) [of k] by simp
  next
    case (2 k)
    then show ?thesis using D(4) [of k] src(4) [of k] by simp
  qed
  have each: "sc_lens ?a ! i < 2 ^ 32 \<and> mapped mem (sc_inputs ?a ! i) (sc_lens ?a ! i) \<and> mapped mem (sc_outputs ?a ! i) (sc_lens ?a ! i)"
    if i: "i < 2 * ?n" for i
  proof (cases rule: index_cases [OF i])
    case (1 k)
    then show ?thesis using nth(1-3) [of k] src(1) [of k] mapped_dst(1) [of k] size(3) by simp
  next
    case (2 k)
    then show ?thesis using nth(4-6) [of k] src(2) [of k] mapped_dst(2) [of k] size(4) by simp
  qed
  have kv: "region (addr_k cfg (?ds ! k)) ?tk \<inter> region (addr_v cfg (?ds ! l)) ?tv = {}" if "k < ?n" "l < ?n" for k l
    using dst(1) [OF that(1)] dst(2) [OF that(2)] res(1) by blast
  have dd: "sc_dst ?a i \<inter> sc_dst ?a j = {}" if ij: "i < 2 * ?n" "j < 2 * ?n" "i \<noteq> j" for i j
  proof (cases rule: index_cases [OF ij(1)])
    case i: (1 k)
    show ?thesis
    proof (cases rule: index_cases [OF ij(2)])
      case (1 l)
      then show ?thesis using D(1) [of k] D(1) [of l] apart(1) [of k l] i ij(3) by simp
    next
      case (2 l)
      then show ?thesis using D(1) [of k] D(2) [of l] kv [of k l] i by simp
    qed
  next
    case i: (2 k)
    show ?thesis
    proof (cases rule: index_cases [OF ij(2)])
      case (1 l)
      then show ?thesis using D(2) [of k] D(1) [of l] kv [of l k] i by (simp add: Int_commute)
    next
      case (2 l)
      then show ?thesis using D(2) [of k] D(2) [of l] apart(2) [of k l] i ij(3) by simp
    qed
  qed
  have sd: "sc_src ?a i \<inter> sc_dst ?a j = {}" if "i < 2 * ?n" "j < 2 * ?n" for i j
    using src_res [OF that(1)] dst_res [OF that(2)] by blast
  have "2 * (sc_size ?a div 2) = 2 * ?n" using sz by simp
  then show "sc_ok mem ?a"
    unfolding sc_ok_def Let_def sz using len each dd sd assms(4) by simp
qed


lemma step_dst:
  assumes "room cfg rows out" "k < length (descs cfg rows)"
  shows "sc_dst (copy_args (ra_spec cfg rows out)) k = region (addr_k cfg (descs cfg rows ! k)) (nat (token_size_bytes_k cfg))"
    "sc_dst (copy_args (ra_spec cfg rows out)) (length (descs cfg rows) + k) =
      region (addr_v cfg (descs cfg rows ! k)) (nat (token_size_bytes_v cfg))"
  using copy_args_nth [OF assms] by (simp_all add: sc_dst_def)

text \<open>What a step leaves untouched: the pool, and every slot without a descriptor.\<close>

lemma step_frame:
  assumes ok: "descs_ok cfg max_token tables n (descs cfg rows)" and pool: "pool_ok cfg max_token tables n mem"
    and room: "room cfg rows out" and i: "i < 2 * length (descs cfg rows)"
  shows "tok_ok max_token t \<Longrightarrow> r < n \<Longrightarrow> x = desc cfg tables r t s \<Longrightarrow>
      region (gva_k cfg x) (nat (token_size_bytes_k cfg)) \<inter> sc_dst (copy_args (ra_spec cfg rows out)) i = {} \<and>
      region (gva_v cfg x) (nat (token_size_bytes_v cfg)) \<inter> sc_dst (copy_args (ra_spec cfg rows out)) i = {}"
    and "(r, s) \<notin> desc_slot ` set (descs cfg rows) \<Longrightarrow> r < n \<Longrightarrow> slot_ok (resident_capacity cfg) s \<Longrightarrow> x = desc cfg tables r t s \<Longrightarrow>
      region (addr_k cfg x) (nat (token_size_bytes_k cfg)) \<inter> sc_dst (copy_args (ra_spec cfg rows out)) i = {} \<and>
      region (addr_v cfg x) (nat (token_size_bytes_v cfg)) \<inter> sc_dst (copy_args (ra_spec cfg rows out)) i = {}"
proof -
  let ?ds = "descs cfg rows" and ?a = "copy_args (ra_spec cfg rows out)"
  let ?tk = "nat (token_size_bytes_k cfg)" and ?tv = "nat (token_size_bytes_v cfg)"
  have size: "0 < token_size_bytes_k cfg" "0 < token_size_bytes_v cfg" and res: "resident_k cfg n \<inter> resident_v cfg n = {}"
    using pool by (auto simp: pool_ok_def)
  obtain k where k: "k < length ?ds" and
    d: "sc_dst ?a i = region (addr_k cfg (?ds ! k)) ?tk \<or> sc_dst ?a i = region (addr_v cfg (?ds ! k)) ?tv"
    using i step_dst [OF room] by (metis index_cases)
  obtain r' t' s' where y: "?ds ! k = desc cfg tables r' t' s'" "r' < n" "slot_ok (resident_capacity cfg) s'"
    using ok nth_mem [OF k] unfolding descs_ok_def by blast
  note reg = addr_region [OF size y(2,3), of t' "tables ! r' ! nat (t' div block_size cfg)"]
  have d': "sc_dst ?a i \<subseteq> resident_k cfg n \<union> resident_v cfg n" using d reg unfolding y(1) desc_def by blast
  show "region (gva_k cfg x) ?tk \<inter> sc_dst ?a i = {} \<and> region (gva_v cfg x) ?tv \<inter> sc_dst ?a i = {}"
    if "tok_ok max_token t" "r < n" "x = desc cfg tables r t s"
  proof -
    have "region (gva_k cfg x) ?tk \<inter> (resident_k cfg n \<union> resident_v cfg n) = {}"
      "region (gva_v cfg x) ?tv \<inter> (resident_k cfg n \<union> resident_v cfg n) = {}"
      using pool that by (simp_all add: pool_ok_def Let_def desc_def)
    then show ?thesis using d' by blast
  qed
  show "region (addr_k cfg x) ?tk \<inter> sc_dst ?a i = {} \<and> region (addr_v cfg x) ?tv \<inter> sc_dst ?a i = {}"
    if s: "(r, s) \<notin> desc_slot ` set ?ds" "r < n" "slot_ok (resident_capacity cfg) s" "x = desc cfg tables r t s"
  proof -
    have "desc_slot (?ds ! k) \<in> desc_slot ` set ?ds" using k by simp
    moreover have "desc_slot (?ds ! k) = (r', s')" by (simp add: y(1) desc_slot_def desc_def)
    ultimately have ne: "(r, s) \<noteq> (r', s')" using s(1) by metis
    note own = addr_region [OF size s(2,3), of t "tables ! r ! nat (t div block_size cfg)"]
    note apart = addr_disjoint [OF size s(3) y(3) ne, of t "tables ! r ! nat (t div block_size cfg)" t' "tables ! r' ! nat (t' div block_size cfg)"]
    show ?thesis using d reg own apart res unfolding y(1) s(4) desc_def by blast
  qed
qed

lemma copied_slot:
  assumes mem': "sc_done mem (copy_args (ra_spec cfg rows out)) {..<2 * length (descs cfg rows)} mem'"
    and room: "room cfg rows out" and x: "x \<in> set (descs cfg rows)"
  shows "j < nat (token_size_bytes_k cfg) \<Longrightarrow> mem' (addr_k cfg x + int j) = mem (gva_k cfg x + int j)"
    "j < nat (token_size_bytes_v cfg) \<Longrightarrow> mem' (addr_v cfg x + int j) = mem (gva_v cfg x + int j)"
proof -
  let ?n = "length (descs cfg rows)" and ?a = "copy_args (ra_spec cfg rows out)"
  obtain k where k: "k < ?n" "x = descs cfg rows ! k" using x by (auto simp: in_set_conv_nth)
  have c: "\<forall>i \<in> {..<2 * ?n}. \<forall>j < sc_lens ?a ! i. mem' (sc_outputs ?a ! i + int j) = mem (sc_inputs ?a ! i + int j)"
    using mem' by (simp add: sc_done_def)
  have "k \<in> {..<2 * ?n}" "?n + k \<in> {..<2 * ?n}" using k(1) by simp_all
  with c copy_args_nth [OF room k(1)]
  show "j < nat (token_size_bytes_k cfg) \<Longrightarrow> mem' (addr_k cfg x + int j) = mem (gva_k cfg x + int j)"
    "j < nat (token_size_bytes_v cfg) \<Longrightarrow> mem' (addr_v cfg x + int j) = mem (gva_v cfg x + int j)"
    unfolding k(2) by metis+
qed

lemma kv_after_copy:
  assumes cfg: "ra_cfg_ok cfg" and rows: "list_all (cache_ok (ra_topk cfg) (resident_capacity cfg) max_token) rows"
    and rows': "rows' = map (compact_spec (resident_capacity cfg) max_token) rows"
    and pool: "pool_ok cfg max_token tables (length rows) mem" and room: "room cfg (miss_rows rows' tables) out"
    and kv: "kv_stable cfg max_token tables rows mem"
    and mem': "sc_done mem (copy_args (ra_spec cfg (miss_rows rows' tables) out)) {..<2 * length (descs cfg (miss_rows rows' tables))} mem'"
  shows "kv_ok cfg max_token tables rows' mem'"
  unfolding kv_ok_def
proof (intro allI impI)
  fix r s assume r: "r < length rows'" and s: "s < nat (resident_capacity cfg)" and t: "tok_ok max_token (slot_to_token (rows' ! r) ! s)"
  let ?mr = "miss_rows rows' tables" and ?a = "copy_args (ra_spec cfg (miss_rows rows' tables) out)"
  let ?t = "slot_to_token (rows' ! r) ! s"
  let ?x = "desc cfg tables r ?t (int s)"
  note sd = step_descs [OF cfg rows rows' pool]
  have rn: "r < length rows" using r rows' by simp
  have c: "cache_ok (ra_topk cfg) (resident_capacity cfg) max_token (rows ! r)"
    "rows' ! r = compact_spec (resident_capacity cfg) max_token (rows ! r)"
    using rn rows rows' by (simp_all add: list_all_length)
  have sok: "slot_ok (resident_capacity cfg) (int s)" using s by (simp add: slot_ok_def)
  have frame: "mem' y = mem y" if "\<And>i. i < 2 * length (descs cfg ?mr) \<Longrightarrow> y \<notin> sc_dst ?a i" for y
    using mem' that by (simp add: sc_done_def)
  have at: "y + int j \<in> region y k" if "j < k" for y j k using that by (simp add: region_def)
  note keep = step_frame [OF sd(2) pool room]
  have pool_same: "mem' (gva_k cfg ?x + int j) = mem (gva_k cfg ?x + int j)" if "j < nat (token_size_bytes_k cfg)" for j
    using keep(1) [OF _ t rn refl] at [OF that] by (intro frame) blast
  have pool_same': "mem' (gva_v cfg ?x + int j) = mem (gva_v cfg ?x + int j)" if "j < nat (token_size_bytes_v cfg)" for j
    using keep(1) [OF _ t rn refl] at [OF that] by (intro frame) blast
  show "holds cfg mem' ?x"
  proof (cases "int s \<in> snd ` set (assigned_misses (rows' ! r))")
    case True
    then obtain t' where t': "(t', int s) \<in> set (assigned_misses (rows' ! r))" by auto
    then have "t' = ?t" using compact_misses(6) [OF c t'] by simp
    then have "?x \<in> set (descs cfg ?mr)" unfolding sd(1) using t' rn by force
    from copied_slot [OF mem' room this] show ?thesis using pool_same pool_same' by (simp add: holds_def)
  next
    case False
    have "(r, int s) \<notin> desc_slot ` set (descs cfg ?mr)"
    proof
      assume "(r, int s) \<in> desc_slot ` set (descs cfg ?mr)"
      then obtain x where "x \<in> set (descs cfg ?mr)" "desc_slot x = (r, int s)" by auto
      then show False using False unfolding sd(1) set_desc_concat by (force simp: desc_slot_def desc_def)
    qed
    note out = keep(2) [OF _ this rn sok refl]
    have "mem' (addr_k cfg ?x + int j) = mem (addr_k cfg ?x + int j)" if "j < nat (token_size_bytes_k cfg)" for j
      using out at [OF that] by (intro frame) blast
    moreover have "mem' (addr_v cfg ?x + int j) = mem (addr_v cfg ?x + int j)" if "j < nat (token_size_bytes_v cfg)" for j
      using out at [OF that] by (intro frame) blast
    moreover have "?t = slot_to_token (rows ! r) ! s \<and> last_req_id (rows ! r) = req_id (rows ! r) \<and>
        ?t < clamp_prefix max_token (stable_prefix_len (rows ! r))"
      using compact_misses(7) [OF c sok False] t by simp
    then have "holds cfg mem ?x" using kv t rn s by (auto simp: kv_stable_def Let_def)
    ultimately show ?thesis using pool_same pool_same' by (simp add: holds_def)
  qed
qed


section \<open>Decoding steps\<close>

text \<open>The state between two steps.\<close>

definition step_ok :: "ra_cfg \<Rightarrow> int \<Rightarrow> int list list \<Rightarrow> lru_row list \<times> lru_ws list \<times> ra_out \<times> gm \<Rightarrow> bool" where
  "step_ok cfg max_token tables = (\<lambda>(rows, wss, out, mem).
     rows \<noteq> [] \<and> list_all (\<lambda>r. cache_ok (ra_topk cfg) (resident_capacity cfg) max_token r \<and> list_all (\<lambda>t. t < max_token) (slot_to_token r)) rows \<and>
     call_ws_ok (int (length rows)) (ra_topk cfg) (resident_capacity cfg) max_token wss \<and>
     ra_fits cfg (miss_rows rows tables) out \<and> pool_ok cfg max_token tables (length rows) mem)"

lemma pool_ok_cong:
  assumes "\<And>x. mem' x \<noteq> None \<longleftrightarrow> mem x \<noteq> None"
  shows "pool_ok cfg max_token tables n mem' \<longleftrightarrow> pool_ok cfg max_token tables n mem"
  unfolding pool_ok_def mapped_def by (simp only: assms)

lemma compact_bound:
  assumes "cache_ok topk capacity max_token r" "list_all (\<lambda>t. t < max_token) (slot_to_token r)" "0 < max_token"
  shows "list_all (\<lambda>t. t < max_token) (slot_to_token (compact_spec capacity max_token r))"
proof -
  let ?r' = "compact_spec capacity max_token r"
  have wf: "row_wf topk capacity r" using assms(1) by (simp add: cache_ok_def)
  let ?s2t = "in_slots capacity max_token r"
  obtain cur ev hits ms n where call: "call_lists max_token capacity (topk_indices r) ?s2t (sp_lru capacity r) = (cur, ev, hits, ms, n)"
    by (metis surj_pair)
  have r': "?r' = compact_lists max_token capacity (topk_indices r) ?s2t (sp_lru capacity r) (r\<lparr>last_req_id := req_id r\<rparr>)"
    by (simp add: compact_spec_def in_slots_def)
  have sl: "int (length ?s2t) = capacity" using row_wf_inputs(2) [OF wf] by (simp add: in_slots_def)
  have n: "n \<le> length ms" "n \<le> length ev" "ms = sp_misses max_token (topk_indices r) cur" using call by (auto simp: call_lists_def Let_def)
  have "slot_to_token ?r' ! i < max_token" if i: "i < length ?s2t" for i
  proof (cases "int i \<in> set (take n ev)")
    case True
    then obtain k where k: "k < n" "int i = ev ! k" using n(2) by (metis in_set_conv_nth length_take min_absorb2 nth_take)
    have "tok_ok max_token (topk_indices r ! (ms ! k))"
      using sp_misses_props(3) [of "ms ! k" max_token "topk_indices r" cur] k(1) n by simp
    then show ?thesis using compact_assigned(2) [OF call r' sl row_wf_inputs(4) [OF wf] k(1)] by (simp add: tok_ok_def flip: k(2))
  next
    case False
    have "slot_ok capacity (int i)" using i sl by (simp add: slot_ok_def)
    from compact_frame [OF call r' this False] have "slot_to_token ?r' ! i = ?s2t ! i" by simp
    then show ?thesis using in_slots_bound [OF assms(2,3) nth_mem [OF i]] by simp
  qed
  moreover have "length (slot_to_token ?r') = length ?s2t" using compact_lists_fields(1) [OF call r'] by simp
  ultimately show ?thesis by (simp add: list_all_length)
qed

lemma decode_step_spec:
  assumes dev: "simt_ok m" "aiv_ok d" "\<And>row. ub_alloc (ubs row)" and cfg: "ra_cfg_ok cfg" "0 < max_token" "ra_topk cfg \<le> resident_capacity cfg"
    and ok: "step_ok cfg max_token tables (rows, wss, out, mem)" and dist: "list_all (\<lambda>r. tokens_distinct max_token (topk_indices r)) rows"
    and kv: "kv_stable cfg max_token tables rows mem"
  shows "\<exists>wss' out' mem'. decode_step m d getenv clk ubs p cfg max_token tables (rows, wss, out, mem) =
      Some (map (compact_spec (resident_capacity cfg) max_token) rows, wss', out', mem') \<and>
    kv_ok cfg max_token tables (map (compact_spec (resident_capacity cfg) max_token) rows) mem' \<and>
    (CanUseProductionPhasedLru (int (length rows)) (ra_topk cfg) (resident_capacity cfg) max_token \<longrightarrow>
      step_ok cfg max_token tables (map (compact_spec (resident_capacity cfg) max_token) rows, wss', out', mem'))"
proof -
  let ?cap = "resident_capacity cfg" and ?topk = "ra_topk cfg"
  let ?rows = "map (compact_spec ?cap max_token) rows"
  let ?mr = "miss_rows ?rows tables" and ?out = "ra_spec cfg (miss_rows (map (compact_spec ?cap max_token) rows) tables) out"
  have cache: "list_all (cache_ok ?topk ?cap max_token) rows" and bound: "list_all (\<lambda>r. list_all (\<lambda>t. t < max_token) (slot_to_token r)) rows"
    and ws: "call_ws_ok (int (length rows)) ?topk ?cap max_token wss" and fits: "ra_fits cfg (miss_rows rows tables) out"
    and pool: "pool_ok cfg max_token tables (length rows) mem" and ne: "rows \<noteq> []"
    using ok by (auto simp: step_ok_def list_all_iff)
  have leg: "list_all (legacy_ok ?topk ?cap max_token) rows"
    using cache bound dist by (simp add: list_all_iff legacy_ok_def)
  have pos: "0 < ?topk" "0 < ?cap" using cfg(1) by (simp_all add: ra_cfg_ok_def)
  obtain wss' where c: "AccOffloadLruCompact m getenv clk ubs p (int (length rows)) ?topk ?cap max_token (rows, wss) = Some (?rows, wss')"
    "CanUseProductionPhasedLru (int (length rows)) ?topk ?cap max_token \<Longrightarrow> call_ws_ok (int (length rows)) ?topk ?cap max_token wss'"
    using acc_compact_spec [where ubs = ubs, OF dev(1,3) pos cfg(2,3) leg ws] by blast
  note sd = step_descs [OF cfg(1) cache refl pool]
  have len: "length (miss_rows rows tables) = length rows" using pool by (simp add: miss_rows_def pool_ok_def)
  have fits': "ra_fits cfg ?mr out" using fits unfolding ra_fits_def sd(4) len .
  have "?mr \<noteq> []" using sd(4) ne by auto
  then have a: "AccOffloadComputeLruResidentAddrs m p cfg (int (length ?rows)) ?mr out = Some ?out"
    using acc_resident_addrs_spec [OF dev(1) cfg(1) sd(3) fits'] sd(4) by simp
  have room: "room cfg ?mr out" by (rule fits_room [OF cfg(1) fits'])
  note args = step_args_ok [OF sd(2) pool room fits_small [OF cfg(1) fits']]
  obtain mem' where mem': "OffloadOpsSparseCopy m d p (copy_args ?out) mem = Some mem'"
    "sc_done mem (copy_args ?out) {..<2 * (sc_size (copy_args ?out) div 2)} mem'"
    using sparse_copy_done [OF dev(1,2) args(2)] by blast
  have all_done: "sc_done mem (copy_args ?out) {..<2 * length (descs cfg ?mr)} mem'" using mem'(2) args(1) by simp
  have kv': "kv_ok cfg max_token tables ?rows mem'"
    by (rule kv_after_copy [OF cfg(1) cache refl pool room kv all_done])
  have "pool_ok cfg max_token tables (length rows) mem'"
    using pool sc_done_mapped [OF mem'(2) args(2)] by (subst pool_ok_cong) auto
  moreover have "list_all (\<lambda>r. cache_ok ?topk ?cap max_token r \<and> list_all (\<lambda>t. t < max_token) (slot_to_token r)) ?rows"
  proof -
    have "cache_ok ?topk ?cap max_token (compact_spec ?cap max_token r) \<and>
        list_all (\<lambda>t. t < max_token) (slot_to_token (compact_spec ?cap max_token r))" if r: "r \<in> set rows" for r
    proof -
      have "cache_ok ?topk ?cap max_token r" "list_all (\<lambda>t. t < max_token) (slot_to_token r)" "tokens_distinct max_token (topk_indices r)"
        using r cache bound dist by (simp_all add: list_all_iff)
      then show ?thesis using compact_spec_cache_ok compact_bound cfg(2) by blast
    qed
    then show ?thesis by (simp add: list_all_iff)
  qed
  moreover have "ra_fits cfg (miss_rows ?rows tables) ?out"
  proof -
    have "length (gvas_buffer ?out) = length (gvas_buffer out)" "length (addr_buffer ?out) = length (addr_buffer out)"
      "length (size_buffer ?out) = length (size_buffer out)"
      using room by (simp_all add: ra_spec_def Let_def packed_def room_def)
    then show ?thesis using fits' by (simp add: ra_fits_def)
  qed
  ultimately have "CanUseProductionPhasedLru (int (length rows)) ?topk ?cap max_token \<longrightarrow>
      step_ok cfg max_token tables (?rows, wss', ?out, mem')"
    using c(2) ne by (simp add: step_ok_def)
  moreover have "decode_step m d getenv clk ubs p cfg max_token tables (rows, wss, out, mem) = Some (?rows, wss', ?out, mem')"
    using c(1) a mem'(1) by (simp add: decode_step_def AccOffloadSparseCopy_def)
  ultimately show ?thesis using kv' by blast
qed


text \<open>A sequence of steps: the decoder feeds every row its next input.\<close>

fun decode_steps ::
  "(lru_row list \<times> lru_ws list \<times> ra_out \<times> gm \<Rightarrow> (lru_row list \<times> lru_ws list \<times> ra_out \<times> gm) option) \<Rightarrow>
    decode_input list list \<Rightarrow> lru_row list \<times> lru_ws list \<times> ra_out \<times> gm \<Rightarrow> (lru_row list \<times> lru_ws list \<times> ra_out \<times> gm) option" where
  "decode_steps step [] st = Some st"
| "decode_steps step (ds # dss) (rows, rest) = do {
     st \<leftarrow> step (map2 feed ds rows, rest);
     decode_steps step dss st }"

lemma feed_rows_ok:
  assumes "step_ok cfg max_token tables (rows, wss, out, mem)" "length ds = length rows" "list_all (input_ok (ra_topk cfg) max_token) ds"
    and "kv_ok cfg max_token tables rows mem"
  shows "step_ok cfg max_token tables (map2 feed ds rows, wss, out, mem)"
    "list_all (\<lambda>r. tokens_distinct max_token (topk_indices r)) (map2 feed ds rows)"
    "kv_stable cfg max_token tables (map2 feed ds rows) mem" "length (map2 feed ds rows) = length rows"
proof -
  let ?rows = "map2 feed ds rows"
  show len: "length ?rows = length rows" using assms(2) by simp
  have nth: "?rows ! i = feed (ds ! i) (rows ! i)" if "i < length rows" for i using that assms(2) by simp
  have c: "cache_ok (ra_topk cfg) (resident_capacity cfg) max_token (?rows ! i) \<and> list_all (\<lambda>t. t < max_token) (slot_to_token (?rows ! i))"
    if "i < length rows" for i
    unfolding nth [OF that] using assms(1-3) that
    by (auto simp: step_ok_def list_all_length feed_cache_ok) (simp add: feed_def list_all_length)
  have "miss_rows ?rows tables = miss_rows rows tables"
    unfolding miss_rows_def using assms(2) by (intro nth_equalityI) (simp_all add: feed_def)
  then show "step_ok cfg max_token tables (?rows, wss, out, mem)"
    using assms(1) c len by (auto simp: step_ok_def list_all_length)
  show "list_all (\<lambda>r. tokens_distinct max_token (topk_indices r)) ?rows"
    using assms(2,3) by (simp add: list_all_length feed_def input_ok_def)
  show "kv_stable cfg max_token tables ?rows mem"
    unfolding kv_stable_def Let_def
  proof (intro allI impI, elim conjE)
    fix r s assume r: "r < length ?rows" and s: "s < nat (resident_capacity cfg)" and t: "tok_ok max_token (slot_to_token (?rows ! r) ! s)"
    have "slot_to_token (?rows ! r) = slot_to_token (rows ! r)" using r len nth by (simp add: feed_def)
    then show "holds cfg mem (desc cfg tables r (slot_to_token (?rows ! r) ! s) (int s))"
      using assms(4) r len s t by (simp add: kv_ok_def)
  qed
qed

section \<open>Properties\<close>



text \<open>A small pool with distinct contents, and a cache whose slots 0 and 2 hold tokens 4 and 2.\<close>

definition kv_example_cfg :: ra_cfg where
  "kv_example_cfg = \<lparr>block_size = 2, token_size_bytes_k = 1, token_size_bytes_v = 1, gvas_k_base = 1000, gvas_v_base = 2000,
     addr_k_base = 0, addr_v_base = 10, resident_capacity = 3, ra_topk = 2, max_num_blocks = 3\<rparr>"

definition kv_example_mem :: gm where
  "kv_example_mem = (\<lambda>x. if 1000 \<le> x \<and> x < 1006 then Some (nat (x - 1000))
     else if 2000 \<le> x \<and> x < 2006 then Some (nat (x - 1900))
     else if x = 0 then Some 4 else if x = 2 then Some 2 else if x = 10 then Some 104 else if x = 12 then Some 102
     else if x = 1 \<or> x = 11 then Some 0 else None)"

definition kv_example_tables :: "int list list" where "kv_example_tables = [[0, 1, 2]]"

definition kv_example :: "lru_row list \<times> lru_ws list \<times> ra_out \<times> gm" where
  "kv_example = ([example_row], replicate 8 example_ws, ra_example_out, kv_example_mem)"

lemma kv_example_pool: "pool_ok kv_example_cfg 5 kv_example_tables 1 kv_example_mem"
proof -
  have res: "resident_k kv_example_cfg 1 = {0..<3}" "resident_v kv_example_cfg 1 = {10..<13}"
    by (simp_all add: resident_k_def resident_v_def kv_example_cfg_def region_def)
  have one: "region a (Suc 0) = {a}" for a by (auto simp: region_def)
  have each: "let x = desc kv_example_cfg kv_example_tables 0 t 0 in
          t div block_size kv_example_cfg < max_num_blocks kv_example_cfg \<and> 0 \<le> kv_example_tables ! 0 ! nat (t div block_size kv_example_cfg) \<and>
          mapped kv_example_mem (gva_k kv_example_cfg x) 1 \<and> mapped kv_example_mem (gva_v kv_example_cfg x) 1 \<and>
          region (gva_k kv_example_cfg x) 1 \<inter> ({0..<3} \<union> {10..<13}) = {} \<and>
          region (gva_v kv_example_cfg x) 1 \<inter> ({0..<3} \<union> {10..<13}) = {}" if "tok_ok 5 t" for t
  proof -
    have "t = 0 \<or> t = 1 \<or> t = 2 \<or> t = 3 \<or> t = 4" using that by (auto simp: tok_ok_def)
    then show ?thesis
      by (elim disjE) (simp_all add: kv_example_cfg_def kv_example_tables_def kv_example_mem_def desc_def mapped_def one)
  qed
  have "kv_example_mem x \<noteq> None" if "x \<in> {0..<3} \<union> {10..<13}" for x
  proof -
    have "x = 0 \<or> x = 1 \<or> x = 2 \<or> x = 10 \<or> x = 11 \<or> x = 12" using that by auto
    then show ?thesis by (elim disjE) (simp_all add: kv_example_mem_def)
  qed
  then show ?thesis
    unfolding pool_ok_def res using each by (simp add: kv_example_cfg_def kv_example_tables_def)
qed

lemma kv_example_ok:
  "ra_cfg_ok kv_example_cfg" "step_ok kv_example_cfg 5 kv_example_tables kv_example"
  "kv_ok kv_example_cfg 5 kv_example_tables [example_row] kv_example_mem"
proof -
  show "ra_cfg_ok kv_example_cfg" by (simp add: ra_cfg_ok_def kv_example_cfg_def)
  have "cache_ok 2 3 5 example_row" by (simp add: cache_ok_def example_wf)
  moreover have "list_all (\<lambda>t. t < 5) (slot_to_token example_row)" by (simp add: example_row_def)
  moreover have "ra_fits kv_example_cfg (miss_rows [example_row] kv_example_tables) ra_example_out"
    by (simp add: ra_fits_def miss_rows_def kv_example_tables_def kv_example_cfg_def ra_example_out_def)
  ultimately show "step_ok kv_example_cfg 5 kv_example_tables kv_example"
    using kv_example_pool
    by (simp add: step_ok_def kv_example_def kv_example_cfg_def call_ws_ok_def IsCompactV3Shape_def list_all_iff example_wf)
  have "s = 0 \<or> s = 1 \<or> s = 2" if "s < nat (resident_capacity kv_example_cfg)" for s using that by (auto simp: kv_example_cfg_def)
  moreover have "tok_ok 5 (slot_to_token example_row ! s) \<longrightarrow>
      holds kv_example_cfg kv_example_mem (desc kv_example_cfg kv_example_tables 0 (slot_to_token example_row ! s) (int s))"
    if "s = 0 \<or> s = 1 \<or> s = 2" for s
    using that by (elim disjE)
      (simp_all add: example_row_def tok_ok_def holds_def desc_def kv_example_cfg_def kv_example_tables_def kv_example_mem_def)
  ultimately show "kv_ok kv_example_cfg 5 kv_example_tables [example_row] kv_example_mem"
    by (simp add: kv_ok_def)
qed

lemma kv_ok_stable: "kv_ok cfg max_token tables rows mem \<Longrightarrow> kv_stable cfg max_token tables rows mem"
  by (simp add: kv_ok_def kv_stable_def Let_def)



text \<open>C1. Any number of decoding steps: with the phased or fused backend the whole run goes through, for every
  sequence of inputs with distinct Top-K tokens, and in the end, as after every step, every slot holds the K/V
  data of its token and the state is again one a step can start from.\<close>

theorem decode_steps_kv:
  assumes "simt_ok m" "aiv_ok d" "\<And>row. ub_alloc (ubs row)" "ra_cfg_ok cfg" "0 < max_token" "ra_topk cfg \<le> resident_capacity cfg"
    and "CanUseProductionPhasedLru (int (length rows)) (ra_topk cfg) (resident_capacity cfg) max_token"
    and "step_ok cfg max_token tables (rows, wss, out, mem)" "kv_ok cfg max_token tables rows mem"
    and "list_all (\<lambda>ds. length ds = length rows \<and> list_all (input_ok (ra_topk cfg) max_token) ds) dss"
  shows "\<exists>rows' wss' out' mem'. decode_steps (decode_step m d getenv clk ubs p cfg max_token tables) dss (rows, wss, out, mem) =
      Some (rows', wss', out', mem') \<and>
    step_ok cfg max_token tables (rows', wss', out', mem') \<and> kv_ok cfg max_token tables rows' mem'"
  using assms(7-10)
proof (induction dss arbitrary: rows wss out mem)
  case (Cons ds dss)
  have ds: "length ds = length rows" "list_all (input_ok (ra_topk cfg) max_token) ds" using Cons.prems(4) by simp_all
  note fed = feed_rows_ok [OF Cons.prems(2) ds Cons.prems(3)]
  let ?rows = "map (compact_spec (resident_capacity cfg) max_token) (map2 feed ds rows)"
  have len: "length ?rows = length rows" using fed(4) by simp
  from decode_step_spec [where ubs = ubs, OF assms(1-6) fed(1-3), of getenv clk p] obtain wss' out' mem' where st:
    "decode_step m d getenv clk ubs p cfg max_token tables (map2 feed ds rows, wss, out, mem) = Some (?rows, wss', out', mem')"
    "kv_ok cfg max_token tables ?rows mem'" "step_ok cfg max_token tables (?rows, wss', out', mem')"
    using Cons.prems(1) fed(4) by auto
  have "CanUseProductionPhasedLru (int (length ?rows)) (ra_topk cfg) (resident_capacity cfg) max_token" using Cons.prems(1) len by simp
  moreover have "list_all (\<lambda>ds. length ds = length ?rows \<and> list_all (input_ok (ra_topk cfg) max_token) ds) dss"
    using Cons.prems(4) len by simp
  ultimately show ?case using Cons.IH [OF _ st(3,2)] st(1) by simp
qed simp


theorem decode_steps_kv_witness:
  "\<exists>rows' wss' out' mem'. decode_steps (decode_step example_simt example_aiv (\<lambda>_. None) (\<lambda>_. (0, 0)) (\<lambda>_. v3_example_ub) 0
        kv_example_cfg 5 kv_example_tables) (map (\<lambda>d. [d]) example_inputs)
      ([example_row], replicate 8 example_ws, ra_example_out, kv_example_mem) = Some (rows', wss', out', mem') \<and>
    step_ok kv_example_cfg 5 kv_example_tables (rows', wss', out', mem') \<and> kv_ok kv_example_cfg 5 kv_example_tables rows' mem'"
  by (rule decode_steps_kv)
    (use kv_example_ok example_inputs_ok in \<open>simp_all add: v3_example_ok example_wf kv_example_def list.pred_map comp_def list_all_iff,
      simp_all add: kv_example_cfg_def example_wf\<close>)

end
