(* ===== verification/Ord_Map.thy ===== *)
theory Ord_Map
  imports Prelude
begin

text \<open>
  The ordered containers of the C++ library, as the host code uses them: \<^verbatim>\<open>std::map\<close> is an
  association list with strictly increasing keys and \<^verbatim>\<open>std::set\<close> a strictly increasing list.
  An iterator is the element it points to, \<open>None\<close> being \<^verbatim>\<open>end()\<close>. Each operation has a rule that
  describes it by the set of its entries, and two well-formed containers with the same entries are equal.
\<close>

named_theorems om_simps \<open>the entries of an ordered container after an operation\<close>

section \<open>Maps\<close>

type_synonym ('k, 'v) omap = "('k \<times> 'v) list"

definition om_wf :: "('k::linorder, 'v) omap \<Rightarrow> bool" where
  "om_wf m \<longleftrightarrow> sorted_wrt (<) (map fst m)"

definition om_find :: "'k \<Rightarrow> ('k, 'v) omap \<Rightarrow> 'v option" where
  "om_find k m = map_of m k"

definition om_erase :: "'k \<Rightarrow> ('k, 'v) omap \<Rightarrow> ('k, 'v) omap" where
  "om_erase k m = filter (\<lambda>e. fst e \<noteq> k) m"

text \<open>Assignment through \<^verbatim>\<open>operator[]\<close>, which replaces a value, and \<^verbatim>\<open>emplace\<close>, which does not.\<close>

fun om_put :: "'k::linorder \<Rightarrow> 'v \<Rightarrow> ('k, 'v) omap \<Rightarrow> ('k, 'v) omap" where
  "om_put k v [] = [(k, v)]"
| "om_put k v ((k', v') # m) =
     (if k < k' then (k, v) # (k', v') # m else if k = k' then (k, v) # m else (k', v') # om_put k v m)"

definition om_emplace :: "'k::linorder \<Rightarrow> 'v \<Rightarrow> ('k, 'v) omap \<Rightarrow> ('k, 'v) omap" where
  "om_emplace k v m = (if om_find k m = None then om_put k v m else m)"

text \<open>\<^verbatim>\<open>lower_bound(k)\<close>, \<^verbatim>\<open>upper_bound(k)\<close>, and the entry before \<^verbatim>\<open>lower_bound(k)\<close> when that is not \<^verbatim>\<open>begin()\<close>.\<close>

definition om_lower_bound :: "'k::linorder \<Rightarrow> ('k, 'v) omap \<Rightarrow> ('k \<times> 'v) option" where
  "om_lower_bound k m = find (\<lambda>e. k \<le> fst e) m"

definition om_upper_bound :: "'k::linorder \<Rightarrow> ('k, 'v) omap \<Rightarrow> ('k \<times> 'v) option" where
  "om_upper_bound k m = find (\<lambda>e. k < fst e) m"

definition om_before :: "'k::linorder \<Rightarrow> ('k, 'v) omap \<Rightarrow> ('k \<times> 'v) option" where
  "om_before k m = find (\<lambda>e. fst e < k) (rev m)"

lemma om_wf_Nil [simp]: "om_wf []"
  by (simp add: om_wf_def)

lemma om_wf_Cons: "om_wf (e # m) \<longleftrightarrow> om_wf m \<and> (\<forall>e'\<in>set m. fst e < fst e')"
  by (auto simp: om_wf_def)

lemma om_wf_distinct: "om_wf m \<Longrightarrow> distinct (map fst m)"
  by (auto simp: om_wf_def strict_sorted_iff)

lemma om_wf_inj: "om_wf m \<Longrightarrow> (k, v) \<in> set m \<Longrightarrow> (k, w) \<in> set m \<Longrightarrow> v = w"
  using eq_key_imp_eq_value om_wf_distinct by metis

lemma om_find_iff: "om_wf m \<Longrightarrow> om_find k m = Some v \<longleftrightarrow> (k, v) \<in> set m"
  unfolding om_find_def by (simp add: om_wf_distinct)

lemma om_find_None: "om_find k m = None \<longleftrightarrow> k \<notin> fst ` set m"
  by (simp add: om_find_def map_of_eq_None_iff)

lemma om_wf_erase [simp]: "om_wf m \<Longrightarrow> om_wf (om_erase k m)"
  by (induction m) (auto simp: om_erase_def om_wf_Cons)

lemma set_om_erase [om_simps]: "set (om_erase k m) = {e \<in> set m. fst e \<noteq> k}"
  by (auto simp: om_erase_def)

lemma set_om_erase_in: "om_wf m \<Longrightarrow> (k, v) \<in> set m \<Longrightarrow> set (om_erase k m) = set m - {(k, v)}"
  by (auto simp: om_simps dest: om_wf_inj)

lemma set_om_put [om_simps]: "om_wf m \<Longrightarrow> set (om_put k v m) = insert (k, v) {e \<in> set m. fst e \<noteq> k}"
  by (induction k v m rule: om_put.induct) (auto simp: om_wf_Cons)

lemma om_wf_put [simp]: "om_wf m \<Longrightarrow> om_wf (om_put k v m)"
  by (induction k v m rule: om_put.induct) (auto simp: om_wf_Cons set_om_put)

lemma om_wf_emplace [simp]: "om_wf m \<Longrightarrow> om_wf (om_emplace k v m)"
  by (simp add: om_emplace_def)

lemma set_om_emplace: "om_wf m \<Longrightarrow> k \<notin> fst ` set m \<Longrightarrow> set (om_emplace k v m) = insert (k, v) (set m)"
  by (auto simp: om_emplace_def om_simps om_find_None rev_image_eqI)

lemma om_find_put: "om_wf m \<Longrightarrow> om_find k' (om_put k v m) = (if k' = k then Some v else om_find k' m)"
  by (induction k v m rule: om_put.induct) (auto simp: om_find_def om_wf_Cons)

lemma om_find_erase: "om_find k' (om_erase k m) = (if k' = k then None else om_find k' m)"
  unfolding om_find_def om_erase_def by (induction m) auto

lemma find_sorted_Some:
  "om_wf m \<Longrightarrow> find P m = Some e \<longleftrightarrow> e \<in> set m \<and> P e \<and> (\<forall>e'\<in>set m. P e' \<longrightarrow> fst e \<le> fst e')"
proof (induction m)
  case (Cons x m)
  have wf: "om_wf m" "\<forall>e'\<in>set m. fst x < fst e'" using Cons.prems by (auto simp: om_wf_Cons)
  show ?case
  proof (cases "P x")
    case True
    have "e = x" if "e \<in> set (x # m)" "fst e \<le> fst x" using that wf(2) by auto
    then show ?thesis using True wf(2) by (auto intro: less_imp_le)
  next
    case False
    then show ?thesis using Cons.IH [OF wf(1)] by auto
  qed
qed simp

lemma om_lower_bound_Some:
  "om_wf m \<Longrightarrow> om_lower_bound k m = Some e \<longleftrightarrow>
     e \<in> set m \<and> k \<le> fst e \<and> (\<forall>e'\<in>set m. k \<le> fst e' \<longrightarrow> fst e \<le> fst e')"
  unfolding om_lower_bound_def by (rule find_sorted_Some)

lemma om_lower_bound_None: "om_lower_bound k m = None \<longleftrightarrow> (\<forall>e\<in>set m. fst e < k)"
  by (auto simp: om_lower_bound_def find_None_iff not_le)

lemma om_upper_bound_Some:
  "om_wf m \<Longrightarrow> om_upper_bound k m = Some e \<longleftrightarrow>
     e \<in> set m \<and> k < fst e \<and> (\<forall>e'\<in>set m. k < fst e' \<longrightarrow> fst e \<le> fst e')"
  unfolding om_upper_bound_def by (rule find_sorted_Some)

lemma om_upper_bound_None: "om_upper_bound k m = None \<longleftrightarrow> (\<forall>e\<in>set m. fst e \<le> k)"
  by (auto simp: om_upper_bound_def find_None_iff not_less)

lemma find_rev_snoc: "find P (rev (x # xs)) = (case find P (rev xs) of None \<Rightarrow> if P x then Some x else None | Some y \<Rightarrow> Some y)"
proof -
  have "find P (ys @ [x]) = (case find P ys of None \<Rightarrow> if P x then Some x else None | Some y \<Rightarrow> Some y)" for ys
    by (induction ys) auto
  then show ?thesis by simp
qed

lemma om_before_Some:
  "om_wf m \<Longrightarrow> om_before k m = Some e \<longleftrightarrow>
     e \<in> set m \<and> fst e < k \<and> (\<forall>e'\<in>set m. fst e' < k \<longrightarrow> fst e' \<le> fst e)"
proof (induction m arbitrary: e)
  case (Cons x m)
  have wf: "om_wf m" "\<forall>e'\<in>set m. fst x < fst e'" using Cons.prems by (auto simp: om_wf_Cons)
  note IH = Cons.IH [OF wf(1), unfolded om_before_def]
  show ?case
  proof (cases "find (\<lambda>e. fst e < k) (rev m)")
    case None
    then have "\<forall>e\<in>set m. \<not> fst e < k" by (auto simp: find_None_iff)
    then show ?thesis using None wf(2)
      unfolding om_before_def find_rev_snoc by auto
  next
    case (Some y)
    then have y: "y \<in> set m" "fst y < k" "\<forall>e'\<in>set m. fst e' < k \<longrightarrow> fst e' \<le> fst y"
      using IH [of y] by auto
    have xy: "fst x < fst y" using wf(2) y(1) by simp
    have "(y = e) \<longleftrightarrow> e \<in> set (x # m) \<and> fst e < k \<and> (\<forall>e'\<in>set (x # m). fst e' < k \<longrightarrow> fst e' \<le> fst e)" (is "_ \<longleftrightarrow> ?R")
    proof
      assume "y = e"
      then show ?R using y xy by auto
    next
      assume R: ?R
      then have "fst y \<le> fst e" using y by simp
      then have "e \<noteq> x" using xy by auto
      then have "find (\<lambda>e. fst e < k) (rev m) = Some e" using IH [of e] R by simp
      then show "y = e" using Some by simp
    qed
    then show ?thesis using Some unfolding om_before_def find_rev_snoc by simp
  qed
qed (simp add: om_before_def)

lemma om_before_None: "om_before k m = None \<longleftrightarrow> (\<forall>e\<in>set m. k \<le> fst e)"
  by (auto simp: om_before_def find_None_iff not_less)

lemma om_eqI:
  assumes "om_wf m" "om_wf m'" "set m = set m'"
  shows "m = m'"
  using assms
proof (induction m arbitrary: m')
  case (Cons e m)
  then obtain e' n where m': "m' = e' # n" by (cases m') auto
  have less: "\<forall>x\<in>set m. fst e < fst x" "\<forall>x\<in>set n. fst e' < fst x"
    and wf: "om_wf m" "om_wf n"
    using Cons.prems m' by (auto simp: om_wf_Cons)
  have eq: "insert e (set m) = insert e' (set n)" using Cons.prems(3) m' by simp
  have "e = e'"
  proof (rule ccontr)
    assume "e \<noteq> e'"
    then have "e \<in> set n" "e' \<in> set m" using eq by auto
    then have "fst e' < fst e" "fst e < fst e'" using less by auto
    then show False by simp
  qed
  then have "set m = set n"
    using eq less by auto
  then show ?case using Cons.IH [OF wf] \<open>e = e'\<close> m' by simp
qed simp

section \<open>Sets\<close>

definition os_wf :: "'a::linorder list \<Rightarrow> bool" where
  "os_wf xs \<longleftrightarrow> sorted_wrt (<) xs"

definition os_insert :: "'a::linorder \<Rightarrow> 'a list \<Rightarrow> 'a list" where
  "os_insert x xs = (if x \<in> set xs then xs else insort x xs)"

definition os_erase :: "'a \<Rightarrow> 'a list \<Rightarrow> 'a list" where
  "os_erase x xs = filter (\<lambda>y. y \<noteq> x) xs"

definition os_lower_bound :: "'a::linorder \<Rightarrow> 'a list \<Rightarrow> 'a option" where
  "os_lower_bound x xs = find (\<lambda>y. x \<le> y) xs"

lemma os_wf_Nil [simp]: "os_wf []"
  by (simp add: os_wf_def)

lemma os_wf_iff: "os_wf xs \<longleftrightarrow> sorted xs \<and> distinct xs"
  by (auto simp: os_wf_def strict_sorted_iff)

lemma os_wf_insert [simp]: "os_wf xs \<Longrightarrow> os_wf (os_insert x xs)"
  by (auto simp: os_insert_def os_wf_iff sorted_insort distinct_insort)

lemma set_os_insert [om_simps]: "set (os_insert x xs) = insert x (set xs)"
  by (auto simp: os_insert_def set_insort_key)

lemma os_wf_erase [simp]: "os_wf xs \<Longrightarrow> os_wf (os_erase x xs)"
  by (auto simp: os_erase_def os_wf_def sorted_wrt_filter)

lemma set_os_erase [om_simps]: "set (os_erase x xs) = set xs - {x}"
  by (auto simp: os_erase_def)

lemma os_lower_bound_Some:
  "os_wf xs \<Longrightarrow> os_lower_bound x xs = Some y \<longleftrightarrow> y \<in> set xs \<and> x \<le> y \<and> (\<forall>z\<in>set xs. x \<le> z \<longrightarrow> y \<le> z)"
  unfolding os_lower_bound_def os_wf_def
  by (induction xs) (auto simp: order.strict_iff_not)

lemma os_lower_bound_None: "os_lower_bound x xs = None \<longleftrightarrow> (\<forall>y\<in>set xs. y < x)"
  by (auto simp: os_lower_bound_def find_None_iff not_le)

lemma os_eqI: "os_wf xs \<Longrightarrow> os_wf ys \<Longrightarrow> set xs = set ys \<Longrightarrow> xs = ys"
  by (simp add: os_wf_iff sorted_distinct_set_unique)

end
