(* ===== verification/Uint64.thy ===== *)
theory Uint64
  imports Prelude
begin

text \<open>
  Unsigned 64-bit arithmetic of the host code: values are natural numbers below \<open>2 ^ 64\<close>, additions and
  subtractions wrap with \<open>u64\<close>, and \<^verbatim>\<open>~\<close> is \<open>not64\<close>. The lemmas turn the mask idioms for rounding and for
  powers of two into division.
\<close>

unbundle bit_operations_syntax

definition u64 :: "nat \<Rightarrow> nat" where "u64 x = x mod 2 ^ 64"

definition sub64 :: "nat \<Rightarrow> nat \<Rightarrow> nat" where "sub64 x y = u64 (x + (2 ^ 64 - y))"

definition not64 :: "nat \<Rightarrow> nat" where "not64 x = 2 ^ 64 - 1 - x"

definition align_up64 :: "nat \<Rightarrow> nat \<Rightarrow> nat" where
  "align_up64 value align = u64 (value + align - 1) AND not64 (align - 1)"

lemma u64_small [simp]: "x < 2 ^ 64 \<Longrightarrow> u64 x = x"
  by (simp add: u64_def)

lemma u64_less: "u64 x < 2 ^ 64"
  by (simp add: u64_def)

lemmas u64_less_num [simp] = u64_less [simplified]

lemma sub64_le: "y \<le> x \<Longrightarrow> x < 2 ^ 64 \<Longrightarrow> sub64 x y = x - y"
proof -
  assume a: "y \<le> x" "x < 2 ^ 64"
  then have "x + (2 ^ 64 - y) = (x - y) + 2 ^ 64" by simp
  then show ?thesis using a by (simp only: sub64_def u64_def mod_add_self2) (simp add: mod_less)
qed

lemma sub64_greater: "x < y \<Longrightarrow> y \<le> 2 ^ 64 \<Longrightarrow> sub64 x y = x + (2 ^ 64 - y)"
  unfolding sub64_def by (rule u64_small) linarith

lemma not64_pred: "k \<le> 64 \<Longrightarrow> not64 (2 ^ k - 1) = 2 ^ 64 - 2 ^ k"
proof -
  assume "k \<le> 64"
  then have "(2::nat) ^ k \<le> 2 ^ 64" by (rule power_increasing) simp
  moreover have "(1::nat) \<le> 2 ^ k" by simp
  ultimately show ?thesis unfolding not64_def by linarith
qed

lemma high_mask: "k \<le> n \<Longrightarrow> (2::nat) ^ n - 2 ^ k = push_bit k (mask (n - k))"
  by (simp add: push_bit_eq_mult mask_eq_exp_minus_1 diff_mult_distrib flip: power_add)

lemma and_not64:
  assumes "k \<le> 64" "y < 2 ^ 64"
  shows "y AND not64 (2 ^ k - 1) = y div 2 ^ k * 2 ^ k"
proof -
  have y: "y = take_bit 64 y" using assms(2) by (simp add: take_bit_eq_mod)
  have "y AND push_bit k (mask (64 - k)) = push_bit k (drop_bit k y)"
  proof (rule bit_eqI)
    fix n
    have "bit y n \<Longrightarrow> n < 64" using y by (metis bit_take_bit_iff)
    then show "bit (y AND push_bit k (mask (64 - k))) n = bit (push_bit k (drop_bit k y)) n"
      using assms(1) by (auto simp: bit_simps)
  qed
  then show ?thesis
    unfolding not64_pred [OF assms(1)] high_mask [OF assms(1)] push_bit_eq_mult drop_bit_eq_div .
qed

lemma and_low_mask: "x AND (2 ^ k - 1) = x mod (2::nat) ^ k"
proof -
  have "(2::nat) ^ k - 1 = mask k" by (simp add: mask_eq_exp_minus_1)
  then show ?thesis by (simp only: flip: take_bit_eq_mask take_bit_eq_mod)
qed

text \<open>Rounding up without wrap-around, and where it wraps to zero.\<close>

lemma align_up64_eq:
  assumes "k \<le> 64" "x + 2 ^ k - 1 < 2 ^ 64"
  shows "align_up64 x (2 ^ k) = (x + 2 ^ k - 1) div 2 ^ k * 2 ^ k"
  unfolding align_up64_def u64_small [OF assms(2)] by (rule and_not64 [OF assms])

lemma round_up_bounds:
  fixes d :: nat
  assumes "0 < d"
  shows "x \<le> (x + d - 1) div d * d" "(x + d - 1) div d * d < x + d" "d dvd (x + d - 1) div d * d"
proof -
  have "(x + d - 1) div d * d + (x + d - 1) mod d = x + d - 1" by (rule div_mult_mod_eq)
  moreover have "(x + d - 1) mod d < d" using assms by simp
  ultimately show "x \<le> (x + d - 1) div d * d" "(x + d - 1) div d * d < x + d" using assms by linarith+
qed simp

lemma round_up_least:
  fixes d :: nat
  assumes "0 < d" "x \<le> y" "d dvd y"
  shows "(x + d - 1) div d * d \<le> y"
proof -
  obtain q where y: "y = d * q" using assms(3) by blast
  have "x + d - 1 < d * (q + 1)" using assms y by (simp add: algebra_simps)
  then have "(x + d - 1) div d < q + 1" by (simp add: less_mult_imp_div_less mult.commute)
  then show ?thesis using y by (simp add: mult.commute [of d] mult_le_mono1)
qed

lemma align_up64_wrap:
  assumes "k < 64" "2 ^ 64 < x + 2 ^ k" "x < 2 ^ 64"
  shows "align_up64 x (2 ^ k) = 0"
proof -
  have k: "(2::nat) ^ k < 2 ^ 64" using assms(1) by (rule power_strict_increasing) simp
  have "x + 2 ^ k - 1 = (x + 2 ^ k - 1 - 2 ^ 64) + 2 ^ 64" using assms(2) by simp
  moreover have "x + 2 ^ k - 1 - 2 ^ 64 < 2 ^ k" using assms(2,3) by linarith
  ultimately have "u64 (x + 2 ^ k - 1) < 2 ^ k"
    unfolding u64_def using k mod_add_self2 [of "x + 2 ^ k - 1 - 2 ^ 64" "2 ^ 64"]
      mod_less [OF order.strict_trans, of "x + 2 ^ k - 1 - 2 ^ 64" "2 ^ k" "2 ^ 64"] by presburger
  then show ?thesis
    unfolding align_up64_def using assms(1) and_not64 [of k "u64 (x + 2 ^ k - 1)"] by simp
qed

text \<open>The usual test for a power of two.\<close>

lemma and_double: "(2 * a) AND (2 * b + 1) = 2 * (a AND b)" for a b :: nat
proof (rule bit_eqI)
  fix n
  show "bit ((2 * a) AND (2 * b + 1)) n = bit (2 * (a AND b)) n"
    unfolding bit_and_iff bit_double_iff even_bit_succ_iff
    by (cases n) (simp_all add: bit_0 bit_Suc bit_and_iff)
qed

lemma and_pred_0: "0 < n \<Longrightarrow> n AND (n - 1) = (0::nat) \<Longrightarrow> \<exists>k. n = 2 ^ k"
proof (induction n rule: less_induct)
  case (less n)
  show ?case
  proof (cases "even n")
    case True
    then obtain m where m: "n = 2 * m" by blast
    then have "0 < m" "m < n" using less.prems by auto
    have "n - 1 = 2 * (m - 1) + 1" using m \<open>0 < m\<close> by simp
    then have "n AND (n - 1) = (2 * m) AND (2 * (m - 1) + 1)" using m by simp
    also have "\<dots> = 2 * (m AND (m - 1))" by (rule and_double)
    finally have "n AND (n - 1) = 2 * (m AND (m - 1))" .
    then have "m AND (m - 1) = 0" using less.prems by simp
    then obtain k where "m = 2 ^ k" using less.IH [OF \<open>m < n\<close> \<open>0 < m\<close>] by blast
    then show ?thesis using m by (metis power_Suc)
  next
    case False
    have "n AND (n - 1) = n - 1"
    proof -
      have "even (n - 1)" "n = 1 + (n - 1)" using False by (auto simp: odd_pos)
      then have "bit n i \<longleftrightarrow> bit (n - 1) i \<or> i = 0" for i by (metis even_bit_succ_iff)
      then show ?thesis by (intro bit_eqI) (auto simp: bit_and_iff)
    qed
    then have "n = 1" using less.prems by simp
    then show ?thesis by (intro exI [of _ 0]) simp
  qed
qed

lemma pow2_le_64: "(2::nat) ^ k < 2 ^ 64 \<Longrightarrow> k < 64"
  by (rule power_less_imp_less_exp [of "2::nat"]) simp_all

end
