(* ===== verification/Ranges.thy ===== *)
theory Ranges
  imports Ord_Map Uint64
begin

text \<open>
  Address ranges and the contract of a memory allocator.

  A range is a pair of its start and its length. \<open>tiled n I U\<close> says that the idle ranges \<open>I\<close> and the used
  ranges \<open>U\<close> divide the first \<open>n\<close> addresses among them and that idle ranges are maximal; then \<open>I\<close> is
  determined by \<open>U\<close>. The locale \<open>allocator\<close> is the contract the clients of the pools rely on, and
  \<open>exact_allocator\<close> adds that the live blocks determine the state, so that no fragmentation survives them.
\<close>

section \<open>Sets of ranges\<close>

definition cells :: "(nat \<times> nat) set \<Rightarrow> nat set" where
  "cells R = (\<Union>(p, n)\<in>R. {p..<p + n})"

definition disjoint_ranges :: "(nat \<times> nat) set \<Rightarrow> bool" where
  "disjoint_ranges R \<longleftrightarrow>
     (\<forall>p n. (p, n) \<in> R \<longrightarrow> 0 < n) \<and>
     (\<forall>p n q m. (p, n) \<in> R \<longrightarrow> (q, m) \<in> R \<longrightarrow> (p, n) = (q, m) \<or> p + n \<le> q \<or> q + m \<le> p)"

definition spaced :: "(nat \<times> nat) set \<Rightarrow> bool" where
  "spaced R \<longleftrightarrow>
     (\<forall>p n. (p, n) \<in> R \<longrightarrow> 0 < n) \<and>
     (\<forall>p n q m. (p, n) \<in> R \<longrightarrow> (q, m) \<in> R \<longrightarrow> (p, n) = (q, m) \<or> p + n < q \<or> q + m < p)"

definition runs :: "nat set \<Rightarrow> (nat \<times> nat) set" where
  "runs C = {(p, n). 0 < n \<and> {p..<p + n} \<subseteq> C \<and> p + n \<notin> C \<and> (p = 0 \<or> p - 1 \<notin> C)}"

lemma in_cells: "x \<in> cells R \<longleftrightarrow> (\<exists>p n. (p, n) \<in> R \<and> p \<le> x \<and> x < p + n)"
  unfolding cells_def by fastforce

lemma cells_simps [simp]:
  "cells {} = {}" "cells (insert (p, n) R) = {p..<p + n} \<union> cells R" "cells (R \<union> S) = cells R \<union> cells S"
  by (auto simp: cells_def)

lemma cellsI: "(p, n) \<in> R \<Longrightarrow> p \<le> x \<Longrightarrow> x < p + n \<Longrightarrow> x \<in> cells R"
  by (auto simp: in_cells)

lemma spacedD:
  assumes "spaced R" "(p, n) \<in> R"
  shows "0 < n" "(q, m) \<in> R \<Longrightarrow> (p, n) = (q, m) \<or> p + n < q \<or> q + m < p"
  using assms unfolding spaced_def by blast+

lemma disjoint_rangesD:
  assumes "disjoint_ranges R" "(p, n) \<in> R"
  shows "0 < n" "(q, m) \<in> R \<Longrightarrow> (p, n) = (q, m) \<or> p + n \<le> q \<or> q + m \<le> p"
  using assms unfolding disjoint_ranges_def by blast+

lemma spaced_disjoint: "spaced R \<Longrightarrow> disjoint_ranges R"
  unfolding spaced_def disjoint_ranges_def by (meson less_imp_le)

lemma disjoint_subset: "disjoint_ranges R \<Longrightarrow> S \<subseteq> R \<Longrightarrow> disjoint_ranges S"
  unfolding disjoint_ranges_def by fast

lemma spaced_subset: "spaced R \<Longrightarrow> S \<subseteq> R \<Longrightarrow> spaced S"
  unfolding spaced_def by fast

lemma cells_remove:
  assumes "disjoint_ranges R" "(p, n) \<in> R"
  shows "cells (R - {(p, n)}) = cells R - {p..<p + n}"
proof -
  have "x \<notin> {p..<p + n}" if "(q, m) \<in> R" "(q, m) \<noteq> (p, n)" "q \<le> x" "x < q + m" for q m x
    using disjoint_rangesD(2) [OF assms that(1)] that by auto
  moreover have "R = insert (p, n) (R - {(p, n)})" using assms(2) by blast
  ultimately show ?thesis
    using cells_simps(2) [of p n "R - {(p, n)}"] by (auto simp: in_cells)
qed

lemma disjoint_insert:
  assumes "disjoint_ranges R" "0 < n" "{p..<p + n} \<inter> cells R = {}"
  shows "disjoint_ranges (insert (p, n) R)"
proof -
  have "p + n \<le> q \<or> q + m \<le> p" if "(q, m) \<in> R" for q m
  proof (rule ccontr)
    assume "\<not> (p + n \<le> q \<or> q + m \<le> p)"
    moreover have "0 < m" using disjoint_rangesD(1) [OF assms(1) that] .
    ultimately have "max p q \<in> {p..<p + n}" "q \<le> max p q" "max p q < q + m" using assms(2) by auto
    then show False using assms(3) cellsI [OF that, of "max p q"] by blast
  qed
  then show ?thesis using assms(1,2) unfolding disjoint_ranges_def by fast
qed

lemma spaced_insert:
  assumes "spaced R" "0 < n" "{p..p + n} \<inter> cells R = {}" "p = 0 \<or> p - 1 \<notin> cells R"
  shows "spaced (insert (p, n) R)"
proof -
  have "p + n < q \<or> q + m < p" if "(q, m) \<in> R" for q m
  proof (rule ccontr)
    assume a: "\<not> (p + n < q \<or> q + m < p)"
    have m: "0 < m" using spacedD(1) [OF assms(1) that] .
    show False
    proof (cases "q + m = p")
      case True
      then have "p - 1 \<in> cells R" using m by (intro cellsI [OF that]) auto
      then show False using assms(4) True m by simp
    next
      case False
      then have "max p q \<in> {p..p + n}" "q \<le> max p q" "max p q < q + m" using a m by auto
      then show False using assms(3) cellsI [OF that, of "max p q"] by blast
    qed
  qed
  then show ?thesis using assms(1,2) unfolding spaced_def by fast
qed

lemma end_not_in_cells: "spaced R \<Longrightarrow> (p, n) \<in> R \<Longrightarrow> p + n \<notin> cells R"
proof
  assume a: "spaced R" "(p, n) \<in> R" "p + n \<in> cells R"
  then obtain q m where "(q, m) \<in> R" "q \<le> p + n" "p + n < q + m" by (auto simp: in_cells)
  then show False using spacedD(2) [OF a(1,2), of q m] spacedD(1) [OF a(1)] by auto
qed

lemma start_not_in_cells: "spaced R \<Longrightarrow> (p, n) \<in> R \<Longrightarrow> p = 0 \<or> p - 1 \<notin> cells R"
proof (rule ccontr)
  assume a: "spaced R" "(p, n) \<in> R" "\<not> (p = 0 \<or> p - 1 \<notin> cells R)"
  then obtain q m where "(q, m) \<in> R" "q \<le> p - 1" "p - 1 < q + m" by (auto simp: in_cells)
  then show False using spacedD(2) [OF a(1,2), of q m] spacedD(1) [OF a(1)] a(3) by auto
qed

lemma runs_unique:
  assumes "(p, n) \<in> runs C" "(q, m) \<in> runs C" "p \<le> x" "x < p + n" "q \<le> x" "x < q + m"
  shows "(p, n) = (q, m)"
proof -
  have p: "{p..<p + n} \<subseteq> C" "p + n \<notin> C" "p = 0 \<or> p - 1 \<notin> C"
    and q: "{q..<q + m} \<subseteq> C" "q + m \<notin> C" "q = 0 \<or> q - 1 \<notin> C"
    using assms by (auto simp: runs_def)
  have "p + n = q + m"
  proof (rule linorder_cases)
    assume "p + n < q + m"
    then have "p + n \<in> {q..<q + m}" using assms by auto
    then show ?thesis using p q by blast
  next
    assume "q + m < p + n"
    then have "q + m \<in> {p..<p + n}" using assms by auto
    then show ?thesis using p q by blast
  qed
  moreover have "p = q"
  proof (rule linorder_cases)
    assume "p < q"
    then have "q - 1 \<in> {p..<p + n}" "q \<noteq> 0" using assms by auto
    then show ?thesis using p q by blast
  next
    assume "q < p"
    then have "p - 1 \<in> {q..<q + m}" "p \<noteq> 0" using assms by auto
    then show ?thesis using p q by blast
  qed
  ultimately show ?thesis by simp
qed

lemma spaced_runs: "spaced R \<Longrightarrow> R \<subseteq> runs (cells R)"
  using end_not_in_cells start_not_in_cells spacedD(1)
  by (fastforce simp: runs_def intro: cellsI)

lemma runs_cells:
  assumes "spaced R"
  shows "runs (cells R) = R"
proof
  show "runs (cells R) \<subseteq> R"
  proof (clarify)
    fix p n assume a: "(p, n) \<in> runs (cells R)"
    then have "p \<in> cells R" by (auto simp: runs_def)
    then obtain q m where q: "(q, m) \<in> R" "q \<le> p" "p < q + m" by (auto simp: in_cells)
    then have "(q, m) \<in> runs (cells R)" using spaced_runs [OF assms] by blast
    then have "(p, n) = (q, m)" using runs_unique [OF a, of q m p] q a by (auto simp: runs_def)
    then show "(p, n) \<in> R" using q by simp
  qed
qed (rule spaced_runs [OF assms])


lemma cell_end: "x \<in> cells R \<Longrightarrow> Suc x \<notin> cells R \<Longrightarrow> \<exists>q m. (q, m) \<in> R \<and> q + m = Suc x"
proof -
  assume a: "x \<in> cells R" "Suc x \<notin> cells R"
  then obtain q m where q: "(q, m) \<in> R" "q \<le> x" "x < q + m" by (auto simp: in_cells)
  then have "\<not> Suc x < q + m" using a(2) cellsI [OF q(1), of "Suc x"] by auto
  then show ?thesis using q by (intro exI [of _ q] exI [of _ m]) auto
qed

lemma cell_start: "x \<in> cells R \<Longrightarrow> x = 0 \<or> x - 1 \<notin> cells R \<Longrightarrow> \<exists>m. (x, m) \<in> R"
proof -
  assume a: "x \<in> cells R" "x = 0 \<or> x - 1 \<notin> cells R"
  then obtain q m where q: "(q, m) \<in> R" "q \<le> x" "x < q + m" by (auto simp: in_cells)
  have "q = x"
  proof (rule ccontr)
    assume "q \<noteq> x"
    then have "x - 1 \<in> cells R" "x \<noteq> 0" using q by (auto intro!: cellsI [OF q(1)])
    then show False using a(2) by blast
  qed
  then show ?thesis using q by blast
qed

lemma card_cells: "finite R \<Longrightarrow> disjoint_ranges R \<Longrightarrow> card (cells R) = sum snd R"
proof (induction R rule: finite_induct)
  case (insert x R)
  obtain p n where x: "x = (p, n)" by (cases x)
  have "cells R = cells (insert x R) - {p..<p + n}"
    using cells_remove [OF insert.prems, of p n] insert.hyps(2) by (simp add: x)
  then have "{p..<p + n} \<inter> cells R = {}" by blast
  moreover have "finite (cells R)" using insert.hyps(1) by (auto simp: cells_def)
  ultimately have "card (cells (insert x R)) = n + card (cells R)" by (simp add: x card_Un_disjoint)
  then show ?case using insert disjoint_subset [OF insert.prems, of R] by (auto simp: x)
qed (simp add: cells_def)

text \<open>A contiguous part of spaced ranges lies in one of them.\<close>

lemma fitting_range:
  assumes "spaced R" "{p..<p + a} \<subseteq> cells R" "0 < a"
  shows "\<exists>q l. (q, l) \<in> R \<and> a \<le> l \<and> q \<le> p \<and> p + a \<le> q + l"
proof -
  have "p \<in> cells R" using assms(2,3) by (intro subsetD [OF assms(2)]) simp
  then obtain q l where q: "(q, l) \<in> R" "q \<le> p" "p < q + l" by (auto simp: in_cells)
  have "p + a \<le> q + l"
  proof (rule ccontr)
    assume "\<not> p + a \<le> q + l"
    then have "q + l \<in> {p..<p + a}" using q(3) by simp
    then show False using end_not_in_cells [OF assms(1) q(1)] assms(2) by blast
  qed
  then show ?thesis using q by (intro exI [of _ q] exI [of _ l]) auto
qed

text \<open>Ranges relative to the start of a pool, as addresses.\<close>

definition shift :: "nat \<Rightarrow> (nat \<times> nat) set \<Rightarrow> (nat \<times> nat) set" where
  "shift b R = (\<lambda>(p, n). (b + p, n)) ` R"

lemma in_shift: "(a, n) \<in> shift b R \<longleftrightarrow> b \<le> a \<and> (a - b, n) \<in> R"
proof
  assume "b \<le> a \<and> (a - b, n) \<in> R"
  then show "(a, n) \<in> shift b R" unfolding shift_def by (auto intro!: rev_image_eqI)
qed (auto simp: shift_def)

lemma shift_insert: "shift b (insert (p, n) R) = insert (b + p, n) (shift b R)"
  by (simp add: shift_def)

lemma shift_empty [simp]: "shift b {} = {}"
  by (simp add: shift_def)

lemma shift_remove: "shift b (R - {(p, n)}) = shift b R - {(b + p, n)}"
  by (auto simp: in_shift)

lemma shift_inj: "shift b R = shift b S \<Longrightarrow> R = S"
proof -
  have "inj (\<lambda>(p::nat, n::nat). (b + p, n))" by (auto intro: injI)
  then show "shift b R = shift b S \<Longrightarrow> R = S" unfolding shift_def by (simp add: inj_image_eq_iff)
qed

lemma disjoint_shift: "disjoint_ranges R \<Longrightarrow> disjoint_ranges (shift b R)"
proof -
  assume d: "disjoint_ranges R"
  have "0 < n" if "(p, n) \<in> shift b R" for p n
    using that disjoint_rangesD(1) [OF d] by (auto simp: in_shift)
  moreover have "(p, n) = (q, m) \<or> p + n \<le> q \<or> q + m \<le> p" if "(p, n) \<in> shift b R" "(q, m) \<in> shift b R" for p n q m
    using that disjoint_rangesD(2) [OF d, of "p - b" n "q - b" m] by (auto simp: in_shift)
  ultimately show ?thesis unfolding disjoint_ranges_def by blast
qed

lemma cells_shift: "cells R \<subseteq> {..<n} \<Longrightarrow> cells (shift b R) \<subseteq> {b..<b + n}"
proof
  fix x assume a: "cells R \<subseteq> {..<n}" "x \<in> cells (shift b R)"
  then obtain p m where "b \<le> p" "(p - b, m) \<in> R" "p \<le> x" "x < p + m" by (auto simp: in_cells in_shift)
  then have "b \<le> x" "x - b \<in> cells R" by (auto intro!: cellsI)
  then show "x \<in> {b..<b + n}" using a(1) by auto
qed

section \<open>Dividing a pool\<close>

definition tiled :: "nat \<Rightarrow> (nat \<times> nat) set \<Rightarrow> (nat \<times> nat) set \<Rightarrow> bool" where
  "tiled n I U \<longleftrightarrow> spaced I \<and> disjoint_ranges U \<and> cells I \<inter> cells U = {} \<and> cells I \<union> cells U = {..<n}"

definition piece :: "nat \<Rightarrow> nat \<Rightarrow> (nat \<times> nat) set" where
  "piece p n = (if 0 < n then {(p, n)} else {})"

lemma cells_piece [simp]: "cells (piece p n) = {p..<p + n}"
  by (simp add: piece_def)

lemma tiled_init: "tiled n (piece 0 n) {}"
  by (auto simp: tiled_def piece_def spaced_def disjoint_ranges_def)

lemma tiled_idle: "tiled n I U \<Longrightarrow> I = runs ({..<n} - cells U)"
proof -
  assume t: "tiled n I U"
  then have "cells I = {..<n} - cells U" unfolding tiled_def by blast
  then show ?thesis using runs_cells [of I] t by (simp add: tiled_def)
qed

lemma tiled_bound:
  assumes "tiled n I U"
  shows "(p, m) \<in> I \<Longrightarrow> p + m \<le> n" "(p, m) \<in> U \<Longrightarrow> p + m \<le> n"
proof -
  have bound: "p + m \<le> n" if "cells {(p, m)} \<subseteq> {..<n}" "0 < m" for p m
  proof -
    have "p + m - 1 \<in> {..<n}" using that by (intro subsetD [OF that(1)]) auto
    then show ?thesis using that(2) by auto
  qed
  have sub: "cells I \<subseteq> {..<n}" "cells U \<subseteq> {..<n}" and sp: "spaced I" "disjoint_ranges U"
    using assms by (auto simp: tiled_def)
  have one: "(p, m) \<in> R \<Longrightarrow> cells {(p, m)} \<subseteq> cells R" for R by (auto intro: cellsI)
  show "(p, m) \<in> I \<Longrightarrow> p + m \<le> n"
    using bound [OF order_trans [OF one sub(1)]] spacedD(1) [OF sp(1)] by blast
  show "(p, m) \<in> U \<Longrightarrow> p + m \<le> n"
    using bound [OF order_trans [OF one sub(2)]] disjoint_rangesD(1) [OF sp(2)] by blast
qed

text \<open>Idle ranges start where a used range ends or at the start of the pool, hence at multiples of the unit the used ranges are made of.\<close>

lemma tiled_start_dvd:
  assumes t: "tiled n I U" and u: "\<forall>b\<in>U. d dvd fst b \<and> d dvd snd b" and i: "(p, m) \<in> I"
  shows "d dvd p"
proof (cases "p = 0")
  case False
  have I: "I = runs ({..<n} - cells U)" by (rule tiled_idle [OF t])
  have r: "0 < m" "{p..<p + m} \<subseteq> {..<n} - cells U" "p - 1 \<notin> {..<n} - cells U"
    using i False unfolding I runs_def by auto
  then have "p \<in> {..<n} - cells U" by (intro subsetD [OF r(2)]) simp
  then have p: "p \<notin> cells U" "p - 1 \<notin> {..<n} - cells U" "p < n" using r(3) by auto
  then have "p - 1 \<in> cells U" by auto
  then obtain q k where "(q, k) \<in> U" "q + k = p" using cell_end [of "p - 1" U] p(1) False by auto
  then show ?thesis using u by force
qed simp

lemma tiled_key_fresh:
  assumes "tiled n I U" "(p, k) \<in> I"
  shows "p \<notin> fst ` U"
proof
  assume "p \<in> fst ` U"
  then obtain l where l: "(p, l) \<in> U" by auto
  have "0 < k" "0 < l" using assms l spacedD(1) disjoint_rangesD(1) by (auto simp: tiled_def)
  then have "p \<in> cells I" "p \<in> cells U" using assms(2) l by (auto intro: cellsI)
  then show False using assms(1) by (auto simp: tiled_def)
qed

text \<open>Taking a part of an idle range into use leaves its two ends idle.\<close>

lemma tiled_take:
  assumes t: "tiled n I U" and i: "(p, m) \<in> I" and a: "k + a \<le> m" "0 < a"
  shows "tiled n (I - {(p, m)} \<union> piece p k \<union> piece (p + k + a) (m - k - a)) (insert (p + k, a) U)"
proof -
  have sp: "spaced I" and du: "disjoint_ranges U" and dj: "cells I \<inter> cells U = {}" and un: "cells I \<union> cells U = {..<n}"
    using t by (auto simp: tiled_def)
  let ?J = "I - {(p, m)}"
  have cJ: "cells ?J = cells I - {p..<p + m}" by (rule cells_remove [OF spaced_disjoint [OF sp] i])
  have sub: "{p..<p + m} \<subseteq> cells I" using i by (auto intro: cellsI)
  have ends: "p + m \<notin> cells I" "p = 0 \<or> p - 1 \<notin> cells I"
    using end_not_in_cells [OF sp i] start_not_in_cells [OF sp i] .
  have s1: "spaced (?J \<union> piece p k)"
  proof (cases "0 < k")
    case True
    have "spaced (insert (p, k) ?J)"
      using True a ends(2) cJ by (intro spaced_insert [OF spaced_subset [OF sp]]) auto
    then show ?thesis using True by (simp add: piece_def)
  next
    case False
    then show ?thesis using spaced_subset [OF sp, of ?J] by (auto simp: piece_def)
  qed
  have s2: "spaced (?J \<union> piece p k \<union> piece (p + k + a) (m - k - a))"
  proof (cases "0 < m - k - a")
    case True
    have "spaced (insert (p + k + a, m - k - a) (?J \<union> piece p k))"
    proof (rule spaced_insert [OF s1 True])
      show "{p + k + a..p + k + a + (m - k - a)} \<inter> cells (?J \<union> piece p k) = {}"
      proof -
        have "x < p + m" if "x \<in> cells I" "x \<le> p + m" for x using that ends(1) by (cases "x = p + m") auto
        then show ?thesis unfolding cells_simps cells_piece cJ using a by fastforce
      qed
      show "p + k + a = 0 \<or> p + k + a - 1 \<notin> cells (?J \<union> piece p k)" using a cJ by auto
    qed
    then show ?thesis using True by (simp add: piece_def)
  next
    case False
    then show ?thesis using s1 by (simp add: piece_def)
  qed
  have part: "{p..<p + m} = {p..<p + k} \<union> {p + k..<p + k + a} \<union> {p + k + a..<p + k + a + (m - k - a)}"
    using a by auto
  have "disjoint_ranges (insert (p + k, a) U)"
    using dj sub part a by (intro disjoint_insert [OF du]) auto
  moreover have "cells (?J \<union> piece p k \<union> piece (p + k + a) (m - k - a)) \<inter> cells (insert (p + k, a) U) = {}"
    using dj sub part cJ a by auto
  moreover have "cells (?J \<union> piece p k \<union> piece (p + k + a) (m - k - a)) \<union> cells (insert (p + k, a) U) = {..<n}"
    using un sub part cJ by auto
  ultimately show ?thesis using s2 by (simp only: tiled_def)
qed


text \<open>Giving a used range back merges it with the idle range that ends where it starts (\<open>lo\<close>) and with
  the one that starts where it ends (\<open>hi\<close>).\<close>

definition given :: "(nat \<times> nat) set \<Rightarrow> nat \<Rightarrow> nat \<Rightarrow> (nat \<times> nat) option \<Rightarrow> nat option \<Rightarrow> (nat \<times> nat) set" where
  "given I p a lo hi =
     insert (case lo of None \<Rightarrow> p | Some (q, m) \<Rightarrow> q,
             a + (case lo of None \<Rightarrow> 0 | Some (q, m) \<Rightarrow> m) + (case hi of None \<Rightarrow> 0 | Some m \<Rightarrow> m))
       (I - set_option lo - (case hi of None \<Rightarrow> {} | Some m \<Rightarrow> {(p + a, m)}))"

definition neighbours :: "(nat \<times> nat) set \<Rightarrow> nat \<Rightarrow> nat \<Rightarrow> (nat \<times> nat) option \<Rightarrow> nat option \<Rightarrow> bool" where
  "neighbours I p a lo hi \<longleftrightarrow>
     (case lo of None \<Rightarrow> \<forall>q m. (q, m) \<in> I \<longrightarrow> q + m \<noteq> p | Some (q, m) \<Rightarrow> (q, m) \<in> I \<and> q + m = p) \<and>
     (case hi of None \<Rightarrow> \<forall>m. (p + a, m) \<notin> I | Some m \<Rightarrow> (p + a, m) \<in> I)"

lemma given_lo:
  assumes sp: "spaced I" and out: "{p..<p + a} \<inter> cells I = {}" and a: "0 < a"
    and lo: "case lo of None \<Rightarrow> \<forall>q m. (q, m) \<in> I \<longrightarrow> q + m \<noteq> p | Some (q, m) \<Rightarrow> (q, m) \<in> I \<and> q + m = p"
  shows "(case lo of None \<Rightarrow> p | Some (q, m) \<Rightarrow> q) = 0 \<or> (case lo of None \<Rightarrow> p | Some (q, m) \<Rightarrow> q) - 1 \<notin> cells I"
proof (cases lo)
  case None
  have "p \<in> {p..<p + a}" using a by simp
  then have "p \<notin> cells I" using out by blast
  moreover have "\<nexists>q m. (q, m) \<in> I \<and> q + m = p" using None lo by auto
  ultimately have "p = 0 \<or> p - 1 \<notin> cells I"
    using cell_end [of "p - 1" I] by (metis Suc_pred' neq0_conv)
  then show ?thesis using None by simp
next
  case (Some qm)
  then show ?thesis using lo start_not_in_cells [OF sp] by (cases qm) auto
qed

lemma tiled_give:
  assumes t: "tiled n I U" and u: "(p, a) \<in> U" and nb: "neighbours I p a lo hi"
  shows "tiled n (given I p a lo hi) (U - {(p, a)})"
proof -
  have sp: "spaced I" and du: "disjoint_ranges U" and dj: "cells I \<inter> cells U = {}" and un: "cells I \<union> cells U = {..<n}"
    using t by (auto simp: tiled_def)
  have a: "0 < a" using disjoint_rangesD(1) [OF du u] .
  have pU: "{p..<p + a} \<subseteq> cells U" using u by (auto intro: cellsI)
  have cU: "cells (U - {(p, a)}) = cells U - {p..<p + a}" by (rule cells_remove [OF du u])
  define s where "s = (case lo of None \<Rightarrow> p | Some (q, m) \<Rightarrow> q)"
  define e where "e = p + a + (case hi of None \<Rightarrow> 0 | Some m \<Rightarrow> m)"
  define J where "J = I - set_option lo - (case hi of None \<Rightarrow> {} | Some m \<Rightarrow> {(p + a, m)})"
  have g: "given I p a lo hi = insert (s, e - s) J" and s: "s \<le> p" "s < e" "p + a \<le> e"
    using nb a by (auto simp: given_def neighbours_def s_def e_def J_def split: option.splits)
  have dI: "disjoint_ranges I" by (rule spaced_disjoint [OF sp])
  have "cells (I - set_option lo) = cells I - {s..<p}"
    using nb by (auto simp: neighbours_def s_def cells_remove [OF dI] split: option.splits)
  moreover have "cells J = cells (I - set_option lo) - {p + a..<e}"
    using nb a by (auto simp: neighbours_def e_def J_def cells_remove [OF disjoint_subset [OF dI]] split: option.splits)
  ultimately have cJ: "cells J = cells I - {s..<p} - {p + a..<e}" by simp
  have sI: "{s..<p} \<subseteq> cells I" "{p + a..<e} \<subseteq> cells I"
    using nb by (auto simp: neighbours_def s_def e_def intro: cellsI split: option.splits)
  have out: "{p..<p + a} \<inter> cells I = {}" using pU dj by blast
  have "p + a \<notin> cells I" if "hi = None"
  proof
    assume "p + a \<in> cells I"
    moreover have "p + a - 1 \<in> {p..<p + a}" using a by auto
    then have "p + a - 1 \<notin> cells I" using out by blast
    ultimately obtain m where "(p + a, m) \<in> I" using cell_start [of "p + a" I] by blast
    then show False using nb that by (auto simp: neighbours_def)
  qed
  then have eI: "e \<notin> cells I"
    using nb end_not_in_cells [OF sp] by (auto simp: neighbours_def e_def split: option.splits)
  have sI': "s = 0 \<or> s - 1 \<notin> cells I"
    unfolding s_def using nb by (intro given_lo [OF sp out a]) (simp add: neighbours_def)
  have se: "{s..<e} = {s..<p} \<union> {p..<p + a} \<union> {p + a..<e}" using s by auto
  have "x \<in> {p..<p + a}" if "s \<le> x" "x \<le> e" "x \<in> cells I" "x \<notin> {s..<p}" "x \<notin> {p + a..<e}" for x
    using that eI by (cases "x = e") auto
  then have "x \<notin> cells J" if "s \<le> x" "x \<le> e" for x using that out unfolding cJ by blast
  then have "{s..e} \<inter> cells J = {}" by auto
  then have "{s..s + (e - s)} \<inter> cells J = {}" using s by simp
  then have "spaced (insert (s, e - s) J)"
    using s sI' cJ by (intro spaced_insert [OF spaced_subset [OF sp]]) (auto simp: J_def)
  moreover have "cells (insert (s, e - s) J) = cells I \<union> {p..<p + a}" using s sI se cJ by auto
  ultimately show ?thesis
    unfolding tiled_def g cU using disjoint_subset [OF du, of "U - {(p, a)}"] dj un pU by auto
qed


text \<open>Cutting a used range short makes its end idle, when no idle range follows it.\<close>

lemma tiled_shrink:
  assumes t: "tiled n I U" and u: "(p, a) \<in> U" and k: "0 < k" "k < a" and none: "\<And>m. (p + a, m) \<notin> I"
  shows "tiled n (insert (p + k, a - k) I) (insert (p, k) (U - {(p, a)}))"
proof -
  have sp: "spaced I" and du: "disjoint_ranges U" and dj: "cells I \<inter> cells U = {}" and un: "cells I \<union> cells U = {..<n}"
    using t by (auto simp: tiled_def)
  have pU: "{p..<p + a} \<subseteq> cells U" using u by (auto intro: cellsI)
  have cU: "cells (U - {(p, a)}) = cells U - {p..<p + a}" by (rule cells_remove [OF du u])
  have out: "{p..<p + a} \<inter> cells I = {}" using pU dj by blast
  have e: "p + a \<notin> cells I"
  proof
    assume "p + a \<in> cells I"
    moreover have "p + a - 1 \<in> {p..<p + a}" using k by auto
    then have "p + a - 1 \<notin> cells I" using out by blast
    ultimately show False using cell_start [of "p + a" I] none by blast
  qed
  have "x \<notin> cells I" if "p + k \<le> x" "x \<le> p + a" for x
  proof (cases "x = p + a")
    case False
    then have "x \<in> {p..<p + a}" using that by simp
    then show ?thesis using out by blast
  qed (use e in simp)
  then have "{p + k..p + k + (a - k)} \<inter> cells I = {}" using k by auto
  moreover have "p + k - 1 \<in> {p..<p + a}" using k by auto
  then have "p + k - 1 \<notin> cells I" using out by blast
  ultimately have "spaced (insert (p + k, a - k) I)" using k by (intro spaced_insert [OF sp]) auto
  moreover have "disjoint_ranges (insert (p, k) (U - {(p, a)}))"
    using k cU by (intro disjoint_insert disjoint_subset [OF du]) auto
  moreover have "{p..<p + a} = {p..<p + k} \<union> {p + k..<p + k + (a - k)}" "{p..<p + k} \<inter> {p + k..<p + k + (a - k)} = {}"
    using k by auto
  ultimately show ?thesis unfolding tiled_def cells_simps cU using dj un pU out by blast
qed

end
