(* ===== verification/Allocator.thy ===== *)
theory Allocator
  imports Ranges
begin

text \<open>
  The contract of a memory pool and the pair of trees three of the pools keep their idle ranges in.

  The locale \<open>allocator\<close> is what the users of a pool rely on: the blocks handed out are disjoint, inside
  the pool and at least as long as requested, a live block can be released exactly once, and a failing call
  changes nothing. \<open>exact_allocator\<close> adds that the live blocks determine the state.

  \<^verbatim>\<open>AccOffloadMemManager\<close>, \<^verbatim>\<open>RbtreeRangePool\<close> and the \<^verbatim>\<open>MemoryHeap\<close> of the PyTorch adaptor index the same idle
  ranges by offset and by size. The last section has the comparison of the size index and the statements the
  three classes share: splitting an idle range and merging a released one with its neighbours.
\<close>

section \<open>The contract\<close>

datatype request = Alloc nat | Free nat

primrec serve :: "('s \<Rightarrow> nat \<Rightarrow> nat \<times> 's) \<Rightarrow> ('s \<Rightarrow> nat \<Rightarrow> bool \<times> 's) \<Rightarrow> request \<Rightarrow> 's \<Rightarrow> 's" where
  "serve alloc release (Alloc n) s = snd (alloc s n)"
| "serve alloc release (Free a) s = snd (release s a)"

locale allocator =
  fixes alloc :: "'s \<Rightarrow> nat \<Rightarrow> nat \<times> 's"
    and release :: "'s \<Rightarrow> nat \<Rightarrow> bool \<times> 's"
    and live :: "'s \<Rightarrow> (nat \<times> nat) set"
    and pool :: "'s \<Rightarrow> nat set"
    and ok :: "'s \<Rightarrow> bool"
  assumes ok_live: "ok s \<Longrightarrow> disjoint_ranges (live s) \<and> cells (live s) \<subseteq> pool s"
    and alloc_ok: "ok s \<Longrightarrow> alloc s n = (a, s') \<Longrightarrow> ok s' \<and> pool s' = pool s"
    and alloc_none: "ok s \<Longrightarrow> alloc s n = (0, s') \<Longrightarrow> s' = s"
    and alloc_some: "ok s \<Longrightarrow> alloc s n = (a, s') \<Longrightarrow> a \<noteq> 0 \<Longrightarrow>
      \<exists>m. n \<le> m \<and> (a, m) \<notin> live s \<and> live s' = insert (a, m) (live s)"
    and release_ok: "ok s \<Longrightarrow> release s a = (b, s') \<Longrightarrow> ok s' \<and> pool s' = pool s"
    and release_live: "ok s \<Longrightarrow> (a, m) \<in> live s \<Longrightarrow> release s a = (b, s') \<Longrightarrow> b \<and> live s' = live s - {(a, m)}"
    and release_other: "ok s \<Longrightarrow> a \<notin> fst ` live s \<Longrightarrow> release s a = (False, s)"
begin

lemma serve_ok: "ok s \<Longrightarrow> ok (serve alloc release r s) \<and> pool (serve alloc release r s) = pool s"
  using alloc_ok [OF _ surjective_pairing] release_ok [OF _ surjective_pairing] by (cases r) simp_all

lemma run_ok: "ok s \<Longrightarrow> ok (fold (serve alloc release) rs s) \<and> pool (fold (serve alloc release) rs s) = pool s"
  by (induction rs arbitrary: s) (simp_all add: serve_ok)

text \<open>After any requests, the live blocks are disjoint and inside the pool.\<close>

lemma run_disjoint: "ok s \<Longrightarrow> disjoint_ranges (live (fold (serve alloc release) rs s)) \<and> cells (live (fold (serve alloc release) rs s)) \<subseteq> pool s"
  using ok_live run_ok by metis

lemma alloc_disjoint:
  assumes "ok s" "alloc s n = (a, s')" "a \<noteq> 0"
  shows "\<exists>m\<ge>n. {a..<a + m} \<inter> cells (live s) = {} \<and> {a..<a + m} \<subseteq> pool s"
proof -
  obtain m where m: "n \<le> m" "(a, m) \<notin> live s" "live s' = insert (a, m) (live s)"
    using alloc_some [OF assms] by blast
  have ok: "ok s'" "pool s' = pool s" using alloc_ok [OF assms(1,2)] by auto
  have "cells (live s) = cells (live s') - {a..<a + m}"
    using cells_remove [of "live s'" a m] ok_live [OF ok(1)] m by (simp add: Diff_insert_absorb)
  moreover have "{a..<a + m} \<subseteq> pool s" using ok_live [OF ok(1)] ok(2) m by auto
  ultimately show ?thesis using m(1) by blast
qed

lemma live_fun: "ok s \<Longrightarrow> (a, m) \<in> live s \<Longrightarrow> (a, m') \<in> live s \<Longrightarrow> m = m'"
  using disjoint_rangesD(1) [of "live s" a m] disjoint_rangesD(1) [of "live s" a m']
    disjoint_rangesD(2) [of "live s" a m a m'] ok_live [of s] by simp

text \<open>A released block cannot be released again.\<close>

lemma double_release:
  assumes "ok s" "(a, m) \<in> live s" "release s a = (b, s')"
  shows "b \<and> release s' a = (False, s')"
proof -
  have l: "b" "live s' = live s - {(a, m)}" using release_live [OF assms] by auto
  then have "a \<notin> fst ` live s'" using live_fun [OF assms(1,2)] by auto
  then show ?thesis using release_other release_ok [OF assms(1,3)] l(1) by blast
qed

lemma release_all:
  assumes "ok s" "distinct as" "set as \<subseteq> fst ` live s"
  shows "live (fold (serve alloc release) (map Free as) s) = {b \<in> live s. fst b \<notin> set as}"
  using assms
proof (induction as arbitrary: s)
  case (Cons a as)
  obtain m where m: "(a, m) \<in> live s" using Cons.prems(3) by auto
  obtain b s' where r: "release s a = (b, s')" by (cases "release s a")
  have l: "live s' = live s - {(a, m)}" using release_live [OF Cons.prems(1) m r] by simp
  have *: "live s - {(a, m)} = {b \<in> live s. fst b \<noteq> a}" 
  proof -
    have "k \<noteq> (a, m) \<longleftrightarrow> fst k \<noteq> a" if "k \<in> live s" for k
      using that live_fun [OF Cons.prems(1) m, of "snd k"] by (cases k) auto
    then show ?thesis by auto
  qed
  have ok: "ok s'" using release_ok [OF Cons.prems(1) r] by simp
  have "set as \<subseteq> fst ` live s'"
  proof
    fix x assume x: "x \<in> set as"
    then obtain k where "(x, k) \<in> live s" using Cons.prems(3) by auto
    moreover have "x \<noteq> a" using x Cons.prems(2) by auto
    ultimately show "x \<in> fst ` live s'" unfolding l * by force
  qed
  then have "live (fold (serve alloc release) (map Free as) s') = {b \<in> live s'. fst b \<notin> set as}"
    using Cons.IH [OF ok] Cons.prems(2) by simp
  then show ?case using r unfolding l * by auto
qed simp

end

text \<open>When the live blocks determine the state, releasing undoes allocating.\<close>

locale exact_allocator = allocator +
  assumes exact: "ok s \<Longrightarrow> ok s' \<Longrightarrow> pool s = pool s' \<Longrightarrow> live s = live s' \<Longrightarrow> s = s'"
begin

lemma release_undoes_alloc:
  assumes "ok s" "alloc s n = (a, s')" "a \<noteq> 0"
  shows "release s' a = (True, s)"
proof -
  obtain m where m: "(a, m) \<notin> live s" "live s' = insert (a, m) (live s)"
    using alloc_some [OF assms] by blast
  have ok: "ok s'" "pool s' = pool s" using alloc_ok [OF assms(1,2)] by auto
  obtain b s'' where r: "release s' a = (b, s'')" by (cases "release s' a")
  have "b" "live s'' = live s" using release_live [OF ok(1) _ r, of m] m by auto
  moreover have "ok s''" "pool s'' = pool s" using release_ok [OF ok(1) r] ok(2) by auto
  ultimately show ?thesis using exact [of s'' s] assms(1) r by simp
qed

text \<open>Releasing every live block, in any order, restores the state the pool was created in.\<close>

lemma release_all_restores:
  assumes "ok s0" "live s0 = {}" "s = fold (serve alloc release) rs s0" "distinct as" "set as = fst ` live s"
  shows "fold (serve alloc release) (map Free as) s = s0"
proof -
  have s: "ok s" "pool s = pool s0" using run_ok [OF assms(1), of rs] assms(3) by auto
  have "live (fold (serve alloc release) (map Free as) s) = {}"
    using release_all [OF s(1) assms(4)] assms(5) by auto
  then show ?thesis using exact run_ok [OF s(1), of "map Free as"] s assms(1,2) by simp
qed

end

section \<open>Idle ranges in two trees\<close>

datatype MemoryRange = MemoryRange (mr_offset: nat) (mr_size: nat)

definition RangeSizeFirstComparator :: "MemoryRange \<Rightarrow> MemoryRange \<Rightarrow> bool" where
  "RangeSizeFirstComparator mr1 mr2 =
     (if mr_size mr1 \<noteq> mr_size mr2 then mr_size mr1 < mr_size mr2 else mr_offset mr1 < mr_offset mr2)"

instantiation MemoryRange :: linorder
begin

definition less_MemoryRange :: "MemoryRange \<Rightarrow> MemoryRange \<Rightarrow> bool" where
  "less_MemoryRange = RangeSizeFirstComparator"

definition less_eq_MemoryRange :: "MemoryRange \<Rightarrow> MemoryRange \<Rightarrow> bool" where
  "less_eq_MemoryRange mr1 mr2 \<longleftrightarrow> mr1 = mr2 \<or> RangeSizeFirstComparator mr1 mr2"

instance
  by standard
    (auto simp: less_MemoryRange_def less_eq_MemoryRange_def RangeSizeFirstComparator_def MemoryRange.expand split: if_splits)

end

text \<open>The range that serves a request of \<open>n\<close> bytes is the smallest idle range of that size or more, and the
  first of these.\<close>

lemma anchor_le: "MemoryRange 0 n \<le> MemoryRange p m \<longleftrightarrow> n \<le> m"
  by (auto simp: less_eq_MemoryRange_def RangeSizeFirstComparator_def)

lemma anchor_greater: "MemoryRange p m < MemoryRange 0 n \<longleftrightarrow> m < n"
  by (auto simp: less_MemoryRange_def RangeSizeFirstComparator_def)

type_synonym trees = "(nat, nat) omap \<times> MemoryRange list"

definition trees_ok :: "trees \<Rightarrow> bool" where
  "trees_ok t \<longleftrightarrow> om_wf (fst t) \<and> os_wf (snd t) \<and> set (snd t) = (\<lambda>(p, n). MemoryRange p n) ` set (fst t)"

definition idle_set :: "trees \<Rightarrow> (nat \<times> nat) set" where
  "idle_set t = set (fst t)"

definition trees_erase :: "nat \<Rightarrow> nat \<Rightarrow> trees \<Rightarrow> trees" where
  "trees_erase p n t = (om_erase p (fst t), os_erase (MemoryRange p n) (snd t))"

definition trees_emplace :: "nat \<Rightarrow> nat \<Rightarrow> trees \<Rightarrow> trees" where
  "trees_emplace p n t = (om_emplace p n (fst t), os_insert (MemoryRange p n) (snd t))"

text \<open>The statements by which \<^verbatim>\<open>Release\<close> merges the range that starts at \<open>offset\<close> with the idle range before
  it and with the one after it, and puts the result into both trees.\<close>

definition coalesce :: "nat \<Rightarrow> nat \<Rightarrow> trees \<Rightarrow> trees" where
  "coalesce offset len t =
     (let (finalOffset, finalSize, t) =
            (case om_before offset (fst t) of
               Some (p, n) \<Rightarrow>
                 if u64 (p + n) = offset then (p, u64 (len + n), trees_erase p n t) else (offset, len, t)
             | None \<Rightarrow> (offset, len, t));
          (finalSize, t) =
            (case om_find (u64 (offset + len)) (fst t) of
               Some n \<Rightarrow> (u64 (finalSize + n), trees_erase (u64 (offset + len)) n t)
             | None \<Rightarrow> (finalSize, t))
      in trees_emplace finalOffset finalSize t)"

lemma inj_MemoryRange: "inj (\<lambda>(p, n). MemoryRange p n)"
  by (auto intro: injI)

lemma trees_ok_erase:
  assumes "trees_ok t" "(p, n) \<in> idle_set t"
  shows "trees_ok (trees_erase p n t)" "idle_set (trees_erase p n t) = idle_set t - {(p, n)}"
  using assms set_om_erase_in [of "fst t" p n]
  by (auto simp: trees_ok_def trees_erase_def idle_set_def om_simps image_set_diff [OF inj_MemoryRange])

lemma trees_ok_emplace:
  assumes "trees_ok t" "p \<notin> fst ` idle_set t"
  shows "trees_ok (trees_emplace p n t)" "idle_set (trees_emplace p n t) = insert (p, n) (idle_set t)"
  using assms set_om_emplace [of "fst t" p n]
  by (auto simp: trees_ok_def trees_emplace_def idle_set_def om_simps)

lemma trees_eqI:
  assumes "trees_ok t" "trees_ok t'" "idle_set t = idle_set t'"
  shows "t = t'"
  using assms om_eqI [of "fst t" "fst t'"] os_eqI [of "snd t" "snd t'"]
  by (simp add: trees_ok_def idle_set_def prod_eq_iff)

lemma trees_find: "trees_ok t \<Longrightarrow> om_find p (fst t) = Some n \<longleftrightarrow> (p, n) \<in> idle_set t"
  by (simp add: trees_ok_def idle_set_def om_find_iff)

lemma trees_lower_bound:
  assumes "trees_ok t" "os_lower_bound (MemoryRange 0 n) (snd t) = Some (MemoryRange p m)"
  shows "(p, m) \<in> idle_set t" "n \<le> m" "om_find p (fst t) = Some m"
    "\<And>q k. (q, k) \<in> idle_set t \<Longrightarrow> n \<le> k \<Longrightarrow> m \<le> k"
proof -
  have l: "MemoryRange p m \<in> set (snd t)" "MemoryRange 0 n \<le> MemoryRange p m"
    "\<forall>z\<in>set (snd t). MemoryRange 0 n \<le> z \<longrightarrow> MemoryRange p m \<le> z"
    using assms os_lower_bound_Some [of "snd t"] by (auto simp: trees_ok_def)
  show i: "(p, m) \<in> idle_set t" using l(1) assms(1) by (auto simp: trees_ok_def idle_set_def)
  show "n \<le> m" using l(2) by (simp add: anchor_le)
  show "om_find p (fst t) = Some m" using i assms(1) by (simp add: trees_find)
  fix q k assume q: "(q, k) \<in> idle_set t" "n \<le> k"
  then have "MemoryRange q k \<in> set (snd t)" using assms(1) by (force simp: trees_ok_def idle_set_def)
  then have "MemoryRange p m \<le> MemoryRange q k" using l(3) q(2) by (simp add: anchor_le)
  then show "m \<le> k" by (auto simp: less_eq_MemoryRange_def RangeSizeFirstComparator_def split: if_splits)
qed

lemma trees_lower_bound_None:
  "trees_ok t \<Longrightarrow> os_lower_bound (MemoryRange 0 n) (snd t) = None \<longleftrightarrow> (\<forall>p m. (p, m) \<in> idle_set t \<longrightarrow> m < n)"
  by (auto simp: os_lower_bound_None trees_ok_def idle_set_def anchor_greater)


definition trees_split :: "nat \<Rightarrow> nat \<Rightarrow> nat \<Rightarrow> nat \<Rightarrow> trees \<Rightarrow> trees" where
  "trees_split p m k a t =
     (let t = trees_erase p m t;
          t = (if 0 < k then trees_emplace p k t else t)
      in if k + a < m then trees_emplace (p + k + a) (m - k - a) t else t)"

lemma spaced_keys: "spaced R \<Longrightarrow> (p, n) \<in> R \<Longrightarrow> (p, m) \<in> R \<Longrightarrow> n = m"
  using spacedD(2) [of R p n p m] spacedD(1) [of R p] by fastforce

lemma split_ok:
  assumes t: "trees_ok t" "tiled n (idle_set t) U" and i: "(p, m) \<in> idle_set t" and a: "k + a \<le> m" "0 < a"
  shows "trees_ok (trees_split p m k a t)" "tiled n (idle_set (trees_split p m k a t)) (insert (p + k, a) U)"
proof -
  have sp: "spaced (idle_set t)" using t(2) by (simp add: tiled_def)
  let ?t1 = "trees_erase p m t"
  let ?t2 = "if 0 < k then trees_emplace p k ?t1 else ?t1"
  let ?t3 = "trees_split p m k a t"
  have t1: "trees_ok ?t1" "idle_set ?t1 = idle_set t - {(p, m)}" using trees_ok_erase [OF t(1) i] .
  have k1: "q \<notin> fst ` idle_set ?t1" if "p \<le> q" "q < p + m" for q
  proof
    assume "q \<in> fst ` idle_set ?t1"
    then obtain e where e: "e \<in> idle_set t" "e \<noteq> (p, m)" "fst e = q" unfolding t1(2) by blast
    define l where "l = snd e"
    have q: "(q, l) \<in> idle_set t" "(q, l) \<noteq> (p, m)" using e by (auto simp: l_def)
    then show False using spacedD(2) [OF sp i q(1)] spacedD(1) [OF sp q(1)] that by auto
  qed
  have t2: "trees_ok ?t2" "idle_set ?t2 = idle_set ?t1 \<union> piece p k"
    using trees_ok_emplace [OF t1(1), of p k] k1 [of p] t1(1) a by (auto simp: piece_def)
  have k2: "p + k + a \<notin> fst ` idle_set ?t2" if "k + a < m"
    unfolding t2(2) image_Un using k1 [of "p + k + a"] that a by (simp add: piece_def)
  have t3: "?t3 = (if k + a < m then trees_emplace (p + k + a) (m - k - a) ?t2 else ?t2)"
    by (simp add: trees_split_def Let_def)
  have "trees_ok ?t3" "idle_set ?t3 = idle_set ?t2 \<union> piece (p + k + a) (m - k - a)"
    unfolding t3 using trees_ok_emplace [OF t2(1) k2] t2(1) by (auto simp: piece_def)
  then show "trees_ok ?t3" "tiled n (idle_set ?t3) (insert (p + k, a) U)"
    using tiled_take [OF t(2) i a] unfolding t2(2) t1(2) by simp_all
qed

lemma before_neighbour:
  assumes "trees_ok t" "spaced (idle_set t)"
  shows "neighbours (idle_set t) p a
    (case om_before p (fst t) of Some (q, m) \<Rightarrow> if q + m = p then Some (q, m) else None | None \<Rightarrow> None)
    (om_find (p + a) (fst t))"
proof -
  have wf: "om_wf (fst t)" and i: "idle_set t = set (fst t)" using assms(1) by (auto simp: trees_ok_def idle_set_def)
  have before: "om_before p (fst t) = Some (q, m)" if q: "(q, m) \<in> idle_set t" "q + m = p" for q m
    unfolding om_before_Some [OF wf]
  proof (intro conjI ballI impI)
    show "(q, m) \<in> set (fst t)" "fst (q, m) < p" using q spacedD(1) [OF assms(2)] by (auto simp: i)
    fix e assume e: "e \<in> set (fst t)" "fst e < p"
    then have "(fst e, snd e) \<in> idle_set t" by (simp add: i)
    then show "fst e \<le> fst (q, m)" using spacedD(2) [OF assms(2) q(1)] q(2) e(2) by fastforce
  qed
  have hi: "case om_find (p + a) (fst t) of None \<Rightarrow> \<forall>m. (p + a, m) \<notin> idle_set t | Some m \<Rightarrow> (p + a, m) \<in> idle_set t"
    using trees_find [OF assms(1), of "p + a"] by (cases "om_find (p + a) (fst t)") auto
  show ?thesis
  proof (cases "\<exists>q m. (q, m) \<in> idle_set t \<and> q + m = p")
    case True
    then obtain q m where "(q, m) \<in> idle_set t" "q + m = p" by blast
    then show ?thesis using before [of q m] hi by (simp add: neighbours_def)
  next
    case False
    moreover have "e \<in> idle_set t" if "om_before p (fst t) = Some e" for e
      using that om_before_Some [OF wf] by (simp add: i)
    ultimately have "(case om_before p (fst t) of Some (q, m) \<Rightarrow> if q + m = p then Some (q, m) else None | None \<Rightarrow> None) = None"
      by (cases "om_before p (fst t)") auto
    then show ?thesis using False hi by (simp add: neighbours_def)
  qed
qed

lemma coalesce_ok:
  assumes t: "trees_ok t" "tiled n (idle_set t) U" and n: "n < 2 ^ 64" and u: "(p, a) \<in> U"
  shows "trees_ok (coalesce p a t)" "tiled n (idle_set (coalesce p a t)) (U - {(p, a)})"
proof -
  define lo where "lo = (case om_before p (fst t) of Some (q, m) \<Rightarrow> if q + m = p then Some (q, m) else None | None \<Rightarrow> None)"
  define hi where "hi = om_find (p + a) (fst t)"
  have sp: "spaced (idle_set t)" using t(2) by (simp add: tiled_def)
  have nb: "neighbours (idle_set t) p a lo hi"
    unfolding lo_def hi_def by (rule before_neighbour [OF t(1) sp])
  have tg: "tiled n (given (idle_set t) p a lo hi) (U - {(p, a)})" by (rule tiled_give [OF t(2) u nb])
  have pa: "p + a \<le> n" "0 < a" using tiled_bound(2) [OF t(2) u] disjoint_rangesD(1) [OF _ u] t(2) by (auto simp: tiled_def)
  define t1 where "t1 = (case lo of None \<Rightarrow> t | Some (q, m) \<Rightarrow> trees_erase q m t)"
  define s where "s = (case lo of None \<Rightarrow> p | Some (q, m) \<Rightarrow> q)"
  define l where "l = a + (case lo of None \<Rightarrow> 0 | Some (q, m) \<Rightarrow> m)"
  define t2 where "t2 = (case hi of None \<Rightarrow> t1 | Some m \<Rightarrow> trees_erase (p + a) m t1)"
  define e where "e = l + (case hi of None \<Rightarrow> 0 | Some m \<Rightarrow> m)"
  have lo_in: "(q, m) \<in> idle_set t" "q + m = p" if "lo = Some (q, m)" for q m
    using nb that by (simp_all add: neighbours_def)
  have t1: "trees_ok t1" "idle_set t1 = idle_set t - set_option lo"
    using t(1) trees_ok_erase [OF t(1) lo_in(1)] by (cases lo; auto simp: t1_def)+
  have find1: "om_find (p + a) (fst t1) = hi"
    using lo_in(2) pa by (cases lo) (auto simp: t1_def hi_def trees_erase_def om_find_erase)
  have hi_in: "(p + a, m) \<in> idle_set t1" if "hi = Some m" for m
    using that find1 trees_find [OF t1(1)] by simp
  have t2: "trees_ok t2" "idle_set t2 = idle_set t - set_option lo - (case hi of None \<Rightarrow> {} | Some m \<Rightarrow> {(p + a, m)})"
    using t1 trees_ok_erase [OF t1(1) hi_in] by (cases hi; simp add: t2_def)+
  have s: "s \<le> p" "p < s + e"
    using lo_in(2) pa by (cases lo; cases hi; auto simp: s_def e_def l_def)+
  have g: "given (idle_set t) p a lo hi = insert (s, e) (idle_set t2)"
    by (auto simp: given_def s_def e_def l_def t2(2) split: option.splits)
  have "s + e \<le> n" using tiled_bound(1) [OF tg, of s e] by (simp add: g)
  then have len: "u64 (p + a) = p + a" "u64 l = l" "u64 e = e" "l \<le> e"
    using pa n by (auto simp: e_def split: option.splits)
  have before: "(case om_before p (fst t) of
               Some (q, m) \<Rightarrow> if u64 (q + m) = p then (q, u64 (a + m), trees_erase q m t) else (p, a, t)
             | None \<Rightarrow> (p, a, t)) = (s, l, t1)"
  proof (cases "om_before p (fst t)")
    case None
    then show ?thesis by (simp add: lo_def s_def l_def t1_def)
  next
    case (Some qm)
    obtain q m where qm: "qm = (q, m)" by (cases qm)
    have "(q, m) \<in> idle_set t" using Some qm om_before_Some [of "fst t" p "(q, m)"] t(1) by (simp add: trees_ok_def idle_set_def)
    then have "u64 (q + m) = q + m" using tiled_bound(1) [OF t(2), of q m] n by simp
    then show ?thesis using Some qm len(2) by (cases "q + m = p") (simp_all add: lo_def s_def l_def t1_def)
  qed
  have "coalesce p a t = trees_emplace s e t2"
    unfolding coalesce_def before using len find1
    by (cases hi) (simp_all add: e_def t2_def)
  moreover have "s \<notin> fst ` idle_set t2"
  proof
    assume "s \<in> fst ` idle_set t2"
    then obtain k where k: "(s, k) \<in> idle_set t2" by auto
    have "spaced (insert (s, e) (idle_set t2))" using tg by (simp add: g tiled_def)
    then have "k = e" using spaced_keys [of _ s k e] k by blast
    have "p \<in> cells (idle_set t2)" using \<open>k = e\<close> s by (intro cellsI [OF k]) auto
    then have "p \<in> cells (idle_set t)" unfolding t2(2) by (auto simp: in_cells)
    moreover have "p \<in> cells U" using u pa by (auto intro: cellsI)
    ultimately show False using t(2) by (auto simp: tiled_def)
  qed
  ultimately show "trees_ok (coalesce p a t)" "tiled n (idle_set (coalesce p a t)) (U - {(p, a)})"
    using trees_ok_emplace [OF t2(1), of s e] tg by (simp_all add: g)
qed


text \<open>The trees of idle ranges together with the map of used ones.\<close>

definition books :: "nat \<Rightarrow> trees \<Rightarrow> (nat, nat) omap \<Rightarrow> bool" where
  "books n t u \<longleftrightarrow> trees_ok t \<and> om_wf u \<and> tiled n (idle_set t) (set u)"

lemma books_init: "0 < n \<Longrightarrow> books n (om_put 0 n [], os_insert (MemoryRange 0 n) []) []"
  using tiled_init [of n]
  by (simp add: books_def trees_ok_def idle_set_def os_insert_def os_wf_def om_wf_def piece_def)

lemma books_take:
  assumes b: "books n t u" and i: "(p, m) \<in> idle_set t" and a: "k + a \<le> m" "0 < a"
  shows "books n (trees_split p m k a t) (om_emplace (p + k) a u)"
    "set (om_emplace (p + k) a u) = insert (p + k, a) (set u)" "p + k \<notin> fst ` set u"
proof -
  have t: "trees_ok t" "tiled n (idle_set t) (set u)" and w: "om_wf u" using b by (auto simp: books_def)
  show f: "p + k \<notin> fst ` set u"
  proof
    assume "p + k \<in> fst ` set u"
    then obtain l where l: "(p + k, l) \<in> set u" by auto
    then have "p + k \<in> cells (set u)" using disjoint_rangesD(1) [OF _ l] t(2) by (auto simp: tiled_def intro: cellsI)
    moreover have "p + k \<in> cells (idle_set t)" using i a by (auto intro: cellsI)
    ultimately show False using t(2) by (auto simp: tiled_def)
  qed
  show s: "set (om_emplace (p + k) a u) = insert (p + k, a) (set u)" by (rule set_om_emplace [OF w f])
  show "books n (trees_split p m k a t) (om_emplace (p + k) a u)"
    using split_ok [OF t i a] w unfolding books_def s by simp
qed

lemma books_give:
  assumes b: "books n t u" and n: "n < 2 ^ 64" and i: "(p, a) \<in> set u"
  shows "books n (coalesce p a t) (om_erase p u)" "set (om_erase p u) = set u - {(p, a)}"
proof -
  have t: "trees_ok t" "tiled n (idle_set t) (set u)" and w: "om_wf u" using b by (auto simp: books_def)
  show s: "set (om_erase p u) = set u - {(p, a)}" by (rule set_om_erase_in [OF w i])
  show "books n (coalesce p a t) (om_erase p u)"
    using coalesce_ok [OF t n i] w unfolding books_def s by simp
qed

lemma books_unique:
  assumes "books n t u" "books n t' u'" "set u = set u'"
  shows "t = t'" "u = u'"
proof -
  have "idle_set t = idle_set t'"
    using tiled_idle [of n "idle_set t" "set u"] tiled_idle [of n "idle_set t'" "set u'"] assms by (simp add: books_def)
  then show "t = t'" "u = u'" using assms trees_eqI om_eqI by (auto simp: books_def)
qed

lemma books_bound: "books n t u \<Longrightarrow> (p, m) \<in> idle_set t \<or> (p, m) \<in> set u \<Longrightarrow> 0 < m \<and> p + m \<le> n"
  using tiled_bound [of n "idle_set t" "set u" p m] spacedD(1) disjoint_rangesD(1)
  by (auto simp: books_def tiled_def)

lemma books_live: "books n t u \<Longrightarrow> disjoint_ranges (shift b (set u)) \<and> cells (shift b (set u)) \<subseteq> {b..<b + n}"
  by (intro conjI disjoint_shift cells_shift) (auto simp: books_def tiled_def)

lemma om_sum: "om_wf m \<Longrightarrow> sum_list (map snd m) = sum snd (set m)"
  using om_wf_distinct [of m] by (simp add: sum_list_distinct_conv_sum_set distinct_map)

lemma books_sum: "books n t u \<Longrightarrow> sum_list (map snd u) \<le> n"
proof -
  assume b: "books n t u"
  then have "sum_list (map snd u) = card (cells (set u))" by (simp add: books_def tiled_def om_sum card_cells)
  also have "\<dots> \<le> card {..<n}" by (rule card_mono) (use b in \<open>auto simp: books_def tiled_def\<close>)
  finally show ?thesis by simp
qed

text \<open>The rules that evaluate the tree operations on concrete trees.\<close>

lemmas tree_eval =
  om_emplace_def om_find_def om_erase_def om_before_def os_insert_def os_erase_def os_lower_bound_def
  trees_erase_def trees_emplace_def coalesce_def less_eq_MemoryRange_def RangeSizeFirstComparator_def
  align_up64_def u64_def not64_def

end
