(* ===== verification/Range_Pool.thy ===== *)
theory Range_Pool
  imports Allocator
begin

text \<open>
  The range pool of the hybrid memory library: class \<^verbatim>\<open>RbtreeRangePool\<close> of
  \<^verbatim>\<open>hybm_rbtree_range_pool.cpp\<close> and the owning handle \<^verbatim>\<open>AllocatedElement\<close> of \<^verbatim>\<open>hybm_space_allocator.h\<close>.
  The pool keeps only its idle ranges; which blocks are in use is known to the elements, whose destructor
  returns the block. A client is therefore the pool together with the elements it holds, by address.
  \<open>ae_owned\<close> says that the \<^verbatim>\<open>allocator\<close> pointer of an element is not \<^verbatim>\<open>nullptr\<close>; the spin lock is left out.
\<close>

record range_pool =
  baseAddress :: nat
  totalSize :: nat
  rp_trees :: trees

record AllocatedElement =
  startAddress :: nat
  ae_size :: nat
  ae_owned :: bool

definition ae_empty :: AllocatedElement where
  "ae_empty = \<lparr>startAddress = 0, ae_size = 0, ae_owned = False\<rparr>"

definition RbtreeRangePool :: "nat \<Rightarrow> nat \<Rightarrow> range_pool" where
  "RbtreeRangePool address len =
     \<lparr>baseAddress = address, totalSize = len, rp_trees = (om_put 0 len [], os_insert (MemoryRange 0 len) [])\<rparr>"

definition AllocateSizeAlignUp :: "nat \<Rightarrow> nat" where
  "AllocateSizeAlignUp inputSize = align_up64 inputSize 4096"

definition CanAllocate :: "range_pool \<Rightarrow> nat \<Rightarrow> bool" where
  "CanAllocate p len \<longleftrightarrow> os_lower_bound (MemoryRange 0 (AllocateSizeAlignUp len)) (snd (rp_trees p)) \<noteq> None"

definition rp_Allocate :: "range_pool \<Rightarrow> nat \<Rightarrow> AllocatedElement \<times> range_pool" where
  "rp_Allocate p len =
     (let alignedSize = AllocateSizeAlignUp len in
      case os_lower_bound (MemoryRange 0 alignedSize) (snd (rp_trees p)) of
        None \<Rightarrow> (ae_empty, p)
      | Some (MemoryRange targetOffset targetSize) \<Rightarrow>
          if baseAddress p = 0 then (ae_empty, p)
          else (case om_find targetOffset (fst (rp_trees p)) of
            None \<Rightarrow> (ae_empty, p)
          | Some _ \<Rightarrow>
              let t = trees_erase targetOffset targetSize (rp_trees p);
                  t = (if targetSize > alignedSize
                       then trees_emplace (u64 (targetOffset + alignedSize)) (targetSize - alignedSize) t else t)
              in (\<lparr>startAddress = u64 (baseAddress p + targetOffset), ae_size = len, ae_owned = True\<rparr>, p\<lparr>rp_trees := t\<rparr>)))"

definition rp_Release :: "range_pool \<Rightarrow> AllocatedElement \<Rightarrow> bool \<times> range_pool" where
  "rp_Release p element =
     (let alignedSize = AllocateSizeAlignUp (ae_size element); elemAddr = startAddress element in
      if baseAddress p = 0 \<or> elemAddr = 0 then (False, p)
      else if elemAddr < baseAddress p \<or> elemAddr \<ge> u64 (baseAddress p + totalSize p) then (False, p)
      else let offset = elemAddr - baseAddress p
        in (True, p\<lparr>rp_trees := coalesce offset alignedSize (rp_trees p)\<rparr>))"

text \<open>The destructor, move construction and move assignment of an element.\<close>

definition ae_destroy :: "AllocatedElement \<Rightarrow> range_pool \<Rightarrow> AllocatedElement \<times> range_pool" where
  "ae_destroy e p = (if ae_owned e then (ae_empty, snd (rp_Release p e)) else (e, p))"

definition ae_move_construct :: "AllocatedElement \<Rightarrow> AllocatedElement \<times> AllocatedElement" where
  "ae_move_construct another = (another, ae_empty)"

definition ae_move_assign :: "AllocatedElement \<Rightarrow> AllocatedElement \<Rightarrow> AllocatedElement \<times> AllocatedElement" where
  "ae_move_assign this another = (another, ae_empty)"

section \<open>A client of the pool\<close>

text \<open>The client asks for at least one byte and for no more than the pool has, and it destroys the element that
  holds the address.\<close>

type_synonym rp_client = "range_pool \<times> (nat, AllocatedElement) omap"

definition rp_alloc :: "rp_client \<Rightarrow> nat \<Rightarrow> nat \<times> rp_client" where
  "rp_alloc c n =
     (if n = 0 \<or> n > totalSize (fst c) then (0, c)
      else case rp_Allocate (fst c) n of
        (e, p) \<Rightarrow> if startAddress e = 0 then (0, c) else (startAddress e, p, om_emplace (startAddress e) e (snd c)))"

definition rp_free :: "rp_client \<Rightarrow> nat \<Rightarrow> bool \<times> rp_client" where
  "rp_free c a =
     (case om_find a (snd c) of
        None \<Rightarrow> (False, c)
      | Some e \<Rightarrow> (True, snd (ae_destroy e (fst c)), om_erase a (snd c)))"

definition rp_live :: "rp_client \<Rightarrow> (nat \<times> nat) set" where
  "rp_live c = (\<lambda>(a, e). (a, ae_size e)) ` set (snd c)"

definition rp_pool :: "rp_client \<Rightarrow> nat set" where
  "rp_pool c = {baseAddress (fst c)..<baseAddress (fst c) + totalSize (fst c)}"

definition rp_used :: "rp_client \<Rightarrow> (nat \<times> nat) set" where
  "rp_used c = (\<lambda>(a, e). (a - baseAddress (fst c), AllocateSizeAlignUp (ae_size e))) ` set (snd c)"

definition ae_holds :: "nat \<Rightarrow> nat \<Rightarrow> AllocatedElement \<Rightarrow> bool" where
  "ae_holds len a e \<longleftrightarrow> startAddress e = a \<and> ae_owned e \<and> 0 < ae_size e \<and> ae_size e \<le> len"

definition rp_ok :: "rp_client \<Rightarrow> bool" where
  "rp_ok c \<longleftrightarrow> 0 < baseAddress (fst c) \<and> 0 < totalSize (fst c) \<and>
     baseAddress (fst c) + totalSize (fst c) < 2 ^ 64 \<and> totalSize (fst c) + 4096 \<le> 2 ^ 64 \<and>
     trees_ok (rp_trees (fst c)) \<and> om_wf (snd c) \<and>
     (\<forall>(a, e)\<in>set (snd c). baseAddress (fst c) \<le> a \<and> ae_holds (totalSize (fst c)) a e) \<and>
     tiled (totalSize (fst c)) (idle_set (rp_trees (fst c))) (rp_used c)"

lemma AllocateSizeAlignUp_bounds:
  assumes "n + 4096 \<le> 2 ^ 64"
  shows "n \<le> AllocateSizeAlignUp n" "AllocateSizeAlignUp n < n + 4096" "4096 dvd AllocateSizeAlignUp n"
proof -
  have "AllocateSizeAlignUp n = (n + 4096 - 1) div 4096 * 4096"
    using align_up64_eq [of 12 n] assms by (simp add: AllocateSizeAlignUp_def)
  then show "n \<le> AllocateSizeAlignUp n" "AllocateSizeAlignUp n < n + 4096" "4096 dvd AllocateSizeAlignUp n"
    using round_up_bounds [of 4096 n] by simp_all
qed

lemma rp_ok_init:
  "0 < base \<Longrightarrow> 0 < len \<Longrightarrow> base + len < 2 ^ 64 \<Longrightarrow> len + 4096 \<le> 2 ^ 64 \<Longrightarrow> rp_ok (RbtreeRangePool base len, [])"
  using tiled_init [of len]
  by (simp add: rp_ok_def rp_used_def RbtreeRangePool_def trees_ok_def idle_set_def os_insert_def os_wf_def om_wf_def piece_def)

lemma rp_Allocate_cases:
  assumes ok: "rp_ok c"
  obtains (fail) "rp_Allocate (fst c) n = (ae_empty, fst c)" "\<not> CanAllocate (fst c) n"
  | (take) q k where "CanAllocate (fst c) n" "(q, k) \<in> idle_set (rp_trees (fst c))" "AllocateSizeAlignUp n \<le> k"
      "rp_Allocate (fst c) n = (\<lparr>startAddress = baseAddress (fst c) + q, ae_size = n, ae_owned = True\<rparr>,
         (fst c)\<lparr>rp_trees := trees_split q k 0 (AllocateSizeAlignUp n) (rp_trees (fst c))\<rparr>)"
proof (cases "os_lower_bound (MemoryRange 0 (AllocateSizeAlignUp n)) (snd (rp_trees (fst c)))")
  case None
  then show ?thesis using fail by (simp add: rp_Allocate_def CanAllocate_def)
next
  case (Some r)
  let ?a = "AllocateSizeAlignUp n"
  have base: "baseAddress (fst c) \<noteq> 0" and t: "trees_ok (rp_trees (fst c))" using ok by (auto simp: rp_ok_def)
  obtain q k where r: "r = MemoryRange q k" by (cases r)
  note l = trees_lower_bound [OF t Some [unfolded r]]
  have b: "q + k \<le> totalSize (fst c)" using tiled_bound(1) l(1) ok by (auto simp: rp_ok_def)
  then have u: "u64 (baseAddress (fst c) + q) = baseAddress (fst c) + q" "u64 (q + ?a) = q + ?a"
    using l(2) ok by (auto simp: rp_ok_def)
  have "rp_Allocate (fst c) n = (\<lparr>startAddress = baseAddress (fst c) + q, ae_size = n, ae_owned = True\<rparr>,
         (fst c)\<lparr>rp_trees := trees_split q k 0 ?a (rp_trees (fst c))\<rparr>)"
    using base Some r l(3) u by (simp add: rp_Allocate_def Let_def trees_split_def)
  then show ?thesis using take Some l by (simp add: CanAllocate_def)
qed


lemma rp_take_ok:
  assumes ok: "rp_ok c" and n: "0 < n" "n \<le> totalSize (fst c)"
    and i: "(q, k) \<in> idle_set (rp_trees (fst c))" and a: "AllocateSizeAlignUp n \<le> k"
    and e: "e = \<lparr>startAddress = baseAddress (fst c) + q, ae_size = n, ae_owned = True\<rparr>"
    and c': "c' = ((fst c)\<lparr>rp_trees := trees_split q k 0 (AllocateSizeAlignUp n) (rp_trees (fst c))\<rparr>,
                   om_emplace (startAddress e) e (snd c))"
  shows "rp_ok c'" "set (snd c') = insert (startAddress e, e) (set (snd c))" "startAddress e \<notin> fst ` set (snd c)"
proof -
  let ?a = "AllocateSizeAlignUp n"
  have t: "trees_ok (rp_trees (fst c))" "tiled (totalSize (fst c)) (idle_set (rp_trees (fst c))) (rp_used c)"
    and w: "om_wf (snd c)"
    and h: "\<forall>(a, e)\<in>set (snd c). baseAddress (fst c) \<le> a \<and> ae_holds (totalSize (fst c)) a e"
    using ok by (auto simp: rp_ok_def)
  have "n + 4096 \<le> 2 ^ 64" using n ok by (auto simp: rp_ok_def)
  then have a0: "0 < ?a" using AllocateSizeAlignUp_bounds(1) [of n] n by simp
  show f: "startAddress e \<notin> fst ` set (snd c)"
  proof
    assume "startAddress e \<in> fst ` set (snd c)"
    then have "q \<in> fst ` rp_used c" by (force simp: rp_used_def e)
    then show False using tiled_key_fresh [OF t(2) i] by blast
  qed
  show s: "set (snd c') = insert (startAddress e, e) (set (snd c))"
    using set_om_emplace [OF w f] by (simp add: c')
  have "rp_used c' = insert (q, ?a) (rp_used c)" unfolding rp_used_def s by (simp add: e c')
  then show "rp_ok c'"
    using ok split_ok [OF t i, of 0 ?a] a a0 h n s unfolding rp_ok_def by (simp add: c') (simp add: e ae_holds_def)
qed

lemma image_remove: "x \<in> A \<Longrightarrow> (\<And>y. y \<in> A \<Longrightarrow> f y = f x \<Longrightarrow> y = x) \<Longrightarrow> f ` (A - {x}) = f ` A - {f x}"
proof -
  assume a: "x \<in> A" "\<And>y. y \<in> A \<Longrightarrow> f y = f x \<Longrightarrow> y = x"
  have "f x \<notin> f ` (A - {x})" using a(2) by (metis DiffE imageE singletonI)
  moreover have "f ` A = insert (f x) (f ` (A - {x}))" using a(1) by (metis image_insert insert_Diff)
  ultimately show ?thesis by simp
qed

lemma rp_destroy:
  assumes ok: "rp_ok c" and i: "(a, e) \<in> set (snd c)"
  defines "c' \<equiv> (snd (ae_destroy e (fst c)), om_erase a (snd c))"
  shows "rp_ok c'" "set (snd c') = set (snd c) - {(a, e)}"
    "baseAddress (fst c') = baseAddress (fst c)" "totalSize (fst c') = totalSize (fst c)"
proof -
  let ?o = "a - baseAddress (fst c)" and ?n = "AllocateSizeAlignUp (ae_size e)"
  have t: "trees_ok (rp_trees (fst c))" "tiled (totalSize (fst c)) (idle_set (rp_trees (fst c))) (rp_used c)"
    and w: "om_wf (snd c)" and sz: "baseAddress (fst c) + totalSize (fst c) < 2 ^ 64" "0 < baseAddress (fst c)"
    and h: "\<forall>(a, e)\<in>set (snd c). baseAddress (fst c) \<le> a \<and> ae_holds (totalSize (fst c)) a e"
    using ok by (auto simp: rp_ok_def)
  have e: "startAddress e = a" "ae_owned e" "baseAddress (fst c) \<le> a" using h i by (auto simp: ae_holds_def)
  have u: "(?o, ?n) \<in> rp_used c" using i by (force simp: rp_used_def)
  have b: "?o + ?n \<le> totalSize (fst c)" "0 < ?n"
    using tiled_bound(2) [OF t(2) u] disjoint_rangesD(1) [OF _ u] t(2) by (auto simp: tiled_def)
  have c': "c' = ((fst c)\<lparr>rp_trees := coalesce ?o ?n (rp_trees (fst c))\<rparr>, om_erase a (snd c))"
    using e sz b by (auto simp: c'_def ae_destroy_def rp_Release_def Let_def)
  show s: "set (snd c') = set (snd c) - {(a, e)}" using set_om_erase_in [OF w i] by (simp add: c')
  show "baseAddress (fst c') = baseAddress (fst c)" "totalSize (fst c') = totalSize (fst c)" by (simp_all add: c')
  have "rp_used c' = rp_used c - {(?o, ?n)}"
  proof -
    have uniq: "x = (a, e)" if "x \<in> set (snd c)" "fst x - baseAddress (fst c) = ?o" for x
    proof -
      have "fst x = a" using that h e(3) by (cases x) auto
      then show ?thesis using that(1) om_wf_inj [OF w i, of "snd x"] by (cases x) auto
    qed
    define g where "g = (\<lambda>(a, e::AllocatedElement). (a - baseAddress (fst c), AllocateSizeAlignUp (ae_size e)))"
    have "rp_used c' = g ` (set (snd c) - {(a, e)})" unfolding rp_used_def s g_def by (simp add: c')
    also have "\<dots> = g ` set (snd c) - {g (a, e)}"
    proof (rule image_remove [OF i])
      fix y assume "y \<in> set (snd c)" "g y = g (a, e)"
      then show "y = (a, e)" using uniq [of y] by (simp add: g_def split_beta)
    qed
    finally show ?thesis by (simp add: rp_used_def g_def)
  qed
  moreover have "totalSize (fst c) < 2 ^ 64" using sz by simp
  ultimately show "rp_ok c'"
    using coalesce_ok [OF t _ u] ok h s unfolding rp_ok_def by (simp add: c')
qed


lemma rp_liveD:
  assumes ok: "rp_ok c" and l: "(a, n) \<in> rp_live c"
  obtains e where "(a, e) \<in> set (snd c)" "ae_size e = n" "0 < n" "n \<le> AllocateSizeAlignUp n"
    "baseAddress (fst c) \<le> a" "(a - baseAddress (fst c), AllocateSizeAlignUp n) \<in> rp_used c"
proof -
  obtain e where e: "(a, e) \<in> set (snd c)" "ae_size e = n" using l by (auto simp: rp_live_def)
  have h: "baseAddress (fst c) \<le> a" "ae_holds (totalSize (fst c)) a e" using ok e(1) by (auto simp: rp_ok_def)
  have "n + 4096 \<le> 2 ^ 64" using h(2) e(2) ok by (auto simp: ae_holds_def rp_ok_def)
  then have "n \<le> AllocateSizeAlignUp n" by (rule AllocateSizeAlignUp_bounds)
  moreover have "(a - baseAddress (fst c), AllocateSizeAlignUp n) \<in> rp_used c"
    unfolding rp_used_def using e by (intro rev_image_eqI [of "(a, e)"]) simp_all
  ultimately show ?thesis using that e h by (auto simp: ae_holds_def)
qed

lemma rp_live_ok:
  assumes ok: "rp_ok c"
  shows "disjoint_ranges (rp_live c)" "cells (rp_live c) \<subseteq> rp_pool c"
proof -
  let ?b = "baseAddress (fst c)"
  have t: "tiled (totalSize (fst c)) (idle_set (rp_trees (fst c))) (rp_used c)" and w: "om_wf (snd c)"
    using ok by (auto simp: rp_ok_def)
  then have d: "disjoint_ranges (rp_used c)" by (simp add: tiled_def)
  have "(a, n) = (a', n') \<or> a + n \<le> a' \<or> a' + n' \<le> a" if l: "(a, n) \<in> rp_live c" "(a', n') \<in> rp_live c" for a n a' n'
  proof -
    obtain e where e: "(a, e) \<in> set (snd c)" "ae_size e = n" "n \<le> AllocateSizeAlignUp n" "?b \<le> a"
      "(a - ?b, AllocateSizeAlignUp n) \<in> rp_used c" by (rule rp_liveD [OF ok l(1)])
    obtain e' where e': "(a', e') \<in> set (snd c)" "ae_size e' = n'" "n' \<le> AllocateSizeAlignUp n'" "?b \<le> a'"
      "(a' - ?b, AllocateSizeAlignUp n') \<in> rp_used c" by (rule rp_liveD [OF ok l(2)])
    show ?thesis
    proof (cases "a = a'")
      case True
      then show ?thesis using om_wf_inj [OF w e(1), of e'] e e' by simp
    next
      case False
      then show ?thesis using disjoint_rangesD(2) [OF d e(5) e'(5)] e(3,4) e'(3,4) by auto
    qed
  qed
  moreover have "0 < n" if "(a, n) \<in> rp_live c" for a n by (rule rp_liveD [OF ok that])
  ultimately show "disjoint_ranges (rp_live c)" unfolding disjoint_ranges_def by blast
  show "cells (rp_live c) \<subseteq> rp_pool c"
  proof
    fix x assume "x \<in> cells (rp_live c)"
    then obtain a n where l: "(a, n) \<in> rp_live c" "a \<le> x" "x < a + n" by (auto simp: in_cells)
    obtain e where "n \<le> AllocateSizeAlignUp n" "?b \<le> a" "(a - ?b, AllocateSizeAlignUp n) \<in> rp_used c"
      by (rule rp_liveD [OF ok l(1)])
    then show "x \<in> rp_pool c" using tiled_bound(2) [OF t, of "a - ?b"] l by (force simp: rp_pool_def)
  qed
qed

lemma rp_alloc_cases:
  assumes ok: "rp_ok c"
  obtains (fail) "rp_alloc c n = (0, c)" "n = 0 \<or> totalSize (fst c) < n \<or> \<not> CanAllocate (fst c) n"
  | (take) a c' e where "rp_alloc c n = (a, c')" "0 < a" "rp_ok c'" "rp_pool c' = rp_pool c" "ae_size e = n"
      "set (snd c') = insert (a, e) (set (snd c))" "a \<notin> fst ` set (snd c)" "CanAllocate (fst c) n"
proof (cases "n = 0 \<or> totalSize (fst c) < n")
  case True
  then have "rp_alloc c n = (0, c)" by (auto simp: rp_alloc_def)
  then show ?thesis using fail True by blast
next
  case False
  then have n: "0 < n" "n \<le> totalSize (fst c)" by auto
  show ?thesis
    using ok
  proof (cases rule: rp_Allocate_cases [where n = n])
    case f: fail
    then have "rp_alloc c n = (0, c)" by (simp add: rp_alloc_def ae_empty_def)
    then show ?thesis using fail f(2) by blast
  next
    case t: (take q k)
    define e where "e = \<lparr>startAddress = baseAddress (fst c) + q, ae_size = n, ae_owned = True\<rparr>"
    define c' where "c' = ((fst c)\<lparr>rp_trees := trees_split q k 0 (AllocateSizeAlignUp n) (rp_trees (fst c))\<rparr>,
                   om_emplace (startAddress e) e (snd c))"
    note r = rp_take_ok [OF ok n t(2,3) e_def c'_def]
    have "0 < startAddress e" using ok by (simp add: e_def rp_ok_def)
    moreover have "rp_alloc c n = (startAddress e, c')"
      using False t(4) calculation by (simp add: rp_alloc_def c'_def flip: e_def)
    moreover have "rp_pool c' = rp_pool c" "ae_size e = n" by (simp_all add: rp_pool_def c'_def e_def)
    ultimately show ?thesis using take r t(1) by blast
  qed
qed

lemma rp_free_live:
  assumes ok: "rp_ok c" and l: "(a, n) \<in> rp_live c"
  obtains c' where "rp_free c a = (True, c')" "rp_ok c'" "rp_pool c' = rp_pool c" "rp_live c' = rp_live c - {(a, n)}"
proof -
  obtain e where e: "(a, e) \<in> set (snd c)" "ae_size e = n" using l by (auto simp: rp_live_def)
  have w: "om_wf (snd c)" using ok by (simp add: rp_ok_def)
  let ?c = "(snd (ae_destroy e (fst c)), om_erase a (snd c))"
  note d = rp_destroy [OF ok e(1)]
  have "rp_live ?c = rp_live c - {(a, n)}"
  proof -
    have "rp_live ?c = (\<lambda>(a, e). (a, ae_size e)) ` (set (snd c) - {(a, e)})" using d(2) by (simp add: rp_live_def)
    also have "\<dots> = rp_live c - {(\<lambda>(a, e). (a, ae_size e)) (a, e)}"
      unfolding rp_live_def
    proof (rule image_remove [OF e(1)])
      fix y assume y: "y \<in> set (snd c)" "(\<lambda>(a, e). (a, ae_size e)) y = (\<lambda>(a, e). (a, ae_size e)) (a, e)"
      then have "fst y = a" by (simp add: split_beta)
      then have "(a, snd y) \<in> set (snd c)" using y(1) by auto
      then show "y = (a, e)" using om_wf_inj [OF w e(1)] \<open>fst y = a\<close> by (simp add: prod_eq_iff)
    qed
    finally show ?thesis using e(2) by simp
  qed
  moreover have "rp_free c a = (True, ?c)" using e(1) om_find_iff [OF w, of a e] by (simp add: rp_free_def)
  ultimately show ?thesis using that d by (simp add: rp_pool_def)
qed


interpretation rp: exact_allocator rp_alloc rp_free rp_live rp_pool rp_ok
proof
  fix c n a c'
  assume ok: "rp_ok c" and al: "rp_alloc c n = (a, c')"
  have *: "rp_ok c' \<and> rp_pool c' = rp_pool c \<and> (a = 0 \<longrightarrow> c' = c) \<and>
    (a \<noteq> 0 \<longrightarrow> (\<exists>m. n \<le> m \<and> (a, m) \<notin> rp_live c \<and> rp_live c' = insert (a, m) (rp_live c)))"
    using ok
  proof (cases rule: rp_alloc_cases [where n = n])
    case fail
    then show ?thesis using al ok by auto
  next
    case (take a' c'' e)
    then have eq: "a' = a" "c'' = c'" using al by auto
    have "(a, n) \<notin> rp_live c" using take(7) eq by (force simp: rp_live_def)
    moreover have "rp_live c' = insert (a, n) (rp_live c)" using take(5,6) eq by (simp add: rp_live_def)
    ultimately show ?thesis using take(2,3,4) eq by blast
  qed
  show "rp_ok c' \<and> rp_pool c' = rp_pool c" using * by blast
  show "\<exists>m. n \<le> m \<and> (a, m) \<notin> rp_live c \<and> rp_live c' = insert (a, m) (rp_live c)" if "a \<noteq> 0" using * that by blast
next
  fix c n c'
  assume ok: "rp_ok c" and al: "rp_alloc c n = (0, c')"
  from ok show "c' = c" by (cases rule: rp_alloc_cases [where n = n]) (use al in auto)
next
  fix c assume "rp_ok c"
  then show "disjoint_ranges (rp_live c) \<and> cells (rp_live c) \<subseteq> rp_pool c" using rp_live_ok by blast
next
  fix c a m b c'
  assume ok: "rp_ok c" and l: "(a, m) \<in> rp_live c" and r: "rp_free c a = (b, c')"
  obtain c'' where "rp_free c a = (True, c'')" "rp_live c'' = rp_live c - {(a, m)}" by (rule rp_free_live [OF ok l])
  then show "b \<and> rp_live c' = rp_live c - {(a, m)}" using r by simp
next
  fix c a assume "rp_ok c" and a: "a \<notin> fst ` rp_live c"
  have "a \<notin> fst ` set (snd c)" using a by (force simp: rp_live_def)
  then have "om_find a (snd c) = None" by (simp add: om_find_None)
  then show "rp_free c a = (False, c)" by (simp add: rp_free_def)
next
  fix c a b c'
  assume ok: "rp_ok c" and r: "rp_free c a = (b, c')"
  show "rp_ok c' \<and> rp_pool c' = rp_pool c"
  proof (cases "om_find a (snd c)")
    case None
    then show ?thesis using ok r by (auto simp: rp_free_def)
  next
    case (Some e)
    then have "(a, e) \<in> set (snd c)" using ok om_find_iff [of "snd c" a e] by (simp add: rp_ok_def)
    then have l: "(a, ae_size e) \<in> rp_live c" by (force simp: rp_live_def)
    obtain c'' where "rp_free c a = (True, c'')" "rp_ok c''" "rp_pool c'' = rp_pool c" by (rule rp_free_live [OF ok l])
    then show ?thesis using r by simp
  qed
next
  fix c c'
  assume ok: "rp_ok c" "rp_ok c'" and p: "rp_pool c = rp_pool c'" and l: "rp_live c = rp_live c'"
  have b: "baseAddress (fst c) = baseAddress (fst c')" "totalSize (fst c) = totalSize (fst c')"
    using p ok by (auto simp: rp_pool_def rp_ok_def Ico_eq_Ico)
  have sub: "set (snd d) \<subseteq> set (snd d')" if "rp_ok d" "rp_ok d'" "rp_live d = rp_live d'" for d d' :: rp_client
  proof
    fix x assume x: "x \<in> set (snd d)"
    obtain a e where ae: "x = (a, e)" by (cases x)
    have "(a, ae_size e) \<in> rp_live d'" using x ae that(3) by (force simp: rp_live_def)
    then obtain e' where e': "(a, e') \<in> set (snd d')" "ae_size e' = ae_size e" by (auto simp: rp_live_def)
    have "ae_holds (totalSize (fst d)) a e" "ae_holds (totalSize (fst d')) a e'"
      using that(1,2) x ae e' by (auto simp: rp_ok_def)
    then have "e' = e" using e'(2) by (simp add: ae_holds_def)
    then show "x \<in> set (snd d')" using e' ae by simp
  qed
  have "set (snd c) = set (snd c')" using sub [OF ok l] sub [OF ok(2,1) l [symmetric]] by blast
  then have s: "snd c = snd c'" using om_eqI ok by (auto simp: rp_ok_def)
  then have "rp_used c = rp_used c'" using b by (simp add: rp_used_def)
  then have "idle_set (rp_trees (fst c)) = idle_set (rp_trees (fst c'))"
    using tiled_idle [of "totalSize (fst c)" "idle_set (rp_trees (fst c))" "rp_used c"]
      tiled_idle [of "totalSize (fst c')" "idle_set (rp_trees (fst c'))" "rp_used c'"] b ok by (simp add: rp_ok_def)
  then have "rp_trees (fst c) = rp_trees (fst c')" using trees_eqI ok by (auto simp: rp_ok_def)
  then show "c = c'" using b s by (simp add: prod_eq_iff)
qed


section \<open>Properties\<close>


definition rp_example :: rp_client where
  "rp_example = fold (serve rp_alloc rp_free) [Alloc 5000, Alloc 10, Free 65536] (RbtreeRangePool 65536 16384, [])"

lemma rp_example_eval:
  "rp_example = (\<lparr>baseAddress = 65536, totalSize = 16384,
       rp_trees = ([(0, 8192), (12288, 4096)], [MemoryRange 12288 4096, MemoryRange 0 8192])\<rparr>,
     [(73728, \<lparr>startAddress = 73728, ae_size = 10, ae_owned = True\<rparr>)])"
  by (simp add: rp_example_def RbtreeRangePool_def rp_alloc_def rp_Allocate_def rp_free_def ae_destroy_def
    rp_Release_def AllocateSizeAlignUp_def tree_eval)


text \<open>C32. The size is rounded up modulo \<open>2 ^ 64\<close>: a request within 4095 bytes of \<open>2 ^ 64\<close> is rounded to 0, so
  \<^verbatim>\<open>Allocate\<close> hands out an element that claims the whole size while the pool reserves nothing, and the next
  request gets the same address.\<close>

theorem rp_huge_request:
  assumes "2 ^ 64 < n + 4096" "n < 2 ^ 64" "0 < base" "4096 \<le> len" "base + len < 2 ^ 64"
  shows "rp_Allocate (RbtreeRangePool base len) n =
      (\<lparr>startAddress = base, ae_size = n, ae_owned = True\<rparr>, RbtreeRangePool base len) \<and>
    startAddress (fst (rp_Allocate (RbtreeRangePool base len) 4096)) = base"
proof -
  have "AllocateSizeAlignUp n = 0" using align_up64_wrap [of 12 n] assms by (simp add: AllocateSizeAlignUp_def)
  moreover have "AllocateSizeAlignUp 4096 = 4096" by (simp add: AllocateSizeAlignUp_def align_up64_def not64_def u64_def)
  ultimately show ?thesis
    using assms by (simp add: rp_Allocate_def RbtreeRangePool_def Let_def os_lower_bound_def os_insert_def
      anchor_le om_find_def trees_erase_def trees_emplace_def om_erase_def os_erase_def om_emplace_def)
qed

theorem rp_huge_request_witness:
  "rp_Allocate (RbtreeRangePool 65536 16384) (2 ^ 64 - 1) =
      (\<lparr>startAddress = 65536, ae_size = 2 ^ 64 - 1, ae_owned = True\<rparr>, RbtreeRangePool 65536 16384)"
  using rp_huge_request [of "2 ^ 64 - 1" 65536 16384] by simp


end
