(* ===== verification/Memory_Heap.thy ===== *)
theory Memory_Heap
  imports Allocator
begin

text \<open>
  The symmetric-memory heap of the PyTorch adaptor: class \<^verbatim>\<open>MemoryHeap\<close> of \<^verbatim>\<open>zbal_pytorch_mm_heap.cpp\<close> and the
  functions around it. \<open>mh_idle\<close> is the pair of \<^verbatim>\<open>address_idle_tree_\<close> and \<^verbatim>\<open>size_idle_tree_\<close>, \<open>mh_used\<close> is
  \<^verbatim>\<open>address_used_tree_\<close>; pointers are natural numbers and 0 is \<^verbatim>\<open>nullptr\<close>. The lock and the log lines are left
  out.
\<close>

record memory_heap =
  mh_base :: nat
  mh_size :: nat
  used_size :: nat
  mh_idle :: trees
  mh_used :: "(nat, nat) omap"

definition MemoryHeap :: "nat \<Rightarrow> nat \<Rightarrow> memory_heap" where
  "MemoryHeap base len =
     \<lparr>mh_base = base, mh_size = len, used_size = 0,
      mh_idle = (om_put 0 len [], os_insert (MemoryRange 0 len) []), mh_used = []\<rparr>"

definition allocated_size_align_up :: "nat \<Rightarrow> nat" where
  "allocated_size_align_up input_size = align_up64 input_size 16"

definition mh_allocate :: "memory_heap \<Rightarrow> nat \<Rightarrow> nat \<times> memory_heap" where
  "mh_allocate h len =
     (if len = 0 \<or> len > mh_size h then (0, h)
      else let aligned_size = allocated_size_align_up len in
        case os_lower_bound (MemoryRange 0 aligned_size) (snd (mh_idle h)) of
          None \<Rightarrow> (0, h)
        | Some (MemoryRange target_offset target_size) \<Rightarrow>
            (case om_find target_offset (fst (mh_idle h)) of
               None \<Rightarrow> (0, h)
             | Some _ \<Rightarrow>
                 let t = trees_erase target_offset target_size (mh_idle h);
                     u = om_emplace target_offset aligned_size (mh_used h);
                     t = (if target_size > aligned_size
                          then trees_emplace (u64 (target_offset + aligned_size)) (target_size - aligned_size) t else t)
                 in (u64 (mh_base h + target_offset),
                     h\<lparr>mh_idle := t, mh_used := u, used_size := u64 (used_size h + aligned_size)\<rparr>)))"

text \<open>The reference parameter \<^verbatim>\<open>head_skip\<close> is passed in and returned.\<close>

definition alignment_matches :: "MemoryRange \<Rightarrow> nat \<Rightarrow> nat \<Rightarrow> nat \<Rightarrow> bool \<times> nat" where
  "alignment_matches mr alignment len head_skip =
     (if mr_size mr < len then (False, head_skip)
      else if (mr_offset mr AND (alignment - 1)) = 0 then (True, 0)
      else let aligned_offset = u64 (mr_offset mr + alignment - 1) AND not64 (alignment - 1);
               head_skip = sub64 aligned_offset (mr_offset mr)
           in (mr_size mr \<ge> u64 (len + head_skip), head_skip))"

text \<open>The loop that advances \<^verbatim>\<open>size_pos\<close> from the lower bound on.\<close>

fun first_match :: "MemoryRange list \<Rightarrow> nat \<Rightarrow> nat \<Rightarrow> nat \<Rightarrow> (MemoryRange \<times> nat) option" where
  "first_match [] alignment len head_skip = None"
| "first_match (mr # mrs) alignment len head_skip =
     (case alignment_matches mr alignment len head_skip of
        (True, head_skip) \<Rightarrow> Some (mr, head_skip)
      | (False, head_skip) \<Rightarrow> first_match mrs alignment len head_skip)"

definition mh_alignedAllocate :: "nat \<Rightarrow> memory_heap \<Rightarrow> nat \<Rightarrow> nat \<times> memory_heap" where
  "mh_alignedAllocate alignment h len =
     (if len = 0 \<or> alignment = 0 \<or> len > mh_size h then (0, h)
      else if (alignment AND (alignment - 1)) \<noteq> 0 then (0, h)
      else let aligned_size = allocated_size_align_up len in
        case first_match (dropWhile (\<lambda>mr. mr < MemoryRange 0 aligned_size) (snd (mh_idle h))) alignment aligned_size 0 of
          None \<Rightarrow> (0, h)
        | Some (MemoryRange target_offset target_size, head_skip) \<Rightarrow>
            (case om_find target_offset (fst (mh_idle h)) of
               None \<Rightarrow> (0, h)
             | Some _ \<Rightarrow>
                 let result = u64 (target_offset + head_skip);
                     t = trees_erase target_offset target_size (mh_idle h);
                     t = (if head_skip > 0 then trees_emplace target_offset head_skip t else t);
                     t = (if u64 (head_skip + aligned_size) < target_size
                          then trees_emplace (u64 (target_offset + head_skip + aligned_size))
                                 (target_size - head_skip - aligned_size) t else t)
                 in (u64 (mh_base h + result),
                     h\<lparr>mh_idle := t, mh_used := om_emplace result aligned_size (mh_used h),
                       used_size := u64 (used_size h + aligned_size)\<rparr>)))"

definition Z_OK :: int where "Z_OK = 0"
definition Z_ERROR_ALLOC :: int where "Z_ERROR_ALLOC = -9"

definition in_pool :: "memory_heap \<Rightarrow> nat \<Rightarrow> bool" where
  "in_pool h address \<longleftrightarrow> \<not> (address < mh_base h \<or> address \<ge> u64 (mh_base h + mh_size h))"

definition mh_release :: "memory_heap \<Rightarrow> nat \<Rightarrow> int \<times> memory_heap" where
  "mh_release h address =
     (if \<not> in_pool h address then (Z_ERROR_ALLOC, h)
      else let offset = address - mh_base h in
        case om_find offset (mh_used h) of
          None \<Rightarrow> (Z_ERROR_ALLOC, h)
        | Some len \<Rightarrow>
            (Z_OK, h\<lparr>mh_used := om_erase offset (mh_used h), mh_idle := coalesce offset len (mh_idle h),
                     used_size := (if len > used_size h then 0 else used_size h - len)\<rparr>))"

text \<open>The two helpers of \<^verbatim>\<open>changeSize\<close> on the used range at \<open>offset\<close> of size \<open>old_size\<close>. Writing through an iterator
  keeps its key.\<close>

definition reduce_size_in_lock :: "nat \<Rightarrow> nat \<Rightarrow> nat \<Rightarrow> memory_heap \<Rightarrow> memory_heap" where
  "reduce_size_in_lock offset old_size new_size h =
     (let u = om_put offset new_size (mh_used h) in
      case om_find (u64 (offset + old_size)) (fst (mh_idle h)) of
        None \<Rightarrow> h\<lparr>mh_used := u, mh_idle := trees_emplace (u64 (offset + new_size)) (old_size - new_size) (mh_idle h)\<rparr>
      | Some next_size \<Rightarrow>
          let next = u64 (offset + old_size);
              size_tree = os_erase (MemoryRange next next_size) (snd (mh_idle h));
              next_size = u64 (next_size + (old_size - new_size))
          in h\<lparr>mh_used := u, mh_idle := (om_put next next_size (fst (mh_idle h)), os_insert (MemoryRange next next_size) size_tree)\<rparr>)"

definition expend_size_in_lock :: "nat \<Rightarrow> nat \<Rightarrow> nat \<Rightarrow> memory_heap \<Rightarrow> bool \<times> memory_heap" where
  "expend_size_in_lock offset old_size new_size h =
     (let delta = new_size - old_size; next = u64 (offset + old_size) in
      case om_find next (fst (mh_idle h)) of
        None \<Rightarrow> (False, h)
      | Some next_size \<Rightarrow>
          if next_size < delta then (False, h)
          else
            let u = om_put offset new_size (mh_used h);
                size_tree = os_erase (MemoryRange next next_size) (snd (mh_idle h))
            in if next_size = delta then (True, h\<lparr>mh_used := u, mh_idle := (om_erase next (fst (mh_idle h)), size_tree)\<rparr>)
               else (True, h\<lparr>mh_used := u, mh_idle := (om_put next (next_size - delta) (fst (mh_idle h)),
                                                    os_insert (MemoryRange next (next_size - delta)) size_tree)\<rparr>))"

definition changeSize :: "memory_heap \<Rightarrow> nat \<Rightarrow> nat \<Rightarrow> bool \<times> memory_heap" where
  "changeSize h address len =
     (if \<not> in_pool h address then (False, h)
      else if len = 0 then (True, snd (mh_release h address))
      else let offset = address - mh_base h in
        case om_find offset (mh_used h) of
          None \<Rightarrow> (False, h)
        | Some old_size \<Rightarrow>
            if old_size = len then (True, h)
            else if old_size > len then
              let h = reduce_size_in_lock offset old_size len h;
                  pos = the (om_find offset (mh_used h))
              in (True, h\<lparr>used_size := sub64 (used_size h) (sub64 pos len)\<rparr>)
            else
              let (success, h) = expend_size_in_lock offset old_size len h;
                  pos = the (om_find offset (mh_used h))
              in (success, h\<lparr>used_size := u64 (used_size h + sub64 len pos)\<rparr>))"

definition allocatedSize :: "memory_heap \<Rightarrow> nat \<Rightarrow> nat option" where
  "allocatedSize h address = (if \<not> in_pool h address then None else om_find (address - mh_base h) (mh_used h))"

definition getTotalSize :: "memory_heap \<Rightarrow> nat" where "getTotalSize h = mh_size h"
definition getInUsedSize :: "memory_heap \<Rightarrow> nat" where "getInUsedSize h = used_size h"

text \<open>The exported functions, on a pool pointer that is not null.\<close>

definition HeapAlignedAllocate :: "nat \<Rightarrow> memory_heap \<Rightarrow> int \<times> nat \<times> memory_heap" where
  "HeapAlignedAllocate len h =
     (let (devPtr, h) = mh_alignedAllocate 32 h len in (if devPtr = 0 then Z_ERROR_ALLOC else Z_OK, devPtr, h))"

definition HeapRelease :: "nat \<Rightarrow> memory_heap \<Rightarrow> int \<times> memory_heap" where
  "HeapRelease devPtr h = mh_release h devPtr"

definition GetTotalSize :: "memory_heap \<Rightarrow> int \<times> nat" where "GetTotalSize h = (Z_OK, getTotalSize h)"
definition GetInUsedSize :: "memory_heap \<Rightarrow> int \<times> nat" where "GetInUsedSize h = (Z_OK, getInUsedSize h)"

section \<open>The invariant\<close>

definition mh_ok :: "memory_heap \<Rightarrow> bool" where
  "mh_ok h \<longleftrightarrow> 0 < mh_base h \<and> 0 < mh_size h \<and> mh_base h + mh_size h < 2 ^ 64 \<and> mh_size h < 2 ^ 63 \<and>
     books (mh_size h) (mh_idle h) (mh_used h) \<and>
     used_size h = sum_list (map snd (mh_used h))"

definition mh_live :: "memory_heap \<Rightarrow> (nat \<times> nat) set" where
  "mh_live h = shift (mh_base h) (set (mh_used h))"

definition mh_pool :: "memory_heap \<Rightarrow> nat set" where
  "mh_pool h = {mh_base h..<mh_base h + mh_size h}"

definition mh_free :: "memory_heap \<Rightarrow> nat \<Rightarrow> bool \<times> memory_heap" where
  "mh_free h a = (case mh_release h a of (r, h') \<Rightarrow> (r = Z_OK, h'))"


lemma allocated_size_align_up_bounds:
  assumes "n + 16 \<le> 2 ^ 64"
  shows "n \<le> allocated_size_align_up n" "allocated_size_align_up n < n + 16"
proof -
  have "allocated_size_align_up n = (n + 16 - 1) div 16 * 16"
    using align_up64_eq [of 4 n] assms by (simp add: allocated_size_align_up_def)
  then show "n \<le> allocated_size_align_up n" "allocated_size_align_up n < n + 16"
    using round_up_bounds [of 16 n] by simp_all
qed

text \<open>The bytes to skip from an offset to the next multiple of the alignment.\<close>

definition skip :: "nat \<Rightarrow> nat \<Rightarrow> nat" where
  "skip d p = (p + d - 1) div d * d - p"

lemma skip_bounds: "0 < d \<Longrightarrow> skip d p < d \<and> d dvd p + skip d p"
  using round_up_bounds [of d p] by (simp add: skip_def)

lemma skip_least: "0 < d \<Longrightarrow> p \<le> q \<Longrightarrow> d dvd q \<Longrightarrow> p + skip d p \<le> q"
  using round_up_least [of d p q] round_up_bounds(1) [of d p] by (simp add: skip_def)

lemma skip_0: "0 < d \<Longrightarrow> d dvd p \<Longrightarrow> skip d p = 0"
  using skip_least [of d p p] by simp

lemma alignment_matches_eq:
  assumes "j < 64" "p + l \<le> 2 ^ 63" "a \<le> 2 ^ 63 + 16"
  shows "fst (alignment_matches (MemoryRange p l) (2 ^ j) a hs) \<longleftrightarrow> a + skip (2 ^ j) p \<le> l"
    "fst (alignment_matches (MemoryRange p l) (2 ^ j) a hs) \<Longrightarrow> snd (alignment_matches (MemoryRange p l) (2 ^ j) a hs) = skip (2 ^ j) p"
proof -
  let ?d = "2 ^ j :: nat" and ?s = "skip (2 ^ j) p"
  have j63: "?d \<le> 2 ^ 63" using assms(1) by (intro power_increasing) simp_all
  have s: "?s < ?d" "?d dvd p + ?s" using skip_bounds [of ?d p] by auto
  have lo: "p AND (?d - 1) = p mod ?d" by (rule and_low_mask)
  have up: "u64 (p + ?d - 1) AND not64 (?d - 1) = p + ?s"
  proof -
    have "p + ?d - 1 < 2 ^ 64" using assms(2) j63 by simp
    then have "align_up64 p ?d = (p + ?d - 1) div ?d * ?d" using assms(1) by (intro align_up64_eq) simp_all
    then show ?thesis using round_up_bounds(1) [of ?d p] by (simp add: align_up64_def skip_def)
  qed
  have sub: "sub64 (p + ?s) p = ?s" using s(1) assms(2) j63 by (subst sub64_le) simp_all
  have sum: "a \<le> l \<Longrightarrow> u64 (a + ?s) = a + ?s" using s(1) assms(2) j63 by simp
  have z: "?s = 0" if "p mod ?d = 0" using skip_0 [of ?d p] that by (simp add: mod_eq_0_iff_dvd)
  have m: "alignment_matches (MemoryRange p l) ?d a hs =
      (if l < a then (False, hs) else if p mod ?d = 0 then (True, 0) else (l \<ge> a + ?s, ?s))"
  proof (cases "l < a")
    case True
    then show ?thesis by (simp add: alignment_matches_def)
  next
    case False
    then have "u64 (a + ?s) = a + ?s" using sum by simp
    then show ?thesis using False unfolding alignment_matches_def MemoryRange.sel lo Let_def up sub
      by (simp only: if_False)
  qed
  show "fst (alignment_matches (MemoryRange p l) ?d a hs) \<longleftrightarrow> a + ?s \<le> l"
    "fst (alignment_matches (MemoryRange p l) ?d a hs) \<Longrightarrow> snd (alignment_matches (MemoryRange p l) ?d a hs) = ?s"
    unfolding m using z by (simp_all split: if_splits)
qed

lemma first_match_cases:
  assumes "j < 64" "a \<le> 2 ^ 63 + 16" "\<And>p l. MemoryRange p l \<in> set mrs \<Longrightarrow> p + l \<le> 2 ^ 63"
  obtains (none) "first_match mrs (2 ^ j) a hs = None" "\<forall>p l. MemoryRange p l \<in> set mrs \<longrightarrow> l < a + skip (2 ^ j) p"
  | (match) p l where "first_match mrs (2 ^ j) a hs = Some (MemoryRange p l, skip (2 ^ j) p)"
      "MemoryRange p l \<in> set mrs" "a + skip (2 ^ j) p \<le> l"
  using assms(3)
proof (induction mrs arbitrary: hs thesis)
  case Nil
  then show ?case by simp
next
  case (Cons mr mrs)
  obtain p l where mr: "mr = MemoryRange p l" by (cases mr)
  have pl: "p + l \<le> 2 ^ 63" using Cons.prems(3) [of p l] mr by simp
  note m = alignment_matches_eq [OF assms(1) pl assms(2), of hs]
  show ?case
  proof (cases "a + skip (2 ^ j) p \<le> l")
    case True
    then have "first_match (mr # mrs) (2 ^ j) a hs = Some (MemoryRange p l, skip (2 ^ j) p)"
      using m mr by (auto split: prod.splits bool.splits)
    then show ?thesis using Cons.prems(2) True mr by simp
  next
    case False
    obtain hs' where am: "alignment_matches mr (2 ^ j) a hs = (False, hs')"
      using m(1) False mr by (cases "alignment_matches mr (2 ^ j) a hs") auto
    show ?thesis
    proof (rule Cons.IH [of hs'])
      assume n: "first_match mrs (2 ^ j) a hs' = None" "\<forall>p l. MemoryRange p l \<in> set mrs \<longrightarrow> l < a + skip (2 ^ j) p"
      have "l' < a + skip (2 ^ j) p'" if "MemoryRange p' l' \<in> set (mr # mrs)" for p' l'
        using that n(2) False mr by auto
      then show ?thesis using Cons.prems(1) n(1) am by simp
    next
      fix p' l'
      assume "first_match mrs (2 ^ j) a hs' = Some (MemoryRange p' l', skip (2 ^ j) p')"
        "MemoryRange p' l' \<in> set mrs" "a + skip (2 ^ j) p' \<le> l'"
      then show ?thesis using Cons.prems(2) am by simp
    qed (use Cons.prems(3) in simp)
  qed
qed


section \<open>The contract\<close>

text \<open>What an allocating operation does: nothing, or it takes \<open>m\<close> bytes at \<open>k\<close> bytes into an idle range.\<close>

definition mh_took :: "memory_heap \<Rightarrow> nat \<Rightarrow> nat \<Rightarrow> nat \<Rightarrow> nat \<Rightarrow> memory_heap" where
  "mh_took h p l k m = h\<lparr>mh_idle := trees_split p l k m (mh_idle h), mh_used := om_emplace (p + k) m (mh_used h),
                         used_size := used_size h + m\<rparr>"

definition mh_takes :: "memory_heap \<Rightarrow> nat \<Rightarrow> nat \<times> memory_heap \<Rightarrow> bool" where
  "mh_takes h n r \<longleftrightarrow> r = (0, h) \<or>
     (\<exists>p l k m. r = (mh_base h + p + k, mh_took h p l k m) \<and> (p, l) \<in> idle_set (mh_idle h) \<and> k + m \<le> l \<and> 0 < m \<and> n \<le> m)"

lemma mh_took_ok:
  assumes ok: "mh_ok h" and i: "(p, l) \<in> idle_set (mh_idle h)" and m: "k + m \<le> l" "0 < m"
  shows "mh_ok (mh_took h p l k m)" "mh_pool (mh_took h p l k m) = mh_pool h"
    "mh_live (mh_took h p l k m) = insert (mh_base h + p + k, m) (mh_live h)" "(mh_base h + p + k, m) \<notin> mh_live h"
proof -
  have b: "books (mh_size h) (mh_idle h) (mh_used h)" using ok by (simp add: mh_ok_def)
  note t = books_take [OF b i m]
  have w: "om_wf (mh_used h)" "om_wf (om_emplace (p + k) m (mh_used h))" using b t(1) by (auto simp: books_def)
  have "(p + k, m) \<notin> set (mh_used h)" using t(3) by force
  then have "sum_list (map snd (om_emplace (p + k) m (mh_used h))) = sum_list (map snd (mh_used h)) + m"
    using w t(2) by (simp add: om_sum)
  then show "mh_ok (mh_took h p l k m)" using ok t(1) by (simp add: mh_ok_def mh_took_def)
  show "mh_pool (mh_took h p l k m) = mh_pool h" by (simp add: mh_pool_def mh_took_def)
  show "mh_live (mh_took h p l k m) = insert (mh_base h + p + k, m) (mh_live h)"
    using t(2) by (simp add: mh_live_def mh_took_def shift_insert add.assoc)
  show "(mh_base h + p + k, m) \<notin> mh_live h" using t(3) by (force simp: mh_live_def in_shift)
qed

lemma mh_release_live:
  assumes ok: "mh_ok h" and l: "(a, m) \<in> mh_live h"
  obtains h' where "mh_release h a = (Z_OK, h')" "mh_ok h'" "mh_pool h' = mh_pool h" "mh_live h' = mh_live h - {(a, m)}"
proof -
  let ?o = "a - mh_base h"
  have b: "books (mh_size h) (mh_idle h) (mh_used h)" and sz: "mh_size h < 2 ^ 64" "mh_base h + mh_size h < 2 ^ 64"
    and us: "used_size h = sum_list (map snd (mh_used h))"
    using ok by (auto simp: mh_ok_def)
  have a: "mh_base h \<le> a" "(?o, m) \<in> set (mh_used h)" using l by (auto simp: mh_live_def in_shift)
  note g = books_give [OF b sz(1) a(2)]
  have w: "om_wf (mh_used h)" "om_wf (om_erase ?o (mh_used h))" using b g(1) by (auto simp: books_def)
  have f: "om_find ?o (mh_used h) = Some m" using a(2) om_find_iff [OF w(1)] by blast
  have sum: "sum_list (map snd (om_erase ?o (mh_used h))) + m = used_size h"
    using sum.remove [of "set (mh_used h)" "(?o, m)" snd] a(2) us
    unfolding om_sum [OF w(1)] om_sum [OF w(2)] g(2) by simp
  let ?h = "h\<lparr>mh_used := om_erase ?o (mh_used h), mh_idle := coalesce ?o m (mh_idle h), used_size := used_size h - m\<rparr>"
  have "0 < m \<and> ?o + m \<le> mh_size h" using books_bound [OF b, of ?o m] a(2) by blast
  then have "in_pool h a" using a(1) sz by (auto simp: in_pool_def)
  then have "mh_release h a = (Z_OK, ?h)" using f sum by (simp add: mh_release_def Let_def)
  moreover have "mh_ok ?h" using ok g(1) sum by (simp add: mh_ok_def)
  moreover have "mh_live ?h = mh_live h - {(a, m)}" using g(2) a(1) by (simp add: mh_live_def shift_remove)
  ultimately show ?thesis using that by (simp add: mh_pool_def)
qed

lemma mh_release_other:
  assumes ok: "mh_ok h" and a: "a \<notin> fst ` mh_live h"
  shows "mh_release h a = (Z_ERROR_ALLOC, h)"
proof (cases "in_pool h a")
  case True
  have w: "om_wf (mh_used h)" using ok by (simp add: mh_ok_def books_def)
  have "om_find (a - mh_base h) (mh_used h) = None"
  proof (rule ccontr)
    assume "om_find (a - mh_base h) (mh_used h) \<noteq> None"
    then obtain k where "(a - mh_base h, k) \<in> set (mh_used h)" using om_find_iff [OF w] by force
    then have "(a, k) \<in> mh_live h" using True by (simp add: mh_live_def in_shift in_pool_def)
    then show False using a by force
  qed
  then show ?thesis using True by (simp add: mh_release_def)
qed (simp add: mh_release_def)

locale heap_alloc =
  fixes al :: "memory_heap \<Rightarrow> nat \<Rightarrow> nat \<times> memory_heap"
  assumes takes: "mh_ok h \<Longrightarrow> mh_takes h n (al h n)"

sublocale heap_alloc \<subseteq> exact_allocator al mh_free mh_live mh_pool mh_ok
proof
  fix h n a h'
  assume ok: "mh_ok h" and r: "al h n = (a, h')"
  have base: "0 < mh_base h" using ok by (simp add: mh_ok_def)
  have t: "mh_takes h n (a, h')" using takes [OF ok, of n] r by simp
  have *: "mh_ok h' \<and> mh_pool h' = mh_pool h \<and> (a \<noteq> 0 \<longrightarrow> (\<exists>m. n \<le> m \<and> (a, m) \<notin> mh_live h \<and> mh_live h' = insert (a, m) (mh_live h)))"
  proof (cases "a = 0")
    case True
    then have "h' = h" using t base by (auto simp: mh_takes_def)
    then show ?thesis using ok True by simp
  next
    case False
    then obtain p l k m where tk: "a = mh_base h + p + k" "h' = mh_took h p l k m" "(p, l) \<in> idle_set (mh_idle h)"
      "k + m \<le> l" "0 < m" "n \<le> m" using t by (auto simp: mh_takes_def)
    then show ?thesis using mh_took_ok [OF ok tk(3,4,5)] by blast
  qed
  show "mh_ok h' \<and> mh_pool h' = mh_pool h" using * by blast
  show "\<exists>m. n \<le> m \<and> (a, m) \<notin> mh_live h \<and> mh_live h' = insert (a, m) (mh_live h)" if "a \<noteq> 0" using * that by blast
next
  fix h n h'
  assume ok: "mh_ok h" and r: "al h n = (0, h')"
  then have "0 < mh_base h" by (simp add: mh_ok_def)
  then show "h' = h" using takes [OF ok, of n] r by (auto simp: mh_takes_def)
next
  fix h assume "mh_ok h"
  then show "disjoint_ranges (mh_live h) \<and> cells (mh_live h) \<subseteq> mh_pool h"
    unfolding mh_live_def mh_pool_def by (intro books_live [where t = "mh_idle h"]) (simp add: mh_ok_def)
next
  fix h a m b h'
  assume ok: "mh_ok h" and l: "(a, m) \<in> mh_live h" and r: "mh_free h a = (b, h')"
  obtain h'' where "mh_release h a = (Z_OK, h'')" "mh_live h'' = mh_live h - {(a, m)}" by (rule mh_release_live [OF ok l])
  then show "b \<and> mh_live h' = mh_live h - {(a, m)}" using r by (simp add: mh_free_def)
next
  fix h a assume "mh_ok h" "a \<notin> fst ` mh_live h"
  then show "mh_free h a = (False, h)" using mh_release_other by (simp add: mh_free_def Z_OK_def Z_ERROR_ALLOC_def)
next
  fix h a b h'
  assume ok: "mh_ok h" and r: "mh_free h a = (b, h')"
  show "mh_ok h' \<and> mh_pool h' = mh_pool h"
  proof (cases "a \<in> fst ` mh_live h")
    case True
    then obtain m where l: "(a, m) \<in> mh_live h" by auto
    obtain h'' where "mh_release h a = (Z_OK, h'')" "mh_ok h''" "mh_pool h'' = mh_pool h" by (rule mh_release_live [OF ok l])
    then show ?thesis using r by (simp add: mh_free_def)
  next
    case False
    then show ?thesis using mh_release_other [OF ok] ok r by (auto simp: mh_free_def)
  qed
next
  fix h h'
  assume ok: "mh_ok h" "mh_ok h'" and p: "mh_pool h = mh_pool h'" and l: "mh_live h = mh_live h'"
  have b: "mh_base h = mh_base h'" "mh_size h = mh_size h'" using p ok by (auto simp: mh_pool_def mh_ok_def Ico_eq_Ico)
  have "set (mh_used h) = set (mh_used h')" using l b by (auto simp: mh_live_def dest: shift_inj)
  then have "mh_idle h = mh_idle h'" "mh_used h = mh_used h'" 
    using books_unique [of "mh_size h" "mh_idle h" "mh_used h" "mh_idle h'" "mh_used h'"] ok b by (auto simp: mh_ok_def)
  then show "h = h'" using ok b by (auto simp: mh_ok_def)
qed


lemma mh_ok_bounds:
  assumes "mh_ok h" "(p, l) \<in> idle_set (mh_idle h)"
  shows "0 < l" "p + l \<le> mh_size h" "p + l \<le> 2 ^ 63" "mh_base h + p + l < 2 ^ 64" "used_size h + l < 2 ^ 64"
proof -
  have b: "books (mh_size h) (mh_idle h) (mh_used h)" using assms(1) by (simp add: mh_ok_def)
  have "0 < l \<and> p + l \<le> mh_size h" using books_bound [OF b] assms(2) by blast
  then show "0 < l" "p + l \<le> mh_size h" "p + l \<le> 2 ^ 63" "mh_base h + p + l < 2 ^ 64" "used_size h + l < 2 ^ 64"
    using assms(1) books_sum [OF b] by (auto simp: mh_ok_def)
qed

lemma mh_request_bounds:
  assumes "mh_ok h" "0 < n" "n \<le> mh_size h"
  shows "n \<le> allocated_size_align_up n" "0 < allocated_size_align_up n" "allocated_size_align_up n \<le> 2 ^ 63 + 16"
  using allocated_size_align_up_bounds [of n] assms by (auto simp: mh_ok_def)

lemma mh_allocate_cases:
  assumes ok: "mh_ok h"
  obtains (fail) "mh_allocate h n = (0, h)"
      "n = 0 \<or> n > mh_size h \<or> (\<forall>p l. (p, l) \<in> idle_set (mh_idle h) \<longrightarrow> l < allocated_size_align_up n)"
  | (take) p l where "0 < n" "n \<le> mh_size h" "(p, l) \<in> idle_set (mh_idle h)" "allocated_size_align_up n \<le> l"
      "mh_allocate h n = (mh_base h + p, mh_took h p l 0 (allocated_size_align_up n))"
proof (cases "n = 0 \<or> n > mh_size h")
  case True
  then have "mh_allocate h n = (0, h)" by (auto simp: mh_allocate_def)
  then show ?thesis using fail True by blast
next
  case False
  let ?a = "allocated_size_align_up n"
  have t: "trees_ok (mh_idle h)" using ok by (simp add: mh_ok_def books_def)
  show ?thesis
  proof (cases "os_lower_bound (MemoryRange 0 ?a) (snd (mh_idle h))")
    case None
    then have "mh_allocate h n = (0, h)" by (simp add: mh_allocate_def)
    then show ?thesis using fail None trees_lower_bound_None [OF t] by blast
  next
    case (Some r)
    obtain p l where r: "r = MemoryRange p l" by (cases r)
    note lb = trees_lower_bound [OF t Some [unfolded r]]
    note b = mh_ok_bounds [OF ok lb(1)]
    have "u64 (mh_base h + p) = mh_base h + p" "u64 (p + ?a) = p + ?a" "u64 (used_size h + ?a) = used_size h + ?a"
      using b lb(2) by auto
    then have "mh_allocate h n = (mh_base h + p, mh_took h p l 0 ?a)"
      using False Some r lb(3) by (simp add: mh_allocate_def Let_def trees_split_def mh_took_def)
    then show ?thesis using take False lb by auto
  qed
qed

lemma mh_alignedAllocate_cases:
  assumes ok: "mh_ok h" and d: "d < 2 ^ 64"
  obtains (reject) "mh_alignedAllocate d h n = (0, h)" "n = 0 \<or> d = 0 \<or> n > mh_size h \<or> (d AND (d - 1)) \<noteq> 0"
  | (fail) "mh_alignedAllocate d h n = (0, h)" "0 < n" "n \<le> mh_size h" "0 < d"
      "\<And>p l. (p, l) \<in> idle_set (mh_idle h) \<Longrightarrow> l < allocated_size_align_up n + skip d p"
  | (take) p l where "0 < n" "n \<le> mh_size h" "0 < d" "(p, l) \<in> idle_set (mh_idle h)"
      "skip d p + allocated_size_align_up n \<le> l" "(d AND (d - 1)) = 0"
      "mh_alignedAllocate d h n = (mh_base h + p + skip d p, mh_took h p l (skip d p) (allocated_size_align_up n))"
proof (cases "n = 0 \<or> d = 0 \<or> n > mh_size h \<or> (d AND (d - 1)) \<noteq> 0")
  case True
  then have "mh_alignedAllocate d h n = (0, h)" by (auto simp: mh_alignedAllocate_def)
  then show ?thesis using reject True by blast
next
  case False
  let ?a = "allocated_size_align_up n"
  let ?mrs = "dropWhile (\<lambda>mr. mr < MemoryRange 0 ?a) (snd (mh_idle h))"
  have n: "0 < n" "n \<le> mh_size h" "0 < d" and d0: "(d AND (d - 1)) = 0" using False by auto
  obtain j where j: "d = 2 ^ j" using and_pred_0 [OF n(3) d0] by blast
  then have j64: "j < 64" using d pow2_le_64 by simp
  have t: "trees_ok (mh_idle h)" using ok by (simp add: mh_ok_def books_def)
  have mem: "(p, l) \<in> idle_set (mh_idle h)" if "MemoryRange p l \<in> set ?mrs" for p l
    using set_dropWhileD [OF that] t by (auto simp: trees_ok_def idle_set_def)
  have all: "MemoryRange p l \<in> set ?mrs" if "(p, l) \<in> idle_set (mh_idle h)" "?a \<le> l" for p l
  proof -
    have "MemoryRange p l \<in> set (snd (mh_idle h))" using that(1) t by (force simp: trees_ok_def idle_set_def)
    moreover have "\<not> MemoryRange p l < MemoryRange 0 ?a" using that(2) by (simp add: anchor_greater)
    ultimately show ?thesis by (metis Un_iff set_append set_takeWhileD takeWhile_dropWhile_id)
  qed
  have bound: "p + l \<le> 2 ^ 63" if "MemoryRange p l \<in> set ?mrs" for p l using mh_ok_bounds(3) [OF ok mem [OF that]] .
  consider (none) "first_match ?mrs (2 ^ j) ?a 0 = None" "\<forall>p l. MemoryRange p l \<in> set ?mrs \<longrightarrow> l < ?a + skip (2 ^ j) p"
    | (match) p l where "first_match ?mrs (2 ^ j) ?a 0 = Some (MemoryRange p l, skip (2 ^ j) p)"
        "MemoryRange p l \<in> set ?mrs" "?a + skip (2 ^ j) p \<le> l"
    by (rule first_match_cases [OF j64 mh_request_bounds(3) [OF ok n(1,2)] bound, of ?mrs 0])
  then show ?thesis
  proof cases
    case none
    then have "mh_alignedAllocate d h n = (0, h)" by (simp add: mh_alignedAllocate_def j)
    moreover have "l < ?a + skip d p" if "(p, l) \<in> idle_set (mh_idle h)" for p l
      using none(2) all [OF that] j by (cases "?a \<le> l") auto
    ultimately show ?thesis using fail n by blast
  next
    case (match p l)
    have i: "(p, l) \<in> idle_set (mh_idle h)" by (rule mem [OF match(2)])
    note b = mh_ok_bounds [OF ok i]
    have s: "skip d p + ?a \<le> l" using match(3) j by simp
    have u: "u64 (p + skip d p) = p + skip d p" "u64 (skip d p + ?a) = skip d p + ?a"
      "u64 (p + skip d p + ?a) = p + skip d p + ?a" "u64 (mh_base h + (p + skip d p)) = mh_base h + (p + skip d p)"
      "u64 (used_size h + ?a) = used_size h + ?a"
      using b s by auto
    have f: "om_find p (fst (mh_idle h)) = Some l" using i trees_find [OF t] by simp
    have "mh_alignedAllocate d h n = (mh_base h + p + skip d p, mh_took h p l (skip d p) ?a)"
      using False match(1) f u n
      by (simp add: mh_alignedAllocate_def Let_def trees_split_def mh_took_def add.assoc flip: j)
    then show ?thesis using take n i s d0 by blast
  qed
qed

interpretation mh: heap_alloc mh_allocate
proof
  fix h n assume ok: "mh_ok h"
  then show "mh_takes h n (mh_allocate h n)"
  proof (cases rule: mh_allocate_cases [where n = n])
    case (take p l)
    then show ?thesis using mh_request_bounds [OF ok take(1,2)] unfolding mh_takes_def
      by (intro disjI2 exI [of _ p] exI [of _ l] exI [of _ 0] exI [of _ "allocated_size_align_up n"]) simp
  qed (simp add: mh_takes_def)
qed

interpretation mha: heap_alloc "mh_alignedAllocate 32"
proof
  fix h n assume ok: "mh_ok h"
  have "(32::nat) < 2 ^ 64" by simp
  with ok show "mh_takes h n (mh_alignedAllocate 32 h n)"
  proof (cases rule: mh_alignedAllocate_cases [where n = n])
    case (take p l)
    then show ?thesis using mh_request_bounds [OF ok take(1,2)] unfolding mh_takes_def
      by (intro disjI2 exI [of _ p] exI [of _ l] exI [of _ "skip 32 p"] exI [of _ "allocated_size_align_up n"]) simp
  qed (simp_all add: mh_takes_def)
qed


section \<open>Properties\<close>

datatype heap_request = Allocate nat | AlignedAllocate nat nat | Release nat

primrec mh_serve :: "heap_request \<Rightarrow> memory_heap \<Rightarrow> memory_heap" where
  "mh_serve (Allocate n) h = snd (mh_allocate h n)"
| "mh_serve (AlignedAllocate d n) h = snd (mh_alignedAllocate d h n)"
| "mh_serve (Release a) h = snd (mh_release h a)"

definition fits_u64 :: "heap_request \<Rightarrow> bool" where
  "fits_u64 r = (case r of AlignedAllocate d n \<Rightarrow> d < 2 ^ 64 | _ \<Rightarrow> True)"

lemma mh_ok_init: "0 < base \<Longrightarrow> 0 < len \<Longrightarrow> base + len < 2 ^ 64 \<Longrightarrow> len < 2 ^ 63 \<Longrightarrow> mh_ok (MemoryHeap base len)"
  using books_init [of len] by (simp add: mh_ok_def MemoryHeap_def)

lemma mh_serve_ok:
  assumes ok: "mh_ok h" and f: "fits_u64 r"
  shows "mh_ok (mh_serve r h) \<and> mh_pool (mh_serve r h) = mh_pool h"
proof (cases r)
  case (Allocate n)
  then show ?thesis using mh.alloc_ok [OF ok surjective_pairing] by simp
next
  case (AlignedAllocate d n)
  then have "d < 2 ^ 64" using f by (simp add: fits_u64_def)
  with ok show ?thesis
  proof (cases rule: mh_alignedAllocate_cases [where n = n])
    case (take p l)
    then show ?thesis
      using AlignedAllocate mh_took_ok [OF ok take(4,5)] mh_request_bounds(2) [OF ok take(1,2)] by simp
  qed (use ok AlignedAllocate in simp_all)
next
  case (Release a)
  then show ?thesis using mh.release_ok [OF ok, of a] by (simp add: mh_free_def split_beta)
qed

lemma mh_run_ok:
  "mh_ok h \<Longrightarrow> (\<And>r. r \<in> set rs \<Longrightarrow> fits_u64 r) \<Longrightarrow> mh_ok (fold mh_serve rs h) \<and> mh_pool (fold mh_serve rs h) = mh_pool h"
  by (induction rs arbitrary: h) (simp_all add: mh_serve_ok)

lemma mh_live_sum: "mh_ok h \<Longrightarrow> sum snd (mh_live h) = used_size h"
proof -
  assume "mh_ok h"
  then have "used_size h = sum snd (set (mh_used h))" by (simp add: mh_ok_def books_def om_sum)
  moreover have "sum snd (mh_live h) = sum snd (set (mh_used h))"
    unfolding mh_live_def shift_def by (subst sum.reindex) (auto simp: inj_on_def intro!: sum.cong)
  ultimately show ?thesis by simp
qed

text \<open>C34. After any allocations, aligned allocations and releases on a fresh heap, the live blocks are disjoint and
  inside the heap, and the size reported in use is the sum of their sizes.\<close>

theorem mh_heap_invariant:
  assumes "0 < base" "0 < len" "base + len < 2 ^ 64" "len < 2 ^ 63" "list_all fits_u64 rs"
    and h: "h = fold mh_serve rs (MemoryHeap base len)"
  shows "disjoint_ranges (mh_live h) \<and> cells (mh_live h) \<subseteq> {base..<base + len} \<and>
    getInUsedSize h = sum snd (mh_live h) \<and> getTotalSize h = len"
proof -
  have r: "\<And>r. r \<in> set rs \<Longrightarrow> fits_u64 r" using assms(5) by (simp add: list_all_iff)
  have ok: "mh_ok h" "mh_pool h = {base..<base + len}"
    using mh_run_ok [OF mh_ok_init [OF assms(1-4)] r] h by (simp_all add: mh_pool_def MemoryHeap_def)
  moreover have "mh_size h = len" using ok assms(2) by (auto simp: mh_pool_def mh_ok_def Ico_eq_Ico)
  ultimately show ?thesis
    using mh.ok_live [OF ok(1)] mh_live_sum [OF ok(1)] by (simp add: getInUsedSize_def getTotalSize_def)
qed

definition mh_example :: memory_heap where
  "mh_example = fold mh_serve [Allocate 10, AlignedAllocate 64 20, Allocate 30, Release 4096] (MemoryHeap 4096 256)"

lemmas heap_eval = mh_allocate_def mh_alignedAllocate_def alignment_matches_def allocated_size_align_up_def
  mh_release_def in_pool_def tree_eval sub64_def less_MemoryRange_def

lemma mh_example_eval:
  "mh_example = \<lparr>mh_base = 4096, mh_size = 256, used_size = 64,
     mh_idle = ([(0, 16), (48, 16), (96, 160)], [MemoryRange 0 16, MemoryRange 48 16, MemoryRange 96 160]),
     mh_used = [(16, 32), (64, 32)]\<rparr>"
  by (simp add: mh_example_def MemoryHeap_def heap_eval)

theorem mh_heap_invariant_witness:
  "(4160, 32) \<in> mh_live mh_example \<and> disjoint_ranges (mh_live mh_example) \<and> getInUsedSize mh_example = 64"
proof -
  have "(4160, 32) \<in> mh_live mh_example" by (simp add: mh_example_eval mh_live_def in_shift)
  moreover have "getInUsedSize mh_example = 64" by (simp add: mh_example_eval getInUsedSize_def)
  ultimately show ?thesis
    using mh_heap_invariant [OF _ _ _ _ _ mh_example_def] by (simp add: fits_u64_def)
qed


text \<open>C35. An aligned allocation succeeds exactly when the alignment is a power of two, the request is positive and
  not larger than the heap, and some aligned offset starts a free run of the rounded size; the block then starts at
  a multiple of the alignment from the base.\<close>

theorem mh_aligned_complete:
  assumes ok: "mh_ok h" and d: "d < 2 ^ 64" and C: "C = {..<mh_size h} - cells (set (mh_used h))"
  shows "(fst (mh_alignedAllocate d h n) \<noteq> 0 \<longleftrightarrow>
       0 < n \<and> n \<le> mh_size h \<and> (\<exists>j. d = 2 ^ j) \<and> (\<exists>p. d dvd p \<and> {p..<p + allocated_size_align_up n} \<subseteq> C)) \<and>
     (fst (mh_alignedAllocate d h n) \<noteq> 0 \<longrightarrow> d dvd fst (mh_alignedAllocate d h n) - mh_base h)"
proof -
  let ?a = "allocated_size_align_up n"
  have t: "tiled (mh_size h) (idle_set (mh_idle h)) (set (mh_used h))" and base: "0 < mh_base h"
    using ok by (auto simp: mh_ok_def books_def)
  have cI: "C = cells (idle_set (mh_idle h))" using t C by (auto simp: tiled_def)
  have pow: "(\<exists>j. d = 2 ^ j) \<longleftrightarrow> 0 < d \<and> (d AND (d - 1)) = 0"
    using and_pred_0 [of d] and_low_mask [of d] by (auto simp: and_low_mask [simplified])
  from ok d show ?thesis
  proof (cases rule: mh_alignedAllocate_cases [where n = n])
    case reject
    then show ?thesis using pow by auto
  next
    case fail
    have "\<not> {p..<p + ?a} \<subseteq> C" if dp: "d dvd p" for p
    proof
      assume "{p..<p + ?a} \<subseteq> C"
      then obtain q l where q: "(q, l) \<in> idle_set (mh_idle h)" "q \<le> p" "p + ?a \<le> q + l"
        using fitting_range [of "idle_set (mh_idle h)" p ?a] t mh_request_bounds(2) [OF ok fail(2,3)]
        unfolding cI tiled_def by blast
      then show False using fail(5) [OF q(1)] skip_least [OF fail(4) q(2) dp] by simp
    qed
    then show ?thesis using fail(1) by auto
  next
    case (take p l)
    have "d dvd p + skip d p" using skip_bounds [OF take(3)] by simp
    moreover have "{p + skip d p..<p + skip d p + ?a} \<subseteq> C"
      unfolding cI using take(4,5) by (auto intro!: cellsI [OF take(4)])
    ultimately have "\<exists>p. d dvd p \<and> {p..<p + ?a} \<subseteq> C" by blast
    moreover have "fst (mh_alignedAllocate d h n) - mh_base h = p + skip d p" "fst (mh_alignedAllocate d h n) \<noteq> 0"
      using take(7) base by simp_all
    ultimately show ?thesis using take(1,2,3,6) pow \<open>d dvd p + skip d p\<close> by presburger
  qed
qed

theorem mh_aligned_complete_witness:
  "mh_ok mh_example \<and> fst (mh_alignedAllocate 128 mh_example 60) = 4096 + 128 \<and>
   (\<exists>p. 128 dvd p \<and> {p..<p + allocated_size_align_up 60} \<subseteq> {..<256} - cells {(16, 32), (64, 32)})"
proof -
  have ok: "mh_ok mh_example"
    unfolding mh_example_def by (intro mh_run_ok [THEN conjunct1] mh_ok_init) (auto simp: fits_u64_def)
  have "fst (mh_alignedAllocate 128 mh_example 60) = 4224" by (simp add: mh_example_eval heap_eval)
  moreover have "mh_size mh_example = 256" "set (mh_used mh_example) = {(16, 32), (64, 32)}"
    by (simp_all add: mh_example_eval)
  ultimately show ?thesis using mh_aligned_complete [OF ok _ refl, of 128 60] ok by simp
qed

text \<open>C36. Releasing a block just allocated, aligned or not, restores the heap, and releasing every live block in any
  order leaves a fresh heap.\<close>

theorem mh_release_restores:
  assumes "0 < base" "0 < len" "base + len < 2 ^ 64" "len < 2 ^ 63"
    and h: "h = fold (serve (mh_alignedAllocate 32) mh_free) rs (MemoryHeap base len)"
  shows "(\<forall>n a h'. mh_allocate h n = (a, h') \<or> mh_alignedAllocate 32 h n = (a, h') \<longrightarrow> a \<noteq> 0 \<longrightarrow>
            mh_release h' a = (Z_OK, h)) \<and>
    (\<forall>as. distinct as \<longrightarrow> set as = fst ` mh_live h \<longrightarrow>
       fold (serve (mh_alignedAllocate 32) mh_free) (map Free as) h = MemoryHeap base len)"
proof -
  have ok0: "mh_ok (MemoryHeap base len)" by (rule mh_ok_init [OF assms(1-4)])
  have ok: "mh_ok h" using mha.run_ok [OF ok0, of rs] h by simp
  have "mh_release h' a = (Z_OK, h)"
    if a: "mh_allocate h n = (a, h') \<or> mh_alignedAllocate 32 h n = (a, h')" "a \<noteq> 0" for n a h'
  proof -
    have "mh_free h' a = (True, h)" using a mh.release_undoes_alloc [OF ok] mha.release_undoes_alloc [OF ok] by blast
    then show ?thesis by (cases "mh_release h' a") (simp add: mh_free_def)
  qed
  moreover have "mh_live (MemoryHeap base len) = {}" by (simp add: mh_live_def MemoryHeap_def)
  ultimately show ?thesis using mha.release_all_restores [OF ok0 _ h] by blast
qed

theorem mh_release_restores_witness:
  "mh_release (snd (mh_allocate (MemoryHeap 4096 256) 10)) 4096 = (Z_OK, MemoryHeap 4096 256)"
proof -
  have "fst (mh_allocate (MemoryHeap 4096 256) 10) = 4096" by (simp add: MemoryHeap_def heap_eval)
  then have "mh_allocate (MemoryHeap 4096 256) 10 = (4096, snd (mh_allocate (MemoryHeap 4096 256) 10))"
    by (simp add: prod_eq_iff)
  then show ?thesis using mh_release_restores [of 4096 256 "MemoryHeap 4096 256" "[]"] by simp
qed


text \<open>\<^verbatim>\<open>changeSize\<close> to a smaller size is right when no idle range follows the block: it succeeds, the block keeps
  its address with the new size, and the rest of the block is idle.\<close>

theorem changeSize_shrink:
  assumes ok: "mh_ok h" and l: "(a, old) \<in> mh_live h" and n: "0 < n" "n < old"
    and nb: "om_find (a - mh_base h + old) (fst (mh_idle h)) = None"
  shows "\<exists>h'. changeSize h a n = (True, h') \<and> books (mh_size h') (mh_idle h') (mh_used h') \<and>
    mh_live h' = insert (a, n) (mh_live h - {(a, old)}) \<and> mh_pool h' = mh_pool h"
proof -
  let ?o = "a - mh_base h"
  let ?u = "om_put ?o n (mh_used h)" and ?t = "trees_emplace (?o + n) (old - n) (mh_idle h)"
  have b: "books (mh_size h) (mh_idle h) (mh_used h)" and sz: "mh_base h + mh_size h < 2 ^ 64" using ok by (auto simp: mh_ok_def)
  have t: "trees_ok (mh_idle h)" "tiled (mh_size h) (idle_set (mh_idle h)) (set (mh_used h))" and w: "om_wf (mh_used h)"
    using b by (auto simp: books_def)
  have a: "mh_base h \<le> a" "(?o, old) \<in> set (mh_used h)" using l by (auto simp: mh_live_def in_shift)
  have bd: "?o + old \<le> mh_size h" using books_bound [OF b] a(2) by blast
  have f: "om_find ?o (mh_used h) = Some old" using a(2) om_find_iff [OF w] by blast
  have su: "set ?u = insert (?o, n) (set (mh_used h) - {(?o, old)})"
    using set_om_put [OF w, of ?o n] set_om_erase_in [OF w a(2)] by (simp add: set_om_erase)
  have none: "\<And>m. (?o + old, m) \<notin> idle_set (mh_idle h)" using nb trees_find [OF t(1), of "?o + old"] by auto
  have g: "tiled (mh_size h) (insert (?o + n, old - n) (idle_set (mh_idle h))) (set ?u)"
    unfolding su by (rule tiled_shrink [OF t(2) a(2) n none])
  have fresh: "?o + n \<notin> fst ` idle_set (mh_idle h)"
  proof
    assume "?o + n \<in> fst ` idle_set (mh_idle h)"
    then obtain m where m: "(?o + n, m) \<in> idle_set (mh_idle h)" by auto
    have "0 < m" using books_bound [OF b] m by blast
    then have "?o + n \<in> cells (idle_set (mh_idle h))" using m by (auto intro: cellsI)
    moreover have "?o + n \<in> cells (set (mh_used h))" using n by (intro cellsI [OF a(2)]) auto
    ultimately show False using t(2) by (auto simp: tiled_def)
  qed
  have bk: "books (mh_size h) ?t ?u" using trees_ok_emplace [OF t(1) fresh] g w by (simp add: books_def)
  have "in_pool h a" using a bd n sz by (auto simp: in_pool_def)
  moreover have "u64 (?o + old) = ?o + old" "u64 (?o + n) = ?o + n" using bd n sz by auto
  ultimately have "changeSize h a n = (True, h\<lparr>mh_used := ?u, mh_idle := ?t, used_size := sub64 (used_size h) (sub64 n n)\<rparr>)"
    using f nb n w by (simp add: changeSize_def reduce_size_in_lock_def Let_def om_find_put)
  moreover have "shift (mh_base h) (set ?u) = insert (a, n) (mh_live h - {(a, old)})"
    unfolding su mh_live_def using a(1) by (simp add: shift_insert shift_remove)
  ultimately show ?thesis using bk by (auto simp: mh_live_def mh_pool_def)
qed

theorem changeSize_shrink_witness:
  "\<exists>h'. changeSize (snd (mh_allocate (MemoryHeap 4096 256) 256)) 4096 100 = (True, h') \<and> mh_live h' = {(4096, 100)}"
proof -
  let ?h = "snd (mh_allocate (MemoryHeap 4096 256) 256)"
  have h: "?h = \<lparr>mh_base = 4096, mh_size = 256, used_size = 256, mh_idle = ([], []), mh_used = [(0, 256)]\<rparr>"
    by (simp add: MemoryHeap_def heap_eval)
  have ok: "mh_ok ?h" using mh.alloc_ok [OF mh_ok_init surjective_pairing, of 4096 256 256] by simp
  have "mh_live ?h = {(4096, 256)}" unfolding h by (simp add: mh_live_def shift_def)
  moreover have "om_find (4096 - mh_base ?h + 256) (fst (mh_idle ?h)) = None" unfolding h by (simp add: om_find_def)
  ultimately show ?thesis using changeSize_shrink [OF ok, of 4096 256 100] by auto
qed




end
