(* ===== verification/Split_Heap.thy ===== *)
theory Split_Heap
  imports Allocator Memory_Heap
begin

text \<open>
  The symmetric-memory heap with size buckets: class \<^verbatim>\<open>SplitMemoryHeap\<close> of \<^verbatim>\<open>zbal_sma_mm_heap.cpp\<close> and the functions
  around it. Small requests are served from the low end of a free block, large ones from its high end. Free blocks
  are in \<^verbatim>\<open>global_free_map_\<close> by address and in one set of addresses per power of two of the size; live blocks are in
  \<^verbatim>\<open>allocated_records_\<close>, whose order does not matter and which is an ordered map here. The spin lock is left out.
\<close>

record split_heap =
  sh_base :: nat
  sh_size :: nat
  split_threshold :: nat
  initialized :: bool
  used_bytes :: nat
  global_free_map :: "(nat, nat) omap"
  size_buckets :: "nat list list"
  allocated_records :: "(nat, nat) omap"

fun bits :: "nat \<Rightarrow> nat" where
  "bits n = (if n = 0 then 0 else Suc (bits (n div 2)))"

declare bits.simps [simp del]

definition builtin_clzll :: "nat \<Rightarrow> nat" where
  "builtin_clzll x = 64 - bits x"

definition get_bucket_index :: "nat \<Rightarrow> nat" where
  "get_bucket_index len = (if len = 0 then 0 else 64 - builtin_clzll len - 1)"

definition addToFreeStructures :: "nat \<Rightarrow> nat \<Rightarrow> split_heap \<Rightarrow> split_heap" where
  "addToFreeStructures addr len h =
     (if len = 0 then h
      else let h = h\<lparr>global_free_map := om_put addr len (global_free_map h)\<rparr>;
               idx = get_bucket_index len
           in if idx < length (size_buckets h)
              then h\<lparr>size_buckets := (size_buckets h)[idx := os_insert addr (size_buckets h ! idx)]\<rparr> else h)"

definition removeFromFreeStructures :: "nat \<Rightarrow> nat \<Rightarrow> split_heap \<Rightarrow> split_heap" where
  "removeFromFreeStructures addr len h =
     (let h = h\<lparr>global_free_map := om_erase addr (global_free_map h)\<rparr>;
          idx = get_bucket_index len
      in if idx < length (size_buckets h)
         then h\<lparr>size_buckets := (size_buckets h)[idx := os_erase addr (size_buckets h ! idx)]\<rparr> else h)"

definition SplitMemoryHeap :: "nat \<Rightarrow> nat \<Rightarrow> nat \<Rightarrow> split_heap" where
  "SplitMemoryHeap base len threshold =
     (let h = \<lparr>sh_base = base, sh_size = len, split_threshold = threshold, initialized = False, used_bytes = 0,
               global_free_map = [], size_buckets = replicate 64 [], allocated_records = []\<rparr>
      in if base \<noteq> 0 \<and> len > 0 then (addToFreeStructures base len h)\<lparr>initialized := True\<rparr> else h)"

text \<open>\<^verbatim>\<open>global_free_map_[addr]\<close>, which inserts 0 for a missing key.\<close>

definition free_size :: "nat \<Rightarrow> split_heap \<Rightarrow> nat \<times> split_heap" where
  "free_size addr h =
     (case om_find addr (global_free_map h) of
        Some n \<Rightarrow> (n, h)
      | None \<Rightarrow> (0, h\<lparr>global_free_map := om_put addr 0 (global_free_map h)\<rparr>))"

definition record_block :: "nat \<Rightarrow> nat \<Rightarrow> split_heap \<Rightarrow> split_heap" where
  "record_block ptr req_size h =
     h\<lparr>allocated_records := om_put ptr req_size (allocated_records h), used_bytes := u64 (used_bytes h + req_size)\<rparr>"

text \<open>The bodies of the two search loops on the free block at \<open>addr\<close>.\<close>

definition try_low :: "nat \<Rightarrow> nat \<Rightarrow> nat \<Rightarrow> split_heap \<Rightarrow> nat option \<times> split_heap" where
  "try_low alignment req_size addr h =
     (let (actual_size, h) = free_size addr h;
          aligned_addr = u64 (addr + (alignment - 1)) AND not64 (alignment - 1);
          padding = sub64 aligned_addr addr;
          total_needed = u64 (req_size + padding)
      in if actual_size \<ge> total_needed then
           let h = removeFromFreeStructures addr actual_size h;
               h = (if padding > 0 then addToFreeStructures addr padding h else h);
               remaining = actual_size - total_needed;
               h = (if remaining > 0 then addToFreeStructures (u64 (aligned_addr + req_size)) remaining h else h)
           in (Some aligned_addr, record_block aligned_addr req_size h)
         else (None, h))"

definition try_high :: "nat \<Rightarrow> nat \<Rightarrow> nat \<Rightarrow> split_heap \<Rightarrow> nat option \<times> split_heap" where
  "try_high alignment req_size addr h =
     (let (actual_size, h) = free_size addr h;
          block_end = u64 (addr + actual_size);
          candidate_start = sub64 block_end req_size;
          aligned_start = candidate_start AND not64 (alignment - 1)
      in if aligned_start \<ge> addr then
           let h = removeFromFreeStructures addr actual_size h;
               remain_low = aligned_start - addr;
               h = (if remain_low > 0 then addToFreeStructures addr remain_low h else h)
           in (Some aligned_start, record_block aligned_start req_size h)
         else (None, h))"

fun scan_bucket :: "(nat \<Rightarrow> split_heap \<Rightarrow> nat option \<times> split_heap) \<Rightarrow> nat list \<Rightarrow> split_heap \<Rightarrow> nat option \<times> split_heap" where
  "scan_bucket f [] h = (None, h)"
| "scan_bucket f (addr # addrs) h =
     (case f addr h of (Some ptr, h) \<Rightarrow> (Some ptr, h) | (None, h) \<Rightarrow> scan_bucket f addrs h)"

fun scan_buckets :: "(nat list \<Rightarrow> split_heap \<Rightarrow> nat option \<times> split_heap) \<Rightarrow> nat list list \<Rightarrow> split_heap \<Rightarrow> nat option \<times> split_heap" where
  "scan_buckets f [] h = (None, h)"
| "scan_buckets f (bucket # buckets) h =
     (case f bucket h of (Some ptr, h) \<Rightarrow> (Some ptr, h) | (None, h) \<Rightarrow> scan_buckets f buckets h)"

definition allocateLowToHigh :: "nat \<Rightarrow> nat \<Rightarrow> nat \<Rightarrow> split_heap \<Rightarrow> nat option \<times> split_heap" where
  "allocateLowToHigh start_idx alignment req_size h =
     scan_buckets (\<lambda>bucket. scan_bucket (try_low alignment req_size) bucket) (drop start_idx (size_buckets h)) h"

definition allocateHighToLow :: "nat \<Rightarrow> nat \<Rightarrow> nat \<Rightarrow> split_heap \<Rightarrow> nat option \<times> split_heap" where
  "allocateHighToLow start_idx alignment req_size h =
     scan_buckets (\<lambda>bucket. scan_bucket (try_high alignment req_size) (rev bucket)) (drop start_idx (size_buckets h)) h"

definition alignedAllocate :: "nat \<Rightarrow> split_heap \<Rightarrow> nat \<Rightarrow> nat \<times> split_heap" where
  "alignedAllocate alignment h len =
     (if \<not> initialized h \<or> len = 0 then (0, h)
      else let alignment = (if alignment = 0 then 1 else alignment);
               start_idx = get_bucket_index len;
               (r, h) = (if len < split_threshold h then allocateLowToHigh start_idx alignment len h
                         else allocateHighToLow start_idx alignment len h)
           in (case r of Some ptr \<Rightarrow> ptr | None \<Rightarrow> 0, h))"

definition coalesceAndInsert :: "nat \<Rightarrow> nat \<Rightarrow> split_heap \<Rightarrow> split_heap" where
  "coalesceAndInsert addr len h =
     (let (len', h) =
            (case om_lower_bound (u64 (addr + len)) (global_free_map h) of
               Some (next_addr, next_size) \<Rightarrow>
                 if next_addr = u64 (addr + len)
                 then (u64 (len + next_size), removeFromFreeStructures next_addr next_size h) else (len, h)
             | None \<Rightarrow> (len, h));
          (addr, len', h) =
            (case om_before addr (global_free_map h) of
               Some (prev_addr, prev_size) \<Rightarrow>
                 if u64 (prev_addr + prev_size) = addr
                 then (prev_addr, u64 (len' + prev_size), removeFromFreeStructures prev_addr prev_size h)
                 else (addr, len', h)
             | None \<Rightarrow> (addr, len', h))
      in addToFreeStructures addr len' h)"

definition sh_release :: "split_heap \<Rightarrow> nat \<Rightarrow> int \<times> split_heap" where
  "sh_release h address =
     (if address = 0 then (-1, h)
      else case om_find address (allocated_records h) of
        None \<Rightarrow> (-1, h)
      | Some len \<Rightarrow>
          (0, coalesceAndInsert address len
                (h\<lparr>allocated_records := om_erase address (allocated_records h), used_bytes := sub64 (used_bytes h) len\<rparr>)))"

definition sh_allocatedSize :: "split_heap \<Rightarrow> nat \<Rightarrow> nat option" where
  "sh_allocatedSize h address = om_find address (allocated_records h)"

definition sh_getInUsedSize :: "split_heap \<Rightarrow> nat" where "sh_getInUsedSize h = used_bytes h"
definition sh_getTotalSize :: "split_heap \<Rightarrow> nat" where "sh_getTotalSize h = sh_size h"

text \<open>The exported functions; a null pool pointer is \<open>None\<close>.\<close>

definition Z_ERROR :: int where "Z_ERROR = -1"

definition CustomHeapAlignedAllocate :: "nat \<Rightarrow> split_heap option \<Rightarrow> int \<times> nat option \<times> split_heap option" where
  "CustomHeapAlignedAllocate len symm_pool =
     (case symm_pool of
        None \<Rightarrow> (Z_ERROR, None, None)
      | Some h \<Rightarrow> let (devPtr, h) = alignedAllocate 32 h len
                in (if devPtr = 0 then Z_ERROR_ALLOC else Z_OK, Some devPtr, Some h))"

definition CustomHeapRelease :: "nat \<Rightarrow> split_heap option \<Rightarrow> int \<times> split_heap option" where
  "CustomHeapRelease devPtr symm_pool =
     (case symm_pool of None \<Rightarrow> (Z_ERROR, None) | Some h \<Rightarrow> (case sh_release h devPtr of (r, h) \<Rightarrow> (r, Some h)))"

definition CustomGetTotalSize :: "split_heap option \<Rightarrow> int \<times> nat option" where
  "CustomGetTotalSize symm_pool = (case symm_pool of None \<Rightarrow> (Z_ERROR, None) | Some h \<Rightarrow> (Z_OK, Some (sh_getTotalSize h)))"

definition CustomInUsedSize :: "split_heap option \<Rightarrow> int \<times> nat option" where
  "CustomInUsedSize symm_pool = (case symm_pool of None \<Rightarrow> (Z_ERROR, None) | Some h \<Rightarrow> (Z_OK, Some (sh_getInUsedSize h)))"


section \<open>Buckets\<close>

lemma bits_bounds: "0 < n \<Longrightarrow> 0 < bits n \<and> 2 ^ (bits n - 1) \<le> n \<and> n < 2 ^ bits n"
proof (induction n rule: bits.induct)
  case (1 n)
  show ?case
  proof (cases "n div 2 = 0")
    case True
    then have "n = 1" using 1(2) by auto
    then show ?thesis by (simp add: bits.simps)
  next
    case False
    have b: "bits n = Suc (bits (n div 2))" using 1(2) by (subst bits.simps) simp
    have IH: "0 < bits (n div 2)" "2 ^ (bits (n div 2) - 1) \<le> n div 2" "n div 2 < 2 ^ bits (n div 2)"
      using 1(1) 1(2) False by auto
    have "(2::nat) ^ bits (n div 2) = 2 * 2 ^ (bits (n div 2) - 1)" using IH(1) by (metis Suc_diff_1 power_Suc)
    moreover have "2 * (n div 2) \<le> n" by simp
    ultimately have "2 ^ bits (n div 2) \<le> n" using IH(2) by linarith
    moreover have "n < 2 * 2 ^ bits (n div 2)" using IH(3) by (simp add: div_less_iff_less_mult mult.commute)
    ultimately show ?thesis unfolding b by simp
  qed
qed

lemma get_bucket_index_bounds:
  assumes "0 < n" "n < 2 ^ 64"
  shows "get_bucket_index n < 64" "2 ^ get_bucket_index n \<le> n" "n < 2 * 2 ^ get_bucket_index n"
proof -
  have b: "0 < bits n" "2 ^ (bits n - 1) \<le> n" "n < 2 ^ bits n" using bits_bounds [OF assms(1)] by auto
  have "(2::nat) ^ (bits n - 1) < 2 ^ 64" using b(2) assms(2) by (rule le_less_trans)
  then have "bits n \<le> 64" using pow2_le_64 [of "bits n - 1"] b(1) by simp
  then have i: "get_bucket_index n = bits n - 1" using assms(1) b(1) by (simp add: get_bucket_index_def builtin_clzll_def)
  show "get_bucket_index n < 64" "2 ^ get_bucket_index n \<le> n" "n < 2 * 2 ^ get_bucket_index n"
    unfolding i using b \<open>bits n \<le> 64\<close> by (auto simp flip: power_Suc)
qed

definition free_ok :: "split_heap \<Rightarrow> bool" where
  "free_ok h \<longleftrightarrow> om_wf (global_free_map h) \<and> length (size_buckets h) = 64 \<and>
     (\<forall>i<64. os_wf (size_buckets h ! i) \<and>
             set (size_buckets h ! i) = {a. \<exists>n. (a, n) \<in> set (global_free_map h) \<and> get_bucket_index n = i}) \<and>
     (\<forall>(a, n)\<in>set (global_free_map h). 0 < n \<and> n < 2 ^ 64)"

lemma free_structures_frame [simp]:
  "allocated_records (addToFreeStructures a n h) = allocated_records h"
  "allocated_records (removeFromFreeStructures a n h) = allocated_records h"
  "used_bytes (addToFreeStructures a n h) = used_bytes h"
  "used_bytes (removeFromFreeStructures a n h) = used_bytes h"
  "sh_base (addToFreeStructures a n h) = sh_base h"
  "sh_base (removeFromFreeStructures a n h) = sh_base h"
  "sh_size (addToFreeStructures a n h) = sh_size h"
  "sh_size (removeFromFreeStructures a n h) = sh_size h"
  "initialized (addToFreeStructures a n h) = initialized h"
  "initialized (removeFromFreeStructures a n h) = initialized h"
  "split_threshold (addToFreeStructures a n h) = split_threshold h"
  "split_threshold (removeFromFreeStructures a n h) = split_threshold h"
  by (simp_all add: addToFreeStructures_def removeFromFreeStructures_def Let_def)

lemma add_free_ok:
  assumes ok: "free_ok h" and a: "a \<notin> fst ` set (global_free_map h)" and n: "0 < n" "n < 2 ^ 64"
  shows "free_ok (addToFreeStructures a n h)"
    "set (global_free_map (addToFreeStructures a n h)) = insert (a, n) (set (global_free_map h))"
proof -
  let ?h = "addToFreeStructures a n h"
  have w: "om_wf (global_free_map h)" "length (size_buckets h) = 64" using ok by (auto simp: free_ok_def)
  note i = get_bucket_index_bounds(1) [OF n]
  have g: "global_free_map ?h = om_put a n (global_free_map h)"
    and s: "size_buckets ?h = (size_buckets h)[get_bucket_index n := os_insert a (size_buckets h ! get_bucket_index n)]"
    using n i w by (simp_all add: addToFreeStructures_def Let_def)
  show m: "set (global_free_map ?h) = insert (a, n) (set (global_free_map h))"
    unfolding g using set_om_put [OF w(1), of a n] a by (force simp: image_iff)
  have "os_wf (size_buckets ?h ! j) \<and>
      set (size_buckets ?h ! j) = {b. \<exists>k. (b, k) \<in> set (global_free_map ?h) \<and> get_bucket_index k = j}" if "j < 64" for j
    using that ok w i unfolding m s free_ok_def by (cases "j = get_bucket_index n") (auto simp: set_os_insert)
  moreover have "om_wf (global_free_map ?h)" "length (size_buckets ?h) = 64" using w unfolding g s by simp_all
  moreover have "\<forall>(b, k)\<in>set (global_free_map ?h). 0 < k \<and> k < 2 ^ 64" unfolding m using ok n by (auto simp: free_ok_def)
  ultimately show "free_ok ?h" unfolding free_ok_def by blast
qed

lemma remove_free_ok:
  assumes ok: "free_ok h" and a: "(a, n) \<in> set (global_free_map h)"
  shows "free_ok (removeFromFreeStructures a n h)"
    "set (global_free_map (removeFromFreeStructures a n h)) = set (global_free_map h) - {(a, n)}"
proof -
  let ?h = "removeFromFreeStructures a n h"
  have w: "om_wf (global_free_map h)" "length (size_buckets h) = 64" and n: "0 < n" "n < 2 ^ 64"
    using ok a by (auto simp: free_ok_def)
  note i = get_bucket_index_bounds(1) [OF n]
  have g: "global_free_map ?h = om_erase a (global_free_map h)"
    and s: "size_buckets ?h = (size_buckets h)[get_bucket_index n := os_erase a (size_buckets h ! get_bucket_index n)]"
    using n i w by (simp_all add: removeFromFreeStructures_def Let_def)
  show m: "set (global_free_map ?h) = set (global_free_map h) - {(a, n)}" unfolding g by (rule set_om_erase_in [OF w(1) a])
  have only: "k = n" if "(a, k) \<in> set (global_free_map h)" for k using om_wf_inj [OF w(1) a that] by simp
  have "os_wf (size_buckets ?h ! j) \<and>
      set (size_buckets ?h ! j) = {b. \<exists>k. (b, k) \<in> set (global_free_map ?h) \<and> get_bucket_index k = j}" if "j < 64" for j
  proof (cases "j = get_bucket_index n")
    case True
    have "set (size_buckets ?h ! j) = {b. \<exists>k. (b, k) \<in> set (global_free_map h) \<and> get_bucket_index k = j} - {a}"
      using ok w i True unfolding s free_ok_def by (simp add: set_os_erase)
    also have "\<dots> = {b. \<exists>k. (b, k) \<in> set (global_free_map ?h) \<and> get_bucket_index k = j}"
      unfolding m using only by auto
    finally show ?thesis using ok w i True unfolding s free_ok_def by simp
  next
    case False
    have "{b. \<exists>k. (b, k) \<in> set (global_free_map h) \<and> get_bucket_index k = j} =
        {b. \<exists>k. (b, k) \<in> set (global_free_map ?h) \<and> get_bucket_index k = j}"
      unfolding m using False by auto
    then show ?thesis using ok that False unfolding s free_ok_def by simp
  qed
  moreover have "om_wf (global_free_map ?h)" "length (size_buckets ?h) = 64" using w unfolding g s by simp_all
  moreover have "\<forall>(b, k)\<in>set (global_free_map ?h). 0 < k \<and> k < 2 ^ 64" unfolding m using ok by (auto simp: free_ok_def)
  ultimately show "free_ok ?h" unfolding free_ok_def by blast
qed


section \<open>The invariant\<close>

abbreviation free_set :: "split_heap \<Rightarrow> (nat \<times> nat) set" where
  "free_set h \<equiv> set (global_free_map h)"

definition sh_live :: "split_heap \<Rightarrow> (nat \<times> nat) set" where
  "sh_live h = set (allocated_records h)"

definition sh_pool :: "split_heap \<Rightarrow> nat set" where
  "sh_pool h = {sh_base h..<sh_base h + sh_size h}"

definition sh_shape :: "split_heap \<Rightarrow> bool" where
  "sh_shape h \<longleftrightarrow> initialized h \<and> 0 < sh_size h \<and> sh_size h \<le> sh_base h \<and> sh_base h + sh_size h \<le> 2 ^ 63"

definition sh_ok :: "split_heap \<Rightarrow> bool" where
  "sh_ok h \<longleftrightarrow> sh_shape h \<and> free_ok h \<and> om_wf (allocated_records h) \<and>
     disjoint_ranges (free_set h) \<and> disjoint_ranges (sh_live h) \<and>
     cells (free_set h) \<inter> cells (sh_live h) = {} \<and> cells (free_set h) \<union> cells (sh_live h) \<subseteq> sh_pool h \<and>
     used_bytes h = sum snd (sh_live h)"

lemma add_piece:
  assumes "free_ok h" "disjoint_ranges (free_set h)" "{a..<a + n} \<inter> cells (free_set h) = {}" "n < 2 ^ 64"
  shows "free_ok (addToFreeStructures a n h)" "disjoint_ranges (free_set (addToFreeStructures a n h))"
    "cells (free_set (addToFreeStructures a n h)) = cells (free_set h) \<union> {a..<a + n}"
proof -
  have "free_ok (addToFreeStructures a n h) \<and> disjoint_ranges (free_set (addToFreeStructures a n h)) \<and>
    cells (free_set (addToFreeStructures a n h)) = cells (free_set h) \<union> {a..<a + n}"
  proof (cases "n = 0")
    case True
    then show ?thesis using assms by (simp add: addToFreeStructures_def)
  next
    case False
    have "a \<notin> fst ` free_set h"
    proof
      assume "a \<in> fst ` free_set h"
      then obtain k where k: "(a, k) \<in> free_set h" by auto
      then have "a \<in> cells (free_set h)" using disjoint_rangesD(1) [OF assms(2) k] by (auto intro: cellsI)
      moreover have "a \<in> {a..<a + n}" using False by simp
      ultimately show False using assms(3) by blast
    qed
    then show ?thesis
      using add_free_ok [OF assms(1), of a n] disjoint_insert [OF assms(2), of n a] assms(3,4) False by auto
  qed
  then show "free_ok (addToFreeStructures a n h)" "disjoint_ranges (free_set (addToFreeStructures a n h))"
    "cells (free_set (addToFreeStructures a n h)) = cells (free_set h) \<union> {a..<a + n}" by simp_all
qed

lemma remove_piece:
  assumes "free_ok h" "disjoint_ranges (free_set h)" "(a, n) \<in> free_set h"
  shows "free_ok (removeFromFreeStructures a n h)" "disjoint_ranges (free_set (removeFromFreeStructures a n h))"
    "cells (free_set (removeFromFreeStructures a n h)) = cells (free_set h) - {a..<a + n}"
  using remove_free_ok [OF assms(1,3)] disjoint_subset [OF assms(2), of "free_set h - {(a, n)}"]
    cells_remove [OF assms(2,3)] by auto

text \<open>Carving a block of \<open>r\<close> bytes out of a free block, with \<open>k\<close> bytes before it and \<open>e\<close> bytes after it staying free.\<close>

lemma carve:
  assumes ok: "sh_ok h" and f: "(a, n) \<in> free_set h" and r: "k + r + e \<le> n" "0 < r"
  defines "h' \<equiv> record_block (a + k) r
    (addToFreeStructures (a + k + r) e (addToFreeStructures a k (removeFromFreeStructures a n h)))"
  shows "sh_ok h'" "sh_live h' = insert (a + k, r) (sh_live h)" "(a + k, r) \<notin> sh_live h" "sh_pool h' = sh_pool h"
proof -
  have fo: "free_ok h" and df: "disjoint_ranges (free_set h)" and da: "disjoint_ranges (sh_live h)"
    and dj: "cells (free_set h) \<inter> cells (sh_live h) = {}"
    and sub: "cells (free_set h) \<union> cells (sh_live h) \<subseteq> sh_pool h" and w: "om_wf (allocated_records h)"
    and us: "used_bytes h = sum snd (sh_live h)" and sh: "sh_shape h"
    using ok by (auto simp: sh_ok_def)
  have an: "{a..<a + n} \<subseteq> cells (free_set h)" using f by (auto intro: cellsI)
  have parts: "{a..<a + k} \<subseteq> {a..<a + n}" "{a + k..<a + k + r} \<subseteq> {a..<a + n}" "{a + k + r..<a + k + r + e} \<subseteq> {a..<a + n}"
    "{a + k + r..<a + k + r + e} \<inter> {a..<a + k} = {}" "{a + k..<a + k + r} \<inter> {a..<a + k} = {}"
    "{a + k..<a + k + r} \<inter> {a + k + r..<a + k + r + e} = {}" using r by auto
  have n64: "n < 2 ^ 64" using fo f by (auto simp: free_ok_def)
  let ?h1 = "removeFromFreeStructures a n h"
  let ?h2 = "addToFreeStructures a k ?h1"
  let ?h3 = "addToFreeStructures (a + k + r) e ?h2"
  note h1 = remove_piece [OF fo df f]
  have "{a..<a + k} \<inter> cells (free_set ?h1) = {}" "k < 2 ^ 64" using h1(3) parts r n64 by auto
  note h2 = add_piece [OF h1(1,2) this]
  have "{a + k + r..<a + k + r + e} \<inter> cells (free_set ?h2) = {}" "e < 2 ^ 64" using h2(3) h1(3) parts r n64 by auto
  note h3 = add_piece [OF h2(1,2) this]
  have c3: "cells (free_set ?h3) = cells (free_set h) - {a..<a + n} \<union> {a..<a + k} \<union> {a + k + r..<a + k + r + e}"
    using h3(3) h2(3) h1(3) by simp
  have out: "{a + k..<a + k + r} \<inter> cells (sh_live h) = {}" using an dj parts by blast
  have key: "a + k \<notin> fst ` set (allocated_records h)"
  proof
    assume "a + k \<in> fst ` set (allocated_records h)"
    then obtain m where m: "(a + k, m) \<in> sh_live h" by (auto simp: sh_live_def)
    then have "a + k \<in> cells (sh_live h)" using disjoint_rangesD(1) [OF da m] by (auto intro: cellsI)
    moreover have "a + k \<in> {a + k..<a + k + r}" using r by simp
    ultimately show False using out by blast
  qed
  show l: "sh_live h' = insert (a + k, r) (sh_live h)"
    using set_om_put [OF w, of "a + k" r] key by (force simp: h'_def record_block_def sh_live_def image_iff)
  show new: "(a + k, r) \<notin> sh_live h" using key by (force simp: sh_live_def)
  show p: "sh_pool h' = sh_pool h" by (simp add: h'_def record_block_def sh_pool_def)
  have dl: "disjoint_ranges (sh_live h')" unfolding l by (rule disjoint_insert [OF da r(2) out])
  have inp: "{a + k..<a + k + r} \<subseteq> sh_pool h" using an sub parts by blast
  have "sum snd (sh_live h') = used_bytes h + r" using new us unfolding l by (simp add: sh_live_def)
  moreover have "sum snd (sh_live h') \<le> sh_size h"
  proof -
    have "sum snd (sh_live h') = card (cells (sh_live h'))" using dl by (simp add: card_cells sh_live_def)
    also have "\<dots> \<le> card (sh_pool h)" unfolding l using inp sub by (intro card_mono) (auto simp: sh_pool_def)
    finally show ?thesis by (simp add: sh_pool_def)
  qed
  ultimately have "used_bytes h' = sum snd (sh_live h')" using sh by (simp add: h'_def record_block_def sh_shape_def)
  moreover have "sh_shape h'" using sh by (simp add: h'_def record_block_def sh_shape_def)
  moreover have "free_ok h'" using h3(1) by (simp add: h'_def record_block_def free_ok_def)
  moreover have "om_wf (allocated_records h')" using w by (simp add: h'_def record_block_def)
  moreover have f': "free_set h' = free_set ?h3" by (simp add: h'_def record_block_def)
  moreover have "cells (free_set h') \<inter> cells (sh_live h') = {}" unfolding f' c3 l cells_simps using dj parts an by blast
  moreover have "cells (free_set h') \<union> cells (sh_live h') \<subseteq> sh_pool h" unfolding f' c3 l cells_simps using sub parts an inp by blast
  ultimately show "sh_ok h'" unfolding sh_ok_def p using h3(2) dl by simp
qed


section \<open>Allocation\<close>

text \<open>The outcome of a search: nothing, or a new aligned block of \<open>r\<close> bytes.\<close>

definition sh_finds :: "split_heap \<Rightarrow> nat \<Rightarrow> nat \<Rightarrow> nat option \<times> split_heap \<Rightarrow> bool" where
  "sh_finds h d r res \<longleftrightarrow> res = (None, h) \<or>
     (\<exists>p h'. res = (Some p, h') \<and> sh_ok h' \<and> sh_pool h' = sh_pool h \<and> p \<noteq> 0 \<and> d dvd p \<and>
             (p, r) \<notin> sh_live h \<and> sh_live h' = insert (p, r) (sh_live h))"

lemma free_block_bounds:
  assumes ok: "sh_ok h" and f: "(a, n) \<in> free_set h"
  shows "0 < n" "sh_base h \<le> a" "a + n \<le> sh_base h + sh_size h" "n \<le> a" "a + n \<le> 2 ^ 63" "0 < a"
proof -
  show n: "0 < n" using ok f by (auto simp: sh_ok_def free_ok_def)
  have "{a..<a + n} \<subseteq> cells (free_set h)" using f by (auto intro: cellsI)
  also have "\<dots> \<subseteq> sh_pool h" using ok by (auto simp: sh_ok_def)
  finally show b: "sh_base h \<le> a" "a + n \<le> sh_base h + sh_size h" using n by (auto simp: sh_pool_def)
  then show "n \<le> a" "a + n \<le> 2 ^ 63" "0 < a" using ok by (auto simp: sh_ok_def sh_shape_def)
qed

lemma free_size_eq: "sh_ok h \<Longrightarrow> (a, n) \<in> free_set h \<Longrightarrow> free_size a h = (n, h)"
  using om_find_iff [of "global_free_map h" a n] by (simp add: free_size_def sh_ok_def free_ok_def)

lemma carve_finds:
  assumes ok: "sh_ok h" and f: "(a, n) \<in> free_set h" and r: "k + r + e \<le> n" "0 < r" and d: "d dvd a + k"
  shows "sh_finds h d r (Some (a + k), record_block (a + k) r
    (addToFreeStructures (a + k + r) e (addToFreeStructures a k (removeFromFreeStructures a n h))))"
  using carve [OF ok f r] d free_block_bounds(6) [OF ok f] unfolding sh_finds_def
  by (intro disjI2 exI conjI) (rule refl, simp_all)

lemma add_nothing [simp]: "addToFreeStructures a 0 h = h"
  by (simp add: addToFreeStructures_def)

lemma try_low_finds:
  assumes ok: "sh_ok h" and f: "(a, n) \<in> free_set h" and r: "0 < r" "r < 2 * n" and j: "j \<le> 62"
  shows "sh_finds h (2 ^ j) r (try_low (2 ^ j) r a h)"
proof -
  let ?d = "2 ^ j :: nat" and ?s = "skip (2 ^ j) a"
  have d62: "?d \<le> 2 ^ 62" using j by (intro power_increasing) simp_all
  have s: "?s < ?d" "?d dvd a + ?s" using skip_bounds [of ?d a] by auto
  note b = free_block_bounds [OF ok f]
  have n62: "n \<le> 2 ^ 62" using b(4,5) by simp
  have "align_up64 a ?d = (a + ?d - 1) div ?d * ?d" using j b(5) d62 by (intro align_up64_eq) simp_all
  then have al: "u64 (a + (?d - 1)) AND not64 (?d - 1) = a + ?s"
    using round_up_bounds(1) [of ?d a] by (simp add: align_up64_def skip_def)
  have sub: "sub64 (a + ?s) a = ?s" using b(5) s(1) d62 by (subst sub64_le) simp_all
  have tot: "u64 (r + ?s) = r + ?s" using r(2) n62 s(1) d62 by simp
  show ?thesis
  proof (cases "r + ?s \<le> n")
    case True
    have "u64 (a + ?s + r) = a + ?s + r" using True b(5) by simp
    then have "try_low ?d r a h = (Some (a + ?s), record_block (a + ?s) r
        (addToFreeStructures (a + ?s + r) (n - (r + ?s)) (addToFreeStructures a ?s (removeFromFreeStructures a n h))))"
      using True unfolding try_low_def free_size_eq [OF ok f] al sub tot Let_def prod.case by simp
    moreover have "?s + r + (n - (r + ?s)) \<le> n" using True by simp
    ultimately show ?thesis using carve_finds [OF ok f _ r(1) s(2)] by simp
  next
    case False
    then have "try_low ?d r a h = (None, h)"
      unfolding try_low_def free_size_eq [OF ok f] al sub tot Let_def prod.case by simp
    then show ?thesis by (simp add: sh_finds_def)
  qed
qed

lemma try_high_finds:
  assumes ok: "sh_ok h" and f: "(a, n) \<in> free_set h" and r: "0 < r" "r < 2 * n" and j: "j \<le> 62"
  shows "sh_finds h (2 ^ j) r (try_high (2 ^ j) r a h)"
proof -
  let ?d = "2 ^ j :: nat"
  note b = free_block_bounds [OF ok f]
  have e: "u64 (a + n) = a + n" "sub64 (a + n) r = a + n - r" using b r by (auto intro: sub64_le)
  let ?c = "a + n - r"
  have "?c < 2 ^ 64" using b(5) by simp
  then have al: "?c AND not64 (?d - 1) = ?c div ?d * ?d" using j by (intro and_not64) simp_all
  have le: "?c div ?d * ?d \<le> ?c" by simp
  show ?thesis
  proof (cases "a \<le> ?c div ?d * ?d")
    case True
    let ?k = "?c div ?d * ?d - a"
    have k: "a + ?k = ?c div ?d * ?d" using True by simp
    have "try_high ?d r a h = (Some (a + ?k), record_block (a + ?k) r
        (addToFreeStructures (a + ?k + r) 0 (addToFreeStructures a ?k (removeFromFreeStructures a n h))))"
      using True unfolding try_high_def free_size_eq [OF ok f] Let_def prod.case e al by simp
    moreover have "?k + r + 0 \<le> n" using True le r b(4) by linarith
    moreover have "?d dvd a + ?k" unfolding k by simp
    ultimately show ?thesis using carve_finds [OF ok f _ r(1), of ?k 0 ?d] by metis
  next
    case False
    then have "try_high ?d r a h = (None, h)"
      unfolding try_high_def free_size_eq [OF ok f] Let_def prod.case e al by simp
    then show ?thesis by (simp add: sh_finds_def)
  qed
qed

lemma scan_bucket_finds:
  "(\<And>a. a \<in> set as \<Longrightarrow> sh_finds h d r (f a h)) \<Longrightarrow> sh_finds h d r (scan_bucket f as h)"
proof (induction as)
  case (Cons a as)
  then have "sh_finds h d r (f a h)" "sh_finds h d r (scan_bucket f as h)" by simp_all
  then show ?case by (cases "f a h"; cases "fst (f a h)") (auto simp: sh_finds_def)
qed (simp add: sh_finds_def)

lemma scan_buckets_finds:
  "(\<And>b. b \<in> set bs \<Longrightarrow> sh_finds h d r (f b h)) \<Longrightarrow> sh_finds h d r (scan_buckets f bs h)"
proof (induction bs)
  case (Cons b bs)
  then have "sh_finds h d r (f b h)" "sh_finds h d r (scan_buckets f bs h)" by simp_all
  then show ?case by (cases "f b h"; cases "fst (f b h)") (auto simp: sh_finds_def)
qed (simp add: sh_finds_def)

text \<open>A block of a bucket that is searched is more than half as long as the request.\<close>

lemma bucket_block:
  assumes ok: "sh_ok h" and b: "b \<in> set (drop (get_bucket_index r) (size_buckets h))" "a \<in> set b" and r: "0 < r"
  obtains n where "(a, n) \<in> free_set h" "r < 2 * n"
proof -
  have fo: "free_ok h" using ok by (simp add: sh_ok_def)
  obtain i where i: "get_bucket_index r + i < 64" "b = size_buckets h ! (get_bucket_index r + i)"
  proof -
    have len: "length (size_buckets h) = 64" using fo by (simp add: free_ok_def)
    obtain i where "i < length (drop (get_bucket_index r) (size_buckets h))" "b = drop (get_bucket_index r) (size_buckets h) ! i"
      using b(1) by (auto simp: in_set_conv_nth)
    then have "get_bucket_index r + i < 64" "b = size_buckets h ! (get_bucket_index r + i)" using len by auto
    then show thesis by (rule that)
  qed
  then obtain n where n: "(a, n) \<in> free_set h" "get_bucket_index n = get_bucket_index r + i"
    using b(2) fo by (auto simp: free_ok_def)
  have n62: "0 < n" "n < 2 ^ 63" using free_block_bounds [OF ok n(1)] by auto
  then have "n < 2 ^ 64" by simp
  note gn = get_bucket_index_bounds [OF n62(1) this]
  have "get_bucket_index n < 63"
    using gn(2) n62(2) by (metis le_less_trans nat_power_less_imp_less numeral_2_eq_2 zero_less_Suc)
  then have "bits r - 1 < 63" using n(2) r unfolding get_bucket_index_def builtin_clzll_def by (auto split: if_splits)
  then have "r < 2 ^ 64" using bits_bounds [OF r] power_increasing [of "bits r" 64 "2::nat"] by linarith
  note gr = get_bucket_index_bounds [OF r this]
  have "(2::nat) ^ get_bucket_index r \<le> 2 ^ get_bucket_index n" using n(2) by (intro power_increasing) simp_all
  then have "r < 2 * n" using gr(3) gn(2) by linarith
  then show ?thesis using that n(1) by blast
qed


lemma alignedAllocate_finds:
  assumes ok: "sh_ok h" and j: "j \<le> 62"
  shows "\<exists>res. sh_finds h (2 ^ j) n res \<and> alignedAllocate (2 ^ j) h n = (case fst res of Some p \<Rightarrow> p | None \<Rightarrow> 0, snd res)"
proof (cases "n = 0")
  case True
  then show ?thesis by (intro exI [of _ "(None, h)"]) (simp add: alignedAllocate_def sh_finds_def)
next
  case False
  let ?i = "get_bucket_index n"
  have init: "initialized h" using ok by (simp add: sh_ok_def sh_shape_def)
  have lo: "sh_finds h (2 ^ j) n (allocateLowToHigh ?i (2 ^ j) n h)"
    unfolding allocateLowToHigh_def
  proof (intro scan_buckets_finds scan_bucket_finds)
    fix b a assume ba: "b \<in> set (drop ?i (size_buckets h))" "a \<in> set b"
    obtain m where "(a, m) \<in> free_set h" "n < 2 * m" using bucket_block [OF ok ba] False by auto
    then show "sh_finds h (2 ^ j) n (try_low (2 ^ j) n a h)" using try_low_finds [OF ok _ _ _ j] False by simp
  qed
  have hi: "sh_finds h (2 ^ j) n (allocateHighToLow ?i (2 ^ j) n h)"
    unfolding allocateHighToLow_def
  proof (intro scan_buckets_finds scan_bucket_finds)
    fix b a assume ba: "b \<in> set (drop ?i (size_buckets h))" "a \<in> set (rev b)"
    obtain m where "(a, m) \<in> free_set h" "n < 2 * m" using bucket_block [OF ok ba(1), of a] ba(2) False by auto
    then show "sh_finds h (2 ^ j) n (try_high (2 ^ j) n a h)" using try_high_finds [OF ok _ _ _ j] False by simp
  qed
  show ?thesis
  proof (cases "n < split_threshold h")
    case True
    then show ?thesis using lo False init by (intro exI [of _ "allocateLowToHigh ?i (2 ^ j) n h"]) (simp add: alignedAllocate_def split_beta Let_def)
  next
    case f: False
    then show ?thesis using hi False init by (intro exI [of _ "allocateHighToLow ?i (2 ^ j) n h"]) (simp add: alignedAllocate_def split_beta Let_def)
  qed
qed

lemma coalesceAndInsert_ok:
  assumes fo: "free_ok h" and df: "disjoint_ranges (free_set h)" and r: "{a..<a + r} \<inter> cells (free_set h) = {}"
    and b: "cells (free_set h) \<subseteq> {..<N}" "a + r \<le> N" "N < 2 ^ 64"
  defines "h' \<equiv> coalesceAndInsert a r h"
  shows "free_ok h'" "disjoint_ranges (free_set h')" "cells (free_set h') = cells (free_set h) \<union> {a..<a + r}"
    "allocated_records h' = allocated_records h" "used_bytes h' = used_bytes h" "sh_shape h' = sh_shape h" "sh_pool h' = sh_pool h"
proof -
  have w: "om_wf (global_free_map h)" using fo by (simp add: free_ok_def)
  have le: "p + m \<le> N" if "(p, m) \<in> free_set h" for p m
  proof -
    have "0 < m" using disjoint_rangesD(1) [OF df that] .
    then have "p + m - 1 \<in> cells (free_set h)" using that by (intro cellsI [OF that]) auto
    then show ?thesis using b(1) \<open>0 < m\<close> by auto
  qed
  have ar: "u64 (a + r) = a + r" using b by simp
  define s1 where "s1 = (case om_lower_bound (u64 (a + r)) (global_free_map h) of
     Some (p, m) \<Rightarrow> if p = u64 (a + r) then (u64 (r + m), removeFromFreeStructures p m h) else (r, h) | None \<Rightarrow> (r, h))"
  define l1 where "l1 = fst s1"
  define h1 where "h1 = snd s1"
  have 1: "free_ok h1 \<and> disjoint_ranges (free_set h1) \<and> free_set h1 \<subseteq> free_set h \<and> r \<le> l1 \<and> a + l1 \<le> N \<and>
      cells (free_set h) = cells (free_set h1) \<union> {a + r..<a + l1} \<and> cells (free_set h1) \<inter> {a + r..<a + l1} = {} \<and>
      allocated_records h1 = allocated_records h \<and> used_bytes h1 = used_bytes h \<and> sh_shape h1 = sh_shape h \<and> sh_pool h1 = sh_pool h"
  proof (cases "\<exists>m. om_lower_bound (a + r) (global_free_map h) = Some (a + r, m)")
    case True
    then obtain m where m: "om_lower_bound (a + r) (global_free_map h) = Some (a + r, m)" by blast
    then have i: "(a + r, m) \<in> free_set h" using om_lower_bound_Some [OF w] by blast
    have "u64 (r + m) = r + m" using le [OF i] b by simp
    then have "l1 = r + m" "h1 = removeFromFreeStructures (a + r) m h" unfolding l1_def h1_def s1_def ar m by simp_all
    moreover have "{a + r..<a + r + m} \<subseteq> cells (free_set h)" using i by (auto intro: cellsI)
    ultimately show ?thesis using remove_piece [OF fo df i] remove_free_ok(2) [OF fo i] le [OF i]
      by (auto simp: add.assoc sh_shape_def sh_pool_def)
  next
    case False
    then have "l1 = r" "h1 = h" unfolding l1_def h1_def s1_def ar by (auto split: option.splits)
    then show ?thesis using fo df b by simp
  qed
  have out1: "{a..<a + l1} \<inter> cells (free_set h1) = {}"
  proof -
    have "{a..<a + l1} = {a..<a + r} \<union> {a + r..<a + l1}" using 1 by auto
    then show ?thesis using 1 r by blast
  qed
  define s2 where "s2 = (case om_before a (global_free_map h1) of
     Some (p, m) \<Rightarrow> if u64 (p + m) = a then (p, u64 (l1 + m), removeFromFreeStructures p m h1) else (a, l1, h1)
   | None \<Rightarrow> (a, l1, h1))"
  define a2 where "a2 = fst s2"
  define l2 where "l2 = fst (snd s2)"
  define h2 where "h2 = snd (snd s2)"
  have 2: "free_ok h2 \<and> disjoint_ranges (free_set h2) \<and> a2 \<le> a \<and> a2 + l2 = a + l1 \<and>
      cells (free_set h1) = cells (free_set h2) \<union> {a2..<a} \<and> cells (free_set h2) \<inter> {a2..<a} = {} \<and>
      allocated_records h2 = allocated_records h1 \<and> used_bytes h2 = used_bytes h1 \<and> sh_shape h2 = sh_shape h1 \<and> sh_pool h2 = sh_pool h1"
  proof (cases "\<exists>p m. om_before a (global_free_map h1) = Some (p, m) \<and> u64 (p + m) = a")
    case True
    then obtain p m where m: "om_before a (global_free_map h1) = Some (p, m)" "u64 (p + m) = a" by blast
    have w1: "om_wf (global_free_map h1)" using 1 by (simp add: free_ok_def)
    have i: "(p, m) \<in> free_set h1" using m(1) om_before_Some [OF w1] by blast
    then have "p + m \<le> N" using le 1 by blast
    then have pm: "p + m = a" using m(2) b by simp
    have "u64 (l1 + m) = l1 + m" using 1 pm b by auto
    then have "a2 = p" "l2 = l1 + m" "h2 = removeFromFreeStructures p m h1"
      unfolding a2_def l2_def h2_def s2_def m(1) using m(2) by simp_all
    moreover have "{p..<p + m} \<subseteq> cells (free_set h1)" using i by (auto intro: cellsI)
    ultimately show ?thesis using remove_piece [OF _ _ i] 1 pm by (auto simp: sh_shape_def sh_pool_def)
  next
    case False
    then have "s2 = (a, l1, h1)" unfolding s2_def by (auto split: option.splits)
    then show ?thesis using 1 by (simp add: a2_def l2_def h2_def)
  qed
  have out2: "{a2..<a2 + l2} \<inter> cells (free_set h2) = {}"
  proof -
    have "{a2..<a2 + l2} = {a2..<a} \<union> {a..<a + l1}" using 2 1 by auto
    then show ?thesis using 2 out1 by blast
  qed
  have h': "h' = addToFreeStructures a2 l2 h2"
    unfolding h'_def coalesceAndInsert_def s1_def [symmetric] a2_def l2_def h2_def s2_def l1_def h1_def
    by (simp add: split_beta Let_def)
  have "l2 < 2 ^ 64" using 1 2 b by auto
  note p = add_piece [OF _ _ out2 this]
  show "free_ok h'" "disjoint_ranges (free_set h')" unfolding h' using p 2 by simp_all
  have "{a2..<a2 + l2} = {a2..<a} \<union> {a..<a + r} \<union> {a + r..<a + l1}" using 2 1 by auto
  then show "cells (free_set h') = cells (free_set h) \<union> {a..<a + r}" unfolding h' using p(3) 2 1 by auto
  show "allocated_records h' = allocated_records h" "used_bytes h' = used_bytes h" "sh_shape h' = sh_shape h" "sh_pool h' = sh_pool h"
    unfolding h' using 1 2 by (simp_all add: sh_shape_def sh_pool_def)
qed


definition sh_free :: "split_heap \<Rightarrow> nat \<Rightarrow> bool \<times> split_heap" where
  "sh_free h a = (case sh_release h a of (r, h') \<Rightarrow> (r = 0, h'))"

lemma sh_release_live:
  assumes ok: "sh_ok h" and l: "(a, m) \<in> sh_live h"
  obtains h' where "sh_release h a = (0, h')" "sh_ok h'" "sh_pool h' = sh_pool h" "sh_live h' = sh_live h - {(a, m)}"
proof -
  have fo: "free_ok h" and df: "disjoint_ranges (free_set h)" and da: "disjoint_ranges (sh_live h)"
    and dj: "cells (free_set h) \<inter> cells (sh_live h) = {}"
    and sub: "cells (free_set h) \<union> cells (sh_live h) \<subseteq> sh_pool h" and w: "om_wf (allocated_records h)"
    and us: "used_bytes h = sum snd (sh_live h)" and sh: "sh_shape h"
    using ok by (auto simp: sh_ok_def)
  have am: "{a..<a + m} \<subseteq> cells (sh_live h)" "0 < m" using l disjoint_rangesD(1) [OF da l] by (auto intro: cellsI)
  have ap: "{a..<a + m} \<subseteq> sh_pool h" using am(1) sub by blast
  have f: "om_find a (allocated_records h) = Some m" using l om_find_iff [OF w] by (simp add: sh_live_def)
  have sum: "sum snd (sh_live h) = m + sum snd (sh_live h - {(a, m)})"
    using sum.remove [of "sh_live h" "(a, m)" snd] l by (simp add: sh_live_def)
  let ?h = "h\<lparr>allocated_records := om_erase a (allocated_records h), used_bytes := sub64 (used_bytes h) m\<rparr>"
  have l': "sh_live ?h = sh_live h - {(a, m)}" using set_om_erase_in [OF w, of a m] l by (simp add: sh_live_def)
  have cl: "cells (sh_live h - {(a, m)}) = cells (sh_live h) - {a..<a + m}" by (rule cells_remove [OF da l])
  have "sum snd (sh_live h) = card (cells (sh_live h))" using da by (simp add: card_cells sh_live_def)
  also have "\<dots> \<le> card (sh_pool h)" using sub by (intro card_mono) (auto simp: sh_pool_def)
  finally have "used_bytes h < 2 ^ 64" using us sh by (simp add: sh_pool_def sh_shape_def)
  then have u': "used_bytes ?h = sum snd (sh_live h - {(a, m)})" using us sum sub64_le [of m "used_bytes h"] by simp
  let ?N = "sh_base h + sh_size h"
  have "free_ok ?h" "disjoint_ranges (free_set ?h)" "{a..<a + m} \<inter> cells (free_set ?h) = {}"
    "cells (free_set ?h) \<subseteq> {..<?N}" "a + m \<le> ?N" "?N < 2 ^ 64"
    using fo df am dj sub sh ap by (auto simp: free_ok_def sh_pool_def sh_shape_def)
  note c = coalesceAndInsert_ok [OF this]
  let ?h' = "coalesceAndInsert a m ?h"
  have "0 < a" using ap am(2) sh by (auto simp: sh_pool_def sh_shape_def)
  then have "sh_release h a = (0, ?h')" using f by (simp add: sh_release_def)
  moreover have lv: "sh_live ?h' = sh_live h - {(a, m)}" using c(4) l' by (simp add: sh_live_def)
  moreover have "sh_pool ?h' = sh_pool h" using c(7) by (simp add: sh_pool_def)
  moreover have "sh_ok ?h'"
    unfolding sh_ok_def lv cl c(3) c(4,5,6,7)
    using c(1,2) w sh dj sub ap u' disjoint_subset [OF da, of "sh_live h - {(a, m)}"]
    by (auto simp: sh_shape_def sh_pool_def)
  ultimately show ?thesis using that by blast
qed

lemma sh_release_other: "sh_ok h \<Longrightarrow> a \<notin> fst ` sh_live h \<Longrightarrow> sh_release h a = (-1, h)"
  using om_find_None [of a "allocated_records h"] by (simp add: sh_release_def sh_live_def)

interpretation sma: allocator "alignedAllocate 32" sh_free sh_live sh_pool sh_ok
proof
  fix h n a h'
  assume ok: "sh_ok h" and r: "alignedAllocate 32 h n = (a, h')"
  obtain res where "sh_finds h 32 n res" "alignedAllocate 32 h n = (case fst res of Some p \<Rightarrow> p | None \<Rightarrow> 0, snd res)"
    using alignedAllocate_finds [OF ok, of 5 n] by auto
  then have *: "sh_ok h' \<and> sh_pool h' = sh_pool h \<and> (a \<noteq> 0 \<longrightarrow> (a, n) \<notin> sh_live h \<and> sh_live h' = insert (a, n) (sh_live h))"
    using r ok by (auto simp: sh_finds_def)
  then show "sh_ok h' \<and> sh_pool h' = sh_pool h" by blast
  show "\<exists>m. n \<le> m \<and> (a, m) \<notin> sh_live h \<and> sh_live h' = insert (a, m) (sh_live h)" if "a \<noteq> 0" using * that by blast
next
  fix h n h'
  assume ok: "sh_ok h" and r: "alignedAllocate 32 h n = (0, h')"
  obtain res where "sh_finds h 32 n res" "alignedAllocate 32 h n = (case fst res of Some p \<Rightarrow> p | None \<Rightarrow> 0, snd res)"
    using alignedAllocate_finds [OF ok, of 5 n] by auto
  then show "h' = h" using r by (auto simp: sh_finds_def)
next
  fix h assume "sh_ok h"
  then show "disjoint_ranges (sh_live h) \<and> cells (sh_live h) \<subseteq> sh_pool h" by (simp add: sh_ok_def)
next
  fix h a m b h'
  assume ok: "sh_ok h" and l: "(a, m) \<in> sh_live h" and r: "sh_free h a = (b, h')"
  obtain h'' where "sh_release h a = (0, h'')" "sh_live h'' = sh_live h - {(a, m)}" by (rule sh_release_live [OF ok l])
  then show "b \<and> sh_live h' = sh_live h - {(a, m)}" using r by (simp add: sh_free_def)
next
  fix h a assume "sh_ok h" "a \<notin> fst ` sh_live h"
  then show "sh_free h a = (False, h)" using sh_release_other by (simp add: sh_free_def)
next
  fix h a b h'
  assume ok: "sh_ok h" and r: "sh_free h a = (b, h')"
  show "sh_ok h' \<and> sh_pool h' = sh_pool h"
  proof (cases "a \<in> fst ` sh_live h")
    case True
    then obtain m where l: "(a, m) \<in> sh_live h" by auto
    obtain h'' where "sh_release h a = (0, h'')" "sh_ok h''" "sh_pool h'' = sh_pool h" by (rule sh_release_live [OF ok l])
    then show ?thesis using r by (simp add: sh_free_def)
  next
    case False
    then show ?thesis using sh_release_other [OF ok] ok r by (auto simp: sh_free_def)
  qed
qed

lemma sh_ok_init:
  assumes "0 < len" "len \<le> base" "base + len \<le> 2 ^ 63"
  shows "sh_ok (SplitMemoryHeap base len threshold)" "sh_live (SplitMemoryHeap base len threshold) = {}"
    "sh_pool (SplitMemoryHeap base len threshold) = {base..<base + len}"
proof -
  let ?h = "\<lparr>sh_base = base, sh_size = len, split_threshold = threshold, initialized = False, used_bytes = 0,
               global_free_map = [], size_buckets = replicate 64 [], allocated_records = []\<rparr>"
  have "free_ok ?h" by (simp add: free_ok_def nth_append)
  then have a: "free_ok (addToFreeStructures base len ?h)" "free_set (addToFreeStructures base len ?h) = {(base, len)}"
    using add_free_ok [of ?h base len] assms by simp_all
  have h: "SplitMemoryHeap base len threshold = (addToFreeStructures base len ?h)\<lparr>initialized := True\<rparr>"
    using assms by (simp add: SplitMemoryHeap_def)
  show "sh_live (SplitMemoryHeap base len threshold) = {}" "sh_pool (SplitMemoryHeap base len threshold) = {base..<base + len}"
    unfolding h by (simp_all add: sh_live_def sh_pool_def)
  show "sh_ok (SplitMemoryHeap base len threshold)"
    unfolding h using a assms by (simp add: sh_ok_def sh_shape_def sh_live_def sh_pool_def free_ok_def disjoint_ranges_def)
qed


section \<open>Evaluating a heap\<close>

lemma bits_eval: "bits 0 = 0" "bits (Suc 0) = 1" "bits (numeral k) = Suc (bits (numeral k div 2))"
  by (simp_all add: bits.simps)

lemma empty_buckets: "replicate 64 ([] :: nat list) =
  [[], [], [], [], [], [], [], [], [], [], [], [], [], [], [], [], [], [], [], [], [], [], [], [], [], [], [], [], [], [], [], [],
   [], [], [], [], [], [], [], [], [], [], [], [], [], [], [], [], [], [], [], [], [], [], [], [], [], [], [], [], [], [], [], []]"
  by (simp add: numeral_eq_Suc)

lemmas split_eval = SplitMemoryHeap_def alignedAllocate_def allocateLowToHigh_def allocateHighToLow_def try_low_def
  try_high_def free_size_def record_block_def addToFreeStructures_def removeFromFreeStructures_def get_bucket_index_def
  builtin_clzll_def bits_eval empty_buckets sh_free_def sh_release_def coalesceAndInsert_def tree_eval om_lower_bound_def
  sub64_def Let_def

definition sh_example :: split_heap where
  "sh_example = fold (serve (alignedAllocate 32) sh_free) [Alloc 10, Alloc 100, Free 1024] (SplitMemoryHeap 1024 1000 64)"

lemma sh_example_records: "allocated_records sh_example = [(1920, 100)]"
  by (simp add: sh_example_def split_eval)


section \<open>Properties\<close>

text \<open>C39. On a heap whose base is at least its size, any sequence of 32-byte aligned allocations, small or large, and
  releases keeps the live blocks disjoint and inside the heap, the size in use is their sum, every allocation is
  aligned, and releasing anything but a live block returns -1 and changes nothing.\<close>

theorem sh_blocks_disjoint:
  assumes "0 < len" "len \<le> base" "base + len \<le> 2 ^ 63"
    and h: "h = fold (serve (alignedAllocate 32) sh_free) rs (SplitMemoryHeap base len threshold)"
  shows "disjoint_ranges (sh_live h) \<and> cells (sh_live h) \<subseteq> {base..<base + len} \<and>
    sh_getInUsedSize h = sum snd (sh_live h) \<and>
    (\<forall>n. 32 dvd fst (alignedAllocate 32 h n)) \<and>
    (\<forall>a. a \<notin> fst ` sh_live h \<longrightarrow> sh_release h a = (-1, h))"
proof -
  note i = sh_ok_init [OF assms(1-3), of threshold]
  have ok: "sh_ok h" using sma.run_ok [OF i(1), of rs] h by simp
  have "32 dvd fst (alignedAllocate 32 h n)" for n
    using alignedAllocate_finds [OF ok, of 5 n] by (auto simp: sh_finds_def)
  then show ?thesis
    using sma.run_disjoint [OF i(1), of rs] i(3) h ok sh_release_other [OF ok] by (simp add: sh_getInUsedSize_def sh_ok_def)
qed

theorem sh_blocks_disjoint_witness:
  "sh_live sh_example = {(1920, 100)} \<and> disjoint_ranges (sh_live sh_example) \<and> sh_release sh_example 1024 = (-1, sh_example)"
  using sh_blocks_disjoint [of 1000 1024 sh_example "[Alloc 10, Alloc 100, Free 1024]" 64, OF _ _ _ sh_example_def]
  by (simp add: sh_live_def sh_example_records)


end
