(* ===== verification/Mem_Manager.thy ===== *)
theory Mem_Manager
  imports Allocator
begin

text \<open>
  The host pool allocator of the offload module, class \<^verbatim>\<open>AccOffloadMemManager\<close> of
  \<^verbatim>\<open>allocator/acc_offload_mem_manager.h\<close>: best fit on two trees of idle ranges, merging on release.
  Pointers are natural numbers, 0 being \<^verbatim>\<open>nullptr\<close>; \<open>mm_idle\<close> is the pair of \<^verbatim>\<open>addressIdleTree_\<close> and
  \<^verbatim>\<open>sizeIdleTree_\<close>, \<open>mm_used\<close> is \<^verbatim>\<open>addressUsedTree_\<close>. The log lines are left out.
\<close>

record mem_manager =
  mm_base :: nat
  mm_size :: nat
  mm_idle :: trees
  mm_used :: "(nat, nat) omap"

definition AccOffloadMemManager :: "nat \<Rightarrow> nat \<Rightarrow> mem_manager" where
  "AccOffloadMemManager base len =
     \<lparr>mm_base = base, mm_size = len, mm_idle = (om_put 0 len [], os_insert (MemoryRange 0 len) []), mm_used = []\<rparr>"

definition AllocatedSizeAlignUp :: "nat \<Rightarrow> nat" where
  "AllocatedSizeAlignUp inputSize = align_up64 inputSize 16"

definition mm_Allocate :: "mem_manager \<Rightarrow> nat \<Rightarrow> nat \<times> mem_manager" where
  "mm_Allocate m len =
     (if len = 0 \<or> len > mm_size m \<or> mm_base m = 0 then (0, m)
      else let aligned_size = AllocatedSizeAlignUp len in
        case os_lower_bound (MemoryRange 0 aligned_size) (snd (mm_idle m)) of
          None \<Rightarrow> (0, m)
        | Some (MemoryRange targetOffset targetSize) \<Rightarrow>
            (case om_find targetOffset (fst (mm_idle m)) of
               None \<Rightarrow> (0, m)
             | Some _ \<Rightarrow>
                 let t = trees_erase targetOffset targetSize (mm_idle m);
                     u = om_emplace targetOffset aligned_size (mm_used m);
                     t = (if targetSize > aligned_size
                          then trees_emplace (u64 (targetOffset + aligned_size)) (targetSize - aligned_size) t else t)
                 in (u64 (mm_base m + targetOffset), m\<lparr>mm_idle := t, mm_used := u\<rparr>)))"

definition mm_Release :: "mem_manager \<Rightarrow> nat \<Rightarrow> int \<times> mem_manager" where
  "mm_Release m address =
     (if address < mm_base m \<or> address \<ge> u64 (mm_base m + mm_size m) then (-1, m)
      else let offset = address - mm_base m in
        case om_find offset (mm_used m) of
          None \<Rightarrow> (-1, m)
        | Some len \<Rightarrow> (0, m\<lparr>mm_used := om_erase offset (mm_used m), mm_idle := coalesce offset len (mm_idle m)\<rparr>))"

section \<open>The invariant\<close>

definition mm_ok :: "mem_manager \<Rightarrow> bool" where
  "mm_ok m \<longleftrightarrow> 0 < mm_base m \<and> 0 < mm_size m \<and> mm_base m + mm_size m < 2 ^ 64 \<and> mm_size m + 16 \<le> 2 ^ 64 \<and>
     trees_ok (mm_idle m) \<and> om_wf (mm_used m) \<and>
     tiled (mm_size m) (idle_set (mm_idle m)) (set (mm_used m)) \<and>
     (\<forall>b\<in>set (mm_used m). 16 dvd fst b \<and> 16 dvd snd b)"

definition mm_live :: "mem_manager \<Rightarrow> (nat \<times> nat) set" where
  "mm_live m = shift (mm_base m) (set (mm_used m))"

definition mm_pool :: "mem_manager \<Rightarrow> nat set" where
  "mm_pool m = {mm_base m..<mm_base m + mm_size m}"

definition mm_release :: "mem_manager \<Rightarrow> nat \<Rightarrow> bool \<times> mem_manager" where
  "mm_release m a = (case mm_Release m a of (r, m') \<Rightarrow> (r = 0, m'))"

lemma AllocatedSizeAlignUp_bounds:
  assumes "n + 16 \<le> 2 ^ 64"
  shows "n \<le> AllocatedSizeAlignUp n" "AllocatedSizeAlignUp n < n + 16" "16 dvd AllocatedSizeAlignUp n"
proof -
  have "AllocatedSizeAlignUp n = (n + 16 - 1) div 16 * 16"
    using align_up64_eq [of 4 n] assms by (simp add: AllocatedSizeAlignUp_def)
  then show "n \<le> AllocatedSizeAlignUp n" "AllocatedSizeAlignUp n < n + 16" "16 dvd AllocatedSizeAlignUp n"
    using round_up_bounds [of 16 n] by simp_all
qed

lemma mm_ok_init:
  "0 < base \<Longrightarrow> 0 < len \<Longrightarrow> base + len < 2 ^ 64 \<Longrightarrow> len + 16 \<le> 2 ^ 64 \<Longrightarrow> mm_ok (AccOffloadMemManager base len)"
  using tiled_init [of len]
  by (simp add: mm_ok_def AccOffloadMemManager_def trees_ok_def idle_set_def os_insert_def os_wf_def om_wf_def piece_def)

text \<open>What a successful and what a failing \<^verbatim>\<open>Allocate\<close> does.\<close>

lemma mm_Allocate_cases:
  assumes ok: "mm_ok m"
  obtains (fail) "mm_Allocate m n = (0, m)"
      "n = 0 \<or> n > mm_size m \<or> (\<forall>p k. (p, k) \<in> idle_set (mm_idle m) \<longrightarrow> k < AllocatedSizeAlignUp n)"
  | (take) p k where "0 < n" "n \<le> mm_size m" "(p, k) \<in> idle_set (mm_idle m)" "AllocatedSizeAlignUp n \<le> k"
      "\<And>q l. (q, l) \<in> idle_set (mm_idle m) \<Longrightarrow> AllocatedSizeAlignUp n \<le> l \<Longrightarrow> k \<le> l"
      "mm_Allocate m n = (mm_base m + p,
         m\<lparr>mm_idle := trees_split p k 0 (AllocatedSizeAlignUp n) (mm_idle m),
           mm_used := om_emplace p (AllocatedSizeAlignUp n) (mm_used m)\<rparr>)"
proof (cases "n = 0 \<or> n > mm_size m")
  case True
  then have "mm_Allocate m n = (0, m)" by (auto simp: mm_Allocate_def)
  then show ?thesis using fail True by blast
next
  case False
  let ?a = "AllocatedSizeAlignUp n"
  have base: "mm_base m \<noteq> 0" and t: "trees_ok (mm_idle m)" using ok by (auto simp: mm_ok_def)
  show ?thesis
  proof (cases "os_lower_bound (MemoryRange 0 ?a) (snd (mm_idle m))")
    case None
    then have "mm_Allocate m n = (0, m)" by (simp add: mm_Allocate_def)
    then show ?thesis using fail None trees_lower_bound_None [OF t] by blast
  next
    case (Some r)
    obtain p k where r: "r = MemoryRange p k" by (cases r)
    note l = trees_lower_bound [OF t Some [unfolded r]]
    have b: "p + k \<le> mm_size m" using tiled_bound(1) l(1) ok by (auto simp: mm_ok_def)
    then have u: "u64 (mm_base m + p) = mm_base m + p" "u64 (p + ?a) = p + ?a"
      using l(2) ok by (auto simp: mm_ok_def)
    have "mm_Allocate m n = (mm_base m + p,
         m\<lparr>mm_idle := trees_split p k 0 ?a (mm_idle m), mm_used := om_emplace p ?a (mm_used m)\<rparr>)"
      using False base Some r l(3) u by (simp add: mm_Allocate_def Let_def trees_split_def)
    then show ?thesis using take False l by auto
  qed
qed


lemma mm_take_ok:
  assumes ok: "mm_ok m" and i: "(p, k) \<in> idle_set (mm_idle m)" and a: "a \<le> k" "0 < a" "16 dvd a"
    and m': "m' = m\<lparr>mm_idle := trees_split p k 0 a (mm_idle m), mm_used := om_emplace p a (mm_used m)\<rparr>"
  shows "mm_ok m'" "set (mm_used m') = insert (p, a) (set (mm_used m))" "p \<notin> fst ` set (mm_used m)"
proof -
  have t: "trees_ok (mm_idle m)" "tiled (mm_size m) (idle_set (mm_idle m)) (set (mm_used m))"
    and w: "om_wf (mm_used m)" and d: "\<forall>b\<in>set (mm_used m). 16 dvd fst b \<and> 16 dvd snd b"
    using ok by (auto simp: mm_ok_def)
  show f: "p \<notin> fst ` set (mm_used m)" by (rule tiled_key_fresh [OF t(2) i])
  show u: "set (mm_used m') = insert (p, a) (set (mm_used m))"
    using set_om_emplace [OF w f] by (simp add: m')
  have "16 dvd p" by (rule tiled_start_dvd [OF t(2) d i])
  then show "mm_ok m'"
    using ok split_ok [OF t i, of 0 a] a u unfolding mm_ok_def by (simp add: m')
qed

lemma mm_Release_live:
  assumes ok: "mm_ok m" and u: "(p, a) \<in> set (mm_used m)"
  obtains m' where "mm_Release m (mm_base m + p) = (0, m')" "mm_ok m'"
    "mm_base m' = mm_base m" "mm_size m' = mm_size m" "set (mm_used m') = set (mm_used m) - {(p, a)}"
proof
  have t: "trees_ok (mm_idle m)" "tiled (mm_size m) (idle_set (mm_idle m)) (set (mm_used m))"
    and w: "om_wf (mm_used m)" and n: "mm_base m + mm_size m < 2 ^ 64"
    using ok by (auto simp: mm_ok_def)
  let ?m = "m\<lparr>mm_used := om_erase p (mm_used m), mm_idle := coalesce p a (mm_idle m)\<rparr>"
  have "p + a \<le> mm_size m" "0 < a" using tiled_bound(2) [OF t(2) u] disjoint_rangesD(1) [OF _ u] t(2) by (auto simp: tiled_def)
  then show "mm_Release m (mm_base m + p) = (0, ?m)"
    using n om_find_iff [OF w, of p a] u by (simp add: mm_Release_def)
  show e: "set (mm_used ?m) = set (mm_used m) - {(p, a)}" using set_om_erase_in [OF w u] by simp
  have "mm_size m < 2 ^ 64" using n by simp
  from coalesce_ok [OF t this u] show "mm_ok ?m" using ok e unfolding mm_ok_def by simp
qed simp_all

lemma mm_Release_other: "mm_ok m \<Longrightarrow> a \<notin> fst ` mm_live m \<Longrightarrow> mm_Release m a = (-1, m)"
proof -
  assume ok: "mm_ok m" and a: "a \<notin> fst ` mm_live m"
  show ?thesis
  proof (cases "a < mm_base m \<or> a \<ge> u64 (mm_base m + mm_size m)")
    case False
    have "om_find (a - mm_base m) (mm_used m) = None"
    proof (rule ccontr)
      assume "om_find (a - mm_base m) (mm_used m) \<noteq> None"
      then obtain k where "(a - mm_base m, k) \<in> set (mm_used m)"
        using om_find_iff [of "mm_used m"] ok by (force simp: mm_ok_def)
      then have "(a, k) \<in> mm_live m" using False by (simp add: mm_live_def in_shift)
      then show False using a by force
    qed
    then show ?thesis using False by (simp add: mm_Release_def)
  qed (simp add: mm_Release_def)
qed

interpretation mm: exact_allocator mm_Allocate mm_release mm_live mm_pool mm_ok
proof
  fix s n a s'
  assume ok: "mm_ok s" and al: "mm_Allocate s n = (a, s')"
  have *: "mm_ok s' \<and> mm_pool s' = mm_pool s \<and> (a = 0 \<longrightarrow> s' = s) \<and>
    (a \<noteq> 0 \<longrightarrow> (\<exists>m. n \<le> m \<and> (a, m) \<notin> mm_live s \<and> mm_live s' = insert (a, m) (mm_live s)))"
    using ok
  proof (cases rule: mm_Allocate_cases [where n = n])
    case fail
    then show ?thesis using al ok by auto
  next
    case (take p k)
    let ?a = "AllocatedSizeAlignUp n"
    have "n + 16 \<le> 2 ^ 64" using take(2) ok by (auto simp: mm_ok_def)
    note b = AllocatedSizeAlignUp_bounds [OF this]
    have s': "s' = s\<lparr>mm_idle := trees_split p k 0 ?a (mm_idle s), mm_used := om_emplace p ?a (mm_used s)\<rparr>"
      and a: "a = mm_base s + p" using take(6) al by auto
    have "0 < ?a" using b(1) take(1) by simp
    note r = mm_take_ok [OF ok take(3,4) this b(3) s']
    have "mm_live s' = insert (a, ?a) (mm_live s)" "mm_pool s' = mm_pool s" "0 < a"
      using r(2) ok by (auto simp: mm_live_def mm_pool_def s' a shift_insert mm_ok_def)
    moreover have "(a, ?a) \<notin> mm_live s" using r(3) by (force simp: mm_live_def a in_shift)
    ultimately show ?thesis using r(1) b(1) by auto
  qed
  show "mm_ok s' \<and> mm_pool s' = mm_pool s" using * by blast
  show "\<exists>m. n \<le> m \<and> (a, m) \<notin> mm_live s \<and> mm_live s' = insert (a, m) (mm_live s)" if "a \<noteq> 0" using * that by blast
next
  fix s n s'
  assume ok: "mm_ok s" and al: "mm_Allocate s n = (0, s')"
  then have "0 < mm_base s" by (simp add: mm_ok_def)
  from ok show "s' = s" by (cases rule: mm_Allocate_cases [where n = n]) (use al \<open>0 < mm_base s\<close> in auto)
next
  fix s assume "mm_ok s"
  then show "disjoint_ranges (mm_live s) \<and> cells (mm_live s) \<subseteq> mm_pool s"
    unfolding mm_live_def mm_pool_def by (intro conjI disjoint_shift cells_shift) (auto simp: mm_ok_def tiled_def)
next
  fix s a m b s'
  assume ok: "mm_ok s" and l: "(a, m) \<in> mm_live s" and r: "mm_release s a = (b, s')"
  have a: "mm_base s \<le> a" "(a - mm_base s, m) \<in> set (mm_used s)" using l by (auto simp: mm_live_def in_shift)
  obtain s'' where "mm_Release s a = (0, s'')" "mm_base s'' = mm_base s" "set (mm_used s'') = set (mm_used s) - {(a - mm_base s, m)}"
    using mm_Release_live [OF ok a(2)] a(1) by auto
  then show "b \<and> mm_live s' = mm_live s - {(a, m)}"
    using r a(1) by (auto simp: mm_release_def mm_live_def shift_remove)
next
  fix s a assume "mm_ok s" "a \<notin> fst ` mm_live s"
  then show "mm_release s a = (False, s)" using mm_Release_other by (simp add: mm_release_def)
next
  fix s a b s'
  assume ok: "mm_ok s" and r: "mm_release s a = (b, s')"
  show "mm_ok s' \<and> mm_pool s' = mm_pool s"
  proof (cases "a \<in> fst ` mm_live s")
    case True
    then obtain m where a: "mm_base s \<le> a" "(a - mm_base s, m) \<in> set (mm_used s)" by (auto simp: mm_live_def in_shift)
    obtain s'' where "mm_Release s a = (0, s'')" "mm_ok s''" "mm_base s'' = mm_base s" "mm_size s'' = mm_size s"
      using mm_Release_live [OF ok a(2)] a(1) by auto
    then show ?thesis using r by (simp add: mm_release_def mm_pool_def)
  next
    case False
    then show ?thesis using mm_Release_other [OF ok] ok r by (auto simp: mm_release_def)
  qed
next
  fix s s'
  assume ok: "mm_ok s" "mm_ok s'" and p: "mm_pool s = mm_pool s'" and l: "mm_live s = mm_live s'"
  have "mm_base s = mm_base s'" "mm_size s = mm_size s'"
    using p ok by (auto simp: mm_pool_def mm_ok_def Ico_eq_Ico)
  moreover have "set (mm_used s) = set (mm_used s')" using l calculation by (auto simp: mm_live_def dest: shift_inj)
  then have "mm_used s = mm_used s'" using om_eqI ok by (auto simp: mm_ok_def)
  moreover have "idle_set (mm_idle s) = idle_set (mm_idle s')"
    using tiled_idle [of "mm_size s" "idle_set (mm_idle s)" "set (mm_used s)"]
      tiled_idle [of "mm_size s'" "idle_set (mm_idle s')" "set (mm_used s')"] calculation ok by (simp add: mm_ok_def)
  then have "mm_idle s = mm_idle s'" using trees_eqI ok by (auto simp: mm_ok_def)
  ultimately show "s = s'" by simp
qed


section \<open>Properties\<close>

text \<open>C19. Whatever is allocated and released, in whatever order, from a fresh pool: the live blocks are
  pairwise disjoint, lie inside the pool, and start at multiples of 16 bytes from its base.\<close>

theorem mm_blocks_disjoint:
  assumes "0 < base" "0 < len" "base + len < 2 ^ 64" "len + 16 \<le> 2 ^ 64"
    and m: "m = fold (serve mm_Allocate mm_release) rs (AccOffloadMemManager base len)"
  shows "disjoint_ranges (mm_live m) \<and> cells (mm_live m) \<subseteq> {base..<base + len} \<and>
    (\<forall>a n. (a, n) \<in> mm_live m \<longrightarrow> base \<le> a \<and> 16 dvd a - base)"
proof -
  have ok: "mm_ok (AccOffloadMemManager base len)" using mm_ok_init assms by simp
  have p: "mm_pool (AccOffloadMemManager base len) = {base..<base + len}"
    by (simp add: mm_pool_def AccOffloadMemManager_def)
  have "mm_ok m" "mm_pool m = {base..<base + len}" using mm.run_ok [OF ok, of rs] p m by simp_all
  moreover have "mm_base m = base" using calculation assms(2) by (auto simp: mm_pool_def mm_ok_def Ico_eq_Ico)
  ultimately have "base \<le> a \<and> 16 dvd a - base" if "(a, n) \<in> mm_live m" for a n
    using that by (force simp: mm_live_def in_shift mm_ok_def)
  then show ?thesis using mm.run_disjoint [OF ok, of rs] p m by simp
qed

text \<open>Two blocks are allocated and one released in a pool of 64 bytes.\<close>

definition mm_example :: mem_manager where
  "mm_example = fold (serve mm_Allocate mm_release) [Alloc 20, Alloc 5, Free 1024] (AccOffloadMemManager 1024 64)"

lemma mm_example_eval:
  "mm_example = \<lparr>mm_base = 1024, mm_size = 64, mm_idle = ([(0, 32), (48, 16)], [MemoryRange 48 16, MemoryRange 0 32]),
     mm_used = [(32, 16)]\<rparr>"
  by (simp add: mm_example_def AccOffloadMemManager_def mm_Allocate_def mm_release_def mm_Release_def
    AllocatedSizeAlignUp_def tree_eval)

lemma mm_example_next: "fst (mm_Allocate mm_example 10) = 1072"
  by (simp add: mm_example_eval mm_Allocate_def AllocatedSizeAlignUp_def tree_eval)

lemma mm_example_ok: "mm_ok mm_example"
  unfolding mm_example_def by (intro mm.run_ok [THEN conjunct1] mm_ok_init) simp_all

lemma mm_example_live: "mm_live mm_example = {(1056, 16)}"
  by (simp add: mm_example_eval mm_live_def shift_def)

theorem mm_blocks_disjoint_witness:
  "(1056, 16) \<in> mm_live mm_example \<and> disjoint_ranges (mm_live mm_example) \<and>
   cells (mm_live mm_example) \<subseteq> {1024..<1024 + 64}"
  using mm_blocks_disjoint [of 1024 64 mm_example "[Alloc 20, Alloc 5, Free 1024]", OF _ _ _ _ mm_example_def]
    mm_example_live by simp

text \<open>C20. \<^verbatim>\<open>Allocate\<close> returns a block exactly when the request is positive, not larger than the pool, and some
  gap between the live blocks holds the request rounded up to 16 bytes; the block then lies in a smallest such gap.\<close>

theorem mm_allocate_complete:
  assumes ok: "mm_ok m" and C: "C = {..<mm_size m} - cells (set (mm_used m))"
  shows "(fst (mm_Allocate m n) \<noteq> 0 \<longleftrightarrow>
           0 < n \<and> n \<le> mm_size m \<and> (\<exists>p. {p..<p + AllocatedSizeAlignUp n} \<subseteq> C)) \<and>
         (fst (mm_Allocate m n) \<noteq> 0 \<longrightarrow>
           (\<exists>k. (fst (mm_Allocate m n) - mm_base m, k) \<in> runs C \<and> AllocatedSizeAlignUp n \<le> k \<and>
                (\<forall>q l. (q, l) \<in> runs C \<longrightarrow> AllocatedSizeAlignUp n \<le> l \<longrightarrow> k \<le> l)))"
proof -
  let ?a = "AllocatedSizeAlignUp n"
  have t: "tiled (mm_size m) (idle_set (mm_idle m)) (set (mm_used m))" and base: "0 < mm_base m"
    using ok by (auto simp: mm_ok_def)
  have I: "idle_set (mm_idle m) = runs C" using tiled_idle [OF t] C by simp
  have cI: "C = cells (idle_set (mm_idle m))" using t C by (auto simp: tiled_def)
  have gap: "\<exists>q l. (q, l) \<in> idle_set (mm_idle m) \<and> a \<le> l" if "{p..<p + a} \<subseteq> C" "0 < a" for p a
    using fitting_range [OF _ that(1) [unfolded cI] that(2)] t unfolding tiled_def by blast
  show ?thesis
    using ok
  proof (cases rule: mm_Allocate_cases [where n = n])
    case fail
    have "\<nexists>p. {p..<p + ?a} \<subseteq> C" if n: "0 < n" "n \<le> mm_size m"
    proof
      assume "\<exists>p. {p..<p + ?a} \<subseteq> C"
      moreover have "0 < ?a" using AllocatedSizeAlignUp_bounds(1) [of n] n ok by (auto simp: mm_ok_def)
      ultimately obtain q l where q: "(q, l) \<in> idle_set (mm_idle m)" "?a \<le> l" using gap by blast
      have "\<forall>p k. (p, k) \<in> idle_set (mm_idle m) \<longrightarrow> k < ?a" using fail(2) n by auto
      then show False using q by (meson not_less)
    qed
    then show ?thesis using fail(1) by auto
  next
    case (take p k)
    have "{p..<p + ?a} \<subseteq> C" unfolding cI using take(3,4) by (auto intro: cellsI)
    moreover have "(p, k) \<in> runs C" using take(3) I by simp
    moreover have "\<forall>q l. (q, l) \<in> runs C \<longrightarrow> ?a \<le> l \<longrightarrow> k \<le> l" using take(5) I by simp
    moreover have "fst (mm_Allocate m n) - mm_base m = p" "fst (mm_Allocate m n) \<noteq> 0" using take(6) base by simp_all
    ultimately show ?thesis using take(1,2,4) by blast
  qed
qed

theorem mm_allocate_complete_witness:
  "mm_ok mm_example \<and> fst (mm_Allocate mm_example 10) = 1024 + 48 \<and>
   (\<exists>k. (48, k) \<in> runs ({..<64} - cells {(32, 16)}) \<and> AllocatedSizeAlignUp 10 \<le> k)"
proof -
  have "mm_base mm_example = 1024" "mm_size mm_example = 64" "mm_used mm_example = [(32, 16)]"
    by (simp_all add: mm_example_eval)
  then show ?thesis using mm_allocate_complete [OF mm_example_ok refl, of 10] mm_example_ok mm_example_next by auto
qed

text \<open>C21. Releasing undoes allocating: releasing a block just allocated restores the previous state of both
  trees, and releasing all live blocks in any order restores the state of a fresh pool.\<close>

theorem mm_release_restores:
  assumes "0 < base" "0 < len" "base + len < 2 ^ 64" "len + 16 \<le> 2 ^ 64"
    and m: "m = fold (serve mm_Allocate mm_release) rs (AccOffloadMemManager base len)"
  shows "(\<forall>n a m'. mm_Allocate m n = (a, m') \<longrightarrow> a \<noteq> 0 \<longrightarrow> mm_Release m' a = (0, m)) \<and>
    (\<forall>as. distinct as \<longrightarrow> set as = fst ` mm_live m \<longrightarrow>
       fold (serve mm_Allocate mm_release) (map Free as) m = AccOffloadMemManager base len)"
proof -
  have ok: "mm_ok (AccOffloadMemManager base len)" using mm_ok_init assms by simp
  then have "mm_ok m" using mm.run_ok [OF ok, of rs] m by simp
  then have "mm_Release m' a = (0, m)" if "mm_Allocate m n = (a, m')" "a \<noteq> 0" for n a m'
    using mm.release_undoes_alloc [OF _ that] by (cases "mm_Release m' a") (simp add: mm_release_def)
  moreover have "mm_live (AccOffloadMemManager base len) = {}" by (simp add: mm_live_def AccOffloadMemManager_def)
  ultimately show ?thesis using mm.release_all_restores [OF ok _ m] by blast
qed

theorem mm_release_restores_witness:
  "mm_Release (snd (mm_Allocate mm_example 10)) 1072 = (0, mm_example) \<and>
   fold (serve mm_Allocate mm_release) (map Free [1056]) mm_example = AccOffloadMemManager 1024 64"
proof -
  have a: "mm_Allocate mm_example 10 = (1072, snd (mm_Allocate mm_example 10))"
    using mm_example_next by (simp add: prod_eq_iff)
  note r = mm_release_restores [of 1024 64 mm_example "[Alloc 20, Alloc 5, Free 1024]", OF _ _ _ _ mm_example_def]
  have "mm_Release (snd (mm_Allocate mm_example 10)) 1072 = (0, mm_example)" using r a by simp
  moreover have "fold (serve mm_Allocate mm_release) (map Free [1056]) mm_example = AccOffloadMemManager 1024 64"
    using r [THEN conjunct2, rule_format, of "[1056]"] mm_example_live by simp
  ultimately show ?thesis by blast
qed

text \<open>C22. A pointer that is not the start of a live block is rejected with -1 and changes nothing; in
  particular a block cannot be released twice.\<close>

theorem mm_release_rejects:
  assumes "mm_ok m"
  shows "(a \<notin> fst ` mm_live m \<longrightarrow> mm_Release m a = (-1, m)) \<and>
    (a \<in> fst ` mm_live m \<longrightarrow> fst (mm_Release m a) = 0 \<and>
       mm_Release (snd (mm_Release m a)) a = (-1, snd (mm_Release m a)))"
proof -
  have "fst (mm_Release m a) = 0 \<and> mm_Release (snd (mm_Release m a)) a = (-1, snd (mm_Release m a))"
    if live: "a \<in> fst ` mm_live m"
  proof -
    obtain k where k: "(a, k) \<in> mm_live m" using live by auto
    obtain b m' where r: "mm_release m a = (b, m')" by (cases "mm_release m a")
    have b: "b" "mm_live m' = mm_live m - {(a, k)}" using mm.release_live [OF assms k r] by auto
    have "a \<notin> fst ` mm_live m'" using b(2) mm.live_fun [OF assms k] by auto
    moreover have "mm_ok m'" using mm.release_ok [OF assms r] by simp
    ultimately have "mm_Release m' a = (-1, m')" using mm_Release_other by blast
    then show ?thesis using r b(1) by (auto simp: mm_release_def split: prod.splits)
  qed
  then show ?thesis using mm_Release_other [OF assms] by blast
qed

theorem mm_release_rejects_witness:
  "mm_Release mm_example 1024 = (-1, mm_example) \<and> fst (mm_Release mm_example 1056) = 0"
  using mm_release_rejects [OF mm_example_ok, of 1024] mm_release_rejects [OF mm_example_ok, of 1056] mm_example_live
  by simp

end
