(* ===== verification/Va_Manager.thy ===== *)
theory Va_Manager
  imports Ranges "HOL-Library.Product_Lexorder"
begin

text \<open>
  The virtual address manager of the hybrid memory, class \<^verbatim>\<open>HybmVaManager\<close> of \<^verbatim>\<open>mm/hybm_va_manager.cpp\<close>. It keeps two
  families of ordered maps with one map per kind of address (global, device, host): the allocated segments, which
  translate between the kinds, and the reserved ranges, from which address space is handed out. An array indexed by
  the enumeration is a function of it. The lock and the log lines are left out, and the two dump functions, which
  only write the log. This theory has the operations and what holds of the allocated segments.
\<close>

section \<open>Data\<close>

datatype HybmVaMgrType = HVM_GVA | HVM_DVA | HVM_HVA | HVM_BUTT

datatype hybm_mem_type = HYBM_MEM_TYPE_DEVICE | HYBM_MEM_TYPE_HOST | HYBM_MEM_TYPE_BUTT

datatype AscendSocType = ASCEND_UNKNOWN | ASCEND_910B | ASCEND_910C | ASCEND_950

record BaseAllocatedGvaInfo =
  bi_va :: "HybmVaMgrType \<Rightarrow> nat"
  bi_size :: nat
  bi_memType :: hybm_mem_type

record AllocatedGvaInfo =
  ai_base :: BaseAllocatedGvaInfo
  ai_localRankId :: nat
  ai_importedRankId :: nat

record ReservedGvaInfo =
  ri_va :: "HybmVaMgrType \<Rightarrow> nat"
  ri_size :: nat
  ri_memType :: hybm_mem_type
  ri_localRankId :: nat

record va_manager =
  soc :: AscendSocType
  allocatedMap :: "HybmVaMgrType \<Rightarrow> (nat, AllocatedGvaInfo) omap"
  reservedMap :: "HybmVaMgrType \<Rightarrow> (nat, ReservedGvaInfo) omap"

definition BM_OK :: int where "BM_OK = 0"
definition BM_ERROR :: int where "BM_ERROR = -1"
definition BM_INVALID_PARAM :: int where "BM_INVALID_PARAM = -2"

definition INVALID_RANK_ID :: nat where "INVALID_RANK_ID = 2 ^ 32 - 1"

text \<open>The loop \<^verbatim>\<open>for (i = 0; i < HVM_BUTT; i++)\<close>.\<close>

definition va_types :: "HybmVaMgrType list" where "va_types = [HVM_GVA, HVM_DVA, HVM_HVA]"

definition va_manager_init :: va_manager where
  "va_manager_init = \<lparr>soc = ASCEND_UNKNOWN, allocatedMap = (\<lambda>_. []), reservedMap = (\<lambda>_. [])\<rparr>"

abbreviation ai_va :: "AllocatedGvaInfo \<Rightarrow> HybmVaMgrType \<Rightarrow> nat" where "ai_va e \<equiv> bi_va (ai_base e)"
abbreviation ai_size :: "AllocatedGvaInfo \<Rightarrow> nat" where "ai_size e \<equiv> bi_size (ai_base e)"

definition ai_Contains :: "AllocatedGvaInfo \<Rightarrow> nat \<Rightarrow> HybmVaMgrType \<Rightarrow> bool" where
  "ai_Contains e addr t \<longleftrightarrow> t \<noteq> HVM_BUTT \<and> addr \<ge> ai_va e t \<and> addr < u64 (ai_va e t + ai_size e)"

definition RankId :: "AllocatedGvaInfo \<Rightarrow> nat" where
  "RankId e = (if ai_importedRankId e \<noteq> INVALID_RANK_ID then ai_importedRankId e else ai_localRankId e)"

definition ai_equal :: "AllocatedGvaInfo \<Rightarrow> AllocatedGvaInfo \<Rightarrow> bool" where
  "ai_equal lhs rhs \<longleftrightarrow>
     ai_va lhs HVM_GVA = ai_va rhs HVM_GVA \<and> ai_va lhs HVM_DVA = ai_va rhs HVM_DVA \<and>
     ai_va lhs HVM_HVA = ai_va rhs HVM_HVA \<and> ai_size lhs = ai_size rhs \<and> RankId lhs = RankId rhs"


section \<open>Allocated segments\<close>

definition va_Initialize :: "AscendSocType \<Rightarrow> va_manager \<Rightarrow> int \<times> va_manager" where
  "va_Initialize socType s =
     (if socType = ASCEND_UNKNOWN then (BM_INVALID_PARAM, s) else (BM_OK, s\<lparr>soc := socType\<rparr>))"

text \<open>The iterator before \<^verbatim>\<open>upper_bound(k)\<close> when that is not \<^verbatim>\<open>begin()\<close>.\<close>

definition om_floor :: "nat \<Rightarrow> (nat, 'v) omap \<Rightarrow> (nat \<times> 'v) option" where
  "om_floor k m = om_before (Suc k) m"

definition CheckOverlap :: "nat \<Rightarrow> nat \<Rightarrow> HybmVaMgrType \<Rightarrow> va_manager \<Rightarrow> AllocatedGvaInfo option" where
  "CheckOverlap va len t s =
     (let end_va = u64 (va + len);
          hit = (\<lambda>(st, e). let ed = u64 (ai_size e + st) in (st \<le> va \<and> va < ed) \<or> (va \<le> st \<and> st < end_va))
      in case (case om_upper_bound va (allocatedMap s t) of
                 Some e \<Rightarrow> if hit e then Some (snd e) else None
               | None \<Rightarrow> None) of
           Some e \<Rightarrow> Some e
         | None \<Rightarrow>
             (case om_floor va (allocatedMap s t) of
                Some e \<Rightarrow> if hit e then Some (snd e) else None
              | None \<Rightarrow> None))"

definition AddVaInfo :: "AllocatedGvaInfo \<Rightarrow> bool \<Rightarrow> va_manager \<Rightarrow> int \<times> va_manager" where
  "AddVaInfo info onlyGva s =
     (if ai_size info = 0 then (BM_OK, s)
      else if bi_memType (ai_base info) = HYBM_MEM_TYPE_BUTT then (BM_ERROR, s)
      else let is = filter (\<lambda>i. \<not> (onlyGva \<and> i \<noteq> HVM_GVA) \<and> ai_va info i \<noteq> 0) va_types
        in if list_ex (\<lambda>i. case CheckOverlap (ai_va info i) (ai_size info) i s of
                             Some old \<Rightarrow> \<not> ai_equal old info | None \<Rightarrow> False) is
           then (BM_ERROR, s)
           else (BM_OK, fold (\<lambda>i s. s\<lparr>allocatedMap := (allocatedMap s)(i := om_put (ai_va info i) info (allocatedMap s i))\<rparr>)
                          is s))"

definition AddVaInfoFromExternal :: "BaseAllocatedGvaInfo \<Rightarrow> nat \<Rightarrow> nat \<Rightarrow> va_manager \<Rightarrow> int \<times> va_manager" where
  "AddVaInfoFromExternal baseInfo localRankId importedRankId s =
     (let info = \<lparr>ai_base = baseInfo, ai_localRankId = localRankId, ai_importedRankId = importedRankId\<rparr>;
          (ret, s) = AddVaInfo info False s
      in if ret \<noteq> BM_OK then (ret, s) else (BM_OK, s))"

definition AddVaInfoFromExternal_local :: "BaseAllocatedGvaInfo \<Rightarrow> nat \<Rightarrow> va_manager \<Rightarrow> int \<times> va_manager" where
  "AddVaInfoFromExternal_local baseInfo localRankId s = AddVaInfoFromExternal baseInfo localRankId INVALID_RANK_ID s"

definition AddVaInfo_local :: "BaseAllocatedGvaInfo \<Rightarrow> nat \<Rightarrow> bool \<Rightarrow> va_manager \<Rightarrow> int \<times> va_manager" where
  "AddVaInfo_local baseInfo localRankId onlyGva s =
     (let info = \<lparr>ai_base = baseInfo, ai_localRankId = localRankId, ai_importedRankId = INVALID_RANK_ID\<rparr>;
          (ret, s) = AddVaInfo info onlyGva s
      in if ret \<noteq> BM_OK then (ret, s) else (BM_OK, s))"

text \<open>One round of the loop of \<^verbatim>\<open>RemoveOneVaInfo\<close> over the other kinds.\<close>

definition erase_at :: "AllocatedGvaInfo \<Rightarrow> HybmVaMgrType \<Rightarrow> va_manager \<Rightarrow> va_manager" where
  "erase_at info i s =
     (case om_find (ai_va info i) (allocatedMap s i) of
        Some e \<Rightarrow> if ai_va e i = ai_va info i
                  then s\<lparr>allocatedMap := (allocatedMap s)(i := om_erase (ai_va info i) (allocatedMap s i))\<rparr> else s
      | None \<Rightarrow> s)"

definition RemoveOneVaInfo :: "nat \<Rightarrow> HybmVaMgrType \<Rightarrow> va_manager \<Rightarrow> va_manager" where
  "RemoveOneVaInfo va t s =
     (if va = 0 \<or> t = HVM_BUTT then s
      else case om_find va (allocatedMap s t) of
        None \<Rightarrow> s
      | Some info \<Rightarrow>
          let s = fold (erase_at info) (filter (\<lambda>i. i \<noteq> t) va_types) s
          in s\<lparr>allocatedMap := (allocatedMap s)(t := om_erase va (allocatedMap s t))\<rparr>)"

definition TransformVa :: "nat \<Rightarrow> HybmVaMgrType \<Rightarrow> HybmVaMgrType \<Rightarrow> va_manager \<Rightarrow> nat" where
  "TransformVa va inputType outputType s =
     (if \<not> (va > 0 \<and> inputType \<noteq> HVM_BUTT \<and> outputType \<noteq> HVM_BUTT) then 0
      else if inputType = outputType then va
      else if allocatedMap s inputType = [] then 0
      else case om_floor va (allocatedMap s inputType) of
        None \<Rightarrow> 0
      | Some (_, e) \<Rightarrow>
          if ai_Contains e va inputType \<and> ai_va e outputType \<noteq> 0
          then u64 (ai_va e outputType + (va - ai_va e inputType)) else 0)"

text \<open>The iterator the lookups below end at: the last entry not above \<open>va\<close>, or the first entry if there is none.\<close>

definition nearest :: "nat \<Rightarrow> (nat, 'v) omap \<Rightarrow> (nat \<times> 'v) option" where
  "nearest va m =
     (if m = [] then None else case om_floor va m of Some e \<Rightarrow> Some e | None \<Rightarrow> Some (hd m))"

definition GetGvaMemType :: "nat \<Rightarrow> va_manager \<Rightarrow> hybm_mem_type" where
  "GetGvaMemType va s =
     (case nearest va (allocatedMap s HVM_GVA) of
        None \<Rightarrow> HYBM_MEM_TYPE_BUTT
      | Some (_, e) \<Rightarrow> if ai_Contains e va HVM_GVA then bi_memType (ai_base e) else HYBM_MEM_TYPE_BUTT)"

definition GetRank :: "nat \<Rightarrow> va_manager \<Rightarrow> nat \<times> bool" where
  "GetRank gva s =
     (if gva = 0 then (0, False)
      else case nearest gva (allocatedMap s HVM_GVA) of
        None \<Rightarrow> (0, False)
      | Some (_, e) \<Rightarrow> if ai_Contains e gva HVM_GVA then (RankId e, True) else (0, False))"

definition FindAllocByVa :: "nat \<Rightarrow> HybmVaMgrType \<Rightarrow> va_manager \<Rightarrow> AllocatedGvaInfo option" where
  "FindAllocByVa va t s =
     (case nearest va (allocatedMap s t) of
        None \<Rightarrow> None
      | Some (_, e) \<Rightarrow> if ai_Contains e va t then Some e else None)"

definition IsValidAddr :: "nat \<Rightarrow> va_manager \<Rightarrow> bool" where
  "IsValidAddr va s \<longleftrightarrow>
     list_ex (\<lambda>i. case nearest va (allocatedMap s i) of None \<Rightarrow> False | Some (_, e) \<Rightarrow> ai_Contains e va i) va_types"

definition GetAllocCount :: "va_manager \<Rightarrow> nat" where "GetAllocCount s = length (allocatedMap s HVM_GVA)"
definition GetReservedCount :: "va_manager \<Rightarrow> nat" where "GetReservedCount s = length (reservedMap s HVM_GVA)"

definition ClearAll :: "va_manager \<Rightarrow> va_manager" where
  "ClearAll s =
     fold (\<lambda>i s. s\<lparr>allocatedMap := (allocatedMap s)(i := []), reservedMap := (reservedMap s)(i := [])\<rparr>) va_types s"

text \<open>The direction of a copy, from the table of \<^verbatim>\<open>hybm_va_manager.h\<close>.\<close>

datatype AddressCategory = GLOBAL_DEVICE | GLOBAL_HOST | LOCAL_DEVICE | LOCAL_HOST

datatype hybm_data_copy_direction =
    HYBM_LOCAL_HOST_TO_GLOBAL_HOST | HYBM_LOCAL_HOST_TO_GLOBAL_DEVICE
  | HYBM_LOCAL_DEVICE_TO_GLOBAL_HOST | HYBM_LOCAL_DEVICE_TO_GLOBAL_DEVICE
  | HYBM_GLOBAL_HOST_TO_GLOBAL_HOST | HYBM_GLOBAL_HOST_TO_GLOBAL_DEVICE
  | HYBM_GLOBAL_HOST_TO_LOCAL_HOST | HYBM_GLOBAL_HOST_TO_LOCAL_DEVICE
  | HYBM_GLOBAL_DEVICE_TO_GLOBAL_HOST | HYBM_GLOBAL_DEVICE_TO_GLOBAL_DEVICE
  | HYBM_GLOBAL_DEVICE_TO_LOCAL_HOST | HYBM_GLOBAL_DEVICE_TO_LOCAL_DEVICE
  | HYBM_DATA_COPY_DIRECTION_AUTO | HYBM_DATA_COPY_DIRECTION_BUTT

fun COPY_DIRECTION_TABLE :: "AddressCategory \<Rightarrow> AddressCategory \<Rightarrow> hybm_data_copy_direction" where
  "COPY_DIRECTION_TABLE GLOBAL_DEVICE GLOBAL_DEVICE = HYBM_GLOBAL_DEVICE_TO_GLOBAL_DEVICE"
| "COPY_DIRECTION_TABLE GLOBAL_DEVICE GLOBAL_HOST = HYBM_GLOBAL_DEVICE_TO_GLOBAL_HOST"
| "COPY_DIRECTION_TABLE GLOBAL_DEVICE LOCAL_DEVICE = HYBM_GLOBAL_DEVICE_TO_LOCAL_DEVICE"
| "COPY_DIRECTION_TABLE GLOBAL_DEVICE LOCAL_HOST = HYBM_GLOBAL_DEVICE_TO_LOCAL_HOST"
| "COPY_DIRECTION_TABLE GLOBAL_HOST GLOBAL_DEVICE = HYBM_GLOBAL_HOST_TO_GLOBAL_DEVICE"
| "COPY_DIRECTION_TABLE GLOBAL_HOST GLOBAL_HOST = HYBM_GLOBAL_HOST_TO_GLOBAL_HOST"
| "COPY_DIRECTION_TABLE GLOBAL_HOST LOCAL_DEVICE = HYBM_GLOBAL_HOST_TO_LOCAL_DEVICE"
| "COPY_DIRECTION_TABLE GLOBAL_HOST LOCAL_HOST = HYBM_GLOBAL_HOST_TO_LOCAL_HOST"
| "COPY_DIRECTION_TABLE LOCAL_DEVICE GLOBAL_DEVICE = HYBM_LOCAL_DEVICE_TO_GLOBAL_DEVICE"
| "COPY_DIRECTION_TABLE LOCAL_DEVICE GLOBAL_HOST = HYBM_LOCAL_DEVICE_TO_GLOBAL_HOST"
| "COPY_DIRECTION_TABLE LOCAL_HOST GLOBAL_DEVICE = HYBM_LOCAL_HOST_TO_GLOBAL_DEVICE"
| "COPY_DIRECTION_TABLE LOCAL_HOST GLOBAL_HOST = HYBM_LOCAL_HOST_TO_GLOBAL_HOST"
| "COPY_DIRECTION_TABLE _ _ = HYBM_DATA_COPY_DIRECTION_BUTT"

definition HYBM_DEVICE_VA_START :: nat where "HYBM_DEVICE_VA_START = 0x100000000000"
definition HYBM_DEVICE_VA_SIZE :: nat where "HYBM_DEVICE_VA_SIZE = 0x80000000000"

definition ClassifyAddress :: "nat \<Rightarrow> va_manager \<Rightarrow> AddressCategory" where
  "ClassifyAddress va s =
     (case GetGvaMemType va s of
        HYBM_MEM_TYPE_DEVICE \<Rightarrow> GLOBAL_DEVICE
      | HYBM_MEM_TYPE_HOST \<Rightarrow> GLOBAL_HOST
      | HYBM_MEM_TYPE_BUTT \<Rightarrow>
          if va \<ge> HYBM_DEVICE_VA_START \<and> va < HYBM_DEVICE_VA_START + HYBM_DEVICE_VA_SIZE then LOCAL_DEVICE else LOCAL_HOST)"

definition InferCopyDirection :: "nat \<Rightarrow> nat \<Rightarrow> va_manager \<Rightarrow> hybm_data_copy_direction" where
  "InferCopyDirection srcVa dstVa s = COPY_DIRECTION_TABLE (ClassifyAddress srcVa s) (ClassifyAddress dstVa s)"

text \<open>\<^verbatim>\<open>hybm_gva_to_va\<close> of \<^verbatim>\<open>hybm_entry.cpp\<close>: \<open>inits\<close> is its counter of initialisations, \<open>va_null\<close> says that the output
  pointer is null, and the second result is what is stored through it.\<close>

definition HybmHasInited :: "int \<Rightarrow> bool" where "HybmHasInited inits \<longleftrightarrow> inits > 0"

definition hybm_gva_to_va :: "int \<Rightarrow> bool \<Rightarrow> nat \<Rightarrow> hybm_mem_type \<Rightarrow> va_manager \<Rightarrow> int \<times> nat option" where
  "hybm_gva_to_va inits va_null gva vaMemType s =
     (if va_null then (BM_ERROR, None)
      else if \<not> HybmHasInited inits then (BM_ERROR, None)
      else if vaMemType = HYBM_MEM_TYPE_BUTT then (BM_ERROR, None)
      else let outputType = (if vaMemType = HYBM_MEM_TYPE_DEVICE then HVM_DVA else HVM_HVA);
               convertedVa = TransformVa gva HVM_GVA outputType s
           in if convertedVa = 0 then (BM_ERROR, None) else (BM_OK, Some convertedVa))"


section \<open>Reserved ranges\<close>

definition HYBM_GVM_MAX_POOL_SIZE :: nat where "HYBM_GVM_MAX_POOL_SIZE = 128 * 2 ^ 40"
definition HYBM_GVM_START_ADDR :: nat where "HYBM_GVM_START_ADDR = 0x280040000000"
definition HYBM_GVM_END_ADDR :: nat where "HYBM_GVM_END_ADDR = HYBM_GVM_START_ADDR + HYBM_GVM_MAX_POOL_SIZE"
definition HYBM_GVM_START_ADDR_A5 :: nat where "HYBM_GVM_START_ADDR_A5 = 0x340000000000"
definition HYBM_GVM_END_ADDR_A5 :: nat where "HYBM_GVM_END_ADDR_A5 = HYBM_GVM_START_ADDR_A5 + HYBM_GVM_MAX_POOL_SIZE"
definition HYBM_56BITS_GVA_START_ADDR :: nat where "HYBM_56BITS_GVA_START_ADDR = 64 * 2 ^ 50"
definition HYBM_56BITS_GVA_END_ADDR :: nat where "HYBM_56BITS_GVA_END_ADDR = 128 * 2 ^ 50"
definition HYBM_TRANS_GVA_START_ADDR :: nat where "HYBM_TRANS_GVA_START_ADDR = 2 ^ 60"
definition HYBM_TRANS_GVA_END_ADDR :: nat where "HYBM_TRANS_GVA_END_ADDR = 2 ^ 61"

text \<open>The loop of \<^verbatim>\<open>FindFreeSpace\<close> over the sorted used ranges: the address it returns, or the final \<^verbatim>\<open>current\<close>.\<close>

fun free_scan :: "nat \<Rightarrow> nat \<Rightarrow> (nat \<times> nat) list \<Rightarrow> nat + nat" where
  "free_scan len current [] = Inr current"
| "free_scan len current ((fst_r, snd_r) # ranges) =
     (if fst_r > current \<and> fst_r - current \<ge> len then Inl current
      else free_scan len (if snd_r > current then snd_r else current) ranges)"

definition usedRanges :: "nat \<Rightarrow> nat \<Rightarrow> HybmVaMgrType \<Rightarrow> va_manager \<Rightarrow> (nat \<times> nat) list" where
  "usedRanges start end_va t s =
     map (\<lambda>(_, info). (ri_va info t, u64 (ri_va info t + ri_size info)))
       (filter (\<lambda>(_, info). ri_va info t \<ge> start \<and> ri_va info t < end_va) (reservedMap s t))"

definition FindFreeSpace :: "nat \<Rightarrow> nat \<Rightarrow> nat \<Rightarrow> HybmVaMgrType \<Rightarrow> va_manager \<Rightarrow> nat option" where
  "FindFreeSpace start end_va len t s =
     (if len = 0 \<or> start \<ge> end_va \<or> len > end_va - start then None
      else if usedRanges start end_va t s = [] then Some start
      else case free_scan len start (sort (usedRanges start end_va t s)) of
             Inl addr \<Rightarrow> Some addr
           | Inr current \<Rightarrow> if current \<le> end_va \<and> len \<le> end_va - current then Some current else None)"

definition AllocReserveLvaInner :: "nat \<Rightarrow> HybmVaMgrType \<Rightarrow> va_manager \<Rightarrow> nat" where
  "AllocReserveLvaInner len t s =
     (if len = 0 then 0
      else let startAddr = (if soc s = ASCEND_950 then HYBM_GVM_START_ADDR_A5 else HYBM_GVM_START_ADDR);
               endAddr = (if soc s = ASCEND_950 then HYBM_GVM_END_ADDR_A5 else HYBM_GVM_END_ADDR);
               upperLimit = endAddr - startAddr
        in if len > upperLimit then 0
           else case FindFreeSpace startAddr endAddr len t s of None \<Rightarrow> 0 | Some freeAddr \<Rightarrow> freeAddr)"

definition ri_none :: ReservedGvaInfo where
  "ri_none = \<lparr>ri_va = (\<lambda>_. 0), ri_size = 0, ri_memType = HYBM_MEM_TYPE_BUTT, ri_localRankId = 0\<rparr>"

abbreviation reserve_put :: "HybmVaMgrType \<Rightarrow> nat \<Rightarrow> ReservedGvaInfo \<Rightarrow> va_manager \<Rightarrow> va_manager" where
  "reserve_put t k info s \<equiv> s\<lparr>reservedMap := (reservedMap s)(t := om_put k info (reservedMap s t))\<rparr>"

abbreviation reserve_erase :: "HybmVaMgrType \<Rightarrow> nat \<Rightarrow> va_manager \<Rightarrow> va_manager" where
  "reserve_erase t k s \<equiv> s\<lparr>reservedMap := (reservedMap s)(t := om_erase k (reservedMap s t))\<rparr>"

definition AllocReserveGva ::
  "nat \<Rightarrow> nat \<Rightarrow> nat \<Rightarrow> hybm_mem_type \<Rightarrow> bool \<Rightarrow> bool \<Rightarrow> va_manager \<Rightarrow> ReservedGvaInfo \<times> va_manager" where
  "AllocReserveGva localRankId len localSize memType enable56BitsGva isTrans s =
     (if len = 0 \<or> \<not> (localSize \<noteq> 0 \<or> enable56BitsGva) then (ri_none, s)
      else let lva = (if localSize > 0 then AllocReserveLvaInner localSize HVM_DVA s else 0)
        in if localSize > 0 \<and> lva = 0 then (ri_none, s)
           else let startAddr = (if isTrans then HYBM_TRANS_GVA_START_ADDR else HYBM_56BITS_GVA_START_ADDR);
                    endAddr = (if isTrans then HYBM_TRANS_GVA_END_ADDR else HYBM_56BITS_GVA_END_ADDR);
                    gva = (if \<not> enable56BitsGva then Some lva
                           else if len > endAddr - startAddr then None
                           else FindFreeSpace startAddr endAddr len HVM_GVA s)
             in case gva of
                  None \<Rightarrow> (ri_none, s)
                | Some gva \<Rightarrow>
                    let result = \<lparr>ri_va = (\<lambda>_. 0)(HVM_GVA := gva, HVM_DVA := lva), ri_size = len, ri_memType = memType,
                                  ri_localRankId = localRankId\<rparr>
                    in (result, reserve_put HVM_DVA lva (result\<lparr>ri_size := localSize\<rparr>) (reserve_put HVM_GVA gva result s)))"

definition AllocReserveLva ::
  "nat \<Rightarrow> nat \<Rightarrow> HybmVaMgrType \<Rightarrow> hybm_mem_type \<Rightarrow> va_manager \<Rightarrow> ReservedGvaInfo \<times> va_manager" where
  "AllocReserveLva localRankId len t memType s =
     (if len = 0 then (ri_none, s)
      else let lva = AllocReserveLvaInner len t s
        in if lva = 0 then (ri_none, s)
           else let result = \<lparr>ri_va = (\<lambda>_. 0)(t := lva), ri_size = len, ri_memType = memType, ri_localRankId = localRankId\<rparr>
             in (result, reserve_put t lva result s))"

definition FreeReserveGva :: "nat \<Rightarrow> va_manager \<Rightarrow> va_manager" where
  "FreeReserveGva addr s =
     (if addr = 0 then s
      else case om_find addr (reservedMap s HVM_GVA) of
        None \<Rightarrow> s
      | Some info \<Rightarrow>
          let t = (if ri_va info HVM_DVA \<noteq> 0 then HVM_DVA else HVM_HVA)
          in reserve_erase HVM_GVA addr (reserve_erase t (ri_va info t) s))"

definition FreeReserveLva :: "nat \<Rightarrow> HybmVaMgrType \<Rightarrow> va_manager \<Rightarrow> va_manager" where
  "FreeReserveLva addr t s =
     (if addr = 0 \<or> (t \<noteq> HVM_DVA \<and> t \<noteq> HVM_HVA) then s
      else case om_find addr (reservedMap s t) of None \<Rightarrow> s | Some _ \<Rightarrow> reserve_erase t addr s)"


section \<open>The invariant of the allocated segments\<close>

definition seg_map_ok :: "HybmVaMgrType \<Rightarrow> (nat, AllocatedGvaInfo) omap \<Rightarrow> bool" where
  "seg_map_ok t m \<longleftrightarrow> om_wf m \<and>
     (\<forall>k e. (k, e) \<in> set m \<longrightarrow> k = ai_va e t \<and> 0 < k \<and> 0 < ai_size e \<and> k + ai_size e < 2 ^ 64 \<and>
        bi_memType (ai_base e) \<noteq> HYBM_MEM_TYPE_BUTT) \<and>
     (\<forall>k e k' e'. (k, e) \<in> set m \<longrightarrow> (k', e') \<in> set m \<longrightarrow> k < k' \<longrightarrow> k + ai_size e \<le> k')"

text \<open>A segment with addresses of several kinds is in the map of each of them.\<close>

definition linked :: "va_manager \<Rightarrow> bool" where
  "linked s \<longleftrightarrow> (\<forall>t t' k e. t \<noteq> HVM_BUTT \<longrightarrow> t' \<noteq> HVM_BUTT \<longrightarrow> (k, e) \<in> set (allocatedMap s t) \<longrightarrow> ai_va e t' \<noteq> 0 \<longrightarrow>
     (ai_va e t', e) \<in> set (allocatedMap s t'))"

definition alloc_ok :: "va_manager \<Rightarrow> bool" where
  "alloc_ok s \<longleftrightarrow> (\<forall>t. t \<noteq> HVM_BUTT \<longrightarrow> seg_map_ok t (allocatedMap s t)) \<and> linked s"

lemma va_types_iff [simp]: "t \<in> set va_types \<longleftrightarrow> t \<noteq> HVM_BUTT"
  by (cases t) (auto simp: va_types_def)

lemma om_floor_Some:
  "om_wf m \<Longrightarrow> om_floor k m = Some e \<longleftrightarrow> e \<in> set m \<and> fst e \<le> k \<and> (\<forall>e'\<in>set m. fst e' \<le> k \<longrightarrow> fst e' \<le> fst e)"
  unfolding om_floor_def by (simp add: om_before_Some less_Suc_eq_le)

lemma om_floor_None: "om_floor k m = None \<longleftrightarrow> (\<forall>e\<in>set m. k < fst e)"
  unfolding om_floor_def by (simp add: om_before_None Suc_le_eq)

lemma seg_mapD:
  assumes "seg_map_ok t m" "(k, e) \<in> set m"
  shows "k = ai_va e t" "0 < k" "0 < ai_size e" "k + ai_size e < 2 ^ 64"
    "(k', e') \<in> set m \<Longrightarrow> k < k' \<Longrightarrow> k + ai_size e \<le> k'" "bi_memType (ai_base e) \<noteq> HYBM_MEM_TYPE_BUTT"
  using assms unfolding seg_map_ok_def by blast+

lemma seg_map_wf: "seg_map_ok t m \<Longrightarrow> om_wf m"
  by (simp add: seg_map_ok_def)

lemma seg_map_Nil [simp]: "seg_map_ok t []"
  by (simp add: seg_map_ok_def)

lemma seg_map_erase: "seg_map_ok t m \<Longrightarrow> seg_map_ok t (om_erase k m)"
  unfolding seg_map_ok_def by (simp add: om_simps) blast

text \<open>An address lies in at most one segment, and the lookups find it.\<close>

lemma seg_contains:
  assumes "seg_map_ok t m" "(k, e) \<in> set m" "t \<noteq> HVM_BUTT"
  shows "ai_Contains e va t \<longleftrightarrow> k \<le> va \<and> va < k + ai_size e"
  using seg_mapD [OF assms(1,2)] assms(3) by (auto simp: ai_Contains_def)

lemma seg_floor:
  assumes m: "seg_map_ok t m" and e: "(k, e) \<in> set m" and c: "k \<le> va" "va < k + ai_size e"
  shows "om_floor va m = Some (k, e)"
proof -
  have "k' \<le> k" if "(k', e') \<in> set m" "k' \<le> va" for k' e'
    using seg_mapD(5) [OF m e that(1)] that(2) c(2) by (meson not_less le_trans leD)
  then have "\<forall>e'\<in>set m. fst e' \<le> va \<longrightarrow> fst e' \<le> k" by (simp add: split_paired_all)
  then show ?thesis using om_floor_Some [OF seg_map_wf [OF m], of va "(k, e)"] e c(1) by simp
qed

lemma nearest_contains:
  assumes m: "seg_map_ok t m" and t: "t \<noteq> HVM_BUTT"
  shows "(\<exists>k. nearest va m = Some (k, e)) \<and> ai_Contains e va t \<longleftrightarrow> (\<exists>k. (k, e) \<in> set m \<and> k \<le> va \<and> va < k + ai_size e)"
proof
  assume a: "(\<exists>k. nearest va m = Some (k, e)) \<and> ai_Contains e va t"
  then obtain k where k: "nearest va m = Some (k, e)" by blast
  have "(k, e) \<in> set m"
  proof (cases "om_floor va m")
    case None
    then show ?thesis using k by (cases m) (auto simp: nearest_def)
  next
    case (Some x)
    then show ?thesis using k om_floor_Some [OF seg_map_wf [OF m], of va x] by (auto simp: nearest_def split: if_splits)
  qed
  then show "\<exists>k. (k, e) \<in> set m \<and> k \<le> va \<and> va < k + ai_size e" using a seg_contains [OF m _ t] by blast
next
  assume "\<exists>k. (k, e) \<in> set m \<and> k \<le> va \<and> va < k + ai_size e"
  then obtain k where k: "(k, e) \<in> set m" "k \<le> va" "va < k + ai_size e" by blast
  then have "nearest va m = Some (k, e)" using seg_floor [OF m k] by (auto simp: nearest_def)
  then show "(\<exists>k. nearest va m = Some (k, e)) \<and> ai_Contains e va t" using k seg_contains [OF m k(1) t] by blast
qed

lemma FindAllocByVa_iff:
  assumes "seg_map_ok t (allocatedMap s t)" "t \<noteq> HVM_BUTT"
  shows "FindAllocByVa va t s = Some e \<longleftrightarrow> (\<exists>k. (k, e) \<in> set (allocatedMap s t) \<and> k \<le> va \<and> va < k + ai_size e)"
  unfolding nearest_contains [OF assms, symmetric] FindAllocByVa_def by (auto split: option.splits prod.splits if_splits)

lemma lookups_by_find:
  "GetGvaMemType va s = (case FindAllocByVa va HVM_GVA s of None \<Rightarrow> HYBM_MEM_TYPE_BUTT | Some e \<Rightarrow> bi_memType (ai_base e))"
  "GetRank va s = (if va = 0 then (0, False) else case FindAllocByVa va HVM_GVA s of None \<Rightarrow> (0, False) | Some e \<Rightarrow> (RankId e, True))"
  "IsValidAddr va s \<longleftrightarrow> list_ex (\<lambda>t. FindAllocByVa va t s \<noteq> None) va_types"
  unfolding GetGvaMemType_def GetRank_def IsValidAddr_def FindAllocByVa_def list_ex_iff
  by (auto split: option.splits)

lemma TransformVa_by_find:
  assumes "seg_map_ok t (allocatedMap s t)" "t \<noteq> HVM_BUTT" "t' \<noteq> HVM_BUTT" "t \<noteq> t'" "0 < va"
  shows "TransformVa va t t' s =
    (case FindAllocByVa va t s of None \<Rightarrow> 0
     | Some e \<Rightarrow> if ai_va e t' \<noteq> 0 then u64 (ai_va e t' + (va - ai_va e t)) else 0)"
proof (cases "om_floor va (allocatedMap s t)")
  case None
  then have "va < k" if "(k, e) \<in> set (allocatedMap s t)" for k e using that om_floor_None [of va "allocatedMap s t"] by auto
  then have "FindAllocByVa va t s \<noteq> Some e" for e using FindAllocByVa_iff [OF assms(1,2), of va e] by (metis leD)
  then have "FindAllocByVa va t s = None" by (cases "FindAllocByVa va t s") auto
  then show ?thesis using None assms by (simp add: TransformVa_def)
next
  case (Some x)
  moreover have "allocatedMap s t \<noteq> []" using Some by (auto simp: om_floor_def om_before_def)
  ultimately show ?thesis using assms by (cases x) (simp add: TransformVa_def FindAllocByVa_def nearest_def)
qed


section \<open>Adding and removing segments\<close>

definition apart :: "nat \<Rightarrow> nat \<Rightarrow> nat \<Rightarrow> nat \<Rightarrow> bool" where
  "apart p n q m \<longleftrightarrow> p + n \<le> q \<or> q + m \<le> p"

lemma two_tries:
  "(case (case x of Some e \<Rightarrow> if P e then Some (f e) else None | None \<Rightarrow> None) of
      Some e \<Rightarrow> Some e | None \<Rightarrow> (case y of Some e \<Rightarrow> if P e then Some (f e) else None | None \<Rightarrow> None)) = Some r \<Longrightarrow>
    \<exists>e. (x = Some e \<or> y = Some e) \<and> P e \<and> f e = r"
  "(case (case x of Some e \<Rightarrow> if P e then Some (f e) else None | None \<Rightarrow> None) of
      Some e \<Rightarrow> Some e | None \<Rightarrow> (case y of Some e \<Rightarrow> if P e then Some (f e) else None | None \<Rightarrow> None)) = None \<Longrightarrow>
    (x = Some e \<longrightarrow> \<not> P e) \<and> (y = Some e \<longrightarrow> \<not> P e)"
  by (auto split: option.splits if_splits)

text \<open>Looking at the two neighbours of the start address is enough to find an overlap.\<close>

lemma CheckOverlap_correct:
  assumes m: "seg_map_ok t (allocatedMap s t)" and len: "0 < len" "va + len < 2 ^ 64"
  shows "CheckOverlap va len t s = None \<Longrightarrow> (k, e) \<in> set (allocatedMap s t) \<Longrightarrow> apart k (ai_size e) va len"
    and "CheckOverlap va len t s = Some e \<Longrightarrow> \<exists>k. (k, e) \<in> set (allocatedMap s t) \<and> \<not> apart k (ai_size e) va len"
proof -
  let ?m = "allocatedMap s t"
  let ?hit = "\<lambda>(st, e). (st \<le> va \<and> va < u64 (ai_size e + st)) \<or> (va \<le> st \<and> st < u64 (va + len))"
  have wf: "om_wf ?m" by (rule seg_map_wf [OF m])
  have hit: "?hit (k, e) \<longleftrightarrow> \<not> apart k (ai_size e) va len" if "(k, e) \<in> set ?m" for k e
    using seg_mapD [OF m that] len by (auto simp: apart_def add.commute)
  have c: "CheckOverlap va len t s =
      (case (case om_upper_bound va ?m of Some e \<Rightarrow> if ?hit e then Some (snd e) else None | None \<Rightarrow> None) of
         Some e \<Rightarrow> Some e
       | None \<Rightarrow> (case om_floor va ?m of Some e \<Rightarrow> if ?hit e then Some (snd e) else None | None \<Rightarrow> None))"
    unfolding CheckOverlap_def Let_def ..
  show "\<exists>k. (k, e) \<in> set ?m \<and> \<not> apart k (ai_size e) va len" if "CheckOverlap va len t s = Some e"
  proof -
    have "\<exists>x. (om_upper_bound va ?m = Some x \<or> om_floor va ?m = Some x) \<and> ?hit x \<and> snd x = e"
      using that unfolding c by (rule two_tries(1))
    then obtain k where k: "om_upper_bound va ?m = Some (k, e) \<or> om_floor va ?m = Some (k, e)" "?hit (k, e)" by auto
    then have "(k, e) \<in> set ?m" using om_upper_bound_Some [OF wf, of va "(k, e)"] om_floor_Some [OF wf, of va "(k, e)"] by blast
    then show ?thesis using hit k(2) by blast
  qed
  show "apart k (ai_size e) va len" if n: "CheckOverlap va len t s = None" and e: "(k, e) \<in> set ?m" for k e
  proof (cases "va < k")
    case True
    then obtain u f where u: "om_upper_bound va ?m = Some (u, f)"
      using e om_upper_bound_None [of va ?m] by (cases "om_upper_bound va ?m") (auto simp: not_le [symmetric])
    then have uf: "(u, f) \<in> set ?m" "va < u" "u \<le> k" using om_upper_bound_Some [OF wf, of va "(u, f)"] e True by auto
    have "\<not> ?hit (u, f)" using two_tries(2) [OF n [unfolded c], of "(u, f)"] u by blast
    then have "va + len \<le> u" using hit [OF uf(1)] uf(2) seg_mapD(3) [OF m uf(1)] by (auto simp: apart_def)
    then show ?thesis using uf(3) by (simp add: apart_def)
  next
    case False
    then obtain u f where u: "om_floor va ?m = Some (u, f)"
      using e om_floor_None [of va ?m] by (cases "om_floor va ?m") auto
    then have uf: "(u, f) \<in> set ?m" "u \<le> va" "k \<le> u" using om_floor_Some [OF wf, of va "(u, f)"] e False by auto
    have "\<not> ?hit (u, f)" using two_tries(2) [OF n [unfolded c], of "(u, f)"] u by blast
    then have l: "u + ai_size f \<le> va" using hit [OF uf(1)] uf(2) len by (auto simp: apart_def)
    show ?thesis
    proof (cases "k = u")
      case True
      then show ?thesis using l e uf(1) om_wf_inj [OF wf, of u e f] by (simp add: apart_def)
    next
      case False
      then show ?thesis using seg_mapD(5) [OF m e uf(1)] uf(2,3) by (simp add: apart_def)
    qed
  qed
qed

lemma seg_map_put:
  assumes m: "seg_map_ok t m" and i: "ai_va info t \<noteq> 0" "0 < ai_size info" "ai_va info t + ai_size info < 2 ^ 64"
      "bi_memType (ai_base info) \<noteq> HYBM_MEM_TYPE_BUTT"
    and a: "\<And>k e. (k, e) \<in> set m \<Longrightarrow> k \<noteq> ai_va info t \<Longrightarrow> apart k (ai_size e) (ai_va info t) (ai_size info)"
  shows "seg_map_ok t (om_put (ai_va info t) info m)"
proof -
  let ?v = "ai_va info t"
  have wf: "om_wf m" by (rule seg_map_wf [OF m])
  have s: "(k, e) \<in> set (om_put ?v info m) \<longleftrightarrow> k = ?v \<and> e = info \<or> k \<noteq> ?v \<and> (k, e) \<in> set m" for k e
    using set_om_put [OF wf, of ?v info] by auto
  have "k + ai_size e \<le> k'" if kk: "(k, e) \<in> set (om_put ?v info m)" "(k', e') \<in> set (om_put ?v info m)" "k < k'" for k e k' e'
  proof -
    consider "(k, e) \<in> set m" "(k', e') \<in> set m" | "k = ?v" "e = info" "(k', e') \<in> set m" | "k' = ?v" "e' = info" "(k, e) \<in> set m"
      using kk unfolding s by auto
    then show ?thesis
    proof cases
      case 1
      then show ?thesis using seg_mapD(5) [OF m 1] that(3) by blast
    next
      case 2
      then show ?thesis using a [OF 2(3)] that(3) seg_mapD(3) [OF m 2(3)] by (auto simp: apart_def)
    next
      case 3
      then show ?thesis using a [OF 3(3)] that(3) i(2) by (auto simp: apart_def)
    qed
  qed
  moreover have "k = ai_va e t \<and> 0 < k \<and> 0 < ai_size e \<and> k + ai_size e < 2 ^ 64 \<and> bi_memType (ai_base e) \<noteq> HYBM_MEM_TYPE_BUTT"
    if "(k, e) \<in> set (om_put ?v info m)" for k e
    using that i seg_mapD(1-4,6) [OF m, of k e] unfolding s by blast
  ultimately show ?thesis using wf unfolding seg_map_ok_def by simp
qed

definition info_fits :: "AllocatedGvaInfo \<Rightarrow> bool" where
  "info_fits info \<longleftrightarrow> list_all (\<lambda>t. ai_va info t \<noteq> 0 \<longrightarrow> ai_va info t + ai_size info < 2 ^ 64) va_types"

lemma info_fitsD: "info_fits info \<Longrightarrow> t \<noteq> HVM_BUTT \<Longrightarrow> ai_va info t \<noteq> 0 \<Longrightarrow> ai_va info t + ai_size info < 2 ^ 64"
  by (simp add: info_fits_def list_all_iff)

lemma alloc_okD:
  assumes "alloc_ok s" "t \<noteq> HVM_BUTT"
  shows "seg_map_ok t (allocatedMap s t)"
    "t' \<noteq> HVM_BUTT \<Longrightarrow> (k, e) \<in> set (allocatedMap s t) \<Longrightarrow> ai_va e t' \<noteq> 0 \<Longrightarrow> (ai_va e t', e) \<in> set (allocatedMap s t')"
  using assms unfolding alloc_ok_def linked_def by blast+

lemma ai_equal_va: "ai_equal e info \<Longrightarrow> t \<noteq> HVM_BUTT \<Longrightarrow> ai_va e t = ai_va info t"
  by (cases t) (auto simp: ai_equal_def)

lemma put_all:
  fixes s :: va_manager and info :: AllocatedGvaInfo
  defines "f \<equiv> \<lambda>i (s::va_manager). s\<lparr>allocatedMap := (allocatedMap s)(i := om_put (ai_va info i) info (allocatedMap s i))\<rparr>"
  shows "allocatedMap (fold f (filter P va_types) s) t =
      (if t \<noteq> HVM_BUTT \<and> P t then om_put (ai_va info t) info (allocatedMap s t) else allocatedMap s t)"
    "reservedMap (fold f (filter P va_types) s) = reservedMap s" "soc (fold f (filter P va_types) s) = soc s"
  by (cases t; simp add: f_def va_types_def)+

lemma AddVaInfo_cases:
  obtains (same) "snd (AddVaInfo info b s) = s"
  | (added) s' where "AddVaInfo info b s = (BM_OK, s')" "0 < ai_size info"
      "\<forall>t old. t \<noteq> HVM_BUTT \<longrightarrow> (b \<longrightarrow> t = HVM_GVA) \<longrightarrow> ai_va info t \<noteq> 0 \<longrightarrow>
         CheckOverlap (ai_va info t) (ai_size info) t s = Some old \<longrightarrow> ai_equal old info"
      "\<forall>t. allocatedMap s' t =
         (if t \<noteq> HVM_BUTT \<and> (b \<longrightarrow> t = HVM_GVA) \<and> ai_va info t \<noteq> 0 then om_put (ai_va info t) info (allocatedMap s t)
          else allocatedMap s t)"
      "reservedMap s' = reservedMap s" "soc s' = soc s" "bi_memType (ai_base info) \<noteq> HYBM_MEM_TYPE_BUTT"
proof -
  let ?P = "\<lambda>i. \<not> (b \<and> i \<noteq> HVM_GVA) \<and> ai_va info i \<noteq> 0"
  let ?bad = "list_ex (\<lambda>i. case CheckOverlap (ai_va info i) (ai_size info) i s of Some old \<Rightarrow> \<not> ai_equal old info | None \<Rightarrow> False)
    (filter ?P va_types)"
  let ?s' = "fold (\<lambda>i (s::va_manager). s\<lparr>allocatedMap := (allocatedMap s)(i := om_put (ai_va info i) info (allocatedMap s i))\<rparr>)
    (filter ?P va_types) s"
  show thesis
  proof (cases "ai_size info = 0 \<or> bi_memType (ai_base info) = HYBM_MEM_TYPE_BUTT \<or> ?bad")
    case True
    then show thesis by (intro same) (auto simp: AddVaInfo_def Let_def)
  next
    case False
    have "\<not> (case CheckOverlap (ai_va info t) (ai_size info) t s of Some old \<Rightarrow> \<not> ai_equal old info | None \<Rightarrow> False)"
      if "t \<in> set (filter ?P va_types)" for t
      using False that unfolding list_ex_iff by blast
    then have "\<forall>t old. t \<noteq> HVM_BUTT \<longrightarrow> (b \<longrightarrow> t = HVM_GVA) \<longrightarrow> ai_va info t \<noteq> 0 \<longrightarrow>
        CheckOverlap (ai_va info t) (ai_size info) t s = Some old \<longrightarrow> ai_equal old info"
      by force
    moreover have "AddVaInfo info b s = (BM_OK, ?s')" using False by (simp add: AddVaInfo_def Let_def)
    moreover have "0 < ai_size info" "bi_memType (ai_base info) \<noteq> HYBM_MEM_TYPE_BUTT" using False by simp_all
    ultimately show thesis using added [of ?s'] by (simp add: put_all)
  qed
qed

lemma alloc_ok_add:
  assumes ok: "alloc_ok s" and fits: "info_fits info"
  shows "alloc_ok (snd (AddVaInfo info False s))"
proof (cases rule: AddVaInfo_cases [of info False s])
  case same
  then show ?thesis using ok by simp
next
  case (added s')
  let ?w = "ai_size info"
  have old: "ai_equal e info"
    if t: "t \<noteq> HVM_BUTT" "ai_va info t \<noteq> 0" and e: "(k, e) \<in> set (allocatedMap s t)" and n: "\<not> apart k (ai_size e) (ai_va info t) ?w"
    for t k e
  proof -
    note m = alloc_okD(1) [OF ok t(1)]
    note co = CheckOverlap_correct [OF m added(2) info_fitsD [OF fits t]]
    obtain f where "CheckOverlap (ai_va info t) ?w t s = Some f" using co(1) e n by blast
    moreover from this obtain q where f: "(q, f) \<in> set (allocatedMap s t)" using co(2) by blast
    ultimately have eq: "ai_equal f info" using added(3) t by blast
    then have q: "q = ai_va info t" "ai_size f = ?w"
      using seg_mapD(1) [OF m f] ai_equal_va [OF eq t(1)] by (simp_all add: ai_equal_def)
    have "\<not> k < q" using seg_mapD(5) [OF m e f] n unfolding apart_def q(1) by blast
    moreover have "\<not> q < k" using seg_mapD(5) [OF m f e] n unfolding apart_def q by blast
    ultimately have "k = q" by simp
    then show ?thesis using om_wf_inj [OF seg_map_wf [OF m], of q e f] e f eq by simp
  qed
  have set': "(k, e) \<in> set (allocatedMap s' t) \<longleftrightarrow>
      ai_va info t \<noteq> 0 \<and> k = ai_va info t \<and> e = info \<or> (ai_va info t = 0 \<or> k \<noteq> ai_va info t) \<and> (k, e) \<in> set (allocatedMap s t)"
    if "t \<noteq> HVM_BUTT" for t k e
    using added(4) that set_om_put [OF seg_map_wf [OF alloc_okD(1) [OF ok that]], of "ai_va info t" info] by auto
  have "seg_map_ok t (allocatedMap s' t)" if t: "t \<noteq> HVM_BUTT" for t
  proof (cases "ai_va info t = 0")
    case True
    then show ?thesis using added(4) alloc_okD(1) [OF ok t] by simp
  next
    case False
    have "apart k (ai_size e) (ai_va info t) ?w" if "(k, e) \<in> set (allocatedMap s t)" "k \<noteq> ai_va info t" for k e
      using old [OF t False that(1)] ai_equal_va [OF _ t, of e info] seg_mapD(1) [OF alloc_okD(1) [OF ok t] that(1)] that(2) by blast
    then have "seg_map_ok t (om_put (ai_va info t) info (allocatedMap s t))"
      using alloc_okD(1) [OF ok t] False added(2,7) info_fitsD [OF fits t False] by (intro seg_map_put) simp_all
    then show ?thesis using added(4) t False by simp
  qed
  moreover have "(ai_va e t', e) \<in> set (allocatedMap s' t')"
    if t: "t \<noteq> HVM_BUTT" "t' \<noteq> HVM_BUTT" and e: "(k, e) \<in> set (allocatedMap s' t)" and v: "ai_va e t' \<noteq> 0" for t t' k e
  proof (cases "e = info")
    case True
    then show ?thesis using v by (simp add: set' [OF t(2)])
  next
    case False
    then have ks: "(k, e) \<in> set (allocatedMap s t)" "ai_va info t = 0 \<or> k \<noteq> ai_va info t" using e by (auto simp: set' [OF t(1)])
    have l: "(ai_va e t', e) \<in> set (allocatedMap s t')" by (rule alloc_okD(2) [OF ok t ks(1) v])
    have k: "k = ai_va e t" "0 < k" using seg_mapD(1,2) [OF alloc_okD(1) [OF ok t(1)] ks(1)] by simp_all
    have "ai_va e t' \<noteq> ai_va info t'"
    proof
      assume eq: "ai_va e t' = ai_va info t'"
      have "ai_equal e info"
        using old [OF t(2) _ l] v added(2) seg_mapD(3) [OF alloc_okD(1) [OF ok t(2)] l] by (simp add: eq apart_def)
      then show False using ks(2) k ai_equal_va [OF _ t(1), of e info] by simp
    qed
    then show ?thesis using l by (simp add: set' [OF t(2)])
  qed
  ultimately show ?thesis using added(1) unfolding alloc_ok_def linked_def by simp
qed

lemma om_erase_none: "om_find k m = None \<Longrightarrow> om_erase k m = m"
  unfolding om_find_None om_erase_def by (rule filter_True) auto

lemma erase_at_maps:
  assumes "\<forall>e. (ai_va info i, e) \<in> set (allocatedMap s i) \<longrightarrow> ai_va e i = ai_va info i" "om_wf (allocatedMap s i)"
  shows "erase_at info i s = s\<lparr>allocatedMap := (allocatedMap s)(i := om_erase (ai_va info i) (allocatedMap s i))\<rparr>"
proof (cases "om_find (ai_va info i) (allocatedMap s i)")
  case None
  then show ?thesis using om_erase_none [OF None] by (simp add: erase_at_def)
next
  case (Some e)
  then have "ai_va e i = ai_va info i" using assms om_find_iff [OF assms(2)] by blast
  then show ?thesis using Some by (simp add: erase_at_def)
qed

lemma erase_all_maps:
  assumes "distinct is" "\<forall>i\<in>set is. seg_map_ok i (allocatedMap s i)"
  shows "allocatedMap (fold (erase_at info) is s) i = (if i \<in> set is then om_erase (ai_va info i) (allocatedMap s i) else allocatedMap s i)"
  using assms
proof (induction "is" arbitrary: s)
  case (Cons j js)
  let ?s = "s\<lparr>allocatedMap := (allocatedMap s)(j := om_erase (ai_va info j) (allocatedMap s j))\<rparr>"
  have "erase_at info j s = ?s"
    using Cons.prems(2) seg_mapD(1) [of j "allocatedMap s j"] by (intro erase_at_maps) (auto simp: seg_map_wf)
  moreover have "\<forall>i\<in>set js. seg_map_ok i (allocatedMap ?s i)" using Cons.prems by auto
  ultimately show ?case using Cons.IH [of ?s] Cons.prems(1) by auto
qed simp

lemma RemoveOneVaInfo_maps:
  assumes ok: "alloc_ok s" and t: "t \<noteq> HVM_BUTT" and e: "(va, info) \<in> set (allocatedMap s t)"
  shows "allocatedMap (RemoveOneVaInfo va t s) i = (if i \<noteq> HVM_BUTT then om_erase (ai_va info i) (allocatedMap s i) else allocatedMap s i)"
proof -
  note m = alloc_okD(1) [OF ok]
  have va: "ai_va info t = va" "va \<noteq> 0" using seg_mapD(1,2) [OF m [OF t] e] by simp_all
  have f: "om_find va (allocatedMap s t) = Some info" using om_find_iff [OF seg_map_wf [OF m [OF t]]] e by blast
  let ?s = "fold (erase_at info) (filter (\<lambda>i. i \<noteq> t) va_types) s"
  have r: "RemoveOneVaInfo va t s = ?s\<lparr>allocatedMap := (allocatedMap ?s)(t := om_erase va (allocatedMap ?s t))\<rparr>"
    using t va(2) f by (simp add: RemoveOneVaInfo_def Let_def)
  have "distinct (filter (\<lambda>i. i \<noteq> t) va_types)" by (simp add: va_types_def)
  then have "allocatedMap ?s j = (if j \<noteq> HVM_BUTT \<and> j \<noteq> t then om_erase (ai_va info j) (allocatedMap s j) else allocatedMap s j)" for j
    using erase_all_maps [of "filter (\<lambda>i. i \<noteq> t) va_types" s info j] m by simp
  then show ?thesis unfolding r using va t by simp
qed

lemma RemoveOneVaInfo_other: "om_find va (allocatedMap s t) = None \<Longrightarrow> RemoveOneVaInfo va t s = s"
  by (simp add: RemoveOneVaInfo_def)

lemma RemoveOneVaInfo_frame: "reservedMap (RemoveOneVaInfo va t s) = reservedMap s" "soc (RemoveOneVaInfo va t s) = soc s"
proof -
  have "reservedMap (fold (erase_at info) is s) = reservedMap s \<and> soc (fold (erase_at info) is s) = soc s" for info "is"
    by (induction "is" arbitrary: s) (auto simp: erase_at_def split: option.splits)
  then show "reservedMap (RemoveOneVaInfo va t s) = reservedMap s" "soc (RemoveOneVaInfo va t s) = soc s"
    by (auto simp: RemoveOneVaInfo_def Let_def split: option.splits)
qed

lemma alloc_ok_remove:
  assumes ok: "alloc_ok s"
  shows "alloc_ok (RemoveOneVaInfo va t s)"
proof (cases "va = 0 \<or> t = HVM_BUTT \<or> om_find va (allocatedMap s t) = None")
  case True
  then show ?thesis using ok RemoveOneVaInfo_other by (auto simp: RemoveOneVaInfo_def)
next
  case False
  then have t: "t \<noteq> HVM_BUTT" by simp
  then obtain info where i: "(va, info) \<in> set (allocatedMap s t)"
    using False om_find_iff [OF seg_map_wf [OF alloc_okD(1) [OF ok t]], of va] by auto
  note map' = RemoveOneVaInfo_maps [OF ok t i]
  have "(ai_va e u', e) \<in> set (allocatedMap (RemoveOneVaInfo va t s) u')"
    if u: "u \<noteq> HVM_BUTT" "u' \<noteq> HVM_BUTT" and e: "(k, e) \<in> set (allocatedMap (RemoveOneVaInfo va t s) u)" and v: "ai_va e u' \<noteq> 0" for u u' k e
  proof -
    have k: "(k, e) \<in> set (allocatedMap s u)" "k \<noteq> ai_va info u" using e u by (simp_all add: map' om_simps)
    have l: "(ai_va e u', e) \<in> set (allocatedMap s u')" by (rule alloc_okD(2) [OF ok u k(1) v])
    have "ai_va e u' \<noteq> ai_va info u'"
    proof
      assume eq: "ai_va e u' = ai_va info u'"
      then have "(ai_va info u', info) \<in> set (allocatedMap s u')" using alloc_okD(2) [OF ok t u(2) i] v by simp
      then have "e = info" using l eq om_wf_inj [OF seg_map_wf [OF alloc_okD(1) [OF ok u(2)]], of "ai_va e u'" e info] by simp
      then show False using k(2) seg_mapD(1) [OF alloc_okD(1) [OF ok u(1)] k(1)] by simp
    qed
    then show ?thesis using l u by (simp add: map' om_simps)
  qed
  then show ?thesis
    using alloc_okD(1) [OF ok] seg_map_erase unfolding alloc_ok_def linked_def by (simp add: map')
qed

lemma ClearAll_maps:
  "allocatedMap (ClearAll s) t = (if t \<noteq> HVM_BUTT then [] else allocatedMap s t)"
  "reservedMap (ClearAll s) t = (if t \<noteq> HVM_BUTT then [] else reservedMap s t)" "soc (ClearAll s) = soc s"
  by (cases t; simp add: ClearAll_def va_types_def)+

lemma alloc_ok_empty: "(\<And>t. t \<noteq> HVM_BUTT \<Longrightarrow> allocatedMap s t = []) \<Longrightarrow> alloc_ok s"
  by (simp add: alloc_ok_def linked_def)

lemma alloc_ok_cong: "allocatedMap s' = allocatedMap s \<Longrightarrow> alloc_ok s' \<longleftrightarrow> alloc_ok s"
  by (simp add: alloc_ok_def linked_def)

end
