(* ===== verification/Va_Reserve.thy ===== *)
theory Va_Reserve
  imports Va_Manager
begin

text \<open>
  What holds of the address manager over time. The reservations are handed out first fit: \<open>FindFreeSpace\<close> returns
  the least free address. The steps of the manager are the relation \<open>va_step\<close>, one rule per public operation; the
  invariant \<open>rsv_ok\<close> of the reservations and \<open>alloc_ok\<close> of the segments hold in every reachable state.
\<close>

section \<open>First fit\<close>

lemma free_scan_found:
  assumes "sorted_wrt (\<lambda>x y. fst x \<le> fst y) rs" "free_scan len c rs = Inl a"
  shows "c \<le> a \<and> (\<forall>(p, q)\<in>set rs. q \<le> a \<or> a + len \<le> p) \<and> (\<exists>(p, q)\<in>set rs. a + len \<le> p)"
  using assms
proof (induction len c rs rule: free_scan.induct)
  case (2 len c p q rs)
  show ?case
  proof (cases "p > c \<and> p - c \<ge> len")
    case True
    then have "a = c" using 2(3) by simp
    then show ?thesis using True 2(2) by fastforce
  next
    case False
    then have "free_scan len (if q > c then q else c) rs = Inl a" using 2(3) by (simp only: free_scan.simps False if_False)
    then have "(if q > c then q else c) \<le> a \<and> (\<forall>(p, q)\<in>set rs. q \<le> a \<or> a + len \<le> p) \<and> (\<exists>(p, q)\<in>set rs. a + len \<le> p)"
      using 2(1) [OF False] 2(2) by simp
    then show ?thesis by (auto split: if_splits)
  qed
qed simp

lemma free_scan_end:
  "free_scan len c rs = Inr a \<Longrightarrow> c \<le> a \<and> (\<forall>(p, q)\<in>set rs. q \<le> a)"
  by (induction len c rs rule: free_scan.induct) (fastforce split: if_splits)+

text \<open>No free address lies below the one the scan stops at.\<close>

lemma free_scan_least:
  assumes "0 < len" "c \<le> b" "\<forall>(p, q)\<in>set rs. q \<le> b \<or> b + len \<le> p" "free_scan len c rs = Inl a \<or> free_scan len c rs = Inr a"
  shows "a \<le> b"
  using assms
proof (induction len c rs rule: free_scan.induct)
  case (2 len c p q rs)
  show ?case
  proof (cases "p > c \<and> p - c \<ge> len")
    case True
    then show ?thesis using 2 by auto
  next
    case False
    moreover have "q \<le> b" using False 2(2,3,4) by auto
    ultimately show ?thesis using 2(1) [OF False 2(2)] 2(3,4,5) by auto
  qed
qed simp

definition rsv_map_ok :: "HybmVaMgrType \<Rightarrow> (nat, ReservedGvaInfo) omap \<Rightarrow> bool" where
  "rsv_map_ok t m \<longleftrightarrow> om_wf m \<and>
     (\<forall>k i. (k, i) \<in> set m \<longrightarrow> k = ri_va i t \<and> k + ri_size i < 2 ^ 64 \<and> (0 < k \<longleftrightarrow> 0 < ri_size i)) \<and>
     (\<forall>k i k' i'. (k, i) \<in> set m \<longrightarrow> (k', i') \<in> set m \<longrightarrow> k < k' \<longrightarrow> k + ri_size i \<le> k')"

lemma rsv_mapD:
  assumes "rsv_map_ok t m" "(k, i) \<in> set m"
  shows "k = ri_va i t" "k + ri_size i < 2 ^ 64" "0 < k \<longleftrightarrow> 0 < ri_size i"
    "(k', i') \<in> set m \<Longrightarrow> k < k' \<Longrightarrow> k + ri_size i \<le> k'"
  using assms unfolding rsv_map_ok_def by blast+

lemma rsv_map_wf: "rsv_map_ok t m \<Longrightarrow> om_wf m"
  by (simp add: rsv_map_ok_def)

lemma rsv_map_Nil [simp]: "rsv_map_ok t []"
  by (simp add: rsv_map_ok_def)

lemma rsv_map_erase: "rsv_map_ok t m \<Longrightarrow> rsv_map_ok t (om_erase k m)"
  unfolding rsv_map_ok_def by (simp add: om_simps)

text \<open>An address from which \<open>len\<close> bytes are free in the pool from \<open>start\<close> to \<open>end_va\<close>.\<close>

definition free_at :: "nat \<Rightarrow> nat \<Rightarrow> nat \<Rightarrow> (nat, ReservedGvaInfo) omap \<Rightarrow> nat \<Rightarrow> bool" where
  "free_at start end_va len m a \<longleftrightarrow> start \<le> a \<and> a + len \<le> end_va \<and>
     (\<forall>k i. (k, i) \<in> set m \<longrightarrow> start \<le> k \<longrightarrow> k < end_va \<longrightarrow> apart k (ri_size i) a len)"

lemma usedRanges_iff:
  assumes m: "rsv_map_ok t (reservedMap s t)"
  shows "(p, q) \<in> set (usedRanges start end_va t s) \<longleftrightarrow>
    (\<exists>i. (p, i) \<in> set (reservedMap s t) \<and> start \<le> p \<and> p < end_va \<and> q = p + ri_size i)"
proof -
  have key: "ri_va i t = k" "u64 (k + ri_size i) = k + ri_size i" if "(k, i) \<in> set (reservedMap s t)" for k i
    using rsv_mapD(1,2) [OF m that] by simp_all
  show ?thesis
  proof
    assume "(p, q) \<in> set (usedRanges start end_va t s)"
    then obtain k i where i: "(k, i) \<in> set (reservedMap s t)" "start \<le> ri_va i t" "ri_va i t < end_va" "p = ri_va i t"
        "q = u64 (ri_va i t + ri_size i)"
      by (auto simp: usedRanges_def)
    then show "\<exists>i. (p, i) \<in> set (reservedMap s t) \<and> start \<le> p \<and> p < end_va \<and> q = p + ri_size i"
      using key [OF i(1)] by (intro exI [of _ i]) simp
  next
    assume "\<exists>i. (p, i) \<in> set (reservedMap s t) \<and> start \<le> p \<and> p < end_va \<and> q = p + ri_size i"
    then obtain i where i: "(p, i) \<in> set (reservedMap s t)" "start \<le> p" "p < end_va" "q = p + ri_size i" by blast
    then show "(p, q) \<in> set (usedRanges start end_va t s)"
      using key [OF i(1)] unfolding usedRanges_def set_map by (intro rev_image_eqI [of "(p, i)"]) auto
  qed
qed

lemma FindFreeSpace_least:
  assumes m: "rsv_map_ok t (reservedMap s t)" and pool: "0 < len" "start < end_va" "0 < start"
  shows "(\<exists>a. FindFreeSpace start end_va len t s = Some a \<and> free_at start end_va len (reservedMap s t) a \<and>
            (\<forall>b. free_at start end_va len (reservedMap s t) b \<longrightarrow> a \<le> b)) \<or>
         (FindFreeSpace start end_va len t s = None \<and> (\<forall>b. \<not> free_at start end_va len (reservedMap s t) b))"
proof (cases "len > end_va - start")
  case True
  then have "\<not> free_at start end_va len (reservedMap s t) b" for b unfolding free_at_def by linarith
  then show ?thesis using True by (simp add: FindFreeSpace_def)
next
  case False
  let ?m = "reservedMap s t"
  note rs = usedRanges_iff [OF m, of _ _ start end_va]
  define R where "R = sort (usedRanges start end_va t s)"
  have free: "free_at start end_va len ?m a \<longleftrightarrow> start \<le> a \<and> a + len \<le> end_va \<and> (\<forall>(p, q)\<in>set R. q \<le> a \<or> a + len \<le> p)" for a
  proof -
    have "(\<forall>(p, q)\<in>set R. q \<le> a \<or> a + len \<le> p) \<longleftrightarrow> (\<forall>p q. (p, q) \<in> set (usedRanges start end_va t s) \<longrightarrow> q \<le> a \<or> a + len \<le> p)" by (simp only: R_def set_sort Ball_def split_paired_All prod.case)
    also have "\<dots> \<longleftrightarrow> (\<forall>k i. (k, i) \<in> set ?m \<longrightarrow> start \<le> k \<longrightarrow> k < end_va \<longrightarrow> apart k (ri_size i) a len)"
      unfolding rs apart_def by blast
    finally show ?thesis unfolding free_at_def by simp
  qed
  have sorted: "sorted_wrt (\<lambda>x y. fst x \<le> fst y) R"
    unfolding R_def by (rule sorted_wrt_mono_rel [OF _ sorted_sort]) (auto simp: less_eq_prod_def)
  have end_p: "p < end_va" if "(p, q) \<in> set R" for p q using that rs unfolding R_def by auto
  have f: "FindFreeSpace start end_va len t s =
      (case free_scan len start R of Inl addr \<Rightarrow> Some addr
       | Inr current \<Rightarrow> if current \<le> end_va \<and> len \<le> end_va - current then Some current else None)"
    using False pool by (simp add: FindFreeSpace_def Let_def R_def)
  show ?thesis
  proof (cases "free_scan len start R")
    case (Inl a)
    have "free_at start end_va len ?m a" 
    proof -
      obtain p q where "start \<le> a" "\<forall>(p, q)\<in>set R. q \<le> a \<or> a + len \<le> p" "(p, q) \<in> set R" "a + len \<le> p"
        using free_scan_found [OF sorted Inl] by blast
      then show ?thesis using end_p [of p q] unfolding free by simp
    qed
    moreover have "a \<le> b" if "free_at start end_va len ?m b" for b
      using free_scan_least [OF pool(1), of start b R a] Inl that unfolding free by blast
    ultimately show ?thesis using f Inl by simp
  next
    case (Inr a)
    have least: "a \<le> b" if "free_at start end_va len ?m b" for b
      using free_scan_least [OF pool(1), of start b R a] Inr that unfolding free by blast
    show ?thesis
    proof (cases "a \<le> end_va \<and> len \<le> end_va - a")
      case True
      then have "free_at start end_va len ?m a" using free_scan_end [OF Inr] unfolding free by auto
      then show ?thesis using f Inr True least by simp
    next
      case False
      have "\<not> free_at start end_va len ?m b" for b
      proof
        assume b: "free_at start end_va len ?m b"
        then have "a \<le> b" "b + len \<le> end_va" using least by (simp_all add: free_at_def)
        then show False using False by linarith
      qed
      then show ?thesis using f Inr False by simp
    qed
  qed
qed


section \<open>The pools and the invariant of the reservations\<close>

definition gvm_pool :: "AscendSocType \<Rightarrow> nat \<times> nat" where
  "gvm_pool x = (if x = ASCEND_950 then (HYBM_GVM_START_ADDR_A5, HYBM_GVM_END_ADDR_A5) else (HYBM_GVM_START_ADDR, HYBM_GVM_END_ADDR))"

definition gva_pool :: "bool \<Rightarrow> nat \<times> nat" where
  "gva_pool isTrans = (if isTrans then (HYBM_TRANS_GVA_START_ADDR, HYBM_TRANS_GVA_END_ADDR)
                       else (HYBM_56BITS_GVA_START_ADDR, HYBM_56BITS_GVA_END_ADDR))"

definition pools :: "AscendSocType \<Rightarrow> HybmVaMgrType \<Rightarrow> (nat \<times> nat) set" where
  "pools x t = insert (gvm_pool x) (if t = HVM_GVA then {gva_pool False, gva_pool True} else {})"

lemmas pool_consts = HYBM_GVM_START_ADDR_A5_def HYBM_GVM_END_ADDR_A5_def HYBM_GVM_START_ADDR_def HYBM_GVM_END_ADDR_def
  HYBM_GVM_MAX_POOL_SIZE_def HYBM_56BITS_GVA_START_ADDR_def HYBM_56BITS_GVA_END_ADDR_def HYBM_TRANS_GVA_START_ADDR_def
  HYBM_TRANS_GVA_END_ADDR_def

lemma pools_iff: "P \<in> pools x t \<longleftrightarrow> P = gvm_pool x \<or> t = HVM_GVA \<and> (P = gva_pool False \<or> P = gva_pool True)"
  by (simp add: pools_def)

lemma pool_bounds: "(a, b) \<in> pools x t \<Longrightarrow> 0 < a \<and> a < b \<and> b < 2 ^ 64"
  unfolding pools_iff by (auto simp: gvm_pool_def gva_pool_def pool_consts split: if_splits)

lemma pools_apart:
  assumes "(a, b) \<in> pools x t" "(a', b') \<in> pools x t"
  shows "(a, b) = (a', b') \<or> b \<le> a' \<or> b' \<le> a"
  using assms unfolding pools_iff by (auto simp: gvm_pool_def gva_pool_def pool_consts split: if_splits)

lemma gvm_below: "gvm_pool x = (a, b) \<Longrightarrow> b \<le> HYBM_56BITS_GVA_START_ADDR" "gva_pool tr = (a, b) \<Longrightarrow> HYBM_56BITS_GVA_START_ADDR \<le> a"
  by (auto simp: gvm_pool_def gva_pool_def pool_consts split: if_splits)

definition placed :: "HybmVaMgrType \<Rightarrow> va_manager \<Rightarrow> bool" where
  "placed t s \<longleftrightarrow> (\<forall>k i. (k, i) \<in> set (reservedMap s t) \<longrightarrow> 0 < k \<longrightarrow> (\<exists>a b. (a, b) \<in> pools (soc s) t \<and> a \<le> k \<and> k + ri_size i \<le> b))"

text \<open>A global range has its device range reserved, alone, and is not longer when it is the same address.\<close>

definition owned :: "va_manager \<Rightarrow> bool" where
  "owned s \<longleftrightarrow> (\<forall>k i. (k, i) \<in> set (reservedMap s HVM_GVA) \<longrightarrow>
     (ri_va i HVM_DVA \<noteq> 0 \<longrightarrow>
        (\<exists>j. (ri_va i HVM_DVA, j) \<in> set (reservedMap s HVM_DVA) \<and> (ri_va i HVM_DVA = k \<longrightarrow> ri_size i \<le> ri_size j)) \<and>
        (\<forall>k' i'. (k', i') \<in> set (reservedMap s HVM_GVA) \<longrightarrow> ri_va i' HVM_DVA = ri_va i HVM_DVA \<longrightarrow> k' = k)) \<and>
     (k < HYBM_56BITS_GVA_START_ADDR \<longrightarrow> ri_va i HVM_DVA = k))"

definition rsv_ok :: "va_manager \<Rightarrow> bool" where
  "rsv_ok s \<longleftrightarrow> (\<forall>t. t \<noteq> HVM_BUTT \<longrightarrow> rsv_map_ok t (reservedMap s t) \<and> placed t s) \<and> owned s"

lemma rsv_okD:
  assumes "rsv_ok s"
  shows "t \<noteq> HVM_BUTT \<Longrightarrow> rsv_map_ok t (reservedMap s t)" "t \<noteq> HVM_BUTT \<Longrightarrow> placed t s" "owned s"
  using assms by (simp_all add: rsv_ok_def)

lemma ownedD:
  assumes "owned s" "(k, i) \<in> set (reservedMap s HVM_GVA)"
  shows "ri_va i HVM_DVA \<noteq> 0 \<Longrightarrow>
      \<exists>j. (ri_va i HVM_DVA, j) \<in> set (reservedMap s HVM_DVA) \<and> (ri_va i HVM_DVA = k \<longrightarrow> ri_size i \<le> ri_size j)"
    "ri_va i HVM_DVA \<noteq> 0 \<Longrightarrow> (k', i') \<in> set (reservedMap s HVM_GVA) \<Longrightarrow> ri_va i' HVM_DVA = ri_va i HVM_DVA \<Longrightarrow> k' = k"
    "k < HYBM_56BITS_GVA_START_ADDR \<Longrightarrow> ri_va i HVM_DVA = k"
  using assms unfolding owned_def by blast+

lemma rsv_map_put:
  assumes m: "rsv_map_ok t m" and v: "v = ri_va info t" "0 < v \<longleftrightarrow> 0 < ri_size info" "v + ri_size info < 2 ^ 64"
    and a: "\<And>k i. (k, i) \<in> set m \<Longrightarrow> k \<noteq> v \<Longrightarrow> apart k (ri_size i) v (ri_size info)"
  shows "rsv_map_ok t (om_put v info m)"
proof -
  have wf: "om_wf m" by (rule rsv_map_wf [OF m])
  have s: "(k, e) \<in> set (om_put v info m) \<longleftrightarrow> k = v \<and> e = info \<or> k \<noteq> v \<and> (k, e) \<in> set m" for k e
    using set_om_put [OF wf, of v info] by auto
  have "k + ri_size e \<le> k'" if kk: "(k, e) \<in> set (om_put v info m)" "(k', e') \<in> set (om_put v info m)" "k < k'" for k e k' e'
  proof -
    consider "(k, e) \<in> set m" "(k', e') \<in> set m" | "k = v" "e = info" "(k', e') \<in> set m" | "k' = v" "e' = info" "(k, e) \<in> set m"
      using kk unfolding s by auto
    then show ?thesis
    proof cases
      case 1
      then show ?thesis using rsv_mapD(4) [OF m 1] kk(3) by blast
    next
      case 2
      then show ?thesis using a [OF 2(3)] kk(3) by (auto simp: apart_def)
    next
      case 3
      then show ?thesis using a [OF 3(3)] kk(3) v(2) by (auto simp: apart_def)
    qed
  qed
  moreover have "k = ri_va e t \<and> k + ri_size e < 2 ^ 64 \<and> (0 < k \<longleftrightarrow> 0 < ri_size e)" if "(k, e) \<in> set (om_put v info m)" for k e
    using that v rsv_mapD(1-3) [OF m, of k e] unfolding s by (elim disjE conjE) auto
  ultimately show ?thesis using wf unfolding rsv_map_ok_def by simp
qed

text \<open>A free range of a pool is apart from every reservation.\<close>

lemma free_at_apart:
  assumes m: "rsv_map_ok t (reservedMap s t)" and p: "placed t s" and P: "(a, b) \<in> pools (soc s) t"
    and f: "free_at a b len (reservedMap s t) v" and k: "(k, i) \<in> set (reservedMap s t)"
  shows "apart k (ri_size i) v len"
proof (cases "0 < k")
  case True
  then obtain a' b' where ab: "(a', b') \<in> pools (soc s) t" "a' \<le> k" "k + ri_size i \<le> b'" using p k unfolding placed_def by blast
  have v: "a \<le> v" "v + len \<le> b" using f by (simp_all add: free_at_def)
  consider "(a, b) = (a', b')" | "b \<le> a'" | "b' \<le> a" using pools_apart [OF P ab(1)] by blast
  then show ?thesis
  proof cases
    case 1
    then have "k < b" using ab rsv_mapD(3) [OF m k] True by simp
    then show ?thesis using f k ab(2) 1 unfolding free_at_def by simp
  qed (use v ab in \<open>auto simp: apart_def\<close>)
next
  case False
  then show ?thesis using rsv_mapD(3) [OF m k] by (simp add: apart_def)
qed

lemma rsv_map_put_free:
  assumes "rsv_map_ok t (reservedMap s t)" "placed t s" "(a, b) \<in> pools (soc s) t"
    and f: "free_at a b (ri_size info) (reservedMap s t) (ri_va info t)" and "0 < ri_size info"
  shows "rsv_map_ok t (om_put (ri_va info t) info (reservedMap s t))"
proof -
  have "0 < a" "b < 2 ^ 64" "a \<le> ri_va info t" "ri_va info t + ri_size info \<le> b"
    using pool_bounds [OF assms(3)] f by (simp_all add: free_at_def)
  then show ?thesis using assms by (intro rsv_map_put free_at_apart [OF assms(1-4)]) auto
qed


section \<open>Every operation keeps the invariant\<close>

lemma FindFreeSpace_free:
  assumes "rsv_ok s" "t \<noteq> HVM_BUTT" "(a, b) \<in> pools (soc s) t" "FindFreeSpace a b len t s = Some v"
  shows "0 < len \<and> 0 < v \<and> free_at a b len (reservedMap s t) v"
proof -
  have "0 < len" using assms(4) by (auto simp: FindFreeSpace_def split: if_splits)
  then show ?thesis
    using FindFreeSpace_least [OF rsv_okD(1) [OF assms(1,2)], of len a b] pool_bounds [OF assms(3)] assms(4)
    by (auto simp: free_at_def)
qed

lemma AllocReserveLvaInner_free:
  assumes "rsv_ok s" "t \<noteq> HVM_BUTT" "AllocReserveLvaInner len t s = v" "v \<noteq> 0"
  shows "0 < len \<and> free_at (fst (gvm_pool (soc s))) (snd (gvm_pool (soc s))) len (reservedMap s t) v"
proof -
  have P: "(fst (gvm_pool (soc s)), snd (gvm_pool (soc s))) \<in> pools (soc s) t" by (simp add: pools_iff)
  have "FindFreeSpace (fst (gvm_pool (soc s))) (snd (gvm_pool (soc s))) len t s = Some v"
    using assms(3,4) by (auto simp: AllocReserveLvaInner_def gvm_pool_def Let_def split: if_splits option.splits)
  then show ?thesis using FindFreeSpace_free [OF assms(1,2) P] by blast
qed

lemma placed_put:
  assumes p: "placed t s" and m: "om_wf (reservedMap s t)" and P: "(a, b) \<in> pools (soc s) t"
    and v: "a \<le> v" "v + ri_size info \<le> b"
  shows "placed t (reserve_put t v info s)"
proof -
  have "\<exists>a b. (a, b) \<in> pools (soc s) t \<and> a \<le> k \<and> k + ri_size i \<le> b"
    if "(k, i) \<in> set (om_put v info (reservedMap s t))" "0 < k" for k i
  proof (cases "(k, i) \<in> set (reservedMap s t)")
    case True
    then show ?thesis using p that(2) unfolding placed_def by blast
  next
    case False
    then have "k = v" "i = info" using that(1) set_om_put [OF m, of v info] by auto
    then show ?thesis using P v by blast
  qed
  then show ?thesis by (simp add: placed_def)
qed

lemma placed_erase: "placed t s \<Longrightarrow> placed t (reserve_erase u v s)"
  unfolding placed_def by (auto simp: om_simps)

lemma placed_cong: "reservedMap s' t = reservedMap s t \<Longrightarrow> soc s' = soc s \<Longrightarrow> placed t s' \<longleftrightarrow> placed t s"
  by (simp add: placed_def)

lemma free_at_fresh:
  assumes "rsv_ok s" "t \<noteq> HVM_BUTT" "(a, b) \<in> pools (soc s) t" "0 < len" "free_at a b len (reservedMap s t) v"
  shows "(v, i) \<notin> set (reservedMap s t)"
proof
  assume k: "(v, i) \<in> set (reservedMap s t)"
  have "0 < v" using pool_bounds [OF assms(3)] assms(5) by (auto simp: free_at_def)
  then show False
    using free_at_apart [OF rsv_okD(1,2) [OF assms(1)] assms(3,5) k] rsv_mapD(3) [OF rsv_okD(1) [OF assms(1,2)] k] assms(2,4)
    by (simp add: apart_def)
qed

lemma rsv_ok_lva:
  assumes ok: "rsv_ok s" and t: "t = HVM_DVA \<or> t = HVM_HVA"
  shows "rsv_ok (snd (AllocReserveLva r len t mt s))"
proof (cases "len = 0 \<or> AllocReserveLvaInner len t s = 0")
  case True
  then show ?thesis using ok by (auto simp: AllocReserveLva_def)
next
  case False
  define v where "v = AllocReserveLvaInner len t s"
  define info where "info = \<lparr>ri_va = (\<lambda>_. 0)(t := v), ri_size = len, ri_memType = mt, ri_localRankId = r\<rparr>"
  have tb: "t \<noteq> HVM_BUTT" using t by auto
  have s': "snd (AllocReserveLva r len t mt s) = reserve_put t v info s"
    using False by (simp add: AllocReserveLva_def v_def info_def Let_def)
  have i: "ri_va info t = v" "ri_size info = len" by (simp_all add: info_def)
  have P: "(fst (gvm_pool (soc s)), snd (gvm_pool (soc s))) \<in> pools (soc s) t" by (simp add: pools_iff)
  have f: "0 < len" "free_at (fst (gvm_pool (soc s))) (snd (gvm_pool (soc s))) len (reservedMap s t) v"
    using AllocReserveLvaInner_free [OF ok tb, of len v] False by (auto simp: v_def)
  note m = rsv_okD(1,2) [OF ok]
  have mt: "rsv_map_ok t (om_put v info (reservedMap s t))"
    using rsv_map_put_free [OF m [OF tb] P, of info] f i by simp
  have pt: "placed t (reserve_put t v info s)" by (rule placed_put [OF m(2) [OF tb] rsv_map_wf [OF m(1) [OF tb]] P]) (use f(2) i in \<open>simp_all add: free_at_def\<close>)
  have "rsv_map_ok u (reservedMap (reserve_put t v info s) u) \<and> placed u (reserve_put t v info s)" if "u \<noteq> HVM_BUTT" for u
  proof (cases "u = t")
    case False
    then show ?thesis using m [OF that] placed_cong [of "reserve_put t v info s" u s] by simp
  qed (use mt pt in simp)
  moreover have "owned (reserve_put t v info s)"
    unfolding owned_def
  proof (intro allI impI conjI)
    fix k i k' i'
    assume k: "(k, i) \<in> set (reservedMap (reserve_put t v info s) HVM_GVA)"
    then have k: "(k, i) \<in> set (reservedMap s HVM_GVA)" using t by auto
    note o = ownedD [OF rsv_okD(3) [OF ok] k]
    show "ri_va i HVM_DVA = k" if "k < HYBM_56BITS_GVA_START_ADDR" using o(3) that by blast
    assume d: "ri_va i HVM_DVA \<noteq> 0"
    show "k' = k" if "(k', i') \<in> set (reservedMap (reserve_put t v info s) HVM_GVA)" "ri_va i' HVM_DVA = ri_va i HVM_DVA"
      using o(2) [OF d _ that(2)] that(1) t by auto
    obtain j where j: "(ri_va i HVM_DVA, j) \<in> set (reservedMap s HVM_DVA)" "ri_va i HVM_DVA = k \<longrightarrow> ri_size i \<le> ri_size j" using o(1) [OF d] by blast
    have "(ri_va i HVM_DVA, j) \<in> set (reservedMap (reserve_put t v info s) HVM_DVA)"
    proof (cases "t = HVM_DVA")
      case True
      then have "ri_va i HVM_DVA \<noteq> v" using j(1) free_at_fresh [OF ok tb P f, of j] by auto
      then show ?thesis using True j(1) set_om_put [OF rsv_map_wf [OF m(1) [OF tb]], of v info] by simp
    qed (use j(1) in simp)
    then show "\<exists>j. (ri_va i HVM_DVA, j) \<in> set (reservedMap (reserve_put t v info s) HVM_DVA) \<and> (ri_va i HVM_DVA = k \<longrightarrow> ri_size i \<le> ri_size j)"
      using j(2) by blast
  qed
  ultimately show ?thesis unfolding s' rsv_ok_def by blast
qed

lemma AllocReserveGva_cases:
  assumes ok: "rsv_ok s" and fit: "e56 \<or> len \<le> localSize"
  obtains (same) "snd (AllocReserveGva r len localSize mt e56 tr s) = s"
  | (taken) gva lva info where
      "snd (AllocReserveGva r len localSize mt e56 tr s) =
         reserve_put HVM_DVA lva (info\<lparr>ri_size := localSize\<rparr>) (reserve_put HVM_GVA gva info s)"
      "ri_va info HVM_GVA = gva" "ri_va info HVM_DVA = lva" "ri_size info = len" "0 < len"
      "(localSize = 0 \<and> lva = 0) \<or> (0 < localSize \<and> 0 < lva \<and>
         free_at (fst (gvm_pool (soc s))) (snd (gvm_pool (soc s))) localSize (reservedMap s HVM_DVA) lva)"
      "(gva = lva \<and> len \<le> localSize \<and> 0 < localSize) \<or>
       (0 < gva \<and> free_at (fst (gva_pool tr)) (snd (gva_pool tr)) len (reservedMap s HVM_GVA) gva)"
proof -
  define lva where "lva = (if localSize > 0 then AllocReserveLvaInner localSize HVM_DVA s else 0)"
  define g where "g = (if \<not> e56 then Some lva else if len > snd (gva_pool tr) - fst (gva_pool tr) then None
    else FindFreeSpace (fst (gva_pool tr)) (snd (gva_pool tr)) len HVM_GVA s)"
  have pool: "(if tr then HYBM_TRANS_GVA_START_ADDR else HYBM_56BITS_GVA_START_ADDR) = fst (gva_pool tr)"
      "(if tr then HYBM_TRANS_GVA_END_ADDR else HYBM_56BITS_GVA_END_ADDR) = snd (gva_pool tr)"
    by (simp_all add: gva_pool_def)
  note d = AllocReserveGva_def [of r len localSize mt e56 tr s, unfolded Let_def pool, folded lva_def, folded g_def]
  show thesis
  proof (cases "len = 0 \<or> \<not> (localSize \<noteq> 0 \<or> e56) \<or> (localSize > 0 \<and> lva = 0) \<or> g = None")
    case True
    then show thesis by (intro same) (auto simp: d)
  next
    case False
    then obtain gva where gva: "g = Some gva" by auto
    define info where "info = \<lparr>ri_va = (\<lambda>_. 0)(HVM_GVA := gva, HVM_DVA := lva), ri_size = len, ri_memType = mt, ri_localRankId = r\<rparr>"
    have a: "snd (AllocReserveGva r len localSize mt e56 tr s) =
        reserve_put HVM_DVA lva (info\<lparr>ri_size := localSize\<rparr>) (reserve_put HVM_GVA gva info s)"
      unfolding d using False gva by (auto simp: info_def)
    have b: "(localSize = 0 \<and> lva = 0) \<or> (0 < localSize \<and> 0 < lva \<and>
        free_at (fst (gvm_pool (soc s))) (snd (gvm_pool (soc s))) localSize (reservedMap s HVM_DVA) lva)"
    proof (cases "localSize = 0")
      case l: False
      then have "AllocReserveLvaInner localSize HVM_DVA s = lva" "lva \<noteq> 0" using False by (simp_all add: lva_def)
      then show ?thesis using AllocReserveLvaInner_free [OF ok, of HVM_DVA localSize lva] by simp
    qed (simp add: lva_def)
    have c: "(gva = lva \<and> len \<le> localSize \<and> 0 < localSize) \<or>
        (0 < gva \<and> free_at (fst (gva_pool tr)) (snd (gva_pool tr)) len (reservedMap s HVM_GVA) gva)"
    proof (cases e56)
      case True
      then have "FindFreeSpace (fst (gva_pool tr)) (snd (gva_pool tr)) len HVM_GVA s = Some gva"
        using gva by (simp add: g_def split: if_splits)
      moreover have "(fst (gva_pool tr), snd (gva_pool tr)) \<in> pools (soc s) HVM_GVA" by (cases tr) (simp_all add: pools_iff)
      ultimately show ?thesis using FindFreeSpace_free [OF ok] by blast
    qed (use False gva fit in \<open>auto simp: g_def\<close>)
    show thesis by (rule taken [OF a _ _ _ _ b c]) (use False in \<open>simp_all add: info_def\<close>)
  qed
qed

lemma gvm_in_pools: "(fst (gvm_pool x), snd (gvm_pool x)) \<in> pools x t"
  by (simp add: pools_iff)

lemma gva_in_pools: "(fst (gva_pool tr), snd (gva_pool tr)) \<in> pools x HVM_GVA"
  by (cases tr) (simp_all add: pools_iff)

lemma reserve_put_dva:
  assumes ok: "rsv_ok s" and l: "ri_va info HVM_DVA = lva" "ri_size info = localSize"
    and f: "(localSize = 0 \<and> lva = 0) \<or> (0 < localSize \<and> 0 < lva \<and>
      free_at (fst (gvm_pool (soc s))) (snd (gvm_pool (soc s))) localSize (reservedMap s HVM_DVA) lva)"
  shows "rsv_map_ok HVM_DVA (om_put lva info (reservedMap s HVM_DVA)) \<and> placed HVM_DVA (reserve_put HVM_DVA lva info s) \<and>
    (\<forall>j. 0 < lva \<longrightarrow> (lva, j) \<notin> set (reservedMap s HVM_DVA))"
proof (cases "localSize = 0")
  case True
  then have z: "lva = 0" using f by simp
  have "rsv_map_ok HVM_DVA (om_put lva info (reservedMap s HVM_DVA))"
    using True z l rsv_okD(1) [OF ok, of HVM_DVA] by (intro rsv_map_put) (simp_all add: apart_def)
  moreover have "placed HVM_DVA (reserve_put HVM_DVA lva info s)"
    using rsv_okD(2) [OF ok, of HVM_DVA] z set_om_put [OF rsv_map_wf [OF rsv_okD(1) [OF ok, of HVM_DVA]], of lva info]
    by (auto simp: placed_def)
  ultimately show ?thesis using z by simp
next
  case False
  then have v: "0 < lva" "0 < localSize" "free_at (fst (gvm_pool (soc s))) (snd (gvm_pool (soc s))) localSize (reservedMap s HVM_DVA) lva"
    using f by auto
  note m = rsv_okD(1,2) [OF ok, of HVM_DVA]
  have "rsv_map_ok HVM_DVA (om_put lva info (reservedMap s HVM_DVA))"
    using rsv_map_put_free [OF m gvm_in_pools, of info] v l by simp
  moreover have "placed HVM_DVA (reserve_put HVM_DVA lva info s)"
    by (rule placed_put [OF m(2) rsv_map_wf [OF m(1)] gvm_in_pools]) (use v(3) l in \<open>simp_all add: free_at_def\<close>)
  ultimately show ?thesis using free_at_fresh [OF ok _ gvm_in_pools v(2,3)] by simp
qed

lemma reserve_put_gva:
  assumes ok: "rsv_ok s" and i: "ri_va info HVM_GVA = gva" "ri_size info = len" "0 < len"
    and lv: "(localSize = 0 \<and> lva = 0) \<or> (0 < localSize \<and> 0 < lva \<and>
      free_at (fst (gvm_pool (soc s))) (snd (gvm_pool (soc s))) localSize (reservedMap s HVM_DVA) lva)"
    and gv: "(gva = lva \<and> len \<le> localSize \<and> 0 < localSize) \<or>
      (0 < gva \<and> free_at (fst (gva_pool tr)) (snd (gva_pool tr)) len (reservedMap s HVM_GVA) gva)"
  shows "rsv_map_ok HVM_GVA (om_put gva info (reservedMap s HVM_GVA)) \<and> placed HVM_GVA (reserve_put HVM_GVA gva info s) \<and>
    (gva < HYBM_56BITS_GVA_START_ADDR \<longrightarrow> lva = gva) \<and> (0 < lva \<longrightarrow> lva = gva \<longrightarrow> len \<le> localSize)"
proof -
  note m = rsv_okD(1,2) [OF ok]
  show ?thesis
  proof (cases "gva = lva \<and> len \<le> localSize \<and> 0 < localSize")
    case True
    let ?b = "snd (gvm_pool (soc s))"
    have f: "free_at (fst (gvm_pool (soc s))) ?b localSize (reservedMap s HVM_DVA) lva" using True lv by auto
    then have v: "fst (gvm_pool (soc s)) \<le> gva" "gva + len \<le> ?b" using True by (simp_all add: free_at_def)
    have b: "0 < fst (gvm_pool (soc s))" "?b < 2 ^ 64" using pool_bounds [OF gvm_in_pools] by auto
    have "apart k (ri_size i) gva len" if k: "(k, i) \<in> set (reservedMap s HVM_GVA)" for k i
    proof (cases "0 < k \<and> k < HYBM_56BITS_GVA_START_ADDR")
      case low: True
      then have d: "ri_va i HVM_DVA = k" using ownedD(3) [OF rsv_okD(3) [OF ok] k] by simp
      then obtain j where j: "(k, j) \<in> set (reservedMap s HVM_DVA)" "ri_size i \<le> ri_size j" using ownedD(1) [OF rsv_okD(3) [OF ok] k] low by auto
      have "apart k (ri_size j) lva localSize" using free_at_apart [OF m [of HVM_DVA] gvm_in_pools f j(1)] by simp
      then show ?thesis using j(2) True by (auto simp: apart_def)
    next
      case False
      then consider "k = 0" | "HYBM_56BITS_GVA_START_ADDR \<le> k" by linarith
      then show ?thesis
        using v(2) gvm_below(1) [of "soc s", OF prod.collapse [symmetric]] rsv_mapD(3) [OF m(1) [of HVM_GVA] k]
        by cases (simp_all add: apart_def)
    qed
    then have "rsv_map_ok HVM_GVA (om_put gva info (reservedMap s HVM_GVA))"
      using m(1) [of HVM_GVA] i b v by (intro rsv_map_put) simp_all
    moreover have "placed HVM_GVA (reserve_put HVM_GVA gva info s)"
      by (rule placed_put [OF m(2) [of HVM_GVA] rsv_map_wf [OF m(1) [of HVM_GVA], simplified] gvm_in_pools]) (simp_all add: v i(2))
    ultimately show ?thesis using True by simp
  next
    case False
    then have f: "0 < gva" "free_at (fst (gva_pool tr)) (snd (gva_pool tr)) len (reservedMap s HVM_GVA) gva" using gv by auto
    have "rsv_map_ok HVM_GVA (om_put gva info (reservedMap s HVM_GVA))"
      using rsv_map_put_free [OF m [of HVM_GVA] gva_in_pools [of tr], of info] f i by simp
    moreover have "placed HVM_GVA (reserve_put HVM_GVA gva info s)"
      by (rule placed_put [OF m(2) [of HVM_GVA] rsv_map_wf [OF m(1) [of HVM_GVA], simplified] gva_in_pools [of tr]]) (use f(2) in \<open>simp_all add: free_at_def i(2)\<close>)
    moreover have "HYBM_56BITS_GVA_START_ADDR \<le> gva" using gvm_below(2) [of tr, OF prod.collapse [symmetric]] f(2) by (simp add: free_at_def)
    moreover have "lva < HYBM_56BITS_GVA_START_ADDR" if "0 < lva"
      using that lv gvm_below(1) [of "soc s", OF prod.collapse [symmetric]] by (auto simp: free_at_def)
    ultimately show ?thesis by fastforce
  qed
qed

lemma rsv_ok_gva:
  assumes ok: "rsv_ok s" and fit: "e56 \<or> len \<le> localSize"
  shows "rsv_ok (snd (AllocReserveGva r len localSize mt e56 tr s))"
  using ok fit
proof (cases rule: AllocReserveGva_cases [where r = r and mt = mt and tr = tr])
  case same
  then show ?thesis using ok by simp
next
  case (taken gva lva info)
  let ?l = "info\<lparr>ri_size := localSize\<rparr>" and ?G = "reservedMap s HVM_GVA" and ?D = "reservedMap s HVM_DVA"
  let ?s = "reserve_put HVM_DVA lva ?l (reserve_put HVM_GVA gva info s)"
  note m = rsv_okD(1,2) [OF ok]
  note wfG = rsv_map_wf [OF m(1) [of HVM_GVA], simplified] and wfD = rsv_map_wf [OF m(1) [of HVM_DVA], simplified]
  have D: "rsv_map_ok HVM_DVA (om_put lva ?l ?D) \<and> placed HVM_DVA (reserve_put HVM_DVA lva ?l s) \<and> (\<forall>j. 0 < lva \<longrightarrow> (lva, j) \<notin> set ?D)"
    by (rule reserve_put_dva [OF ok _ _ taken(6)]) (simp_all add: taken(3))
  note G = reserve_put_gva [OF ok taken(2,4,5,6,7)]
  have G': "(k, i) \<in> set (reservedMap ?s HVM_GVA) \<longleftrightarrow> k = gva \<and> i = info \<or> k \<noteq> gva \<and> (k, i) \<in> set ?G" for k i
    using set_om_put [OF wfG, of gva info] by auto
  have D': "(k, i) \<in> set (reservedMap ?s HVM_DVA) \<longleftrightarrow> k = lva \<and> i = ?l \<or> k \<noteq> lva \<and> (k, i) \<in> set ?D" for k i
    using set_om_put [OF wfD, of lva ?l] by auto
  have fresh: "ri_va i HVM_DVA \<noteq> lva" if "(k, i) \<in> set ?G" "ri_va i HVM_DVA \<noteq> 0" for k i
    using ownedD(1) [OF rsv_okD(3) [OF ok] that] D that(2) by auto
  have "owned ?s"
    unfolding owned_def
  proof (intro allI impI conjI)
    fix k i k' i'
    assume k: "(k, i) \<in> set (reservedMap ?s HVM_GVA)"
    show "ri_va i HVM_DVA = k" if "k < HYBM_56BITS_GVA_START_ADDR"
      using k that G taken(3) ownedD(3) [OF rsv_okD(3) [OF ok]] unfolding G' by blast
    assume d: "ri_va i HVM_DVA \<noteq> 0"
    show "k' = k" if "(k', i') \<in> set (reservedMap ?s HVM_GVA)" "ri_va i' HVM_DVA = ri_va i HVM_DVA"
      using k that d fresh [of k i] fresh [of k' i'] taken(3) ownedD(2) [OF rsv_okD(3) [OF ok], of k i k' i'] unfolding G' by auto
    show "\<exists>j. (ri_va i HVM_DVA, j) \<in> set (reservedMap ?s HVM_DVA) \<and> (ri_va i HVM_DVA = k \<longrightarrow> ri_size i \<le> ri_size j)"
    proof (cases "k = gva")
      case True
      then have "i = info" using k unfolding G' by simp
      moreover have "(lva, ?l) \<in> set (reservedMap ?s HVM_DVA)" using D' by blast
      ultimately show ?thesis using True d G taken(3,4) by (intro exI [of _ ?l]) simp
    next
      case False
      then have k: "(k, i) \<in> set ?G" using k unfolding G' by simp
      then show ?thesis using ownedD(1) [OF rsv_okD(3) [OF ok] k d] fresh [OF k d] unfolding D' by blast
    qed
  qed
  moreover have "rsv_map_ok u (reservedMap ?s u) \<and> placed u ?s" if "u \<noteq> HVM_BUTT" for u
  proof (cases u)
    case HVM_GVA
    then show ?thesis using G placed_cong [of ?s HVM_GVA "reserve_put HVM_GVA gva info s"] by simp
  next
    case HVM_HVA
    then show ?thesis using m [of HVM_HVA] placed_cong [of ?s HVM_HVA s] by simp
  next
    case HVM_DVA
    then show ?thesis using D placed_cong [of ?s HVM_DVA "reserve_put HVM_DVA lva ?l s"] by simp
  qed (use that in simp)
  ultimately show ?thesis unfolding taken(1) rsv_ok_def by blast
qed

lemma rsv_map_ok_erased: "rsv_ok s \<Longrightarrow> u \<noteq> HVM_BUTT \<Longrightarrow> rsv_map_ok u (reservedMap (reserve_erase t v s) u) \<and> placed u (reserve_erase t v s)"
  using rsv_okD(1,2) [of s u] rsv_map_erase [of u "reservedMap s u" v] placed_erase [of u s t v] by (cases "u = t") simp_all

text \<open>Erasing a device or host range that no global range owns keeps the invariant.\<close>

lemma rsv_ok_erase:
  assumes ok: "rsv_ok s" and t: "t \<noteq> HVM_GVA" and o: "t = HVM_DVA \<Longrightarrow> \<forall>k i. (k, i) \<in> set (reservedMap s HVM_GVA) \<longrightarrow> ri_va i HVM_DVA \<noteq> v"
  shows "rsv_ok (reserve_erase t v s)"
proof -
  have G: "reservedMap (reserve_erase t v s) HVM_GVA = reservedMap s HVM_GVA" using t by simp
  have D: "(d, j) \<in> set (reservedMap (reserve_erase t v s) HVM_DVA)" if "(d, j) \<in> set (reservedMap s HVM_DVA)" "t = HVM_DVA \<longrightarrow> d \<noteq> v" for d j
    using that by (cases "t = HVM_DVA") (simp_all add: om_simps)
  have "owned (reserve_erase t v s)"
    unfolding owned_def G
  proof (intro allI impI conjI)
    fix k i k' i' assume k: "(k, i) \<in> set (reservedMap s HVM_GVA)"
    note own = ownedD [OF rsv_okD(3) [OF ok] k]
    show "ri_va i HVM_DVA = k" if "k < HYBM_56BITS_GVA_START_ADDR" using own(3) that .
    assume d: "ri_va i HVM_DVA \<noteq> 0"
    show "k' = k" if "(k', i') \<in> set (reservedMap s HVM_GVA)" "ri_va i' HVM_DVA = ri_va i HVM_DVA" using own(2) [OF d that] .
    show "\<exists>j. (ri_va i HVM_DVA, j) \<in> set (reservedMap (reserve_erase t v s) HVM_DVA) \<and> (ri_va i HVM_DVA = k \<longrightarrow> ri_size i \<le> ri_size j)"
      using own(1) [OF d] D o k by blast
  qed
  then show ?thesis using rsv_map_ok_erased [OF ok] unfolding rsv_ok_def by blast
qed

lemma rsv_ok_free_lva:
  assumes "rsv_ok s" "t = HVM_DVA \<Longrightarrow> \<forall>k i. (k, i) \<in> set (reservedMap s HVM_GVA) \<longrightarrow> ri_va i HVM_DVA \<noteq> addr"
  shows "rsv_ok (FreeReserveLva addr t s)"
  using assms rsv_ok_erase [OF assms(1), of t addr] by (auto simp: FreeReserveLva_def split: option.splits)

lemma rsv_ok_free_gva:
  assumes ok: "rsv_ok s"
  shows "rsv_ok (FreeReserveGva addr s)"
proof (cases "addr = 0 \<or> om_find addr (reservedMap s HVM_GVA) = None")
  case True
  then show ?thesis using ok by (auto simp: FreeReserveGva_def)
next
  case False
  then obtain info where f: "om_find addr (reservedMap s HVM_GVA) = Some info" by auto
  then have i: "(addr, info) \<in> set (reservedMap s HVM_GVA)"
    using om_find_iff [OF rsv_map_wf [OF rsv_okD(1) [OF ok, of HVM_GVA]]] by simp
  define t where "t = (if ri_va info HVM_DVA \<noteq> 0 then HVM_DVA else HVM_HVA)"
  let ?g = "reserve_erase HVM_GVA addr s"
  have s': "FreeReserveGva addr s = reserve_erase t (ri_va info t) ?g"
    using False f by (auto simp: FreeReserveGva_def Let_def t_def fun_upd_twist)
  have G: "(k, e) \<in> set (reservedMap ?g HVM_GVA) \<longleftrightarrow> (k, e) \<in> set (reservedMap s HVM_GVA) \<and> k \<noteq> addr" for k e
    by (simp add: om_simps)
  have "owned ?g" using rsv_okD(3) [OF ok] unfolding owned_def G by simp blast
  then have g: "rsv_ok ?g" using rsv_map_ok_erased [OF ok] unfolding rsv_ok_def by blast
  have "ri_va e HVM_DVA \<noteq> ri_va info HVM_DVA" if "(k, e) \<in> set (reservedMap ?g HVM_GVA)" "ri_va info HVM_DVA \<noteq> 0" for k e
    using that ownedD(2) [OF rsv_okD(3) [OF ok] i that(2), of k e] unfolding G by blast
  then show ?thesis unfolding s' using rsv_ok_erase [OF g, of t "ri_va info t"] by (auto simp: t_def split: if_splits)
qed


section \<open>Steps and reachable states\<close>

text \<open>One rule per public operation. A segment must not reach the end of the address space. A reservation without
  56-bit addresses asks for a local range at least as long as the global one, as every caller does, and a device
  range is freed alone only when it was reserved alone.\<close>

inductive va_step :: "va_manager \<Rightarrow> va_manager \<Rightarrow> bool" where
  add: "info_fits info \<Longrightarrow> va_step s (snd (AddVaInfo info False s))"
| remove: "va_step s (RemoveOneVaInfo va t s)"
| reserve_gva: "enable56BitsGva \<or> len \<le> localSize \<Longrightarrow> va_step s (snd (AllocReserveGva r len localSize mt enable56BitsGva isTrans s))"
| reserve_lva: "t = HVM_DVA \<or> t = HVM_HVA \<Longrightarrow> va_step s (snd (AllocReserveLva r len t mt s))"
| free_gva: "va_step s (FreeReserveGva addr s)"
| free_lva: "(\<forall>k i. t = HVM_DVA \<longrightarrow> (k, i) \<in> set (reservedMap s HVM_GVA) \<longrightarrow> ri_va i HVM_DVA \<noteq> addr) \<Longrightarrow>
    va_step s (FreeReserveLva addr t s)"
| clear: "va_step s (ClearAll s)"

inductive va_reachable :: "va_manager \<Rightarrow> bool" where
  start: "va_reachable (snd (va_Initialize socType va_manager_init))"
| step: "va_reachable s \<Longrightarrow> va_step s s' \<Longrightarrow> va_reachable s'"

lemma reserve_frame:
  "allocatedMap (snd (AllocReserveGva r len localSize mt e56 tr s)) = allocatedMap s"
  "allocatedMap (snd (AllocReserveLva r len t mt s)) = allocatedMap s"
  "allocatedMap (FreeReserveGva addr s) = allocatedMap s" "allocatedMap (FreeReserveLva addr t s) = allocatedMap s"
  by (simp_all add: AllocReserveGva_def AllocReserveLva_def FreeReserveGva_def FreeReserveLva_def Let_def split: option.splits)

lemma rsv_ok_cong: "reservedMap s' = reservedMap s \<Longrightarrow> soc s' = soc s \<Longrightarrow> rsv_ok s' \<longleftrightarrow> rsv_ok s"
  by (simp add: rsv_ok_def placed_def owned_def)

lemma add_frame: "reservedMap (snd (AddVaInfo info b s)) = reservedMap s \<and> soc (snd (AddVaInfo info b s)) = soc s"
  by (cases rule: AddVaInfo_cases [of info b s]) simp_all

lemma rsv_ok_empty: "(\<And>t. t \<noteq> HVM_BUTT \<Longrightarrow> reservedMap s t = []) \<Longrightarrow> rsv_ok s"
  by (simp add: rsv_ok_def placed_def owned_def)

theorem va_step_ok: "va_step s s' \<Longrightarrow> alloc_ok s \<Longrightarrow> rsv_ok s \<Longrightarrow> alloc_ok s' \<and> rsv_ok s'"
proof (induction rule: va_step.induct)
  case (add info s)
  then show ?case using alloc_ok_add add_frame rsv_ok_cong by blast
next
  case (remove s va t)
  then show ?case using alloc_ok_remove RemoveOneVaInfo_frame rsv_ok_cong by metis
next
  case (reserve_gva e56 len localSize s r mt tr)
  then show ?case by (simp add: rsv_ok_gva alloc_ok_cong [OF reserve_frame(1)])
next
  case (reserve_lva t s r len mt)
  then show ?case by (simp add: rsv_ok_lva alloc_ok_cong [OF reserve_frame(2)])
next
  case (free_gva s addr)
  then show ?case by (simp add: rsv_ok_free_gva alloc_ok_cong [OF reserve_frame(3)])
next
  case (free_lva t s addr)
  then show ?case using rsv_ok_free_lva [of s t addr] alloc_ok_cong [OF reserve_frame(4), of addr t s] by simp
next
  case (clear s)
  then show ?case using alloc_ok_empty rsv_ok_empty by (simp add: ClearAll_maps)
qed

theorem va_reachable_ok: "va_reachable s \<Longrightarrow> alloc_ok s \<and> rsv_ok s"
proof (induction rule: va_reachable.induct)
  case (start socType)
  then show ?case by (intro conjI alloc_ok_empty rsv_ok_empty) (simp_all add: va_Initialize_def va_manager_init_def)
next
  case (step s s')
  then show ?case using va_step_ok by blast
qed


section \<open>Properties\<close>

definition alloc_ranges :: "HybmVaMgrType \<Rightarrow> va_manager \<Rightarrow> (nat \<times> nat) set" where
  "alloc_ranges t s = (\<lambda>(k, e). (k, ai_size e)) ` set (allocatedMap s t)"

definition rsv_ranges :: "HybmVaMgrType \<Rightarrow> va_manager \<Rightarrow> (nat \<times> nat) set" where
  "rsv_ranges t s = set (map (\<lambda>(k, i). (k, ri_size i)) (filter (\<lambda>(k, _). 0 < k) (reservedMap s t)))"

text \<open>A manager with a plain reservation, a 56-bit reservation, a device reservation of its own, and a segment with
  addresses of all three kinds.\<close>

definition va_seg :: AllocatedGvaInfo where
  "va_seg = \<lparr>ai_base = \<lparr>bi_va = (\<lambda>_. 0)(HVM_GVA := 0x280040000000, HVM_DVA := 0x100000000000, HVM_HVA := 0x7000),
     bi_size = 1024, bi_memType = HYBM_MEM_TYPE_HOST\<rparr>, ai_localRankId = 0, ai_importedRankId = INVALID_RANK_ID\<rparr>"

definition va_ex1 :: va_manager where
  "va_ex1 = snd (AllocReserveGva 0 4096 4096 HYBM_MEM_TYPE_HOST False False (snd (va_Initialize ASCEND_910B va_manager_init)))"

definition va_ex2 :: va_manager where
  "va_ex2 = snd (AllocReserveGva 0 8192 1024 HYBM_MEM_TYPE_DEVICE True False va_ex1)"

definition va_example :: va_manager where
  "va_example = snd (AddVaInfo va_seg False (snd (AllocReserveLva 0 512 HVM_DVA HYBM_MEM_TYPE_DEVICE va_ex2)))"

lemma va_example_reachable: "va_reachable va_example"
  unfolding va_example_def va_ex1_def va_ex2_def
  by (rule step [OF step [OF step [OF step [OF start reserve_gva] reserve_gva] reserve_lva] add])
    (simp_all add: info_fits_def va_types_def va_seg_def)

lemmas reserve_eval = va_Initialize_def va_manager_init_def AllocReserveGva_def AllocReserveLva_def AllocReserveLvaInner_def
  FindFreeSpace_def usedRanges_def pool_consts Let_def om_find_def om_erase_def u64_def

abbreviation ri_at :: "nat \<Rightarrow> nat \<Rightarrow> nat \<Rightarrow> hybm_mem_type \<Rightarrow> ReservedGvaInfo" where
  "ri_at gva dva len mt \<equiv> \<lparr>ri_va = (\<lambda>_. 0)(HVM_GVA := gva, HVM_DVA := dva), ri_size = len, ri_memType = mt, ri_localRankId = 0\<rparr>"

lemma va_ex1_eval:
  "va_ex1 = \<lparr>soc = ASCEND_910B, allocatedMap = (\<lambda>_. []), reservedMap = (\<lambda>_. [])(
     HVM_GVA := [(0x280040000000, ri_at 0x280040000000 0x280040000000 4096 HYBM_MEM_TYPE_HOST)],
     HVM_DVA := [(0x280040000000, ri_at 0x280040000000 0x280040000000 4096 HYBM_MEM_TYPE_HOST)])\<rparr>"
  by (simp add: va_ex1_def reserve_eval)

lemma va_ex2_eval:
  "va_ex2 = \<lparr>soc = ASCEND_910B, allocatedMap = (\<lambda>_. []), reservedMap = (\<lambda>_. [])(
     HVM_GVA := [(0x280040000000, ri_at 0x280040000000 0x280040000000 4096 HYBM_MEM_TYPE_HOST),
                 (64 * 2 ^ 50, ri_at (64 * 2 ^ 50) 0x280040001000 8192 HYBM_MEM_TYPE_DEVICE)],
     HVM_DVA := [(0x280040000000, ri_at 0x280040000000 0x280040000000 4096 HYBM_MEM_TYPE_HOST),
                 (0x280040001000, ri_at (64 * 2 ^ 50) 0x280040001000 1024 HYBM_MEM_TYPE_DEVICE)])\<rparr>"
  by (simp add: va_ex2_def va_ex1_eval reserve_eval)

lemma va_example_eval:
  "va_example = va_ex2\<lparr>allocatedMap := (\<lambda>_. [])(HVM_GVA := [(0x280040000000, va_seg)], HVM_DVA := [(0x100000000000, va_seg)],
       HVM_HVA := [(0x7000, va_seg)]),
     reservedMap := (reservedMap va_ex2)(HVM_DVA := reservedMap va_ex2 HVM_DVA @
       [(0x280040001400, \<lparr>ri_va = (\<lambda>_. 0)(HVM_DVA := 0x280040001400), ri_size = 512, ri_memType = HYBM_MEM_TYPE_DEVICE, ri_localRankId = 0\<rparr>)])\<rparr>"
  by (simp add: va_example_def va_ex2_eval reserve_eval AddVaInfo_def CheckOverlap_def va_types_def va_seg_def
    om_upper_bound_def om_floor_def om_before_def BM_OK_def)



lemma TransformVa_back:
  assumes ok: "alloc_ok s" and w: "TransformVa va t t' s = w" "w \<noteq> 0"
  shows "TransformVa w t' t s = va"
proof (cases "t = t'")
  case True
  then show ?thesis using w by (auto simp: TransformVa_def split: if_splits)
next
  case False
  have t: "0 < va" "t \<noteq> HVM_BUTT" "t' \<noteq> HVM_BUTT" using w by (auto simp: TransformVa_def split: if_splits)
  note m = alloc_okD(1) [OF ok]
  obtain e where e: "FindAllocByVa va t s = Some e" "ai_va e t' \<noteq> 0" "w = u64 (ai_va e t' + (va - ai_va e t))"
    using w TransformVa_by_find [OF m [OF t(2)] t(2,3) False t(1)] by (auto split: option.splits if_splits)
  then obtain k where k: "(k, e) \<in> set (allocatedMap s t)" "k \<le> va" "va < k + ai_size e"
    using FindAllocByVa_iff [OF m [OF t(2)] t(2)] by blast
  note l = alloc_okD(2) [OF ok t(2,3) k(1) e(2)]
  have kk: "k = ai_va e t" "0 < k" "k + ai_size e < 2 ^ 64" and b: "ai_va e t' + ai_size e < 2 ^ 64"
    using seg_mapD [OF m [OF t(2)] k(1)] seg_mapD(4) [OF m [OF t(3)] l] by simp_all
  then have w': "w = ai_va e t' + (va - k)" using e(3) k(2,3) by simp
  then have "FindAllocByVa w t' s = Some e" using FindAllocByVa_iff [OF m [OF t(3)] t(3)] l k(2,3) by fastforce
  moreover have "0 < w" using w(2) by simp
  ultimately show ?thesis
    using TransformVa_by_find [OF m [OF t(3)] t(3,2) not_sym [OF False]] kk k(2,3) w' by simp
qed





text \<open>C26. \<^verbatim>\<open>FindFreeSpace\<close> is first fit: in every reachable state it returns the least address of the pool from which the
  requested bytes are free, and fails exactly when there is none.\<close>

theorem find_free_first_fit:
  assumes "va_reachable s" "t \<noteq> HVM_BUTT" "0 < len" "0 < start" "start < end_va"
  shows "FindFreeSpace start end_va len t s =
    (if \<exists>a. free_at start end_va len (reservedMap s t) a then Some (LEAST a. free_at start end_va len (reservedMap s t) a) else None)"
proof -
  have m: "rsv_map_ok t (reservedMap s t)" using va_reachable_ok [OF assms(1)] rsv_okD(1) assms(2) by blast
  from FindFreeSpace_least [OF m assms(3,5,4)] show ?thesis
  proof (elim disjE exE conjE)
    fix a
    assume a: "FindFreeSpace start end_va len t s = Some a" "free_at start end_va len (reservedMap s t) a"
      "\<forall>b. free_at start end_va len (reservedMap s t) b \<longrightarrow> a \<le> b"
    then have "(LEAST a. free_at start end_va len (reservedMap s t) a) = a" by (intro Least_equality) auto
    then show ?thesis using a by auto
  qed simp
qed

theorem find_free_first_fit_witness:
  "FindFreeSpace HYBM_GVM_START_ADDR HYBM_GVM_END_ADDR 100 HVM_DVA va_example = Some 0x280040001600 \<and>
   (LEAST a. free_at HYBM_GVM_START_ADDR HYBM_GVM_END_ADDR 100 (reservedMap va_example HVM_DVA) a) = 0x280040001600"
proof -
  have "FindFreeSpace HYBM_GVM_START_ADDR HYBM_GVM_END_ADDR 100 HVM_DVA va_example = Some 0x280040001600"
    by (simp add: FindFreeSpace_def usedRanges_def va_example_eval va_ex2_eval pool_consts u64_def)
  moreover have "0 < HYBM_GVM_START_ADDR" "HYBM_GVM_START_ADDR < HYBM_GVM_END_ADDR" by (simp_all add: pool_consts)
  ultimately show ?thesis
    using find_free_first_fit [OF va_example_reachable, of HVM_DVA 100 HYBM_GVM_START_ADDR HYBM_GVM_END_ADDR] by (simp split: if_splits)
qed


end
