(* ===== verification/Hybm_Entry.thy ===== *)
theory Hybm_Entry
  imports Va_Manager
begin

text \<open>
  The reference-counted initialisation of the hybrid memory library, \<^verbatim>\<open>hybm_init\<close> and \<^verbatim>\<open>hybm_uninit\<close> of \<^verbatim>\<open>hybm_entry.cpp\<close>.
  What the driver answers is the record \<open>platform\<close>, an argument: the results of the driver check, of loading the
  libraries and of reserving the meta area with its address, and whether that area is mapped by handle (950 or
  version 4 addresses). The tracer, the streams and the log are left out.
\<close>

record platform =
  pf_precheck :: int
  pf_load :: int
  pf_hbm_gva :: "int \<times> nat"
  pf_by_handle :: bool

record hybm_state =
  hs_initialized :: int
  initedDeviceId :: int
  g_baseAddr :: nat

definition hybm_start :: hybm_state where
  "hybm_start = \<lparr>hs_initialized = 0, initedDeviceId = -1, g_baseAddr = 0\<rparr>"

definition hybm_init :: "platform \<Rightarrow> nat \<Rightarrow> hybm_state \<Rightarrow> int \<times> hybm_state" where
  "hybm_init pf deviceId h =
     (if hs_initialized h > 0 then
        if initedDeviceId h \<noteq> int deviceId then (BM_ERROR, h)
        else if pf_load pf \<noteq> 0 then (pf_load pf, h)
        else if g_baseAddr h = 0 \<and> fst (pf_hbm_gva pf) \<noteq> 0 then (fst (pf_hbm_gva pf), h)
        else let h = (if g_baseAddr h = 0 then h\<lparr>g_baseAddr := snd (pf_hbm_gva pf)\<rparr> else h)
             in (0, h\<lparr>hs_initialized := hs_initialized h + 1\<rparr>)
      else if pf_precheck pf \<noteq> 0 then (pf_precheck pf, h)
      else if pf_load pf \<noteq> 0 then (pf_load pf, h)
      else if fst (pf_hbm_gva pf) \<noteq> BM_OK then (BM_ERROR, h)
      else (0, h\<lparr>g_baseAddr := snd (pf_hbm_gva pf), initedDeviceId := int deviceId, hs_initialized := 1\<rparr>))"

definition hybm_uninit :: "platform \<Rightarrow> hybm_state \<Rightarrow> hybm_state" where
  "hybm_uninit pf h =
     (if hs_initialized h \<le> 0 then h
      else let h = h\<lparr>hs_initialized := hs_initialized h - 1\<rparr>
        in if hs_initialized h > 0 then h
           else let h = (if \<not> pf_by_handle pf \<and> g_baseAddr h \<noteq> 0 then h\<lparr>g_baseAddr := 0\<rparr> else h)
             in h\<lparr>hs_initialized := 0\<rparr>)"

text \<open>The counter, as the other modules of the process see it.\<close>

lemma hybm_init_counts:
  "fst (hybm_init pf d h) = 0 \<Longrightarrow> 0 \<le> hs_initialized h \<Longrightarrow> hs_initialized (snd (hybm_init pf d h)) = hs_initialized h + 1"
  by (auto simp: hybm_init_def Let_def BM_ERROR_def BM_OK_def split: if_splits)

lemma hybm_init_fails: "fst (hybm_init pf d h) \<noteq> 0 \<Longrightarrow> snd (hybm_init pf d h) = h"
  by (auto simp: hybm_init_def Let_def)

lemma hybm_uninit_counts: "0 \<le> hs_initialized h \<Longrightarrow> hs_initialized (hybm_uninit pf h) = max 0 (hs_initialized h - 1)"
  by (auto simp: hybm_uninit_def Let_def)

end
