(* ===== verification/Offload_Entry.thy ===== *)
theory Offload_Entry
  imports Mem_Manager Va_Reserve Hybm_Entry
begin

text \<open>
  The host side of the offload module: the loader of the operator library (\<^verbatim>\<open>acc_offload_launch\<close>), the two memory pools
  (\<^verbatim>\<open>acc_offload_local_dram_entry\<close>, \<^verbatim>\<open>acc_offload_shared_dram_entry\<close>), the manager that owns one of them
  (\<^verbatim>\<open>acc_offload_entry_manager\<close>), and the exported functions (\<^verbatim>\<open>acc_offload.cpp\<close>).

  The state outside the module is the record \<open>host\<close>: the counter of \<^verbatim>\<open>hybm_init\<close>, the address manager, the loader, and the
  list of calls made to the memory entities, the shared-memory entry, the store, the dynamic linker and the operators,
  in order. What these calls answer is the record \<open>host_env\<close>, an argument. Handles and pointers are natural numbers, 0
  being null. The mutexes and the log lines are left out.
\<close>

section \<open>Outside the module\<close>

definition OFFLOAD_OK :: int where "OFFLOAD_OK = 0"
definition OFFLOAD_ERROR :: int where "OFFLOAD_ERROR = -1"
definition OFFLOAD_UNLOAD :: int where "OFFLOAD_UNLOAD = -2"
definition OFFLOAD_FUNCTION_FAILED :: int where "OFFLOAD_FUNCTION_FAILED = -3"

datatype offload_scene_t = OFFLOAD_SCENE_LOCAL | OFFLOAD_SCENE_SHARED | OFFLOAD_SCENE_OTHER nat

record offload_config_t =
  deviceId :: nat
  reserveSize :: nat
  allocSize :: nat
  worldSize :: nat
  rankId :: nat
  scene :: offload_scene_t
  registerHostMemory :: nat

text \<open>The fields of \<^verbatim>\<open>hybm_options\<close> and \<^verbatim>\<open>smem_bm_create_option_t\<close> that depend on the configuration.\<close>

record pool_options =
  po_devId :: nat
  po_rankId :: nat
  po_rankCount :: nat
  po_maxDRAMSize :: nat
  po_localDRAMSize :: nat
  po_register :: bool

record host_env =
  he_platform :: platform
  he_path_set :: bool
  he_path_ok :: bool
  he_lib_ok :: bool
  he_dlopen :: nat
  he_dlsym :: "string \<Rightarrow> nat"
  he_create_entity :: "pool_options \<Rightarrow> nat"
  he_reserve :: "nat \<Rightarrow> int"
  he_alloc :: "nat \<Rightarrow> nat \<Rightarrow> nat"
  he_slice_va :: "nat \<Rightarrow> nat \<Rightarrow> nat"
  he_extract :: "int \<Rightarrow> int"
  he_store :: "int \<Rightarrow> bool \<Rightarrow> nat \<Rightarrow> nat \<Rightarrow> bool"
  he_bm_entry :: nat
  he_bm_init :: "pool_options \<Rightarrow> int"
  he_bm_join :: int
  he_bm_gva :: nat
  he_bm_maxDRAM :: nat

datatype ext_call =
    CreateEntity nat | ReserveSpace nat | AllocMemory nat nat | FreeMemory nat nat | UnreserveSpace nat | DestroyEntity nat
  | CreateStore int | DestroyStore int | InitBmEntry nat | UnInitBmEntry nat | DlOpen nat | DlClose nat
  | Kernel string "int list"

record launch_api =
  gLoaded :: bool
  libHandle :: nat
  pAccOffloadSparseCopy :: nat
  pAccOffloadLruCompact :: nat
  pAccOffloadComputeLruResidentAddrs :: nat

record host =
  h_hybm :: hybm_state
  h_va :: va_manager
  h_api :: launch_api
  h_calls :: "ext_call list"

definition called :: "ext_call \<Rightarrow> host \<Rightarrow> host" where
  "called c h = h\<lparr>h_calls := h_calls h @ [c]\<rparr>"

definition call_hybm_init :: "host_env \<Rightarrow> nat \<Rightarrow> host \<Rightarrow> int \<times> host" where
  "call_hybm_init env d h = (let (r, y) = hybm_init (he_platform env) (d mod 2 ^ 16) (h_hybm h) in (r, h\<lparr>h_hybm := y\<rparr>))"

definition call_hybm_uninit :: "host_env \<Rightarrow> host \<Rightarrow> host" where
  "call_hybm_uninit env h = h\<lparr>h_hybm := hybm_uninit (he_platform env) (h_hybm h)\<rparr>"


section \<open>The operator library\<close>

definition api_start :: launch_api where
  "api_start = \<lparr>gLoaded = False, libHandle = 0, pAccOffloadSparseCopy = 0, pAccOffloadLruCompact = 0,
     pAccOffloadComputeLruResidentAddrs = 0\<rparr>"

definition TryLoadLibrary :: "host_env \<Rightarrow> host \<Rightarrow> int \<times> host" where
  "TryLoadLibrary env h =
     (if gLoaded (h_api h) then (OFFLOAD_OK, h)
      else if \<not> he_path_set env then (OFFLOAD_ERROR, h)
      else if \<not> he_path_ok env then (OFFLOAD_ERROR, h)
      else if \<not> he_lib_ok env then (OFFLOAD_ERROR, h)
      else let h = h\<lparr>h_api := (h_api h)\<lparr>libHandle := he_dlopen env\<rparr>\<rparr>
        in if he_dlopen env = 0 then (OFFLOAD_FUNCTION_FAILED, h)
           else let h = called (DlOpen (he_dlopen env)) h
             in (OFFLOAD_OK, h\<lparr>h_api := (h_api h)\<lparr>
                   pAccOffloadSparseCopy := he_dlsym env ''AccOffloadSparseCopy'',
                   pAccOffloadLruCompact := he_dlsym env ''AccOffloadLruCompact'',
                   pAccOffloadComputeLruResidentAddrs := he_dlsym env ''AccOffloadComputeLruResidentAddrs'',
                   gLoaded := True\<rparr>\<rparr>))"

definition CleanupLibrary :: "host \<Rightarrow> host" where
  "CleanupLibrary h =
     (if \<not> gLoaded (h_api h) then h
      else let lib = libHandle (h_api h);
               h = (if lib \<noteq> 0 then called (DlClose lib) h else h)
           in h\<lparr>h_api := (h_api h)\<lparr>pAccOffloadSparseCopy := 0, pAccOffloadLruCompact := 0,
                pAccOffloadComputeLruResidentAddrs := 0, libHandle := 0, gLoaded := False\<rparr>\<rparr>)"

text \<open>The inline wrappers; the arguments of an operator are the list of their values.\<close>

definition api_SparseCopy :: "int list \<Rightarrow> host \<Rightarrow> int \<times> host" where
  "api_SparseCopy args h =
     (if pAccOffloadSparseCopy (h_api h) = 0 then (OFFLOAD_UNLOAD, h)
      else (OFFLOAD_OK, called (Kernel ''AccOffloadSparseCopy'' args) h))"

definition api_LruCompact :: "int list \<Rightarrow> host \<Rightarrow> int \<times> host" where
  "api_LruCompact args h =
     (if pAccOffloadLruCompact (h_api h) = 0 then (OFFLOAD_UNLOAD, h)
      else (OFFLOAD_OK, called (Kernel ''AccOffloadLruCompact'' args) h))"

definition api_ComputeLruResidentAddrs :: "int list \<Rightarrow> host \<Rightarrow> int \<times> host" where
  "api_ComputeLruResidentAddrs args h =
     (if pAccOffloadComputeLruResidentAddrs (h_api h) = 0 then (OFFLOAD_UNLOAD, h)
      else (OFFLOAD_OK, called (Kernel ''AccOffloadComputeLruResidentAddrs'' args) h))"


section \<open>The local pool\<close>

definition GB :: nat where "GB = 1024 * 1024 * 1024"

definition AlignUp :: "nat \<Rightarrow> nat \<Rightarrow> nat" where
  "AlignUp value align = u64 (value + align - 1) AND not64 (align - 1)"

definition RangeInPool :: "nat \<Rightarrow> nat \<Rightarrow> nat \<Rightarrow> nat \<Rightarrow> bool" where
  "RangeInPool base poolSize ptr len \<longleftrightarrow>
     (if base = 0 \<or> ptr = 0 \<or> len = 0 then False
      else if ptr < base then False
      else let offset = ptr - base in offset \<le> poolSize \<and> len \<le> poolSize - offset)"

record local_entry =
  le_inited :: bool
  le_register :: bool
  le_entity :: nat
  le_slice :: nat
  le_base :: nat
  le_size :: nat
  le_memMng :: "mem_manager option"

definition local_entry_new :: local_entry where
  "local_entry_new = \<lparr>le_inited = False, le_register = False, le_entity = 0, le_slice = 0, le_base = 0, le_size = 0,
     le_memMng = None\<rparr>"

definition local_UnInitalize :: "host_env \<Rightarrow> local_entry \<Rightarrow> host \<Rightarrow> local_entry \<times> host" where
  "local_UnInitalize env e h =
     (if \<not> le_inited e then (e, h)
      else let h = (if le_entity e \<noteq> 0
                    then let h = (if le_slice e \<noteq> 0 then called (FreeMemory (le_entity e) (le_slice e)) h else h)
                         in called (DestroyEntity (le_entity e)) (called (UnreserveSpace (le_entity e)) h)
                    else h);
               h = call_hybm_uninit env (CleanupLibrary h)
           in (e\<lparr>le_entity := 0, le_register := False, le_inited := False\<rparr>, h))"

text \<open>The \<^verbatim>\<open>do { ... } while (0)\<close> of \<^verbatim>\<open>Initialize\<close>, with a \<^verbatim>\<open>break\<close> at every failure.\<close>

definition local_open :: "host_env \<Rightarrow> pool_options \<Rightarrow> local_entry \<Rightarrow> host \<Rightarrow> int \<times> local_entry \<times> host" where
  "local_open env options e h =
     (let (ret, h) = TryLoadLibrary env h
      in if ret \<noteq> OFFLOAD_OK then (OFFLOAD_ERROR, e, h)
         else let entity = he_create_entity env options;
                  e = e\<lparr>le_entity := entity\<rparr>
           in if entity = 0 then (OFFLOAD_ERROR, e, h)
              else let h = called (ReserveSpace entity) (called (CreateEntity entity) h)
                in if he_reserve env entity \<noteq> 0 then (OFFLOAD_ERROR, e, h)
                   else let slice = (if po_maxDRAMSize options > 0 then he_alloc env entity (po_localDRAMSize options) else le_slice e);
                            e = e\<lparr>le_slice := slice\<rparr>
                     in if po_maxDRAMSize options > 0 \<and> slice = 0 then (OFFLOAD_ERROR, e, h)
                        else let h = (if po_maxDRAMSize options > 0 then called (AllocMemory entity slice) h else h);
                                 e = e\<lparr>le_base := he_slice_va env entity slice\<rparr>
                          in if le_base e = 0 then (OFFLOAD_ERROR, e, h) else (ret, e, h))"

definition local_Initialize :: "host_env \<Rightarrow> offload_config_t \<Rightarrow> local_entry \<Rightarrow> host \<Rightarrow> int \<times> local_entry \<times> host" where
  "local_Initialize env config e h =
     (if le_inited e then (OFFLOAD_OK, e, h)
      else let (ret, h) = call_hybm_init env (deviceId config) h
        in if ret \<noteq> OFFLOAD_OK then (OFFLOAD_ERROR, e, call_hybm_uninit env h)
           else let alignedReserveSize = AlignUp (reserveSize config) GB;
                    alignedAllocSize = AlignUp (allocSize config) GB
             in if alignedReserveSize \<noteq> alignedAllocSize then (OFFLOAD_ERROR, e, call_hybm_uninit env h)
                else let register = (registerHostMemory config \<noteq> 0);
                         options = \<lparr>po_devId = deviceId config mod 2 ^ 16, po_rankId = 0, po_rankCount = 1,
                           po_maxDRAMSize = alignedReserveSize, po_localDRAMSize = alignedAllocSize, po_register = register\<rparr>;
                         (ret, e, h) = local_open env options (e\<lparr>le_register := register\<rparr>) h;
                         e = e\<lparr>le_size := alignedReserveSize,
                               le_memMng := Some (AccOffloadMemManager (le_base e) alignedReserveSize), le_inited := True\<rparr>
                  in if ret \<noteq> 0 then let (e, h) = local_UnInitalize env e h in (ret, e, h) else (ret, e, h))"

definition local_MallocHost :: "nat \<Rightarrow> local_entry \<Rightarrow> nat \<times> local_entry" where
  "local_MallocHost len e =
     (case le_memMng e of
        None \<Rightarrow> (0, e)
      | Some m \<Rightarrow> let (ptr, m) = mm_Allocate m len in (ptr, e\<lparr>le_memMng := Some m\<rparr>))"

definition local_FreeHost :: "nat \<Rightarrow> local_entry \<Rightarrow> local_entry" where
  "local_FreeHost ptr e =
     (case le_memMng e of
        None \<Rightarrow> e
      | Some m \<Rightarrow> if ptr = 0 then e else e\<lparr>le_memMng := Some (snd (mm_Release m ptr))\<rparr>)"

text \<open>The device address of a host range; \<^verbatim>\<open>hybm_gva_to_va\<close> asks the address manager.\<close>

definition device_address :: "bool \<Rightarrow> nat \<Rightarrow> nat \<Rightarrow> nat \<Rightarrow> nat \<Rightarrow> host \<Rightarrow> nat" where
  "device_address register base poolSize ptr len h =
     (if \<not> register \<or> \<not> RangeInPool base poolSize ptr len then 0
      else case hybm_gva_to_va (hs_initialized (h_hybm h)) False ptr HYBM_MEM_TYPE_DEVICE (h_va h) of
        (ret, va) \<Rightarrow> let deviceAddress = (case va of None \<Rightarrow> 0 | Some a \<Rightarrow> a)
                    in if ret \<noteq> OFFLOAD_OK \<or> deviceAddress = 0 then 0 else deviceAddress)"

definition local_GetDeviceAddress :: "nat \<Rightarrow> nat \<Rightarrow> local_entry \<Rightarrow> host \<Rightarrow> nat" where
  "local_GetDeviceAddress ptr len e h = device_address (le_register e) (le_base e) (le_size e) ptr len h"

definition local_SparseCopy :: "int list \<Rightarrow> host \<Rightarrow> int \<times> host" where
  "local_SparseCopy args h = api_SparseCopy args h"
definition local_LruResidentCompact :: "int list \<Rightarrow> host \<Rightarrow> int \<times> host" where
  "local_LruResidentCompact args h = api_LruCompact args h"
definition local_ComputeLruResidentAddrs :: "int list \<Rightarrow> host \<Rightarrow> int \<times> host" where
  "local_ComputeLruResidentAddrs args h = api_ComputeLruResidentAddrs args h"


section \<open>The shared pool\<close>

record shared_entry =
  se_inited :: bool
  se_register :: bool
  se_storePort :: "int option"
  se_bmEntry :: nat
  se_base :: nat
  se_size :: nat
  se_memMng :: "mem_manager option"

definition shared_entry_new :: shared_entry where
  "shared_entry_new = \<lparr>se_inited = False, se_register = False, se_storePort = None, se_bmEntry = 0, se_base = 0, se_size = 0,
     se_memMng = None\<rparr>"

definition shared_UnInitalize :: "host_env \<Rightarrow> shared_entry \<Rightarrow> host \<Rightarrow> shared_entry \<times> host" where
  "shared_UnInitalize env e h =
     (if \<not> se_inited e then (e, h)
      else let h = (if se_bmEntry e \<noteq> 0 then called (UnInitBmEntry (se_bmEntry e)) h else h);
               h = (case se_storePort e of None \<Rightarrow> h | Some p \<Rightarrow> called (DestroyStore p) h);
               h = call_hybm_uninit env (CleanupLibrary h)
           in (e\<lparr>se_memMng := None, se_bmEntry := 0, se_storePort := None, se_base := 0, se_size := 0, se_register := False,
                 se_inited := False\<rparr>, h))"

text \<open>\<^verbatim>\<open>int port = portBase + config.deviceId / config.worldSize\<close>, an unsigned sum converted to int; it determines
  \<^verbatim>\<open>storeUrl_\<close>, whose host part is constant.\<close>

definition store_port :: "offload_config_t \<Rightarrow> int" where
  "store_port config =
     (let x = (8500 + deviceId config div worldSize config) mod 2 ^ 32 in if x \<ge> 2 ^ 31 then int x - 2 ^ 32 else int x)"

definition shared_open :: "host_env \<Rightarrow> offload_config_t \<Rightarrow> shared_entry \<Rightarrow> host \<Rightarrow> int \<times> shared_entry \<times> host" where
  "shared_open env config e h =
     (let (ret, h) = call_hybm_init env (deviceId config) h
      in if ret \<noteq> OFFLOAD_OK then (ret, e, h)
         else let (ret, h) = TryLoadLibrary env h
           in if ret \<noteq> OFFLOAD_OK then (ret, e, h)
              else let port = store_port config; e = e\<lparr>se_storePort := Some port\<rparr>
                in if he_extract env port \<noteq> OFFLOAD_OK then (OFFLOAD_ERROR, e, h)
                   else if \<not> he_store env port (rankId config = 0) (worldSize config) (rankId config) then (OFFLOAD_ERROR, e, h)
                   else let h = called (CreateStore port) h; e = e\<lparr>se_bmEntry := he_bm_entry env\<rparr>
                     in if he_bm_entry env = 0 then (OFFLOAD_ERROR, e, h)
                        else let alignedReserveSize = AlignUp (reserveSize config) GB;
                                 register = (registerHostMemory config \<noteq> 0);
                                 option = \<lparr>po_devId = deviceId config, po_rankId = rankId config, po_rankCount = worldSize config,
                                   po_maxDRAMSize = alignedReserveSize, po_localDRAMSize = AlignUp (allocSize config) GB,
                                   po_register = register\<rparr>;
                                 e = e\<lparr>se_register := register\<rparr>;
                                 h = called (InitBmEntry (he_bm_entry env)) h
                          in if he_bm_init env option \<noteq> OFFLOAD_OK then (OFFLOAD_ERROR, e, h)
                             else if he_bm_join env \<noteq> OFFLOAD_OK then (he_bm_join env, e, h)
                             else if he_bm_gva env = 0 then (OFFLOAD_ERROR, e, h)
                             else let base = u64 (he_bm_gva env + he_bm_maxDRAM env * rankId config)
                               in (OFFLOAD_OK, e\<lparr>se_base := base, se_size := alignedReserveSize,
                                     se_memMng := Some (AccOffloadMemManager base alignedReserveSize)\<rparr>, h))"

definition shared_Initialize :: "host_env \<Rightarrow> offload_config_t \<Rightarrow> shared_entry \<Rightarrow> host \<Rightarrow> int \<times> shared_entry \<times> host" where
  "shared_Initialize env config e h =
     (if se_inited e then (OFFLOAD_OK, e, h)
      else if worldSize config = 0 then (OFFLOAD_ERROR, e, h)
      else if registerHostMemory config \<noteq> 0 \<and> worldSize config \<noteq> 1 then (OFFLOAD_ERROR, e, h)
      else let (ret, e, h) = shared_open env config e h;
               e = e\<lparr>se_inited := True\<rparr>
        in if ret \<noteq> OFFLOAD_OK then let (e, h) = shared_UnInitalize env e h in (ret, e, h) else (OFFLOAD_OK, e, h))"

definition shared_MallocHost :: "nat \<Rightarrow> shared_entry \<Rightarrow> nat \<times> shared_entry" where
  "shared_MallocHost len e =
     (case se_memMng e of
        None \<Rightarrow> (0, e)
      | Some m \<Rightarrow> let (ptr, m) = mm_Allocate m len in (ptr, e\<lparr>se_memMng := Some m\<rparr>))"

definition shared_FreeHost :: "nat \<Rightarrow> shared_entry \<Rightarrow> shared_entry" where
  "shared_FreeHost ptr e =
     (case se_memMng e of
        None \<Rightarrow> e
      | Some m \<Rightarrow> if ptr = 0 then e else e\<lparr>se_memMng := Some (snd (mm_Release m ptr))\<rparr>)"

definition shared_GetDeviceAddress :: "nat \<Rightarrow> nat \<Rightarrow> shared_entry \<Rightarrow> host \<Rightarrow> nat" where
  "shared_GetDeviceAddress ptr len e h = device_address (se_register e) (se_base e) (se_size e) ptr len h"

definition shared_SparseCopy :: "int list \<Rightarrow> host \<Rightarrow> int \<times> host" where
  "shared_SparseCopy args h = api_SparseCopy args h"
definition shared_LruResidentCompact :: "int list \<Rightarrow> host \<Rightarrow> int \<times> host" where
  "shared_LruResidentCompact args h = api_LruCompact args h"
definition shared_ComputeLruResidentAddrs :: "int list \<Rightarrow> host \<Rightarrow> int \<times> host" where
  "shared_ComputeLruResidentAddrs args h = api_ComputeLruResidentAddrs args h"


section \<open>The entry manager\<close>

text \<open>\<^verbatim>\<open>AccOffloadEntry\<close> and its two classes, with the virtual calls.\<close>

datatype AccOffloadEntry = LocalDramEntry local_entry | SharedDramEntry shared_entry

primrec entry_Initialize :: "host_env \<Rightarrow> offload_config_t \<Rightarrow> AccOffloadEntry \<Rightarrow> host \<Rightarrow> int \<times> AccOffloadEntry \<times> host" where
  "entry_Initialize env config (LocalDramEntry e) h = (let (r, e, h) = local_Initialize env config e h in (r, LocalDramEntry e, h))"
| "entry_Initialize env config (SharedDramEntry e) h = (let (r, e, h) = shared_Initialize env config e h in (r, SharedDramEntry e, h))"

primrec entry_UnInitalize :: "host_env \<Rightarrow> AccOffloadEntry \<Rightarrow> host \<Rightarrow> AccOffloadEntry \<times> host" where
  "entry_UnInitalize env (LocalDramEntry e) h = (let (e, h) = local_UnInitalize env e h in (LocalDramEntry e, h))"
| "entry_UnInitalize env (SharedDramEntry e) h = (let (e, h) = shared_UnInitalize env e h in (SharedDramEntry e, h))"

primrec entry_MallocHost :: "nat \<Rightarrow> AccOffloadEntry \<Rightarrow> nat \<times> AccOffloadEntry" where
  "entry_MallocHost len (LocalDramEntry e) = (let (p, e) = local_MallocHost len e in (p, LocalDramEntry e))"
| "entry_MallocHost len (SharedDramEntry e) = (let (p, e) = shared_MallocHost len e in (p, SharedDramEntry e))"

primrec entry_FreeHost :: "nat \<Rightarrow> AccOffloadEntry \<Rightarrow> AccOffloadEntry" where
  "entry_FreeHost ptr (LocalDramEntry e) = LocalDramEntry (local_FreeHost ptr e)"
| "entry_FreeHost ptr (SharedDramEntry e) = SharedDramEntry (shared_FreeHost ptr e)"

primrec entry_GetDeviceAddress :: "nat \<Rightarrow> nat \<Rightarrow> AccOffloadEntry \<Rightarrow> host \<Rightarrow> nat" where
  "entry_GetDeviceAddress ptr len (LocalDramEntry e) h = local_GetDeviceAddress ptr len e h"
| "entry_GetDeviceAddress ptr len (SharedDramEntry e) h = shared_GetDeviceAddress ptr len e h"

primrec entry_SparseCopy :: "int list \<Rightarrow> AccOffloadEntry \<Rightarrow> host \<Rightarrow> int \<times> host" where
  "entry_SparseCopy args (LocalDramEntry e) h = local_SparseCopy args h"
| "entry_SparseCopy args (SharedDramEntry e) h = shared_SparseCopy args h"

primrec entry_LruResidentCompact :: "int list \<Rightarrow> AccOffloadEntry \<Rightarrow> host \<Rightarrow> int \<times> host" where
  "entry_LruResidentCompact args (LocalDramEntry e) h = local_LruResidentCompact args h"
| "entry_LruResidentCompact args (SharedDramEntry e) h = shared_LruResidentCompact args h"

primrec entry_ComputeLruResidentAddrs :: "int list \<Rightarrow> AccOffloadEntry \<Rightarrow> host \<Rightarrow> int \<times> host" where
  "entry_ComputeLruResidentAddrs args (LocalDramEntry e) h = local_ComputeLruResidentAddrs args h"
| "entry_ComputeLruResidentAddrs args (SharedDramEntry e) h = shared_ComputeLruResidentAddrs args h"

text \<open>Dropping the pointer runs the destructor, which calls \<^verbatim>\<open>UnInitalize\<close>.\<close>

definition entry_reset :: "host_env \<Rightarrow> AccOffloadEntry option \<Rightarrow> host \<Rightarrow> host" where
  "entry_reset env eo h = (case eo of None \<Rightarrow> h | Some e \<Rightarrow> snd (entry_UnInitalize env e h))"

record entry_manager =
  em_inited :: bool
  em_scene :: offload_scene_t
  em_entry :: "AccOffloadEntry option"

definition em_start :: entry_manager where
  "em_start = \<lparr>em_inited = False, em_scene = OFFLOAD_SCENE_LOCAL, em_entry = None\<rparr>"

type_synonym offload = "entry_manager \<times> host"

definition em_Initialize :: "host_env \<Rightarrow> offload_config_t \<Rightarrow> offload \<Rightarrow> int \<times> offload" where
  "em_Initialize env config = (\<lambda>(m, h).
     if em_inited m then (OFFLOAD_OK, m, h)
     else case (case scene config of
                  OFFLOAD_SCENE_LOCAL \<Rightarrow> Some (LocalDramEntry local_entry_new)
                | OFFLOAD_SCENE_SHARED \<Rightarrow> Some (SharedDramEntry shared_entry_new)
                | OFFLOAD_SCENE_OTHER _ \<Rightarrow> None) of
       None \<Rightarrow> (OFFLOAD_ERROR, m, h)
     | Some e \<Rightarrow>
         let h = entry_reset env (em_entry m) h;
             m = m\<lparr>em_scene := scene config\<rparr>;
             (ret, e, h) = entry_Initialize env config e h
         in if ret \<noteq> OFFLOAD_OK
            then let (e, h) = entry_UnInitalize env e h; h = entry_reset env (Some e) h
                 in (ret, m\<lparr>em_entry := None, em_scene := OFFLOAD_SCENE_LOCAL\<rparr>, h)
            else (OFFLOAD_OK, m\<lparr>em_entry := Some e, em_inited := True\<rparr>, h))"

definition em_UnInitalize :: "host_env \<Rightarrow> offload \<Rightarrow> offload" where
  "em_UnInitalize env = (\<lambda>(m, h).
     if \<not> em_inited m then (m, h)
     else case em_entry m of
       None \<Rightarrow> (m\<lparr>em_inited := False\<rparr>, h)
     | Some e \<Rightarrow> let (e, h) = entry_UnInitalize env e h; h = entry_reset env (Some e) h
                in (m\<lparr>em_entry := None, em_inited := False\<rparr>, h))"

definition em_MallocHost :: "nat \<Rightarrow> offload \<Rightarrow> nat \<times> offload" where
  "em_MallocHost len = (\<lambda>(m, h).
     case em_entry m of
       None \<Rightarrow> (0, m, h)
     | Some e \<Rightarrow> let (p, e) = entry_MallocHost len e in (p, m\<lparr>em_entry := Some e\<rparr>, h))"

definition em_FreeHost :: "nat \<Rightarrow> offload \<Rightarrow> offload" where
  "em_FreeHost ptr = (\<lambda>(m, h).
     case em_entry m of
       None \<Rightarrow> (m, h)
     | Some e \<Rightarrow> if ptr = 0 then (m, h) else (m\<lparr>em_entry := Some (entry_FreeHost ptr e)\<rparr>, h))"

definition em_GetDeviceAddress :: "nat \<Rightarrow> nat \<Rightarrow> offload \<Rightarrow> nat" where
  "em_GetDeviceAddress ptr len = (\<lambda>(m, h).
     case em_entry m of
       None \<Rightarrow> 0
     | Some e \<Rightarrow> if ptr = 0 \<or> len = 0 then 0 else entry_GetDeviceAddress ptr len e h)"

definition em_SparseCopy :: "int list \<Rightarrow> offload \<Rightarrow> int \<times> offload" where
  "em_SparseCopy args = (\<lambda>(m, h).
     case em_entry m of None \<Rightarrow> (OFFLOAD_ERROR, m, h) | Some e \<Rightarrow> let (r, h) = entry_SparseCopy args e h in (r, m, h))"

definition em_LruResidentCompact :: "int list \<Rightarrow> offload \<Rightarrow> int \<times> offload" where
  "em_LruResidentCompact args = (\<lambda>(m, h).
     case em_entry m of None \<Rightarrow> (OFFLOAD_ERROR, m, h) | Some e \<Rightarrow> let (r, h) = entry_LruResidentCompact args e h in (r, m, h))"

definition em_ComputeLruResidentAddrs :: "int list \<Rightarrow> offload \<Rightarrow> int \<times> offload" where
  "em_ComputeLruResidentAddrs args = (\<lambda>(m, h).
     case em_entry m of None \<Rightarrow> (OFFLOAD_ERROR, m, h) | Some e \<Rightarrow> let (r, h) = entry_ComputeLruResidentAddrs args e h in (r, m, h))"


section \<open>The exported functions\<close>

definition offload_init :: "host_env \<Rightarrow> offload_config_t \<Rightarrow> offload \<Rightarrow> int \<times> offload" where
  "offload_init env config s = em_Initialize env config s"

definition offload_uninit :: "host_env \<Rightarrow> offload \<Rightarrow> offload" where
  "offload_uninit env s = em_UnInitalize env s"

definition offload_malloc :: "nat \<Rightarrow> nat \<Rightarrow> offload \<Rightarrow> nat \<times> offload" where
  "offload_malloc len flags s = (let (ptr, s) = em_MallocHost len s in if ptr = 0 then (0, s) else (ptr, s))"

definition offload_free :: "nat \<Rightarrow> nat \<Rightarrow> offload \<Rightarrow> offload" where
  "offload_free ptr flags s = em_FreeHost ptr s"

definition offload_get_device_address :: "nat \<Rightarrow> nat \<Rightarrow> offload \<Rightarrow> nat" where
  "offload_get_device_address ptr len s = em_GetDeviceAddress ptr len s"

text \<open>The device number of an operator call is cut to eight bits.\<close>

definition offload_sparse_copy :: "nat \<Rightarrow> nat \<Rightarrow> nat \<Rightarrow> nat \<Rightarrow> nat \<Rightarrow> offload \<Rightarrow> int \<times> offload" where
  "offload_sparse_copy srcPtr dstPtr lenPtr sizePtr devId s =
     em_SparseCopy (map int [srcPtr, dstPtr, lenPtr, sizePtr, devId mod 256]) s"

definition offload_lru_resident_compact :: "int list \<Rightarrow> nat \<Rightarrow> offload \<Rightarrow> int \<times> offload" where
  "offload_lru_resident_compact args devId s = em_LruResidentCompact (args @ [int (devId mod 256)]) s"

definition offload_compute_lru_resident_addrs :: "int list \<Rightarrow> nat \<Rightarrow> offload \<Rightarrow> int \<times> offload" where
  "offload_compute_lru_resident_addrs args devId s = em_ComputeLruResidentAddrs (args @ [int (devId mod 256)]) s"

end
