(* ===== verification/Offload_Lifecycle.thy ===== *)
theory Offload_Lifecycle
  imports Offload_Entry
begin

text \<open>
  The life of the offload module: what an initialisation acquires is given back, by a failing initialisation as well as
  by the uninitialisation, and between the two the exported allocation functions refine the memory manager of the pool.
\<close>

section \<open>Acquired and released\<close>

text \<open>The calls that acquired something which no later call has released.\<close>

fun settle :: "ext_call \<Rightarrow> ext_call list \<Rightarrow> ext_call list" where
  "settle (DestroyEntity e) cs = remove1 (CreateEntity e) cs"
| "settle (UnreserveSpace e) cs = remove1 (ReserveSpace e) cs"
| "settle (FreeMemory e m) cs = remove1 (AllocMemory e m) cs"
| "settle (DestroyStore p) cs = remove1 (CreateStore p) cs"
| "settle (UnInitBmEntry b) cs = remove1 (InitBmEntry b) cs"
| "settle (DlClose l) cs = remove1 (DlOpen l) cs"
| "settle (Kernel f args) cs = cs"
| "settle c cs = cs @ [c]"

definition held :: "ext_call list \<Rightarrow> ext_call list" where
  "held cs = fold settle cs []"

definition released :: "host \<Rightarrow> host \<Rightarrow> bool" where
  "released h h' \<longleftrightarrow> h_api h' = api_start \<and> hs_initialized (h_hybm h') = hs_initialized (h_hybm h) \<and>
     take (length (h_calls h)) (h_calls h') = h_calls h \<and> held (drop (length (h_calls h)) (h_calls h')) = []"

definition api_loaded :: "host_env \<Rightarrow> launch_api" where
  "api_loaded env = \<lparr>gLoaded = True, libHandle = he_dlopen env, pAccOffloadSparseCopy = he_dlsym env ''AccOffloadSparseCopy'',
     pAccOffloadLruCompact = he_dlsym env ''AccOffloadLruCompact'',
     pAccOffloadComputeLruResidentAddrs = he_dlsym env ''AccOffloadComputeLruResidentAddrs''\<rparr>"

lemmas codes = OFFLOAD_OK_def OFFLOAD_ERROR_def OFFLOAD_UNLOAD_def OFFLOAD_FUNCTION_FAILED_def

lemma TryLoadLibrary_start:
  assumes "h_api h = api_start"
  shows "TryLoadLibrary env h =
    (if he_path_set env \<and> he_path_ok env \<and> he_lib_ok env then
       if he_dlopen env = 0 then (OFFLOAD_FUNCTION_FAILED, h)
       else (OFFLOAD_OK, h\<lparr>h_api := api_loaded env, h_calls := h_calls h @ [DlOpen (he_dlopen env)]\<rparr>)
     else (OFFLOAD_ERROR, h))"
  using assms by (cases h) (simp add: TryLoadLibrary_def api_start_def api_loaded_def called_def Let_def)

lemma CleanupLibrary_start: "h_api h = api_start \<Longrightarrow> CleanupLibrary h = h"
  by (simp add: CleanupLibrary_def api_start_def)

lemma CleanupLibrary_loaded:
  "h_api h = api_loaded env \<Longrightarrow> he_dlopen env \<noteq> 0 \<Longrightarrow>
     CleanupLibrary h = h\<lparr>h_api := api_start, h_calls := h_calls h @ [DlClose (he_dlopen env)]\<rparr>"
  by (cases h) (simp add: CleanupLibrary_def api_start_def api_loaded_def called_def Let_def)

lemma hybm_balance:
  assumes "fst (hybm_init pf d y) = 0" "0 \<le> hs_initialized y"
  shows "hs_initialized (hybm_uninit pf (snd (hybm_init pf d y))) = hs_initialized y"
  using hybm_init_counts [OF assms] hybm_uninit_counts [of "snd (hybm_init pf d y)" pf] assms(2) by simp

text \<open>A failing \<^verbatim>\<open>Initialize\<close> of the local pool gives everything back, and so does \<^verbatim>\<open>UnInitalize\<close> after a good one.\<close>

lemma local_UnInitalize_inited:
  assumes "le_inited e" "h_api h = api_start \<or> (h_api h = api_loaded env \<and> he_dlopen env \<noteq> 0)"
  shows "snd (local_UnInitalize env e h) =
      h\<lparr>h_hybm := hybm_uninit (he_platform env) (h_hybm h), h_api := api_start,
        h_calls := h_calls h @ (if le_entity e \<noteq> 0 then (if le_slice e \<noteq> 0 then [FreeMemory (le_entity e) (le_slice e)] else []) @
            [UnreserveSpace (le_entity e), DestroyEntity (le_entity e)] else []) @
          (if h_api h = api_start then [] else [DlClose (he_dlopen env)])\<rparr>"
    "\<not> le_inited (fst (local_UnInitalize env e h))"
proof -
  have n: "api_loaded env \<noteq> api_start" by (simp add: api_loaded_def api_start_def)
  show "snd (local_UnInitalize env e h) =
      h\<lparr>h_hybm := hybm_uninit (he_platform env) (h_hybm h), h_api := api_start,
        h_calls := h_calls h @ (if le_entity e \<noteq> 0 then (if le_slice e \<noteq> 0 then [FreeMemory (le_entity e) (le_slice e)] else []) @
            [UnreserveSpace (le_entity e), DestroyEntity (le_entity e)] else []) @
          (if h_api h = api_start then [] else [DlClose (he_dlopen env)])\<rparr>"
    using assms(2)
  proof
    assume "h_api h = api_start"
    then show ?thesis
      using assms(1) by (cases h) (auto simp: local_UnInitalize_def call_hybm_uninit_def called_def CleanupLibrary_start Let_def)
  next
    assume "h_api h = api_loaded env \<and> he_dlopen env \<noteq> 0"
    then show ?thesis
      using assms(1) n by (cases h) (auto simp: local_UnInitalize_def call_hybm_uninit_def called_def CleanupLibrary_loaded [of _ env] Let_def)
  qed
  show "\<not> le_inited (fst (local_UnInitalize env e h))" using assms(1) by (simp add: local_UnInitalize_def Let_def)
qed

text \<open>How the pool can come out of the setup: how far it got is what has to be undone.\<close>

lemma local_open_cases:
  assumes a: "h_api h = api_start" and o: "local_open env op (local_entry_new\<lparr>le_register := g\<rparr>) h = (r, e, h')"
  obtains (unloaded) "r \<noteq> 0" "h' = h" "le_entity e = 0" "le_slice e = 0"
  | (loaded) cs where "he_dlopen env \<noteq> 0"
      "h' = h\<lparr>h_api := api_loaded env, h_calls := h_calls h @ [DlOpen (he_dlopen env)] @ cs\<rparr>"
      "cs = (if le_entity e \<noteq> 0 then [CreateEntity (le_entity e), ReserveSpace (le_entity e)] @
              (if le_slice e \<noteq> 0 then [AllocMemory (le_entity e) (le_slice e)] else []) else [])"
      "le_entity e = 0 \<longrightarrow> le_slice e = 0" "r = 0 \<longrightarrow> le_base e \<noteq> 0"
proof -
  show thesis
  proof (cases "he_path_set env \<and> he_path_ok env \<and> he_lib_ok env \<and> he_dlopen env \<noteq> 0")
    case False
    then have "r \<noteq> 0 \<and> h' = h \<and> e = local_entry_new\<lparr>le_register := g\<rparr>"
      using o by (auto simp: local_open_def TryLoadLibrary_start [OF a] codes split: if_splits)
    then show thesis by (intro unloaded) (simp_all add: local_entry_new_def)
  next
    case True
    then have t: "TryLoadLibrary env h = (0, h\<lparr>h_api := api_loaded env, h_calls := h_calls h @ [DlOpen (he_dlopen env)]\<rparr>)"
      by (simp add: TryLoadLibrary_start [OF a] codes)
    let ?E = "he_create_entity env op"
    let ?S = "if po_maxDRAMSize op > 0 then he_alloc env ?E (po_localDRAMSize op) else 0"
    note d = o [unfolded local_open_def t Let_def prod.case called_def]
    show thesis
    proof (cases "?E = 0 \<or> he_reserve env ?E \<noteq> 0 \<or> (po_maxDRAMSize op > 0 \<and> ?S = 0)")
      case c: True
      then show thesis
        using d True by (intro loaded [of "if ?E = 0 then [] else [CreateEntity ?E, ReserveSpace ?E]"])
          (auto simp: local_entry_new_def codes split: if_splits)
    next
      case False
      then show thesis
        using d True by (intro loaded [of "[CreateEntity ?E, ReserveSpace ?E] @ (if po_maxDRAMSize op > 0 then [AllocMemory ?E ?S] else [])"])
          (auto simp: local_entry_new_def codes split: if_splits)
    qed
  qed
qed

lemma local_released:
  assumes a: "h_api h = api_start" and c: "0 \<le> hs_initialized (h_hybm h)"
    and i: "fst (hybm_init (he_platform env) (deviceId config mod 2 ^ 16) (h_hybm h)) = 0"
    and r: "local_Initialize env config local_entry_new h = (r, e, h')"
  shows "if r = 0 then released h (snd (local_UnInitalize env e h')) \<and> \<not> le_inited (fst (local_UnInitalize env e h'))
         else \<not> le_inited e \<and> released h h'"
proof -
  define y where "y = snd (hybm_init (he_platform env) (deviceId config mod 2 ^ 16) (h_hybm h))"
  let ?h = "h\<lparr>h_hybm := y\<rparr>" and ?n = "AlignUp (reserveSize config) GB"
  let ?g = "registerHostMemory config \<noteq> 0"
  let ?op = "\<lparr>po_devId = deviceId config mod 2 ^ 16, po_rankId = 0, po_rankCount = 1, po_maxDRAMSize = ?n,
    po_localDRAMSize = AlignUp (allocSize config) GB, po_register = ?g\<rparr>"
  have b: "hs_initialized (hybm_uninit (he_platform env) y) = hs_initialized (h_hybm h)"
    using hybm_balance [OF i c] by (simp add: y_def)
  have hi: "call_hybm_init env (deviceId config) h = (0, ?h)" using i by (simp add: call_hybm_init_def y_def split_beta Let_def)
  have a': "h_api ?h = api_start" using a by simp
  have new: "\<not> le_inited local_entry_new" by (simp add: local_entry_new_def)
  obtain q f k where o: "local_open env ?op (local_entry_new\<lparr>le_register := ?g\<rparr>) ?h = (q, f, k)" by (metis prod_cases3)
  define f' where "f' = f\<lparr>le_size := ?n, le_memMng := Some (AccOffloadMemManager (le_base f) ?n), le_inited := True\<rparr>"
  have f': "le_inited f'" "le_entity f' = le_entity f" "le_slice f' = le_slice f" by (simp_all add: f'_def)
  show ?thesis
  proof (cases "?n = AlignUp (allocSize config) GB")
    case False
    then show ?thesis
      using r hi new a b by (auto simp: local_Initialize_def call_hybm_uninit_def released_def held_def codes)
  next
    case True
    have I: "local_Initialize env config local_entry_new h =
        (if q \<noteq> 0 then let (e, h) = local_UnInitalize env f' k in (q, e, h) else (q, f', k))"
      using True hi new o by (simp add: local_Initialize_def f'_def codes Let_def)
    have "released h (snd (local_UnInitalize env f' k)) \<and> \<not> le_inited (fst (local_UnInitalize env f' k))"
      using a' o
    proof (cases rule: local_open_cases)
      case unloaded
      then have "h_api k = api_start" "h_calls k = h_calls h" "h_hybm k = y" using a by simp_all
      then show ?thesis
        using local_UnInitalize_inited [OF f'(1), of k env] unloaded(3,4) b f' by (simp add: released_def held_def)
    next
      case (loaded cs)
      then have "h_api k = api_loaded env" "h_calls k = h_calls h @ [DlOpen (he_dlopen env)] @ cs" "h_hybm k = y" by simp_all
      moreover have "api_loaded env \<noteq> api_start" by (simp add: api_loaded_def api_start_def)
      ultimately show ?thesis
        using local_UnInitalize_inited [OF f'(1), of k env] loaded(1,3,4) b f' by (simp add: released_def held_def)
    qed
    then show ?thesis using r I by (auto simp: split_beta split: if_splits)
  qed
qed

text \<open>The same for the shared pool.\<close>

lemma shared_UnInitalize_inited:
  assumes "se_inited e" "h_api h = api_start \<or> (h_api h = api_loaded env \<and> he_dlopen env \<noteq> 0)"
  shows "snd (shared_UnInitalize env e h) =
      h\<lparr>h_hybm := hybm_uninit (he_platform env) (h_hybm h), h_api := api_start,
        h_calls := h_calls h @ (if se_bmEntry e \<noteq> 0 then [UnInitBmEntry (se_bmEntry e)] else []) @
          (case se_storePort e of None \<Rightarrow> [] | Some p \<Rightarrow> [DestroyStore p]) @
          (if h_api h = api_start then [] else [DlClose (he_dlopen env)])\<rparr>"
    "\<not> se_inited (fst (shared_UnInitalize env e h))"
proof -
  have n: "api_loaded env \<noteq> api_start" by (simp add: api_loaded_def api_start_def)
  show "snd (shared_UnInitalize env e h) =
      h\<lparr>h_hybm := hybm_uninit (he_platform env) (h_hybm h), h_api := api_start,
        h_calls := h_calls h @ (if se_bmEntry e \<noteq> 0 then [UnInitBmEntry (se_bmEntry e)] else []) @
          (case se_storePort e of None \<Rightarrow> [] | Some p \<Rightarrow> [DestroyStore p]) @
          (if h_api h = api_start then [] else [DlClose (he_dlopen env)])\<rparr>"
    using assms(2)
  proof
    assume "h_api h = api_start"
    then show ?thesis
      using assms(1) by (cases h; cases "se_storePort e")
        (auto simp: shared_UnInitalize_def call_hybm_uninit_def called_def CleanupLibrary_start Let_def)
  next
    assume "h_api h = api_loaded env \<and> he_dlopen env \<noteq> 0"
    then show ?thesis
      using assms(1) n by (cases h; cases "se_storePort e")
        (auto simp: shared_UnInitalize_def call_hybm_uninit_def called_def CleanupLibrary_loaded [of _ env] Let_def)
  qed
  show "\<not> se_inited (fst (shared_UnInitalize env e h))" using assms(1) by (simp add: shared_UnInitalize_def Let_def)
qed

lemma shared_open_cases:
  assumes a: "h_api h = api_start" and i: "call_hybm_init env (deviceId config) h = (0, h\<lparr>h_hybm := y\<rparr>)"
    and o: "shared_open env config shared_entry_new h = (r, e, h')"
  obtains (unloaded) "r \<noteq> 0" "h' = h\<lparr>h_hybm := y\<rparr>" "se_bmEntry e = 0" "se_storePort e = None"
  | (loaded) cs p where "he_dlopen env \<noteq> 0" "se_storePort e = Some p"
      "h' = h\<lparr>h_hybm := y, h_api := api_loaded env, h_calls := h_calls h @ [DlOpen (he_dlopen env)] @ cs\<rparr>"
      "cs = [] \<and> se_bmEntry e = 0 \<or> cs = CreateStore p # (if se_bmEntry e \<noteq> 0 then [InitBmEntry (se_bmEntry e)] else [])"
proof -
  let ?h = "h\<lparr>h_hybm := y\<rparr>"
  have a': "h_api ?h = api_start" using a by simp
  show thesis
  proof (cases "he_path_set env \<and> he_path_ok env \<and> he_lib_ok env \<and> he_dlopen env \<noteq> 0")
    case False
    then have "r \<noteq> 0 \<and> h' = ?h \<and> e = shared_entry_new"
      using o i by (auto simp: shared_open_def TryLoadLibrary_start [OF a'] codes split: if_splits)
    then show thesis by (intro unloaded) (simp_all add: shared_entry_new_def)
  next
    case l: True
    then have t: "TryLoadLibrary env ?h = (0, ?h\<lparr>h_api := api_loaded env, h_calls := h_calls h @ [DlOpen (he_dlopen env)]\<rparr>)"
      by (simp add: TryLoadLibrary_start [OF a'] codes)
    let ?p = "store_port config"
    let ?stored = "he_extract env ?p = OFFLOAD_OK \<and> he_store env ?p (rankId config = 0) (worldSize config) (rankId config)"
    note d = o [unfolded shared_open_def i Let_def prod.case t called_def]
    show thesis
    proof (cases ?stored)
      case False
      then show thesis using d l by (intro loaded [of ?p "[]"]) (auto simp: shared_entry_new_def codes split: if_splits)
    next
      case s: True
      show thesis
      proof (cases "he_bm_entry env = 0")
        case True
        then show thesis using d s l by (intro loaded [of ?p "[CreateStore ?p]"]) (auto simp: shared_entry_new_def codes)
      next
        case False
        then show thesis using d s l
          by (intro loaded [of ?p "[CreateStore ?p, InitBmEntry (he_bm_entry env)]"]) (auto simp: shared_entry_new_def codes split: if_splits)
      qed
    qed
  qed
qed

lemma shared_released:
  assumes a: "h_api h = api_start" and c: "0 \<le> hs_initialized (h_hybm h)"
    and i: "fst (hybm_init (he_platform env) (deviceId config mod 2 ^ 16) (h_hybm h)) = 0"
    and r: "shared_Initialize env config shared_entry_new h = (r, e, h')"
  shows "if r = 0 then released h (snd (shared_UnInitalize env e h')) \<and> \<not> se_inited (fst (shared_UnInitalize env e h'))
         else \<not> se_inited e \<and> released h h'"
proof -
  define y where "y = snd (hybm_init (he_platform env) (deviceId config mod 2 ^ 16) (h_hybm h))"
  have b: "hs_initialized (hybm_uninit (he_platform env) y) = hs_initialized (h_hybm h)"
    using hybm_balance [OF i c] by (simp add: y_def)
  have hi: "call_hybm_init env (deviceId config) h = (0, h\<lparr>h_hybm := y\<rparr>)"
    using i by (simp add: call_hybm_init_def y_def split_beta Let_def)
  have new: "\<not> se_inited shared_entry_new" by (simp add: shared_entry_new_def)
  obtain q f k where o: "shared_open env config shared_entry_new h = (q, f, k)" by (metis prod_cases3)
  let ?f = "f\<lparr>se_inited := True\<rparr>"
  show ?thesis
  proof (cases "worldSize config = 0 \<or> (registerHostMemory config \<noteq> 0 \<and> worldSize config \<noteq> 1)")
    case True
    then have "shared_Initialize env config shared_entry_new h = (OFFLOAD_ERROR, shared_entry_new, h)"
      using new unfolding shared_Initialize_def by presburger
    then show ?thesis using r new a by (auto simp: released_def held_def codes)
  next
    case False
    have I: "shared_Initialize env config shared_entry_new h =
        (if q \<noteq> 0 then let (e, h) = shared_UnInitalize env ?f k in (q, e, h) else (0, ?f, k))"
      using False new o by (auto simp: shared_Initialize_def codes Let_def)
    have "released h (snd (shared_UnInitalize env ?f k)) \<and> \<not> se_inited (fst (shared_UnInitalize env ?f k))"
      using a hi o
    proof (cases rule: shared_open_cases)
      case unloaded
      then have "h_api k = api_start" "h_calls k = h_calls h" "h_hybm k = y" using a by simp_all
      then show ?thesis
        using shared_UnInitalize_inited [of ?f k env] unloaded(3,4) b by (simp add: released_def held_def)
    next
      case (loaded cs p)
      then have "h_api k = api_loaded env" "h_calls k = h_calls h @ [DlOpen (he_dlopen env)] @ cs" "h_hybm k = y" by simp_all
      moreover have "api_loaded env \<noteq> api_start" by (simp add: api_loaded_def api_start_def)
      ultimately show ?thesis
        using shared_UnInitalize_inited [of ?f k env] loaded(1,2,4) b by (auto simp: released_def held_def)
    qed
    then show ?thesis using r I by (auto simp: split_beta split: if_splits)
  qed
qed

lemma UnInitalize_idle:
  "\<not> le_inited e \<Longrightarrow> local_UnInitalize env e h = (e, h)" "\<not> se_inited f \<Longrightarrow> shared_UnInitalize env f h = (f, h)"
  by (simp_all add: local_UnInitalize_def shared_UnInitalize_def)


section \<open>The pool behind the exported functions\<close>

definition em_pool :: "offload \<Rightarrow> mem_manager option" where
  "em_pool s = (case em_entry (fst s) of None \<Rightarrow> None | Some (LocalDramEntry e) \<Rightarrow> le_memMng e | Some (SharedDramEntry e) \<Rightarrow> se_memMng e)"

primrec offload_serve :: "request \<Rightarrow> offload \<Rightarrow> offload" where
  "offload_serve (Alloc n) s = snd (offload_malloc n 0 s)"
| "offload_serve (Free a) s = offload_free a 0 s"

lemma pool_malloc:
  "em_pool s = Some m \<Longrightarrow> fst (offload_malloc n f s) = fst (mm_Allocate m n) \<and> em_pool (snd (offload_malloc n f s)) = Some (snd (mm_Allocate m n))"
  by (cases s) (auto simp: em_pool_def offload_malloc_def em_MallocHost_def local_MallocHost_def shared_MallocHost_def split_beta Let_def
    split: option.splits AccOffloadEntry.splits)

lemma pool_free:
  assumes "em_pool s = Some m" "0 < mm_base m"
  shows "em_pool (offload_free a f s) = Some (snd (mm_Release m a))"
proof (cases "a = 0")
  case True
  then have "mm_Release m a = (-1, m)" using assms(2) by (simp add: mm_Release_def)
  then show ?thesis using True assms(1) by (cases s) (auto simp: offload_free_def em_FreeHost_def split: option.splits)
next
  case False
  then show ?thesis
    using assms(1) by (cases s) (auto simp: em_pool_def offload_free_def em_FreeHost_def local_FreeHost_def shared_FreeHost_def
      split: option.splits AccOffloadEntry.splits)
qed

lemma pool_serve:
  assumes "em_pool s = Some m" "mm_ok m"
  shows "em_pool (offload_serve r s) = Some (serve mm_Allocate mm_release r m)"
  using assms pool_malloc [OF assms(1)] pool_free [OF assms(1)]
  by (cases r) (simp_all add: mm_ok_def mm_release_def split_beta)

lemma pool_run:
  "em_pool s = Some m \<Longrightarrow> mm_ok m \<Longrightarrow> em_pool (fold offload_serve rs s) = Some (fold (serve mm_Allocate mm_release) rs m)"
  by (induction rs arbitrary: s m) (simp_all add: pool_serve mm.serve_ok)

lemma init_pool:
  assumes "\<not> em_inited m" "em_entry m = None" "offload_init env config (m, h) = (0, s)"
  shows "\<exists>b. em_pool s = Some (AccOffloadMemManager b (AlignUp (reserveSize config) GB))"
proof (cases "scene config")
  case OFFLOAD_SCENE_LOCAL
  obtain q e k where l: "local_Initialize env config local_entry_new h = (q, e, k)" by (metis prod_cases3)
  have "q = 0" using assms l OFFLOAD_SCENE_LOCAL by (auto simp: offload_init_def em_Initialize_def entry_reset_def codes split_beta Let_def split: if_splits)
  moreover have "em_pool s = le_memMng e"
    using assms l calculation OFFLOAD_SCENE_LOCAL by (cases s) (auto simp: offload_init_def em_Initialize_def entry_reset_def em_pool_def codes)
  ultimately show ?thesis
    using l by (auto simp: local_Initialize_def local_entry_new_def codes split_beta Let_def split: if_splits)
next
  case OFFLOAD_SCENE_SHARED
  obtain q e k where l: "shared_Initialize env config shared_entry_new h = (q, e, k)" by (metis prod_cases3)
  have "q = 0" using assms l OFFLOAD_SCENE_SHARED by (auto simp: offload_init_def em_Initialize_def entry_reset_def codes split_beta Let_def split: if_splits)
  moreover have "em_pool s = se_memMng e"
    using assms l calculation OFFLOAD_SCENE_SHARED by (cases s) (auto simp: offload_init_def em_Initialize_def entry_reset_def em_pool_def codes)
  ultimately show ?thesis
    using l by (auto simp: shared_Initialize_def shared_open_def shared_entry_new_def codes split_beta Let_def split: if_splits)
next
  case (OFFLOAD_SCENE_OTHER n)
  then show ?thesis using assms by (auto simp: offload_init_def em_Initialize_def codes)
qed


text \<open>The pool the module answers device address requests for: registered or not, its address and its size.\<close>

definition em_window :: "offload \<Rightarrow> (bool \<times> nat \<times> nat) option" where
  "em_window s = (case em_entry (fst s) of None \<Rightarrow> None | Some (LocalDramEntry e) \<Rightarrow> Some (le_register e, le_base e, le_size e)
     | Some (SharedDramEntry e) \<Rightarrow> Some (se_register e, se_base e, se_size e))"

lemma RangeInPool_iff: "RangeInPool base n ptr len \<longleftrightarrow> 0 < base \<and> 0 < len \<and> {ptr..<ptr + len} \<subseteq> {base..<base + n}"
  by (auto simp: RangeInPool_def Let_def)

lemma device_address_some:
  assumes "device_address reg base n ptr len h = d" "d \<noteq> 0"
  shows "reg \<and> RangeInPool base n ptr len \<and> 0 < hs_initialized (h_hybm h) \<and> TransformVa ptr HVM_GVA HVM_DVA (h_va h) = d"
  using assms by (auto simp: device_address_def hybm_gva_to_va_def HybmHasInited_def Let_def split: if_splits)

section \<open>Properties\<close>


text \<open>A host on which every call succeeds, and one on which the allocation of the pool fails.\<close>

definition env_example :: host_env where
  "env_example = \<lparr>he_platform = \<lparr>pf_precheck = 0, pf_load = 0, pf_hbm_gva = (0, 4096), pf_by_handle = False\<rparr>,
     he_path_set = True, he_path_ok = True, he_lib_ok = True, he_dlopen = 7, he_dlsym = (\<lambda>_. 9), he_create_entity = (\<lambda>_. 3),
     he_reserve = (\<lambda>_. 0), he_alloc = (\<lambda>_ _. 5), he_slice_va = (\<lambda>_ _. 0x280040000000), he_extract = (\<lambda>_. 0),
     he_store = (\<lambda>_ _ _ _. True), he_bm_entry = 4, he_bm_init = (\<lambda>_. 0), he_bm_join = 0, he_bm_gva = 0x280040000000,
     he_bm_maxDRAM = 2 ^ 30\<rparr>"

definition config_example :: offload_config_t where
  "config_example = \<lparr>deviceId = 1, reserveSize = 100, allocSize = 100, worldSize = 1, rankId = 0, scene = OFFLOAD_SCENE_LOCAL,
     registerHostMemory = 1\<rparr>"

definition host_start :: host where
  "host_start = \<lparr>h_hybm = hybm_start, h_va = va_manager_init, h_api = api_start, h_calls = []\<rparr>"

lemma AlignUp_example: "AlignUp 100 GB = 2 ^ 30"
  by (simp add: AlignUp_def GB_def u64_def not64_def)

lemmas init_eval = offload_init_def em_Initialize_def em_start_def entry_reset_def config_example_def host_start_def
  local_Initialize_def local_open_def local_entry_new_def call_hybm_init_def hybm_init_def hybm_start_def TryLoadLibrary_def
  api_start_def called_def AlignUp_example codes BM_OK_def Let_def

definition offload_example :: offload where
  "offload_example = snd (offload_init env_example config_example (em_start, host_start))"

lemma offload_example_init:
  "offload_init env_example config_example (em_start, host_start) = (0, offload_example)"
  by (simp add: offload_example_def init_eval env_example_def)

lemma offload_example_entry:
  "em_entry (fst offload_example) = Some (LocalDramEntry \<lparr>le_inited = True, le_register = True, le_entity = 3, le_slice = 5,
     le_base = 0x280040000000, le_size = 2 ^ 30, le_memMng = Some (AccOffloadMemManager 0x280040000000 (2 ^ 30))\<rparr>)"
  by (simp add: offload_example_def init_eval env_example_def)


text \<open>C18. When \<^verbatim>\<open>hybm_init\<close> refuses the device, because another module of the process has initialised the memory library for a
  different one, \<^verbatim>\<open>offload_init\<close> fails and takes away one reference of the other module: with one reference the library is
  shut down under it.\<close>

theorem offload_init_drops_reference:
  assumes m: "\<not> em_inited m" "em_entry m = None"
    and s: "scene config = OFFLOAD_SCENE_LOCAL \<or> (scene config = OFFLOAD_SCENE_SHARED \<and> worldSize config = 1)"
    and k: "0 < hs_initialized (h_hybm h)" "initedDeviceId (h_hybm h) \<noteq> int (deviceId config mod 2 ^ 16)"
  shows "fst (offload_init env config (m, h)) \<noteq> 0 \<and>
    hs_initialized (h_hybm (snd (snd (offload_init env config (m, h))))) = hs_initialized (h_hybm h) - 1"
proof -
  have i: "call_hybm_init env (deviceId config) h = (BM_ERROR, h)" using k by (simp add: call_hybm_init_def hybm_init_def)
  have u: "hs_initialized (hybm_uninit (he_platform env) (h_hybm h)) = hs_initialized (h_hybm h) - 1"
    using hybm_uninit_counts [of "h_hybm h" "he_platform env"] k(1) by simp
  have y: "h_hybm (CleanupLibrary h) = h_hybm h" by (simp add: CleanupLibrary_def called_def Let_def)
  from s show ?thesis
  proof
    assume "scene config = OFFLOAD_SCENE_LOCAL"
    then show ?thesis
      using m i u by (simp add: offload_init_def em_Initialize_def entry_reset_def local_Initialize_def local_entry_new_def
        local_UnInitalize_def call_hybm_uninit_def codes BM_ERROR_def)
  next
    assume "scene config = OFFLOAD_SCENE_SHARED \<and> worldSize config = 1"
    then show ?thesis
      using m i u y by (simp add: offload_init_def em_Initialize_def entry_reset_def shared_Initialize_def shared_open_def
        shared_entry_new_def shared_UnInitalize_def call_hybm_uninit_def codes BM_ERROR_def Let_def)
  qed
qed

theorem offload_init_drops_reference_witness:
  "let h = host_start\<lparr>h_hybm := \<lparr>hs_initialized = 1, initedDeviceId = 2, g_baseAddr = 4096\<rparr>\<rparr>;
       (r, m, h') = offload_init env_example config_example (em_start, h)
   in r \<noteq> 0 \<and> hs_initialized (h_hybm h') = 0"
proof -
  let ?h = "host_start\<lparr>h_hybm := \<lparr>hs_initialized = 1, initedDeviceId = 2, g_baseAddr = 4096\<rparr>\<rparr>"
  have "fst (offload_init env_example config_example (em_start, ?h)) \<noteq> 0 \<and>
    hs_initialized (h_hybm (snd (snd (offload_init env_example config_example (em_start, ?h))))) = hs_initialized (h_hybm ?h) - 1"
    by (rule offload_init_drops_reference) (simp_all add: em_start_def config_example_def)
  then show ?thesis by (simp add: split_beta)
qed

text \<open>C15. After a successful \<^verbatim>\<open>offload_init\<close> the exported \<^verbatim>\<open>offload_malloc\<close> and \<^verbatim>\<open>offload_free\<close>, in any sequence, are the
  requests of one \<^verbatim>\<open>AccOffloadMemManager\<close> over the reserved size rounded up to a gigabyte. So, when the pool the memory library
  returned does not wrap around, the blocks held are disjoint and inside it, the next block has the length asked for and
  touches none of them, and freeing an address that is not the start of a held block changes nothing.\<close>

theorem offload_pool_refines:
  assumes m: "\<not> em_inited m" "em_entry m = None" and i: "offload_init env config (m, h) = (0, s0)"
    and s: "s = fold offload_serve rs s0"
  shows "\<exists>b. em_pool s0 = Some (AccOffloadMemManager b (AlignUp (reserveSize config) GB)) \<and>
    (let L = AlignUp (reserveSize config) GB; p = fold (serve mm_Allocate mm_release) rs (AccOffloadMemManager b L) in
      0 < b \<longrightarrow> 0 < L \<longrightarrow> b + L < 2 ^ 64 \<longrightarrow> L + 16 \<le> 2 ^ 64 \<longrightarrow>
      em_pool s = Some p \<and> disjoint_ranges (mm_live p) \<and> cells (mm_live p) \<subseteq> {b..<b + L} \<and>
      (\<forall>n f a. fst (offload_malloc n f s) = a \<longrightarrow> a \<noteq> 0 \<longrightarrow>
        (\<exists>k\<ge>n. {a..<a + k} \<inter> cells (mm_live p) = {} \<and> {a..<a + k} \<subseteq> {b..<b + L})) \<and>
      (\<forall>a f. a \<notin> fst ` mm_live p \<longrightarrow> em_pool (offload_free a f s) = Some p))"
proof -
  define L where L: "L = AlignUp (reserveSize config) GB"
  obtain b where b: "em_pool s0 = Some (AccOffloadMemManager b L)" using init_pool [OF m i] L by blast
  define p where p: "p = fold (serve mm_Allocate mm_release) rs (AccOffloadMemManager b L)"
  have "em_pool s = Some p \<and> disjoint_ranges (mm_live p) \<and> cells (mm_live p) \<subseteq> {b..<b + L} \<and>
      (\<forall>n f a. fst (offload_malloc n f s) = a \<longrightarrow> a \<noteq> 0 \<longrightarrow>
        (\<exists>k\<ge>n. {a..<a + k} \<inter> cells (mm_live p) = {} \<and> {a..<a + k} \<subseteq> {b..<b + L})) \<and>
      (\<forall>a f. a \<notin> fst ` mm_live p \<longrightarrow> em_pool (offload_free a f s) = Some p)"
    if g: "0 < b" "0 < L" "b + L < 2 ^ 64" "L + 16 \<le> 2 ^ 64"
  proof -
    have ok: "mm_ok (AccOffloadMemManager b L)" "mm_pool (AccOffloadMemManager b L) = {b..<b + L}"
      using mm_ok_init g by (simp_all add: mm_pool_def AccOffloadMemManager_def)
    have okp: "mm_ok p" "mm_pool p = {b..<b + L}" using mm.run_ok [OF ok(1), of rs] ok(2) p by simp_all
    have e: "em_pool s = Some p" using pool_run [OF b ok(1)] s p by simp
    have "0 < mm_base p" using okp(1) by (simp add: mm_ok_def)
    note free = pool_free [OF e this]
    show ?thesis
      using e mm.ok_live [OF okp(1)] okp(2) pool_malloc [OF e] mm.alloc_disjoint [OF okp(1) surjective_pairing] free mm_Release_other [OF okp(1)]
      by simp
  qed
  then show ?thesis using b unfolding Let_def L [symmetric] by (intro exI [of _ b]) (simp add: p [symmetric])
qed

lemma example_pool: "em_pool offload_example = Some (AccOffloadMemManager 0x280040000000 (2 ^ 30))"
  by (simp add: em_pool_def offload_example_entry)

theorem offload_pool_refines_witness:
  "let p = fold (serve mm_Allocate mm_release) [Alloc 100, Alloc 20, Free 0x280040000000, Alloc 8]
       (AccOffloadMemManager 0x280040000000 (2 ^ 30))
   in em_pool (fold offload_serve [Alloc 100, Alloc 20, Free 0x280040000000, Alloc 8] offload_example) = Some p \<and>
      disjoint_ranges (mm_live p)"
proof -
  have start: "\<not> em_inited em_start" "em_entry em_start = None" by (simp_all add: em_start_def)
  have l: "AlignUp (reserveSize config_example) GB = 2 ^ 30" using AlignUp_example by (simp add: config_example_def)
  have "mm_base (AccOffloadMemManager b k) = b" for b k by (simp add: AccOffloadMemManager_def)
  then have inj: "AccOffloadMemManager b k = AccOffloadMemManager b' k \<longleftrightarrow> b = b'" for b b' k by metis
  show ?thesis
    using offload_pool_refines [OF start offload_example_init refl, of "[Alloc 100, Alloc 20, Free 0x280040000000, Alloc 8]"]
    unfolding l example_pool option.inject inj Let_def by auto
qed

text \<open>C17. A device address the module returns belongs to a registered pool and to a range that lies inside it, the memory library
  is initialised, and translating the device address back gives the host address that was asked for: in every state the address
  manager can reach, no two host addresses get the same device address.\<close>

theorem offload_device_address:
  assumes r: "va_reachable (h_va (snd s))" and d: "offload_get_device_address ptr len s = d" "d \<noteq> 0"
  shows "\<exists>base n. em_window s = Some (True, base, n) \<and> {ptr..<ptr + len} \<subseteq> {base..<base + n} \<and>
    0 < hs_initialized (h_hybm (snd s)) \<and> TransformVa d HVM_DVA HVM_GVA (h_va (snd s)) = ptr"
proof -
  obtain e where e: "em_entry (fst s) = Some e" "entry_GetDeviceAddress ptr len e (snd s) = d"
    using d by (auto simp: offload_get_device_address_def em_GetDeviceAddress_def split_beta split: option.splits if_splits)
  obtain reg base n where w: "em_window s = Some (reg, base, n)" "device_address reg base n ptr len (snd s) = d"
    using e by (cases e) (simp_all add: em_window_def local_GetDeviceAddress_def shared_GetDeviceAddress_def)
  then show ?thesis
    using device_address_some [OF w(2) d(2)] RangeInPool_iff TransformVa_back [OF _ _ d(2)] va_reachable_ok [OF r] by auto
qed

definition registered_example :: offload where
  "registered_example = (fst offload_example, (snd offload_example)\<lparr>h_va := va_example\<rparr>)"

theorem offload_device_address_witness:
  "offload_get_device_address 0x280040000010 32 registered_example = 0x100000000010 \<and>
   TransformVa 0x100000000010 HVM_DVA HVM_GVA va_example = 0x280040000010"
proof -
  have "hs_initialized (h_hybm (snd offload_example)) = 1" by (simp add: offload_example_def init_eval env_example_def)
  moreover have "TransformVa 0x280040000010 HVM_GVA HVM_DVA va_example = 0x100000000010"
    by (simp add: TransformVa_def va_example_eval va_seg_def om_floor_def om_before_def ai_Contains_def u64_def)
  ultimately have d: "offload_get_device_address 0x280040000010 32 registered_example = 0x100000000010"
    by (simp add: offload_get_device_address_def em_GetDeviceAddress_def registered_example_def offload_example_entry
      local_GetDeviceAddress_def device_address_def RangeInPool_def hybm_gva_to_va_def HybmHasInited_def BM_OK_def codes)
  then show ?thesis
    using offload_device_address [OF _ d] va_example_reachable by (auto simp: registered_example_def)
qed

end
