(* ===== verification/Store_Message.thy ===== *)
theory Store_Message
  imports Prelude
begin

text \<open>
  The wire format of the configuration store, \<^verbatim>\<open>src/src/smem/csrc/config_store/tcp_store/smem_message_packer.h\<close> and
  \<^verbatim>\<open>smem_message_packer.cpp\<close>.

  A byte (\<^verbatim>\<open>uint8_t\<close> or \<^verbatim>\<open>char\<close>) is a \<^typ>\<open>char\<close>, so that a \<^verbatim>\<open>std::string\<close> and a \<^verbatim>\<open>std::vector<uint8_t>\<close> are both lists
  of them. Scalars are copied byte by byte, the lowest first, as on the hosts the library supports. A buffer pointer with
  its length is a list, \<open>None\<close> being the null pointer; no object is so large that an offset into it plus a scalar
  exceeds 64 bits. Both parsers return \<open>None\<close> where the code returns -1; what they have stored in the message by then is
  not used by any caller.

  The theorems say that \<^verbatim>\<open>Unpack\<close> inverts \<^verbatim>\<open>Pack\<close> on the messages within the limits of the format and rejects all others,
  and that it accepts nothing but what \<^verbatim>\<open>Pack\<close> produces.
\<close>

type_synonym bytes = "char list"

section \<open>Scalars\<close>

primrec le_bytes :: "nat \<Rightarrow> nat \<Rightarrow> bytes" where
  "le_bytes 0 v = []"
| "le_bytes (Suc n) v = char_of v # le_bytes n (v div 256)"

primrec le_nat :: "bytes \<Rightarrow> nat" where
  "le_nat [] = 0"
| "le_nat (c # cs) = of_char c + 256 * le_nat cs"

text \<open>The value of a \<open>w\<close>-bit pattern as a signed number, and back.\<close>

definition of_bits :: "nat \<Rightarrow> nat \<Rightarrow> int" where
  "of_bits w n = (if n < 2 ^ (w - 1) then int n else int n - 2 ^ w)"

definition to_bits :: "nat \<Rightarrow> int \<Rightarrow> nat" where
  "to_bits w v = nat (v mod 2 ^ w)"

definition ReadScalar :: "bytes \<Rightarrow> nat \<Rightarrow> nat \<Rightarrow> (nat \<times> nat) option" where
  "ReadScalar buffer n offset =
     (if offset + n > length buffer then None else Some (le_nat (take n (drop offset buffer)), offset + n))"


section \<open>Messages\<close>

definition MAX_KEY_COUNT :: nat where "MAX_KEY_COUNT = 1024"
definition MAX_KEY_SIZE :: nat where "MAX_KEY_SIZE = 2048"
definition MAX_VALUE_COUNT :: nat where "MAX_VALUE_COUNT = 1024"
definition MAX_VALUE_SIZE :: nat where "MAX_VALUE_SIZE = 64 * 1024 * 1024"

datatype MessageType = SET | GET | PREFIX | WATCH | ADD | REMOVE | APPEND | CAS | WRITE | QUERY_ALIVE | WATCH_RANK_STATE
  | HEARTBEAT | INVALID_MSG

definition message_types :: "MessageType list" where
  "message_types = [SET, GET, PREFIX, WATCH, ADD, REMOVE, APPEND, CAS, WRITE, QUERY_ALIVE, WATCH_RANK_STATE, HEARTBEAT, INVALID_MSG]"

primrec mt_code :: "MessageType \<Rightarrow> int" where
  "mt_code SET = 0" | "mt_code GET = 1" | "mt_code PREFIX = 2" | "mt_code WATCH = 3" | "mt_code ADD = 4"
| "mt_code REMOVE = 5" | "mt_code APPEND = 6" | "mt_code CAS = 7" | "mt_code WRITE = 8" | "mt_code QUERY_ALIVE = 9"
| "mt_code WATCH_RANK_STATE = 10" | "mt_code HEARTBEAT = 11" | "mt_code INVALID_MSG = 12"

record SmemMessage =
  mt :: MessageType
  userDef :: int
  keys :: "string list"
  vals :: "bytes list"

definition new_message :: "MessageType \<Rightarrow> string list \<Rightarrow> bytes list \<Rightarrow> SmemMessage" where
  "new_message t ks vs = \<lparr>mt = t, userDef = -1, keys = ks, vals = vs\<rparr>"

definition baseSize :: nat where "baseSize = 4 * 8 + 2"

definition PackString :: "string \<Rightarrow> bytes" where
  "PackString str = le_bytes 8 (length str) @ str"

definition PackBytes :: "bytes \<Rightarrow> bytes" where
  "PackBytes bs = le_bytes 8 (length bs) @ bs"

definition Pack :: "SmemMessage \<Rightarrow> bytes" where
  "Pack message =
     (let totalSize = baseSize + (\<Sum>key\<leftarrow>keys message. 8 + length key) + (\<Sum>value\<leftarrow>vals message. 8 + length value)
      in le_bytes 8 totalSize @ le_bytes 8 (to_bits 64 (userDef message)) @ le_bytes 2 (to_bits 16 (mt_code (mt message))) @
         le_bytes 8 (length (keys message)) @ concat (map PackString (keys message)) @
         le_bytes 8 (length (vals message)) @ concat (map PackBytes (vals message)))"

definition Full :: "bytes option \<Rightarrow> bool" where
  "Full buffer =
     (case buffer of
        None \<Rightarrow> False
      | Some b \<Rightarrow> if length b < baseSize then False
                 else case ReadScalar b 8 0 of None \<Rightarrow> False | Some (totalSize, _) \<Rightarrow> length b \<ge> totalSize)"

definition MessageSize :: "bytes \<Rightarrow> int" where
  "MessageSize buffer = (if length buffer < baseSize then -1 else of_bits 64 (le_nat (take 8 buffer)))"

text \<open>The two loops of \<^verbatim>\<open>Unpack\<close>, over the keys and over the values, differ in the limit only.\<close>

primrec unpack_items :: "bytes \<Rightarrow> nat \<Rightarrow> nat \<Rightarrow> nat \<Rightarrow> (bytes list \<times> nat) option" where
  "unpack_items buffer limit 0 offset = Some ([], offset)"
| "unpack_items buffer limit (Suc n) offset = do {
     (len, offset) \<leftarrow> ReadScalar buffer 8 offset;
     if len \<le> limit \<and> offset + len \<le> length buffer
     then do { (items, rest) \<leftarrow> unpack_items buffer limit n (offset + len); Some (take len (drop offset buffer) # items, rest) }
     else None }"

definition Unpack :: "bytes option \<Rightarrow> (int \<times> SmemMessage) option" where
  "Unpack buffer =
     (case buffer of None \<Rightarrow> None
      | Some b \<Rightarrow> if \<not> Full (Some b) then None else do {
          (totalSize, offset) \<leftarrow> ReadScalar b 8 0;
          (user, offset) \<leftarrow> ReadScalar b 8 offset;
          (code, offset) \<leftarrow> ReadScalar b 2 offset;
          t \<leftarrow> find (\<lambda>t. mt_code t = of_bits 16 code) message_types;
          (keyCount, offset) \<leftarrow> ReadScalar b 8 offset;
          if keyCount > MAX_KEY_COUNT then None else do {
            (ks, offset) \<leftarrow> unpack_items b MAX_KEY_SIZE keyCount offset;
            (valueCount, offset) \<leftarrow> ReadScalar b 8 offset;
            if valueCount > MAX_VALUE_COUNT then None else do {
              (vs, offset) \<leftarrow> unpack_items b MAX_VALUE_SIZE valueCount offset;
              if totalSize = offset then Some (int totalSize, \<lparr>mt = t, userDef = of_bits 64 user, keys = ks, vals = vs\<rparr>)
              else None } } })"


section \<open>Reading what was written\<close>

lemma length_le_bytes [simp]: "length (le_bytes n v) = n"
  by (induction n arbitrary: v) simp_all

lemma le_nat_le_bytes: "v < 256 ^ n \<Longrightarrow> le_nat (le_bytes n v) = v"
proof (induction n arbitrary: v)
  case (Suc n)
  then have "v div 256 < 256 ^ n" by (simp add: less_mult_imp_div_less mult.commute)
  then show ?case using Suc.IH by simp
qed simp

lemma char_of_add: "char_of (of_char c + 256 * n :: nat) = c"
  using char_of_mod_256 [of "of_char c + 256 * n"] by simp

lemma le_bytes_le_nat [simp]: "le_bytes (length cs) (le_nat cs) = cs"
  by (induction cs) (simp_all add: char_of_add)

lemma le_nat_less: "le_nat cs < 256 ^ length cs"
proof (induction cs)
  case (Cons c cs)
  have "of_char c < (256 :: nat)" by simp
  moreover have "256 * le_nat cs + 256 \<le> 256 * 256 ^ length cs" using Cons by linarith
  ultimately show ?case unfolding le_nat.simps length_Cons power_Suc by linarith
qed simp

lemma of_to_bits: "0 < w \<Longrightarrow> - (2 ^ (w - 1)) \<le> v \<Longrightarrow> v < 2 ^ (w - 1) \<Longrightarrow> of_bits w (to_bits w v) = v"
proof -
  assume w: "0 < w" and v: "- (2 ^ (w - 1)) \<le> v" "v < 2 ^ (w - 1)"
  have p: "(2 :: int) ^ w = 2 * 2 ^ (w - 1)" using w by (cases w) simp_all
  show ?thesis
  proof (cases "0 \<le> v")
    case True
    then have "v mod 2 ^ w = v" using v p by (intro mod_pos_pos_trivial) auto
    then show ?thesis using True v by (simp add: of_bits_def to_bits_def nat_less_iff)
  next
    case False
    then have "v mod 2 ^ w = v + 2 ^ w" using v p mod_pos_pos_trivial [of "v + 2 ^ w" "2 ^ w"] by simp
    then show ?thesis using False v p by (simp add: of_bits_def to_bits_def nat_less_iff)
  qed
qed

lemma to_of_bits: "0 < w \<Longrightarrow> n < 2 ^ w \<Longrightarrow> to_bits w (of_bits w n) = n"
  by (auto simp: of_bits_def to_bits_def nat_mod_distrib nat_power_eq)

lemma of_bits_range: "0 < w \<Longrightarrow> n < 2 ^ w \<Longrightarrow> - (2 ^ (w - 1)) \<le> of_bits w n \<and> of_bits w n < 2 ^ (w - 1)"
proof -
  assume w: "0 < w" and n: "n < 2 ^ w"
  have p: "(2 :: int) ^ w = 2 * 2 ^ (w - 1)" using w by (cases w) simp_all
  have "int n < 2 ^ w" using n by (metis of_nat_less_iff of_nat_numeral of_nat_power)
  moreover have "2 ^ (w - 1) \<le> int n" if "\<not> n < 2 ^ (w - 1)" using that by (metis not_less of_nat_le_iff of_nat_numeral of_nat_power)
  moreover have "int n < 2 ^ (w - 1)" if "n < 2 ^ (w - 1)" using that by (metis of_nat_less_iff of_nat_numeral of_nat_power)
  ultimately show ?thesis using p by (auto simp: of_bits_def)
qed

lemma to_bits_less: "to_bits w v < 2 ^ w"
  by (simp add: to_bits_def nat_less_iff)

lemma ReadScalar_at:
  "v < 256 ^ n \<Longrightarrow> offset = length pre \<Longrightarrow> ReadScalar (pre @ le_bytes n v @ suf) n offset = Some (v, offset + n)"
  by (simp add: ReadScalar_def le_nat_le_bytes)

lemma ReadScalar_Some:
  "ReadScalar b n offset = Some (v, e) \<longleftrightarrow> e = offset + n \<and> e \<le> length b \<and> take n (drop offset b) = le_bytes n v \<and> v < 256 ^ n"
proof
  assume a: "ReadScalar b n offset = Some (v, e)"
  have "length (take n (drop offset b)) = n" using a by (auto simp: ReadScalar_def split: if_splits)
  then have "le_bytes n (le_nat (take n (drop offset b))) = take n (drop offset b)" "le_nat (take n (drop offset b)) < 256 ^ n"
    using le_bytes_le_nat le_nat_less by metis+
  then show "e = offset + n \<and> e \<le> length b \<and> take n (drop offset b) = le_bytes n v \<and> v < 256 ^ n"
    using a by (auto simp: ReadScalar_def split: if_splits)
qed (auto simp: ReadScalar_def le_nat_le_bytes)

section \<open>The items of a message\<close>

lemma PackString_eq: "PackString = PackBytes"
  by (simp add: PackString_def PackBytes_def fun_eq_iff)

lemma length_PackBytes: "length (concat (map PackBytes xs)) = (\<Sum>x\<leftarrow>xs. 8 + length x)"
  by (induction xs) (simp_all add: PackBytes_def)

lemma unpack_items_at:
  assumes "\<forall>x\<in>set xs. length x < 2 ^ 64"
  shows "unpack_items (pre @ concat (map PackBytes xs) @ suf) limit (length xs) (length pre) =
    (if \<forall>x\<in>set xs. length x \<le> limit then Some (xs, length pre + length (concat (map PackBytes xs))) else None)"
  using assms
proof (induction xs arbitrary: pre)
  case (Cons x xs)
  let ?b = "pre @ le_bytes 8 (length x) @ x @ concat (map PackBytes xs) @ suf"
  have b: "pre @ concat (map PackBytes (x # xs)) @ suf = ?b" by (simp add: PackBytes_def)
  have r: "ReadScalar ?b 8 (length pre) = Some (length x, length pre + 8)" using Cons.prems by (intro ReadScalar_at) simp_all
  have i: "unpack_items ?b limit (length xs) (length pre + 8 + length x) =
      (if \<forall>x\<in>set xs. length x \<le> limit then Some (xs, length pre + 8 + length x + length (concat (map PackBytes xs))) else None)"
    using Cons.IH [of "pre @ le_bytes 8 (length x) @ x"] Cons.prems by (simp add: add.assoc)
  have "length (PackBytes x) = 8 + length x" by (simp add: PackBytes_def)
  then show ?case unfolding b by (simp add: r i)
qed simp

lemma take_from: "o' = k + n \<Longrightarrow> o' \<le> e \<Longrightarrow> take (e - k) (drop k b) = take n (drop k b) @ take (e - o') (drop o' b)"
  using take_add [of n "e - o'" "drop k b"] by (simp add: add.commute)

lemma unpack_items_Some:
  "unpack_items b limit n offset = Some (xs, e) \<Longrightarrow> offset \<le> length b \<Longrightarrow>
     length xs = n \<and> offset \<le> e \<and> e \<le> length b \<and> take (e - offset) (drop offset b) = concat (map PackBytes xs) \<and>
     (\<forall>x\<in>set xs. length x \<le> limit)"
proof (induction n arbitrary: offset xs)
  case (Suc n)
  obtain len off where r: "ReadScalar b 8 offset = Some (len, off)" using Suc.prems(1) by (auto split: Option.bind_splits)
  then obtain items where i: "len \<le> limit" "off + len \<le> length b" "unpack_items b limit n (off + len) = Some (items, e)"
    "xs = take len (drop off b) # items"
    using Suc.prems(1) by (auto split: if_splits Option.bind_splits)
  have o: "off = offset + 8" "take 8 (drop offset b) = le_bytes 8 len" using r ReadScalar_Some by auto
  note h = Suc.IH [OF i(3,2)]
  have "take (e - offset) (drop offset b) =
      take 8 (drop offset b) @ take len (drop off b) @ take (e - (off + len)) (drop (off + len) b)"
    using h o(1) take_from [of off offset 8 e b] take_from [of "off + len" off len e b] by simp
  then show ?case using h i o by (auto simp: PackBytes_def)
qed simp

section \<open>Round trip\<close>

definition within_limits :: "SmemMessage \<Rightarrow> bool" where
  "within_limits m \<longleftrightarrow> length (keys m) \<le> MAX_KEY_COUNT \<and> (\<forall>k\<in>set (keys m). length k \<le> MAX_KEY_SIZE) \<and>
     length (vals m) \<le> MAX_VALUE_COUNT \<and> (\<forall>v\<in>set (vals m). length v \<le> MAX_VALUE_SIZE)"

lemma length_Pack:
  "length (Pack m) = baseSize + (\<Sum>key\<leftarrow>keys m. 8 + length key) + (\<Sum>value\<leftarrow>vals m. 8 + length value)"
  by (simp add: Pack_def Let_def PackString_eq length_PackBytes baseSize_def del: length_concat)

lemma Pack_eq:
  "Pack m = le_bytes 8 (length (Pack m)) @ le_bytes 8 (to_bits 64 (userDef m)) @ le_bytes 2 (to_bits 16 (mt_code (mt m))) @
     le_bytes 8 (length (keys m)) @ concat (map PackBytes (keys m)) @ le_bytes 8 (length (vals m)) @ concat (map PackBytes (vals m))"
  unfolding length_Pack by (simp add: Pack_def Let_def PackString_eq)

lemma items_length: "8 * length xs \<le> (\<Sum>x\<leftarrow>xs. 8 + length x)" "x \<in> set xs \<Longrightarrow> length x \<le> (\<Sum>x\<leftarrow>xs. 8 + length x)"
  for xs :: "bytes list"
  by (induction xs) auto

lemma mt_code_bits: "of_bits 16 (to_bits 16 (mt_code t)) = mt_code t"
  by (rule of_to_bits) (cases t; simp)+

lemma find_mt: "find (\<lambda>t'. mt_code t' = mt_code t) message_types = Some t"
  by (cases t) (simp_all add: message_types_def)

lemma find_mt_Some: "find (\<lambda>t'. mt_code t' = c) message_types = Some t \<Longrightarrow> mt_code t = c"
  by (auto simp: find_Some_iff)

lemma Unpack_Pack:
  assumes u: "- (2 ^ 63) \<le> userDef m" "userDef m < 2 ^ 63" and l: "length (Pack m) < 2 ^ 63"
  shows "Unpack (Some (Pack m @ rest)) = (if within_limits m then Some (int (length (Pack m)), m) else None)"
proof -
  define T where "T = length (Pack m)"
  define b where "b = Pack m @ rest"
  define K where "K = concat (map PackBytes (keys m))"
  define W where "W = concat (map PackBytes (vals m))"
  have T: "T < 256 ^ 8" "T = 34 + length K + length W" using l length_Pack [of m] by (simp_all add: T_def K_def W_def length_PackBytes baseSize_def)
  have b: "b = le_bytes 8 T @ le_bytes 8 (to_bits 64 (userDef m)) @ le_bytes 2 (to_bits 16 (mt_code (mt m))) @
     le_bytes 8 (length (keys m)) @ K @ le_bytes 8 (length (vals m)) @ W @ rest"
    unfolding b_def using Pack_eq [of m] by (simp add: T_def K_def W_def)
  have lb: "length b = T + length rest" by (simp add: b_def T_def)
  have S: "length K = (\<Sum>x\<leftarrow>keys m. 8 + length x)" "length W = (\<Sum>x\<leftarrow>vals m. 8 + length x)"
    by (simp_all only: K_def W_def length_PackBytes)
  have small: "\<forall>x\<in>set (keys m). length x < 2 ^ 64" "\<forall>x\<in>set (vals m). length x < 2 ^ 64"
    "length (keys m) < 256 ^ 8" "length (vals m) < 256 ^ 8"
    using T S items_length(2) [of _ "keys m"] items_length(2) [of _ "vals m"] items_length(1) [of "keys m"] items_length(1) [of "vals m"]
    by fastforce+
  let ?h = "le_bytes 8 T @ le_bytes 8 (to_bits 64 (userDef m)) @ le_bytes 2 (to_bits 16 (mt_code (mt m)))"
  have bits: "to_bits 64 (userDef m) < 256 ^ 8" "to_bits 16 (mt_code (mt m)) < 256 ^ 2"
    using to_bits_less [of 64] to_bits_less [of 16] by simp_all
  have r: "ReadScalar b 8 0 = Some (T, 8)" "ReadScalar b 8 8 = Some (to_bits 64 (userDef m), 16)"
    "ReadScalar b 2 16 = Some (to_bits 16 (mt_code (mt m)), 18)" "ReadScalar b 8 18 = Some (length (keys m), 26)"
    "ReadScalar b 8 (26 + length K) = Some (length (vals m), 34 + length K)"
    using ReadScalar_at [OF T(1), of 0 "[]"] ReadScalar_at [OF bits(1), of 8 "le_bytes 8 T"]
      ReadScalar_at [OF bits(2), of 16 "le_bytes 8 T @ le_bytes 8 (to_bits 64 (userDef m))"]
      ReadScalar_at [OF small(3), of 18 ?h] ReadScalar_at [OF small(4), of "26 + length K" "?h @ le_bytes 8 (length (keys m)) @ K"]
    by (simp_all add: b)
  have i: "unpack_items b limit (length (keys m)) 26 = (if \<forall>x\<in>set (keys m). length x \<le> limit then Some (keys m, 26 + length K) else None)"
    "unpack_items b limit (length (vals m)) (34 + length K) = (if \<forall>x\<in>set (vals m). length x \<le> limit then Some (vals m, T) else None)" for limit
    using unpack_items_at [OF small(1), of "?h @ le_bytes 8 (length (keys m))" _ limit]
      unpack_items_at [OF small(2), of "?h @ le_bytes 8 (length (keys m)) @ K @ le_bytes 8 (length (vals m))" rest limit]
    by (simp_all add: b T(2) K_def [symmetric] W_def [symmetric])
  have "Full (Some b)" using lb T(2) r(1) by (simp add: Full_def baseSize_def)
  then have "Unpack (Some b) = (if within_limits m then Some (int T, m) else None)"
    using r i u by (simp add: Unpack_def mt_code_bits find_mt of_to_bits within_limits_def)
  then show ?thesis by (simp add: b_def T_def)
qed

lemma Unpack_steps:
  assumes "Unpack (Some b) = Some (n, m)"
  obtains T user code K V ok where "ReadScalar b 8 0 = Some (T, 8)" "ReadScalar b 8 8 = Some (user, 16)" "ReadScalar b 2 16 = Some (code, 18)"
    "mt_code (mt m) = of_bits 16 code" "ReadScalar b 8 18 = Some (K, 26)" "K \<le> MAX_KEY_COUNT"
    "unpack_items b MAX_KEY_SIZE K 26 = Some (keys m, ok)" "ReadScalar b 8 ok = Some (V, ok + 8)" "V \<le> MAX_VALUE_COUNT"
    "unpack_items b MAX_VALUE_SIZE V (ok + 8) = Some (vals m, T)" "userDef m = of_bits 64 user" "n = int T"
proof -
  have e: "\<exists>v. ReadScalar b k offset = Some (v, offset + k)" if "ReadScalar b k offset \<noteq> None" for k offset
    using that by (auto simp: ReadScalar_def split: if_splits)
  note a = assms [unfolded Unpack_def option.case]
  have "ReadScalar b 8 0 \<noteq> None" using a by (intro notI) (simp split: if_splits)
  then obtain T where 1: "ReadScalar b 8 0 = Some (T, 8)" using e [of 8 0] by auto
  have "ReadScalar b 8 8 \<noteq> None" using a 1 by (intro notI) (simp split: if_splits)
  then obtain user where 2: "ReadScalar b 8 8 = Some (user, 16)" using e [of 8 8] by auto
  have "ReadScalar b 2 16 \<noteq> None" using a 1 2 by (intro notI) (simp split: if_splits)
  then obtain code where 3: "ReadScalar b 2 16 = Some (code, 18)" using e [of 2 16] by auto
  obtain t where 4: "find (\<lambda>t. mt_code t = of_bits 16 code) message_types = Some t"
    using a 1 2 3 by (cases "find (\<lambda>t. mt_code t = of_bits 16 code) message_types") (simp_all split: if_splits)
  have "ReadScalar b 8 18 \<noteq> None" using a 1 2 3 4 by (intro notI) (simp split: if_splits)
  then obtain K where 5: "ReadScalar b 8 18 = Some (K, 26)" using e [of 8 18] by auto
  obtain ks ok where 6: "K \<le> MAX_KEY_COUNT" "unpack_items b MAX_KEY_SIZE K 26 = Some (ks, ok)"
    using a 1 2 3 4 5 by (cases "unpack_items b MAX_KEY_SIZE K 26") (auto split: if_splits)
  have "ReadScalar b 8 ok \<noteq> None" using a 1 2 3 4 5 6 by (intro notI) (simp split: if_splits)
  then obtain V where 7: "ReadScalar b 8 ok = Some (V, ok + 8)" using e [of 8 ok] by auto
  obtain vs ov where 8: "V \<le> MAX_VALUE_COUNT" "unpack_items b MAX_VALUE_SIZE V (ok + 8) = Some (vs, ov)"
    using a 1 2 3 4 5 6 7 by (cases "unpack_items b MAX_VALUE_SIZE V (ok + 8)") (auto split: if_splits)
  have 9: "ov = T" "n = int T" "m = \<lparr>mt = t, userDef = of_bits 64 user, keys = ks, vals = vs\<rparr>"
    using a 1 2 3 4 5 6 7 8 by (simp_all split: if_splits)
  have "mt_code (mt m) = of_bits 16 code" "unpack_items b MAX_KEY_SIZE K 26 = Some (keys m, ok)"
    "unpack_items b MAX_VALUE_SIZE V (ok + 8) = Some (vals m, T)" "userDef m = of_bits 64 user"
    using 6 8 9 find_mt_Some [OF 4] by simp_all
  from that [OF 1 2 3 this(1) 5 6(1) this(2) 7 8(1) this(3,4) 9(2)] show thesis .
qed

lemma Unpack_only_Pack:
  assumes a: "Unpack (Some b) = Some (n, m)"
  shows "b = Pack m @ drop (nat n) b \<and> n = int (length (Pack m)) \<and> within_limits m \<and> - (2 ^ 63) \<le> userDef m \<and> userDef m < 2 ^ 63"
  using a
proof (cases rule: Unpack_steps)
  case (1 T user code K V ok)
  note r = ReadScalar_Some [THEN iffD1, OF 1(1)] ReadScalar_Some [THEN iffD1, OF 1(2)] ReadScalar_Some [THEN iffD1, OF 1(3)]
    ReadScalar_Some [THEN iffD1, OF 1(5)] ReadScalar_Some [THEN iffD1, OF 1(8)]
  have bounds: "26 \<le> length b" "ok + 8 \<le> length b" using r(4,5) by blast+
  have k: "length (keys m) = K" "26 \<le> ok" "ok \<le> length b" "take (ok - 26) (drop 26 b) = concat (map PackBytes (keys m))"
    "\<forall>x\<in>set (keys m). length x \<le> MAX_KEY_SIZE"
    using unpack_items_Some [OF 1(7) bounds(1)] by blast+
  have v: "length (vals m) = V" "ok + 8 \<le> T" "T \<le> length b" "take (T - (ok + 8)) (drop (ok + 8) b) = concat (map PackBytes (vals m))"
    "\<forall>x\<in>set (vals m). length x \<le> MAX_VALUE_SIZE"
    using unpack_items_Some [OF 1(10) bounds(2)] by blast+
  have "user < 256 ^ 8" "code < 256 ^ 2" using r(2,3) by blast+
  then have lt: "user < 2 ^ 64" "code < 2 ^ 16" by simp_all
  have eqs: "take 8 b = le_bytes 8 T" "take 8 (drop 8 b) = le_bytes 8 user" "take 2 (drop 16 b) = le_bytes 2 code"
    "take 8 (drop 18 b) = le_bytes 8 K" "take 8 (drop ok b) = le_bytes 8 V"
    using r(1) [unfolded drop_0] r(2-5) by blast+
  have user: "to_bits 64 (userDef m) = user" "- (2 ^ 63) \<le> userDef m \<and> userDef m < 2 ^ 63"
    using 1(11) lt to_of_bits [of 64 user] of_bits_range [of 64 user] by simp_all
  have code: "to_bits 16 (mt_code (mt m)) = code" using 1(4) lt to_of_bits [of 16 code] by simp
  have "take T b = take 8 b @ take 8 (drop 8 b) @ take 2 (drop 16 b) @ take 8 (drop 18 b) @ take (ok - 26) (drop 26 b) @
      take 8 (drop ok b) @ take (T - (ok + 8)) (drop (ok + 8) b)"
    using take_from [of 8 0 8 T b] take_from [of 16 8 8 T b] take_from [of 18 16 2 T b] take_from [of 26 18 8 T b]
      take_from [of ok 26 "ok - 26" T b] take_from [of "ok + 8" ok 8 T b] k v by simp
  then have t: "take T b = le_bytes 8 T @ le_bytes 8 (to_bits 64 (userDef m)) @ le_bytes 2 (to_bits 16 (mt_code (mt m))) @
     le_bytes 8 (length (keys m)) @ concat (map PackBytes (keys m)) @ le_bytes 8 (length (vals m)) @ concat (map PackBytes (vals m))"
    by (simp only: eqs k v user code)
  have "length (Pack m) = T"
  proof -
    have "length (take T b) = T" using v by simp
    moreover have "length (take T b) = length (Pack m)" unfolding t length_Pack by (simp add: length_PackBytes baseSize_def del: length_concat)
    ultimately show ?thesis by simp
  qed
  then have "take T b = Pack m" using t Pack_eq [of m] by simp
  then show ?thesis
    using append_take_drop_id [of T b] 1(6,9,12) k v user \<open>length (Pack m) = T\<close> by (simp add: within_limits_def)
qed


section \<open>Properties\<close>

text \<open>C28. Whatever follows it in the buffer, a packed message is unpacked to the same message and its own length, provided it has at
  most 1024 keys of at most 2048 bytes and at most 1024 values of at most 64 MiB. \<^verbatim>\<open>Pack\<close> does not know these limits: a message
  beyond them is packed as well, and the receiver rejects it.\<close>

theorem unpack_pack:
  assumes "- (2 ^ 63) \<le> userDef m" "userDef m < 2 ^ 63" "length (Pack m) < 2 ^ 63"
  shows "Unpack (Some (Pack m @ rest)) = (if within_limits m then Some (int (length (Pack m)), m) else None)"
  using Unpack_Pack [OF assms] .

definition message_example :: SmemMessage where
  "message_example = \<lparr>mt = ADD, userDef = -1, keys = [''rank'', ''''], vals = [''42'']\<rparr>"

lemma message_example_facts: "length (Pack message_example) = 64" "within_limits message_example"
  by (simp_all add: length_Pack baseSize_def within_limits_def message_example_def MAX_KEY_COUNT_def MAX_KEY_SIZE_def
      MAX_VALUE_COUNT_def MAX_VALUE_SIZE_def)

theorem unpack_pack_witness: "Unpack (Some (Pack message_example @ ''more'')) = Some (64, message_example)"
  using unpack_pack [of message_example "''more''"] message_example_facts by (simp add: message_example_def)

text \<open>C29. A buffer that is accepted starts with the packed form of the message that is returned, and the length returned is the length
  of that form: there is one encoding of each message, no byte of it is ignored, and nothing behind the end is read.\<close>

theorem unpack_canonical:
  assumes "Unpack (Some b) = Some (n, m)"
  shows "b = Pack m @ drop (nat n) b \<and> n = int (length (Pack m)) \<and> within_limits m"
  using Unpack_only_Pack [OF assms] by blast

theorem unpack_canonical_witness:
  "\<exists>b. b = Pack message_example @ ''rest'' \<and> Unpack (Some b) = Some (64, message_example) \<and> b = Pack message_example @ drop 64 b"
proof -
  have u: "Unpack (Some (Pack message_example @ ''rest'')) = Some (64, message_example)"
    using Unpack_Pack [of message_example "''rest''"] message_example_facts by (simp add: message_example_def)
  then show ?thesis using unpack_canonical [OF u] by auto
qed

end
