(* ===== verification/Store_Backend.thy ===== *)
theory Store_Backend
  imports Store_Message Ord_Map "HOL-Library.List_Lexorder" "HOL-Library.Char_ord"
begin

text \<open>
  The backends of the configuration store: the interface \<^verbatim>\<open>ConfigStoreBackend\<close> of
  \<^verbatim>\<open>config_store/backend/smem_config_store_backend.h\<close> as a record of operations over a state, and its implementation in local
  memory, \<^verbatim>\<open>smem_local_memory_backend.cpp\<close>, a \<^verbatim>\<open>std::map\<close> from strings to byte vectors.

  The locale \<open>store_backend\<close> is what the server relies on: the operations are those of a partial map. It is interpreted on
  the local backend.
\<close>

datatype StoreErrorCode = SUCCESS | ERROR | INVALID_MESSAGE | INVALID_KEY | NOT_EXIST | RESTORE | TIMEOUT | IO_ERROR

primrec error_code :: "StoreErrorCode \<Rightarrow> int" where
  "error_code SUCCESS = 0" | "error_code ERROR = -1" | "error_code INVALID_MESSAGE = -400" | "error_code INVALID_KEY = -401"
| "error_code NOT_EXIST = -404" | "error_code RESTORE = -405" | "error_code TIMEOUT = -601" | "error_code IO_ERROR = -602"

text \<open>The output parameter of a call is a result; it is empty where the call leaves it alone.\<close>

record 'b ConfigStoreBackend =
  Get :: "string \<Rightarrow> 'b \<Rightarrow> StoreErrorCode \<times> bytes"
  PrefixGet :: "string \<Rightarrow> 'b \<Rightarrow> StoreErrorCode \<times> (string \<times> bytes) list"
  Put :: "string \<Rightarrow> bytes \<Rightarrow> int \<Rightarrow> 'b \<Rightarrow> StoreErrorCode \<times> 'b"
  Delete :: "string \<Rightarrow> 'b \<Rightarrow> StoreErrorCode \<times> 'b"
  Exist :: "string \<Rightarrow> 'b \<Rightarrow> StoreErrorCode"
  Clear :: "'b \<Rightarrow> 'b"
  IsDistributed :: bool


section \<open>The local memory backend\<close>

type_synonym local_memory = "(string, bytes) omap"

definition lm_PrefixGet :: "string \<Rightarrow> local_memory \<Rightarrow> StoreErrorCode \<times> (string \<times> bytes) list" where
  "lm_PrefixGet key kvStore =
     (SUCCESS, takeWhile (\<lambda>e. take (length key) (fst e) = key) (dropWhile (\<lambda>e. fst e < key) kvStore))"

definition lm_Get :: "string \<Rightarrow> local_memory \<Rightarrow> StoreErrorCode \<times> bytes" where
  "lm_Get key kvStore = (case om_find key kvStore of None \<Rightarrow> (NOT_EXIST, []) | Some v \<Rightarrow> (SUCCESS, v))"

definition lm_Put :: "string \<Rightarrow> bytes \<Rightarrow> int \<Rightarrow> local_memory \<Rightarrow> StoreErrorCode \<times> local_memory" where
  "lm_Put key value ttlSeconds kvStore = (SUCCESS, om_put key value kvStore)"

definition lm_Delete :: "string \<Rightarrow> local_memory \<Rightarrow> StoreErrorCode \<times> local_memory" where
  "lm_Delete key kvStore = (if om_find key kvStore \<noteq> None then SUCCESS else NOT_EXIST, om_erase key kvStore)"

definition lm_Exist :: "string \<Rightarrow> local_memory \<Rightarrow> StoreErrorCode" where
  "lm_Exist key kvStore = (if om_find key kvStore \<noteq> None then SUCCESS else NOT_EXIST)"

definition lm_Clear :: "local_memory \<Rightarrow> local_memory" where
  "lm_Clear kvStore = []"

definition lm_IsDistributed :: bool where
  "lm_IsDistributed \<longleftrightarrow> False"

definition SmemLocalMemoryBackend :: "local_memory ConfigStoreBackend" where
  "SmemLocalMemoryBackend = \<lparr>Get = lm_Get, PrefixGet = lm_PrefixGet, Put = lm_Put, Delete = lm_Delete, Exist = lm_Exist,
     Clear = lm_Clear, IsDistributed = lm_IsDistributed\<rparr>"


section \<open>What the server relies on\<close>

locale store_backend =
  fixes B :: "'b ConfigStoreBackend"
    and content :: "'b \<Rightarrow> string \<rightharpoonup> bytes"
    and ok :: "'b \<Rightarrow> bool"
  assumes get: "ok b \<Longrightarrow> Get B k b = (case content b k of None \<Rightarrow> (NOT_EXIST, []) | Some v \<Rightarrow> (SUCCESS, v))"
    and put: "ok b \<Longrightarrow> Put B k v ttl b = (r, b') \<Longrightarrow> r = SUCCESS \<and> ok b' \<and> content b' = (content b)(k \<mapsto> v)"
    and del: "ok b \<Longrightarrow> Delete B k b = (r, b') \<Longrightarrow>
      r = (if content b k = None then NOT_EXIST else SUCCESS) \<and> ok b' \<and> content b' = (content b)(k := None)"
    and exist: "ok b \<Longrightarrow> Exist B k b = (if content b k = None then NOT_EXIST else SUCCESS)"
    and clear: "ok b \<Longrightarrow> ok (Clear B b) \<and> content (Clear B b) = Map.empty"
    and prefixes: "ok b \<Longrightarrow> PrefixGet B k b = (r, es) \<Longrightarrow> r = SUCCESS \<and>
      distinct (map fst es) \<and> set es = {(k', v). content b k' = Some v \<and> take (length k) k' = k}"
begin

lemma put_fst: "ok b \<Longrightarrow> fst (Put B k v ttl b) = SUCCESS"
  using put [of b k v ttl] by (cases "Put B k v ttl b") simp

lemma put_snd: "ok b \<Longrightarrow> ok (snd (Put B k v ttl b)) \<and> content (snd (Put B k v ttl b)) = (content b)(k \<mapsto> v)"
  using put [of b k v ttl] by (cases "Put B k v ttl b") simp

lemma del_fst: "ok b \<Longrightarrow> fst (Delete B k b) = (if content b k = None then NOT_EXIST else SUCCESS)"
  using del [of b k] by (cases "Delete B k b") simp

lemma del_snd: "ok b \<Longrightarrow> ok (snd (Delete B k b)) \<and> content (snd (Delete B k b)) = (content b)(k := None)"
  using del [of b k] by (cases "Delete B k b") simp

end


section \<open>Prefixes are intervals\<close>

lemma prefix_le: "take (length p) t = p \<Longrightarrow> p \<le> t" for p t :: "'a::linorder list"
proof -
  assume "take (length p) t = p"
  then have "t = p @ drop (length p) t" by (metis append_take_drop_id)
  then show ?thesis by (metis list_le_def list_less_def lexord_append_rightI append_Nil2 neq_Nil_conv)
qed

lemma prefix_between: "p \<le> s \<Longrightarrow> s \<le> t \<Longrightarrow> take (length p) t = p \<Longrightarrow> take (length p) s = p" for p s t :: "'a::linorder list"
proof (induction p arbitrary: s t)
  case (Cons a p)
  obtain b s' where s: "s = b # s'" using Cons.prems(1) by (cases s) auto
  obtain c t' where t: "t = c # t'" using Cons.prems(3) by (cases t) auto
  have "c = a" "take (length p) t' = p" using Cons.prems(3) t by auto
  moreover have "a \<le> b" "b \<le> c" using Cons.prems s t by auto
  ultimately have "b = a" by simp
  then show ?case using Cons s t \<open>c = a\<close> \<open>take (length p) t' = p\<close> by auto
qed simp

lemma sorted_span:
  assumes "om_wf m" "\<And>s t. k \<le> s \<Longrightarrow> s \<le> t \<Longrightarrow> P t \<Longrightarrow> P s" "\<And>t. P t \<Longrightarrow> k \<le> t"
  shows "takeWhile (\<lambda>e. P (fst e)) (dropWhile (\<lambda>e. fst e < k) m) = filter (\<lambda>e. P (fst e)) m"
  using assms(1)
proof (induction m)
  case (Cons e m)
  have wf: "om_wf m" "\<forall>e'\<in>set m. fst e < fst e'" using Cons.prems by (auto simp: om_wf_Cons)
  show ?case
  proof (cases "fst e < k")
    case True
    then have "\<not> P (fst e)" using assms(3) by (meson not_less)
    then show ?thesis using Cons.IH [OF wf(1)] True by simp
  next
    case False
    have d: "dropWhile (\<lambda>e. fst e < k) m = m" using wf(2) False by (cases m) auto
    show ?thesis
    proof (cases "P (fst e)")
      case True
      then show ?thesis using Cons.IH [OF wf(1)] False d by simp
    next
      case nP: False
      then have "\<forall>e'\<in>set m. \<not> P (fst e')" using assms(2) [of "fst e"] wf(2) False by (meson less_imp_le not_less)
      then show ?thesis using False nP by simp
    qed
  qed
qed simp

lemma lm_PrefixGet_eq: "om_wf m \<Longrightarrow> lm_PrefixGet key m = (SUCCESS, filter (\<lambda>e. take (length key) (fst e) = key) m)"
  unfolding lm_PrefixGet_def using sorted_span [of m key "\<lambda>s. take (length key) s = key"] prefix_between prefix_le by blast

lemma om_find_Nil: "om_find k [] = None"
  by (simp add: om_find_def)

interpretation lm: store_backend SmemLocalMemoryBackend "\<lambda>m k. om_find k m" om_wf
proof
  fix b :: local_memory and k r es
  assume ok: "om_wf b" and p: "PrefixGet SmemLocalMemoryBackend k b = (r, es)"
  then have "r = SUCCESS" "es = filter (\<lambda>e. take (length k) (fst e) = k) b"
    using lm_PrefixGet_eq [of b k] by (simp_all add: SmemLocalMemoryBackend_def)
  then show "r = SUCCESS \<and> distinct (map fst es) \<and> set es = {(k', v). om_find k' b = Some v \<and> take (length k) k' = k}"
    using om_wf_distinct [OF ok] by (auto simp: om_find_iff [OF ok] distinct_map_filter)
qed (auto simp: SmemLocalMemoryBackend_def lm_Get_def lm_Put_def lm_Delete_def lm_Exist_def lm_Clear_def om_find_put om_find_erase
  om_find_Nil fun_eq_iff)

text \<open>C30. \<^verbatim>\<open>PrefixGet\<close>, which walks the ordered map from the first key not below the prefix while the prefix matches, returns
  the entries whose key starts with the prefix, all of them and in order.\<close>

theorem prefix_get_complete:
  assumes "om_wf kvStore"
  shows "lm_PrefixGet key kvStore = (SUCCESS, filter (\<lambda>e. take (length key) (fst e) = key) kvStore)"
  using lm_PrefixGet_eq [OF assms] .

theorem prefix_get_complete_witness:
  "lm_PrefixGet ''ab'' [(''a'', ''1''), (''ab'', ''2''), (''abz'', ''3''), (''ac'', ''4'')] = (SUCCESS, [(''ab'', ''2''), (''abz'', ''3'')])"
  using prefix_get_complete [of "[(''a'', ''1''), (''ab'', ''2''), (''abz'', ''3''), (''ac'', ''4'')]" "''ab''"]
  by (simp add: om_wf_def less_char_def)

end
