(* ===== verification/Store_Text.thy ===== *)
theory Store_Text
  imports Prelude
begin

text \<open>
  Numbers as text: \<^verbatim>\<open>std::to_string\<close>, the C functions \<^verbatim>\<open>strtoll\<close> and \<^verbatim>\<open>strtoull\<close>, and the parsers of
  \<^verbatim>\<open>src/src/util/csrc/mf_str_util.h\<close> on top of them, with \<^verbatim>\<open>Split\<close>.

  A string passed as a C string ends at its first null character. The lemmas say that the parsers read back what
  \<^verbatim>\<open>std::to_string\<close> has written, and that \<^verbatim>\<open>Split\<close> undoes joining with a delimiter.
\<close>

section \<open>Writing\<close>

definition digit :: "nat \<Rightarrow> char" where "digit d = char_of (48 + d)"

fun dec :: "nat \<Rightarrow> string" where
  "dec n = (if n < 10 then [digit n] else dec (n div 10) @ [digit (n mod 10)])"

declare dec.simps [simp del]

definition to_string :: "int \<Rightarrow> string" where
  "to_string v = (if v < 0 then CHR ''-'' # dec (nat (- v)) else dec (nat v))"


section \<open>Reading\<close>

definition isspace :: "char \<Rightarrow> bool" where
  "isspace c \<longleftrightarrow> c = CHR '' '' \<or> (9 \<le> (of_char c :: nat) \<and> (of_char c :: nat) \<le> 13)"

definition isdigit :: "char \<Rightarrow> bool" where
  "isdigit c \<longleftrightarrow> 48 \<le> (of_char c :: nat) \<and> (of_char c :: nat) \<le> 57"

definition digits_val :: "string \<Rightarrow> nat" where
  "digits_val ds = foldl (\<lambda>v c. 10 * v + (of_char c - 48)) 0 ds"

definition c_str :: "string \<Rightarrow> string" where
  "c_str s = takeWhile (\<lambda>c. c \<noteq> CHR 0x00) s"

text \<open>The sign, the value of the digits and the rest of the string; \<open>None\<close> when there are no digits.\<close>

definition strto :: "string \<Rightarrow> (bool \<times> nat \<times> string) option" where
  "strto s =
     (let t = dropWhile isspace s;
          (neg, t) = (case t of [] \<Rightarrow> (False, []) | c # r \<Rightarrow> if c = CHR ''-'' then (True, r) else if c = CHR ''+'' then (False, r) else (False, c # r));
          ds = takeWhile isdigit t
      in if ds = [] then None else Some (neg, digits_val ds, dropWhile isdigit t))"

definition String2Int :: "string \<Rightarrow> int option" where
  "String2Int str =
     (if str = [] then None
      else case strto (c_str str) of
        None \<Rightarrow> None
      | Some (neg, n, rest) \<Rightarrow>
          let result = (if neg then - int n else int n)
          in if dropWhile isspace rest \<noteq> [] then None
             else if result < - (2 ^ 63) \<or> result \<ge> 2 ^ 63 then None else Some result)"

definition String2Uint :: "nat \<Rightarrow> string \<Rightarrow> nat option" where
  "String2Uint limit str =
     (if str = [] then None
      else if hd str = CHR ''-'' then None
      else case strto (c_str str) of
        None \<Rightarrow> None
      | Some (neg, n, rest) \<Rightarrow>
          if dropWhile isspace rest \<noteq> [] then None
          else if n \<ge> 2 ^ 64 \<or> (if neg then (2 ^ 64 - n) mod 2 ^ 64 else n) > limit then None
          else Some (if neg then (2 ^ 64 - n) mod 2 ^ 64 else n))"

text \<open>\<^verbatim>\<open>Split\<close> calls \<^verbatim>\<open>std::getline\<close> until the stream is at its end: after a final delimiter there is no empty item.\<close>

function Split :: "char \<Rightarrow> string \<Rightarrow> string list" where
  "Split d s = (if s = [] then [] else takeWhile (\<lambda>c. c \<noteq> d) s # Split d (drop 1 (dropWhile (\<lambda>c. c \<noteq> d) s)))"
  by pat_completeness auto
termination
proof (relation "measure (\<lambda>(d, s). length s)")
  fix d :: char and s :: string assume "s \<noteq> []"
  then have "0 < length s" by simp
  then have "length (drop 1 (dropWhile (\<lambda>c. c \<noteq> d) s)) < length s"
    using length_dropWhile_le [of "\<lambda>c. c \<noteq> d" s] unfolding length_drop by linarith
  then show "((d, drop 1 (dropWhile (\<lambda>c. c \<noteq> d) s)), (d, s)) \<in> measure (\<lambda>(d, s). length s)" by simp
qed simp

declare Split.simps [simp del]

fun join :: "char \<Rightarrow> string list \<Rightarrow> string" where
  "join d [] = []"
| "join d [s] = s"
| "join d (s # t # ss) = s @ d # join d (t # ss)"


section \<open>Reading what was written\<close>

lemma of_char_digit [simp]: "d < 10 \<Longrightarrow> of_char (digit d) = 48 + d"
  by (simp add: digit_def)

lemma isdigit_digit [simp]: "d < 10 \<Longrightarrow> isdigit (digit d)"
  by (simp add: isdigit_def)

lemma dec_digits: "list_all isdigit (dec n)" "dec n \<noteq> []"
proof (induction n rule: dec.induct)
  case (1 n)
  { case 1 then show ?case using "1.IH" by (subst dec.simps) simp }
  { case 2 then show ?case by (subst dec.simps) simp }
qed

lemma digits_val_snoc: "digits_val (ds @ [c]) = 10 * digits_val ds + (of_char c - 48)"
  by (simp add: digits_val_def)

lemma digits_val_dec [simp]: "digits_val (dec n) = n"
proof (induction n rule: dec.induct)
  case (1 n)
  show ?case
  proof (cases "n < 10")
    case True
    then show ?thesis by (subst dec.simps) (simp add: digits_val_def)
  next
    case False
    then show ?thesis using 1 by (subst dec.simps) (simp add: digits_val_snoc)
  qed
qed

lemma not_digit: "isdigit c \<Longrightarrow> \<not> isspace c \<and> c \<noteq> CHR ''-'' \<and> c \<noteq> CHR ''+'' \<and> c \<noteq> CHR 0x00 \<and> c \<noteq> CHR '',''"
  by (auto simp: isdigit_def isspace_def)

lemma digits_all:
  assumes "list_all isdigit ds"
  shows "takeWhile isdigit ds = ds" "dropWhile isdigit ds = []" "c_str ds = ds" "c_str (CHR ''-'' # ds) = CHR ''-'' # ds"
    "takeWhile (\<lambda>c. c \<noteq> CHR '','') ds = ds"
  using assms not_digit unfolding list_all_iff c_str_def by (auto simp: takeWhile_eq_all_conv)

lemma strto_dec: "strto (dec n) = Some (False, n, [])"
proof -
  obtain c r where c: "dec n = c # r" using dec_digits(2) by (cases "dec n") auto
  then have "isdigit c" using dec_digits(1) [of n] by simp
  then have "dropWhile isspace (dec n) = dec n" using c not_digit by simp
  moreover have "takeWhile isdigit (c # r) = c # r" "dropWhile isdigit (c # r) = []" using digits_all(1,2) [OF dec_digits(1) [of n]] c by argo+
  ultimately show ?thesis using c not_digit [OF \<open>isdigit c\<close>] digits_val_dec [of n] by (simp add: strto_def Let_def)
qed

lemma strto_neg_dec: "strto (CHR ''-'' # dec n) = Some (True, n, [])"
  using dec_digits(2) [of n] by (simp add: strto_def isspace_def Let_def digits_all [OF dec_digits(1) [of n]])

lemma String2Int_to_string: "- (2 ^ 63) \<le> v \<Longrightarrow> v < 2 ^ 63 \<Longrightarrow> String2Int (to_string v) = Some v"
  using dec_digits(2) digits_all(3,4) [OF dec_digits(1)]
  by (auto simp: String2Int_def to_string_def strto_dec strto_neg_dec)

lemma String2Uint_dec: "n \<le> limit \<Longrightarrow> n < 2 ^ 64 \<Longrightarrow> String2Uint limit (dec n) = Some n"
proof -
  assume n: "n \<le> limit" "n < 2 ^ 64"
  obtain c r where c: "dec n = c # r" using dec_digits(2) by (cases "dec n") auto
  then have "c \<noteq> CHR ''-''" using dec_digits(1) [of n] not_digit by auto
  then show ?thesis using n c dec_digits(2) [of n] digits_all(3) [OF dec_digits(1) [of n]] strto_dec [of n] by (simp add: String2Uint_def)
qed

lemma to_string_inj: "to_string v = to_string w \<longleftrightarrow> v = w"
proof -
  have "strto (to_string v) = Some (v < 0, nat \<bar>v\<bar>, [])" for v by (simp add: to_string_def strto_dec strto_neg_dec)
  then have "to_string v = to_string w \<Longrightarrow> (v < 0) = (w < 0) \<and> nat \<bar>v\<bar> = nat \<bar>w\<bar>" by (metis option.inject prod.inject)
  then show ?thesis by (auto split: if_splits)
qed

lemma Split_Nil [simp]: "Split d [] = []"
  by (subst Split.simps) simp

lemma Split_join: "\<forall>s\<in>set ss. s \<noteq> [] \<and> d \<notin> set s \<Longrightarrow> Split d (join d ss) = ss"
proof (induction d ss rule: join.induct)
  case (2 d s)
  then have "takeWhile (\<lambda>c. c \<noteq> d) s = s" "dropWhile (\<lambda>c. c \<noteq> d) s = []" by (auto simp: takeWhile_eq_all_conv)
  then show ?case using 2 by (subst Split.simps) (simp del: takeWhile_eq_all_conv dropWhile_eq_Nil_conv)
next
  case (3 d s t ss)
  then have "takeWhile (\<lambda>c. c \<noteq> d) (s @ d # join d (t # ss)) = s" "dropWhile (\<lambda>c. c \<noteq> d) (s @ d # join d (t # ss)) = d # join d (t # ss)"
    by (auto simp: takeWhile_tail dropWhile_append)
  then show ?case using 3 by (subst Split.simps) simp
qed simp

lemma String2Int_range: "String2Int s = Some v \<Longrightarrow> - (2 ^ 63) \<le> v \<and> v < 2 ^ 63"
  by (auto simp: String2Int_def Let_def split: if_splits option.splits)

end
