(* ===== verification/Store_Server.thy ===== *)
theory Store_Server
  imports Store_Backend Store_Text Uint64
begin

text \<open>
  The server of the configuration store, \<^verbatim>\<open>AccStoreServer\<close> of
  \<^verbatim>\<open>config_store/tcp_store/smem_tcp_config_store_server.cpp\<close>: its state, the handlers of the requests and of the links, and one
  round of each of its threads. Every one of them runs with \<^verbatim>\<open>storeMutex_\<close> held where it touches the state, so a run of the server
  is a sequence of these functions.

  The backend is a parameter. A request context is the sequence number of the request and the link it came in on, which is
  never null. What is sent to the clients is the list \<open>ss_sent\<close>. The record \<open>server_env\<close> has what a step takes from outside: the
  clock, which links are up, where an unordered container puts a new element, the answers of the backend to the leader status
  queries, and the callback registered for broken links.

  \<^verbatim>\<open>std::unordered_map\<close> and \<^verbatim>\<open>std::unordered_set\<close> are lists in the order of iteration, which the standard does not specify: a new
  element goes to a position the environment chooses.
\<close>

section \<open>Unordered containers\<close>

type_synonym ('k, 'v) umap = "('k \<times> 'v) list"

definition um_find :: "'k \<Rightarrow> ('k, 'v) umap \<Rightarrow> 'v option" where
  "um_find k m = map_of m k"

definition um_erase :: "'k \<Rightarrow> ('k, 'v) umap \<Rightarrow> ('k, 'v) umap" where
  "um_erase k m = filter (\<lambda>e. fst e \<noteq> k) m"

definition insert_at :: "nat \<Rightarrow> 'a \<Rightarrow> 'a list \<Rightarrow> 'a list" where
  "insert_at pos x xs = take pos xs @ x # drop pos xs"

definition um_emplace :: "nat \<Rightarrow> 'k \<Rightarrow> 'v \<Rightarrow> ('k, 'v) umap \<Rightarrow> ('k, 'v) umap" where
  "um_emplace pos k v m = (if um_find k m = None then insert_at pos (k, v) m else m)"

definition um_set :: "nat \<Rightarrow> 'k \<Rightarrow> 'v \<Rightarrow> ('k, 'v) umap \<Rightarrow> ('k, 'v) umap" where
  "um_set pos k v m = (if um_find k m = None then insert_at pos (k, v) m else map (\<lambda>e. if fst e = k then (k, v) else e) m)"

definition us_insert :: "nat \<Rightarrow> 'a \<Rightarrow> 'a list \<Rightarrow> 'a list" where
  "us_insert pos x xs = (if x \<in> set xs then xs else insert_at pos x xs)"

definition us_erase :: "'a \<Rightarrow> 'a list \<Rightarrow> 'a list" where
  "us_erase x xs = filter (\<lambda>y. y \<noteq> x) xs"


section \<open>The state\<close>

definition SM_OK :: int where "SM_OK = 0"
definition SM_ERROR :: int where "SM_ERROR = -1"
definition SM_INVALID_PARAM :: int where "SM_INVALID_PARAM = -2000"
definition SM_REPEAT_CALL :: int where "SM_REPEAT_CALL = -2005"
definition SM_RECONNECT :: int where "SM_RECONNECT = -2010"

definition MAX_KEY_LEN_SERVER :: nat where "MAX_KEY_LEN_SERVER = 2048"
definition MAX_U16_INDEX :: nat where "MAX_U16_INDEX = 65535"
definition SERVER_RECOVER_TIME :: nat where "SERVER_RECOVER_TIME = 5 * 1000 * 1000"
definition HEARTBEAT_TIMEOUT :: int where "HEARTBEAT_TIMEOUT = 3"
definition HEARTBEAT_INTERVAL :: int where "HEARTBEAT_INTERVAL = 2000"
definition EPHEMERAL_KEY_TTL_SEC :: int where "EPHEMERAL_KEY_TTL_SEC = 5"
definition MAX_WRITE_TOTAL_SIZE :: nat where "MAX_WRITE_TOTAL_SIZE = MAX_VALUE_SIZE * 16"
definition AutoRankingStr :: string where "AutoRankingStr = ''AutoRanking#''"
definition WATCH_RANK_DOWN_KEY :: string where "WATCH_RANK_DOWN_KEY = ''WATCH_RANK_DOWN_KEY''"
definition KEY_LEADER_STATUS :: string where "KEY_LEADER_STATUS = ''/memfabric_hybrid/config_store/meta/leader_status''"
definition KEY_WORLD_SIZE :: string where "KEY_WORLD_SIZE = ''/memfabric_hybrid/config_store/data/world_size''"
definition KEY_ALIVE_RANK_LIST :: string where "KEY_ALIVE_RANK_LIST = ''/memfabric_hybrid/config_store/data/alive_rank_list''"

abbreviation NO_RANK :: nat where "NO_RANK \<equiv> 2 ^ 32 - 1"

record request_ctx =
  cx_seq :: nat
  cx_link :: nat

record StoreWaitContext =
  wc_id :: nat
  wc_timeoutMs :: int
  wc_key :: string
  wc_reqCtx :: request_ctx

datatype StoreServerState = SS_INITED | SS_RECOVER | SS_NORMAL | SS_EXITED

record reply =
  rp_ctx :: request_ctx
  rp_code :: int
  rp_body :: bytes

record 'b server =
  ss_backend :: 'b
  ss_waitCtx :: "(nat, StoreWaitContext) umap"
  ss_keyWaiters :: "(string, nat list) umap"
  ss_timedWaiters :: "(int, nat list) umap"
  ss_state :: StoreServerState
  ss_aliveRankFromBackend :: "nat list"
  ss_rankStateWaiters :: "(nat, StoreWaitContext) umap"
  ss_watchWaiters :: "(string, (nat, StoreWaitContext) umap) umap"
  ss_linkWatchList :: "(nat, string list) umap"
  ss_rankStateTaskQueue :: "nat list"
  ss_skipRecover :: bool
  ss_worldSize :: nat
  ss_rankIndex :: nat
  ss_aliveRankSet :: "nat list"
  ss_heartBeatMap :: "(nat, int) umap"
  ss_idGen :: nat
  ss_startT :: "nat option"
  ss_sent :: "reply list"

record 'b server_env =
  ve_pos :: nat
  ve_now :: int
  ve_established :: "nat \<Rightarrow> bool"
  ve_leader :: "nat \<Rightarrow> StoreErrorCode \<times> string"
  ve_broken :: "(nat \<Rightarrow> 'b \<Rightarrow> 'b) option"

definition server_start :: "'b \<Rightarrow> nat \<Rightarrow> bool \<Rightarrow> 'b server" where
  "server_start b worldSize skipRecover = \<lparr>ss_backend = b, ss_waitCtx = [], ss_keyWaiters = [], ss_timedWaiters = [],
     ss_state = SS_INITED, ss_aliveRankFromBackend = [], ss_rankStateWaiters = [], ss_watchWaiters = [], ss_linkWatchList = [],
     ss_rankStateTaskQueue = [], ss_skipRecover = skipRecover, ss_worldSize = worldSize, ss_rankIndex = 0, ss_aliveRankSet = [],
     ss_heartBeatMap = [], ss_idGen = 1, ss_startT = None, ss_sent = []\<rparr>"

definition ReplyWithMessage :: "request_ctx \<Rightarrow> StoreErrorCode \<Rightarrow> bytes \<Rightarrow> 'b server \<Rightarrow> 'b server" where
  "ReplyWithMessage ctx code message s = s\<lparr>ss_sent := ss_sent s @ [\<lparr>rp_ctx = ctx, rp_code = error_code code, rp_body = message\<rparr>]\<rparr>"


section \<open>Waiting requests\<close>

fun GetOutWaitersInLock :: "nat list \<Rightarrow> 'b server \<Rightarrow> request_ctx list \<times> 'b server" where
  "GetOutWaitersInLock [] s = ([], s)"
| "GetOutWaitersInLock (i # ids) s =
     (case um_find i (ss_waitCtx s) of
        None \<Rightarrow> GetOutWaitersInLock ids s
      | Some w \<Rightarrow>
          let timed = (case um_find (wc_timeoutMs w) (ss_timedWaiters s) of
                         None \<Rightarrow> ss_timedWaiters s
                       | Some t \<Rightarrow> if us_erase (wc_id w) t = [] then um_erase (wc_timeoutMs w) (ss_timedWaiters s)
                                  else um_set 0 (wc_timeoutMs w) (us_erase (wc_id w) t) (ss_timedWaiters s));
              (reqCtx, s) = GetOutWaitersInLock ids (s\<lparr>ss_timedWaiters := timed, ss_waitCtx := um_erase i (ss_waitCtx s)\<rparr>)
          in (wc_reqCtx w # reqCtx, s))"

definition GetWakeupList :: "string \<Rightarrow> 'b server \<Rightarrow> (request_ctx list \<times> request_ctx list) \<times> 'b server" where
  "GetWakeupList key s =
     (let (waiters, s) = (case um_find key (ss_keyWaiters s) of
                            None \<Rightarrow> ([], s)
                          | Some ids \<Rightarrow> let (waiters, s) = GetOutWaitersInLock ids s
                                       in (waiters, s\<lparr>ss_keyWaiters := um_erase key (ss_keyWaiters s)\<rparr>));
          watchers = (case um_find key (ss_watchWaiters s) of
                        None \<Rightarrow> []
                      | Some ws \<Rightarrow> map (\<lambda>(_, w). wc_reqCtx w) ws)
      in ((waiters, watchers), s))"

definition reply_established :: "'b server_env \<Rightarrow> StoreErrorCode \<Rightarrow> bytes \<Rightarrow> request_ctx list \<Rightarrow> 'b server \<Rightarrow> 'b server" where
  "reply_established env code response ctxs s =
     fold (\<lambda>ctx s. if ve_established env (cx_link ctx) then ReplyWithMessage ctx code response s else s) ctxs s"

definition WakeupWaiters :: "'b server_env \<Rightarrow> request_ctx list \<times> request_ctx list \<Rightarrow> bytes \<Rightarrow> 'b server \<Rightarrow> 'b server" where
  "WakeupWaiters env wakeup value s =
     (let s = reply_established env SUCCESS (Pack (new_message GET [] [value])) (fst wakeup) s
      in reply_established env SUCCESS (Pack (new_message WATCH [] [value])) (snd wakeup) s)"

text \<open>The test before every call of \<^verbatim>\<open>WakeupWaiters\<close>.\<close>

definition wakeup_if :: "'b server_env \<Rightarrow> request_ctx list \<times> request_ctx list \<Rightarrow> bytes \<Rightarrow> 'b server \<Rightarrow> 'b server" where
  "wakeup_if env wakeup value s =
     (if fst wakeup \<noteq> [] \<or> snd wakeup \<noteq> [] then WakeupWaiters env wakeup value s else s)"


section \<open>Requests that change values\<close>

definition SetHandler ::
  "'b ConfigStoreBackend \<Rightarrow> 'b server_env \<Rightarrow> request_ctx \<Rightarrow> SmemMessage \<Rightarrow> 'b server \<Rightarrow> int \<times> 'b server" where
  "SetHandler B env ctx request s =
     (case (keys request, vals request) of
        ([key], [value]) \<Rightarrow>
          if length key > MAX_KEY_LEN_SERVER then (error_code INVALID_KEY, s)
          else let (ret, oldVal) = Get B key (ss_backend s);
                   (reqVal, wakeup, s) = (if ret \<noteq> SUCCESS \<or> oldVal \<noteq> value
                                          then let (wakeup, s) = GetWakeupList key s in (value, wakeup, s)
                                          else ([], ([], []), s));
                   (ret, b) = Put B key value EPHEMERAL_KEY_TTL_SEC (ss_backend s);
                   s = ReplyWithMessage ctx ret (if ret = SUCCESS then ''success'' else ''error'') (s\<lparr>ss_backend := b\<rparr>)
               in (SM_OK, wakeup_if env wakeup reqVal s)
      | _ \<Rightarrow> (SM_INVALID_PARAM, ReplyWithMessage ctx INVALID_MESSAGE ''invalid request: key value should be one'' s))"

text \<open>In \<^verbatim>\<open>AddHandler\<close> the result of the second \<^verbatim>\<open>Put\<close> goes to a variable of an inner scope, and the reply has the code of
  \<^verbatim>\<open>Get\<close>.\<close>

definition AddHandler ::
  "'b ConfigStoreBackend \<Rightarrow> 'b server_env \<Rightarrow> request_ctx \<Rightarrow> SmemMessage \<Rightarrow> 'b server \<Rightarrow> int \<times> 'b server" where
  "AddHandler B env ctx request s =
     (case (keys request, vals request) of
        ([key], [value]) \<Rightarrow>
          if length key > MAX_KEY_LEN_SERVER then (error_code INVALID_KEY, s)
          else (case String2Int value of
            None \<Rightarrow> (SM_ERROR, s)
          | Some valueNum \<Rightarrow>
              if value \<noteq> to_string valueNum
              then (SM_ERROR, ReplyWithMessage ctx INVALID_MESSAGE ''invalid request: value should be a number.'' s)
              else let (ret, oldValue) = Get B key (ss_backend s)
                in if ret \<noteq> SUCCESS
                   then let (ret, b) = Put B key value EPHEMERAL_KEY_TTL_SEC (ss_backend s);
                            (wakeup, s) = GetWakeupList key (s\<lparr>ss_backend := b\<rparr>);
                            s = ReplyWithMessage ctx ret (to_string valueNum) s
                        in (SM_OK, wakeup_if env wakeup value s)
                   else (case String2Int oldValue of
                     None \<Rightarrow> (SM_ERROR, ReplyWithMessage ctx INVALID_MESSAGE ''oldValueStr should be a number.'' s)
                   | Some storedValueNum \<Rightarrow>
                       if storedValueNum = 0 \<and> oldValue \<noteq> ''0''
                       then (SM_ERROR, ReplyWithMessage ctx INVALID_MESSAGE ''oldValueStr should be a number.'' s)
                       else if valueNum > 0 \<and> storedValueNum > 2 ^ 63 - 1 - valueNum \<or>
                               valueNum < 0 \<and> storedValueNum < - (2 ^ 63) - valueNum
                       then (SM_ERROR, ReplyWithMessage ctx INVALID_MESSAGE ''add result overflow.'' s)
                       else let reqVal = to_string (storedValueNum + valueNum);
                                (_, b) = Put B key reqVal EPHEMERAL_KEY_TTL_SEC (ss_backend s);
                                (wakeup, s) = GetWakeupList key (s\<lparr>ss_backend := b\<rparr>);
                                s = ReplyWithMessage ctx ret (to_string (storedValueNum + valueNum)) s
                            in (SM_OK, wakeup_if env wakeup reqVal s)))
      | _ \<Rightarrow> (SM_INVALID_PARAM, ReplyWithMessage ctx INVALID_MESSAGE ''invalid request: key value should be one.'' s))"

definition RemoveHandler :: "'b ConfigStoreBackend \<Rightarrow> request_ctx \<Rightarrow> SmemMessage \<Rightarrow> 'b server \<Rightarrow> int \<times> 'b server" where
  "RemoveHandler B ctx request s =
     (case (keys request, vals request) of
        ([key], []) \<Rightarrow>
          if length key > MAX_KEY_LEN_SERVER then (error_code INVALID_KEY, s)
          else if Exist B key (ss_backend s) = SUCCESS
          then (SM_OK, ReplyWithMessage ctx SUCCESS ''success'' (s\<lparr>ss_backend := snd (Delete B key (ss_backend s))\<rparr>))
          else (SM_OK, ReplyWithMessage ctx NOT_EXIST ''not exist'' s)
      | _ \<Rightarrow> (SM_INVALID_PARAM, ReplyWithMessage ctx INVALID_MESSAGE ''invalid request: key should be one and no values.'' s))"

text \<open>\<^verbatim>\<open>AppendHandler\<close> computes the new value in \<^verbatim>\<open>reqVal\<close>, but wakes the waiting requests with \<^verbatim>\<open>value\<close>, the part appended.\<close>

definition AppendHandler ::
  "'b ConfigStoreBackend \<Rightarrow> 'b server_env \<Rightarrow> request_ctx \<Rightarrow> SmemMessage \<Rightarrow> 'b server \<Rightarrow> int \<times> 'b server" where
  "AppendHandler B env ctx request s =
     (case (keys request, vals request) of
        ([key], [value]) \<Rightarrow>
          if length key > MAX_KEY_LEN_SERVER then (error_code INVALID_KEY, s)
          else let (ret, oldValue) = Get B key (ss_backend s);
                   newValue = (if ret = SUCCESS then oldValue @ value else value);
                   (ret, b) = Put B key newValue EPHEMERAL_KEY_TTL_SEC (ss_backend s);
                   (wakeup, s) = GetWakeupList key (s\<lparr>ss_backend := b\<rparr>);
                   s = ReplyWithMessage ctx ret (dec (length newValue)) s
               in (SM_OK, wakeup_if env wakeup value s)
      | _ \<Rightarrow> (SM_INVALID_PARAM, ReplyWithMessage ctx INVALID_MESSAGE ''invalid request: key & value should be one.'' s))"

definition CasHandler ::
  "'b ConfigStoreBackend \<Rightarrow> 'b server_env \<Rightarrow> request_ctx \<Rightarrow> SmemMessage \<Rightarrow> 'b server \<Rightarrow> int \<times> 'b server" where
  "CasHandler B env ctx request s =
     (case (keys request, vals request) of
        ([key], [expected, exchange]) \<Rightarrow>
          if length key > MAX_KEY_LEN_SERVER then (error_code INVALID_KEY, s)
          else let (ret, oldValue) = Get B key (ss_backend s)
            in if ret = SUCCESS
               then if expected = oldValue
                 then let (wakeup, s) = GetWakeupList key s;
                          (ret, b) = Put B key exchange EPHEMERAL_KEY_TTL_SEC (ss_backend s);
                          s = ReplyWithMessage ctx ret (Pack (new_message (mt request) [] [exchange])) (s\<lparr>ss_backend := b\<rparr>)
                      in (SM_OK, wakeup_if env wakeup exchange s)
                 else (SM_OK, ReplyWithMessage ctx ret (Pack (new_message (mt request) [] [oldValue, oldValue])) s)
               else let (ret, b) = Put B key exchange EPHEMERAL_KEY_TTL_SEC (ss_backend s);
                        (wakeup, s) = GetWakeupList key (s\<lparr>ss_backend := b\<rparr>);
                        s = ReplyWithMessage ctx ret (Pack (new_message (mt request) [] [exchange])) s
                    in (SM_OK, wakeup_if env wakeup exchange s)
      | _ \<Rightarrow> (SM_INVALID_PARAM, ReplyWithMessage ctx INVALID_MESSAGE ''invalid request: count(key)=1 & count(value)=2'' s))"

definition WriteHandler :: "'b ConfigStoreBackend \<Rightarrow> request_ctx \<Rightarrow> SmemMessage \<Rightarrow> 'b server \<Rightarrow> int \<times> 'b server" where
  "WriteHandler B ctx request s =
     (case (keys request, vals request) of
        ([key], [value]) \<Rightarrow>
          if length key > MAX_KEY_LEN_SERVER then (error_code INVALID_KEY, s)
          else if length value < 4
          then (SM_INVALID_PARAM, ReplyWithMessage ctx INVALID_MESSAGE ''value size too small.'' s)
          else let offset = le_nat (take 4 value); realValSize = length value - 4; totalSize = u64 (offset + realValSize)
            in if realValSize > (2 ^ 64 - 1) div MAX_U16_INDEX
               then (SM_INVALID_PARAM, ReplyWithMessage ctx INVALID_MESSAGE ''value size too large.'' s)
               else if offset > MAX_U16_INDEX * realValSize then (error_code INVALID_KEY, s)
               else if totalSize < realValSize
               then (SM_INVALID_PARAM, ReplyWithMessage ctx INVALID_MESSAGE ''offset plus value size overflow.'' s)
               else if totalSize > MAX_WRITE_TOTAL_SIZE
               then (SM_INVALID_PARAM, ReplyWithMessage ctx INVALID_MESSAGE ''write total size exceeds limit.'' s)
               else let (ret, oldValue) = Get B key (ss_backend s);
                        (ret, b) = (if ret \<noteq> SUCCESS
                                    then Put B key (replicate totalSize (char_of (0 :: nat))) EPHEMERAL_KEY_TTL_SEC (ss_backend s)
                                    else (ret, ss_backend s));
                        s = s\<lparr>ss_backend := b\<rparr>
                    in if ret \<noteq> SUCCESS then (error_code ERROR, ReplyWithMessage ctx ERROR ''failed'' s)
                       else let (ret, newValue) = Get B key (ss_backend s);
                                curValue = (if ret = SUCCESS then newValue else oldValue);
                                curValue = curValue @ replicate (totalSize - length curValue) (char_of (0 :: nat));
                                curValue = take offset curValue @ drop 4 value @ drop (offset + realValSize) curValue;
                                (ret, b) = Put B key curValue EPHEMERAL_KEY_TTL_SEC (ss_backend s);
                                s = s\<lparr>ss_backend := b\<rparr>
                            in if ret \<noteq> SUCCESS then (error_code ERROR, ReplyWithMessage ctx ERROR ''failed'' s)
                               else (SM_OK, ReplyWithMessage ctx SUCCESS ''success'' s)
      | _ \<Rightarrow> (SM_INVALID_PARAM, ReplyWithMessage ctx INVALID_MESSAGE ''invalid request: key & value should be one.'' s))"


section \<open>Ranks\<close>

definition PersistWorldSize :: "'b ConfigStoreBackend \<Rightarrow> nat \<Rightarrow> 'b \<Rightarrow> StoreErrorCode \<times> 'b" where
  "PersistWorldSize B len b =
     (if \<not> IsDistributed B then (SUCCESS, b) else Put B KEY_WORLD_SIZE (dec len) EPHEMERAL_KEY_TTL_SEC b)"

definition PersistAliveRankIds :: "'b ConfigStoreBackend \<Rightarrow> nat list \<Rightarrow> 'b \<Rightarrow> StoreErrorCode \<times> 'b" where
  "PersistAliveRankIds B ranks b =
     (if \<not> IsDistributed B then (SUCCESS, b)
      else if ranks = [] then Delete B KEY_ALIVE_RANK_LIST b
      else Put B KEY_ALIVE_RANK_LIST (join CHR '','' (map dec ranks)) 0 b)"

text \<open>The loop over the parts of the recovered list; \<open>None\<close> when one of them is not a rank.\<close>

fun recover_ranks :: "nat \<Rightarrow> string list \<Rightarrow> nat list \<Rightarrow> nat list option" where
  "recover_ranks pos [] outRanks = Some outRanks"
| "recover_ranks pos (idStr # list) outRanks =
     (if idStr = [] then recover_ranks pos list outRanks
      else case String2Uint NO_RANK idStr of
        None \<Rightarrow> None
      | Some val \<Rightarrow> recover_ranks pos list (us_insert pos val outRanks))"

definition RecoverAliveRankIds :: "'b ConfigStoreBackend \<Rightarrow> nat \<Rightarrow> nat list \<Rightarrow> 'b \<Rightarrow> StoreErrorCode \<times> nat list \<times> 'b" where
  "RecoverAliveRankIds B pos outRanks b =
     (if \<not> IsDistributed B then (SUCCESS, outRanks, b)
      else let (ret, rankStr) = Get B KEY_ALIVE_RANK_LIST b
        in if ret \<noteq> SUCCESS \<or> rankStr = [] then (SUCCESS, [], b)
           else case recover_ranks pos (Split CHR '','' rankStr) [] of
             None \<Rightarrow> (ERROR, [], b)
           | Some ranks \<Rightarrow> (SUCCESS, ranks, snd (Delete B KEY_ALIVE_RANK_LIST b)))"

definition RestoreFromBackend :: "'b ConfigStoreBackend \<Rightarrow> nat \<Rightarrow> 'b server \<Rightarrow> int \<times> 'b server" where
  "RestoreFromBackend B pos s =
     (if \<not> IsDistributed B then (SM_OK, s)
      else let (_, ranks, b) = RecoverAliveRankIds B pos (ss_aliveRankFromBackend s) (ss_backend s)
           in (SM_OK, s\<lparr>ss_aliveRankFromBackend := ranks, ss_backend := b\<rparr>))"

definition GetStatus :: "'b ConfigStoreBackend \<Rightarrow> 'b server_env \<Rightarrow> bool" where
  "GetStatus B env \<longleftrightarrow>
     (if \<not> IsDistributed B then True
      else list_ex (\<lambda>attempt. fst (ve_leader env attempt) = SUCCESS \<and> snd (ve_leader env attempt) = ''true'') [0..<5 + 1])"

definition UpdateStatus :: "'b ConfigStoreBackend \<Rightarrow> bool \<Rightarrow> 'b \<Rightarrow> int \<times> 'b" where
  "UpdateStatus B status b =
     (if \<not> IsDistributed B then (SM_OK, b)
      else let (ret, b) = (if status then Put B KEY_LEADER_STATUS ''true'' EPHEMERAL_KEY_TTL_SEC b else Delete B KEY_LEADER_STATUS b)
           in (error_code ret, b))"

text \<open>The search for a free rank is a loop without a bound; a run that does not end is \<open>None\<close>.\<close>

partial_function (option) rank_search :: "nat \<Rightarrow> nat list \<Rightarrow> nat \<Rightarrow> nat option" where
  "rank_search worldSize alive rankIndex =
     (let rankIndex = rankIndex mod worldSize
      in if rankIndex \<notin> set alive then Some rankIndex
         else rank_search worldSize alive ((rankIndex + 1) mod 2 ^ 32))"

definition FindOrInsertRank ::
  "'b ConfigStoreBackend \<Rightarrow> 'b server_env \<Rightarrow> request_ctx \<Rightarrow> SmemMessage \<Rightarrow> string \<Rightarrow> 'b server \<Rightarrow> (int \<times> 'b server) option" where
  "FindOrInsertRank B env ctx request key s =
     (let rankingKey = key @ dec (cx_link ctx); (ret, oldValue) = Get B rankingKey (ss_backend s)
      in if ret = SUCCESS
         then Some (SM_OK, ReplyWithMessage ctx SUCCESS (Pack (new_message (mt request) [] [oldValue])) s)
         else if length (ss_aliveRankSet s) \<ge> ss_worldSize s
         then Some (SM_ERROR, ReplyWithMessage ctx ERROR ''error: worldSize rankSize bigger than worldSize.'' s)
         else do {
           rank \<leftarrow> rank_search (ss_worldSize s) (ss_aliveRankSet s) (ss_rankIndex s);
           let alive = us_insert (ve_pos env) rank (ss_aliveRankSet s);
           let (ret, b) = PersistAliveRankIds B alive (ss_backend s);
           let s = s\<lparr>ss_rankIndex := rank, ss_backend := b\<rparr>;
           if ret \<noteq> SUCCESS then Some (SM_ERROR, s)
           else let data = le_bytes 4 rank;
                    (ret, b) = Put B rankingKey data EPHEMERAL_KEY_TTL_SEC (ss_backend s);
                    s = s\<lparr>ss_aliveRankSet := alive, ss_backend := b\<rparr>
                in Some (SM_OK, ReplyWithMessage ctx ret (Pack (new_message (mt request) [] [data])) s) })"

definition QueryAliveHandler :: "request_ctx \<Rightarrow> SmemMessage \<Rightarrow> 'b server \<Rightarrow> int \<times> 'b server" where
  "QueryAliveHandler ctx request s =
     (case (keys request, vals request) of
        ([key], []) \<Rightarrow>
          (case String2Uint NO_RANK key of
             None \<Rightarrow> (SM_INVALID_PARAM, ReplyWithMessage ctx INVALID_MESSAGE ''invalid input'' s)
           | Some rank \<Rightarrow>
               (SM_OK, ReplyWithMessage ctx SUCCESS
                 (Pack (new_message (mt request) [] (if rank \<in> set (ss_aliveRankSet s) then [[char_of (1 :: nat)]] else []))) s))
      | _ \<Rightarrow> (SM_INVALID_PARAM, ReplyWithMessage ctx INVALID_MESSAGE ''invalid request: key should be one and no values.'' s))"

section \<open>Requests that read and watch\<close>

definition GetHandler ::
  "'b ConfigStoreBackend \<Rightarrow> 'b server_env \<Rightarrow> request_ctx \<Rightarrow> SmemMessage \<Rightarrow> 'b server \<Rightarrow> (int \<times> 'b server) option" where
  "GetHandler B env ctx request s =
     (case (keys request, vals request) of
        ([key], []) \<Rightarrow>
          if length key > MAX_KEY_LEN_SERVER then Some (error_code INVALID_KEY, s)
          else if take (length AutoRankingStr) key = AutoRankingStr
          then if \<not> GetStatus B env then Some (SM_ERROR, ReplyWithMessage ctx ERROR ''leader status inactive'' s)
               else FindOrInsertRank B env ctx request key s
          else let (ret, oldValue) = Get B key (ss_backend s)
            in if ret = SUCCESS
               then Some (SM_OK, ReplyWithMessage ctx SUCCESS (Pack (new_message (mt request) [] [oldValue])) s)
               else if userDef request = 0
               then Some (SM_ERROR, ReplyWithMessage ctx NOT_EXIST ''<not exist>'' s)
               else let timeoutMs = ve_now env + userDef request; i = ss_idGen s;
                        w = \<lparr>wc_id = i, wc_timeoutMs = timeoutMs, wc_key = key, wc_reqCtx = ctx\<rparr>;
                        kw = (case um_find key (ss_keyWaiters s) of
                                Some ids \<Rightarrow> um_set 0 key (us_insert (ve_pos env) i ids) (ss_keyWaiters s)
                              | None \<Rightarrow> um_emplace (ve_pos env) key [i] (ss_keyWaiters s));
                        tw = (if userDef request > 0
                              then (case um_find timeoutMs (ss_timedWaiters s) of
                                      None \<Rightarrow> um_emplace (ve_pos env) timeoutMs [i] (ss_timedWaiters s)
                                    | Some ids \<Rightarrow> um_set 0 timeoutMs (us_insert (ve_pos env) i ids) (ss_timedWaiters s))
                              else ss_timedWaiters s)
                    in Some (SM_OK, s\<lparr>ss_idGen := u64 (i + 1), ss_waitCtx := um_emplace (ve_pos env) i w (ss_waitCtx s),
                                      ss_keyWaiters := kw, ss_timedWaiters := tw\<rparr>)
      | _ \<Rightarrow> Some (SM_INVALID_PARAM,
               ReplyWithMessage ctx INVALID_MESSAGE ''invalid request: key should be one and no values.'' s))"

definition PrefixGetHandler :: "'b ConfigStoreBackend \<Rightarrow> request_ctx \<Rightarrow> SmemMessage \<Rightarrow> 'b server \<Rightarrow> int \<times> 'b server" where
  "PrefixGetHandler B ctx request s =
     (case (keys request, vals request) of
        ([key], []) \<Rightarrow>
          if length key > MAX_KEY_LEN_SERVER then (error_code INVALID_KEY, s)
          else let (ret, retValue) = PrefixGet B key (ss_backend s)
            in if ret = SUCCESS
               then (SM_OK, ReplyWithMessage ctx SUCCESS (Pack (new_message (mt request) (map fst retValue) (map snd retValue))) s)
               else (SM_OK, ReplyWithMessage ctx ERROR (Pack (new_message (mt request) [] [])) s)
      | _ \<Rightarrow> (SM_INVALID_PARAM, ReplyWithMessage ctx INVALID_MESSAGE ''invalid request: key should be one and no values.'' s))"

definition WatchHandler ::
  "'b ConfigStoreBackend \<Rightarrow> 'b server_env \<Rightarrow> request_ctx \<Rightarrow> SmemMessage \<Rightarrow> 'b server \<Rightarrow> int \<times> 'b server" where
  "WatchHandler B env ctx request s =
     (case (keys request, vals request) of
        ([key], []) \<Rightarrow>
          if length key > MAX_KEY_LEN_SERVER then (error_code INVALID_KEY, s)
          else let (ret, oldValue) = Get B key (ss_backend s); linkId = cx_link ctx;
                   w = \<lparr>wc_id = ss_idGen s, wc_timeoutMs = -1, wc_key = key, wc_reqCtx = ctx\<rparr>;
                   ws = (case um_find key (ss_watchWaiters s) of None \<Rightarrow> [] | Some ws \<Rightarrow> ws);
                   ks = (case um_find linkId (ss_linkWatchList s) of None \<Rightarrow> [] | Some ks \<Rightarrow> ks);
                   s = s\<lparr>ss_idGen := u64 (ss_idGen s + 1),
                         ss_watchWaiters := um_set (ve_pos env) key (um_emplace (ve_pos env) linkId w ws) (ss_watchWaiters s),
                         ss_linkWatchList := um_set (ve_pos env) linkId (ks @ [key]) (ss_linkWatchList s)\<rparr>
               in (SM_OK, if ret = SUCCESS
                          then ReplyWithMessage ctx SUCCESS (Pack (new_message (mt request) [] [oldValue])) s else s)
      | _ \<Rightarrow> (SM_INVALID_PARAM, ReplyWithMessage ctx INVALID_MESSAGE ''invalid request: key should be one and has values.'' s))"

definition WatchRankStateHandler :: "'b server_env \<Rightarrow> request_ctx \<Rightarrow> SmemMessage \<Rightarrow> 'b server \<Rightarrow> int \<times> 'b server" where
  "WatchRankStateHandler env ctx request s =
     (if keys request \<noteq> [WATCH_RANK_DOWN_KEY]
      then (SM_INVALID_PARAM, ReplyWithMessage ctx INVALID_MESSAGE ''invalid request: key should be'' s)
      else let linkId = cx_link ctx;
               w = \<lparr>wc_id = ss_idGen s, wc_timeoutMs = -1, wc_key = WATCH_RANK_DOWN_KEY, wc_reqCtx = ctx\<rparr>;
               s' = s\<lparr>ss_idGen := u64 (ss_idGen s + 1)\<rparr>
           in if um_find linkId (ss_rankStateWaiters s) \<noteq> None then (SM_REPEAT_CALL, s')
              else (SM_OK, s'\<lparr>ss_rankStateWaiters := um_emplace (ve_pos env) linkId w (ss_rankStateWaiters s)\<rparr>))"

definition HeartbeatHandler :: "'b server_env \<Rightarrow> request_ctx \<Rightarrow> SmemMessage \<Rightarrow> 'b server \<Rightarrow> int \<times> 'b server" where
  "HeartbeatHandler env ctx request s =
     (if keys request \<noteq> [] \<or> vals request \<noteq> [] then (SM_INVALID_PARAM, s)
      else (SM_OK, s\<lparr>ss_heartBeatMap := um_set (ve_pos env) (cx_link ctx) (ve_now env) (ss_heartBeatMap s)\<rparr>))"


section \<open>Messages and links\<close>

definition handle ::
  "'b ConfigStoreBackend \<Rightarrow> 'b server_env \<Rightarrow> request_ctx \<Rightarrow> SmemMessage \<Rightarrow> 'b server \<Rightarrow> (int \<times> 'b server) option" where
  "handle B env ctx request s =
     (case mt request of
        SET \<Rightarrow> Some (SetHandler B env ctx request s)
      | GET \<Rightarrow> GetHandler B env ctx request s
      | PREFIX \<Rightarrow> Some (PrefixGetHandler B ctx request s)
      | WATCH \<Rightarrow> Some (WatchHandler B env ctx request s)
      | ADD \<Rightarrow> Some (AddHandler B env ctx request s)
      | REMOVE \<Rightarrow> Some (RemoveHandler B ctx request s)
      | APPEND \<Rightarrow> Some (AppendHandler B env ctx request s)
      | CAS \<Rightarrow> Some (CasHandler B env ctx request s)
      | WRITE \<Rightarrow> Some (WriteHandler B ctx request s)
      | QUERY_ALIVE \<Rightarrow> Some (QueryAliveHandler ctx request s)
      | WATCH_RANK_STATE \<Rightarrow> Some (WatchRankStateHandler env ctx request s)
      | HEARTBEAT \<Rightarrow> Some (HeartbeatHandler env ctx request s)
      | INVALID_MSG \<Rightarrow> Some (SM_ERROR, ReplyWithMessage ctx INVALID_MESSAGE ''invalid request message type'' s))"

definition ReceiveMessageHandler ::
  "'b ConfigStoreBackend \<Rightarrow> 'b server_env \<Rightarrow> request_ctx \<Rightarrow> bytes option \<Rightarrow> 'b server \<Rightarrow> (int \<times> 'b server) option" where
  "ReceiveMessageHandler B env ctx data s =
     (case data of
        None \<Rightarrow> Some (SM_INVALID_PARAM, ReplyWithMessage ctx INVALID_MESSAGE ''request no body'' s)
      | Some d \<Rightarrow>
          (case Unpack (Some d) of
             None \<Rightarrow> Some (SM_ERROR, ReplyWithMessage ctx INVALID_MESSAGE ''invalid request'' s)
           | Some (_, request) \<Rightarrow> handle B env ctx request s))"

definition CanReceiveNewLink :: "nat \<Rightarrow> 'b server \<Rightarrow> bool \<times> 'b server" where
  "CanReceiveNewLink nowT s =
     (let startT = (case ss_startT s of None \<Rightarrow> nowT | Some t \<Rightarrow> t);
          s = s\<lparr>ss_startT := Some startT\<rparr>;
          s = (if ss_state s = SS_INITED then s\<lparr>ss_state := (if ss_skipRecover s then SS_NORMAL else SS_RECOVER)\<rparr>
               else if ss_state s = SS_RECOVER \<and> nowT > startT + SERVER_RECOVER_TIME then s\<lparr>ss_state := SS_NORMAL\<rparr>
               else s)
      in (ss_state s = SS_NORMAL, s))"

text \<open>\<open>linkId\<close> is the new link, \<open>req\<close> the 64-bit field with the world size in the high and the rank in the low half.\<close>

definition LinkConnectedHandler ::
  "'b ConfigStoreBackend \<Rightarrow> 'b server_env \<Rightarrow> nat \<Rightarrow> nat \<Rightarrow> nat \<Rightarrow> nat \<Rightarrow> 'b server \<Rightarrow> int \<times> 'b server" where
  "LinkConnectedHandler B env nowT linkId req reconnect s =
     (let worldSize = (req div 2 ^ 32) mod 2 ^ 32; rankId = req mod 2 ^ 32;
          (ret, s) = (if ss_worldSize s = NO_RANK
                      then let (ret, b) = PersistWorldSize B worldSize (ss_backend s)
                           in if ret \<noteq> SUCCESS then (SM_ERROR, s\<lparr>ss_backend := b\<rparr>)
                              else (SM_OK, s\<lparr>ss_backend := b, ss_worldSize := worldSize\<rparr>)
                      else if ss_worldSize s \<noteq> worldSize then (SM_INVALID_PARAM, s) else (SM_OK, s))
      in if ret \<noteq> SM_OK then (ret, s)
         else let s = (if reconnect = 1 \<and> ss_skipRecover s then s\<lparr>ss_skipRecover := False\<rparr> else s);
                  (can, s) = CanReceiveNewLink nowT s
           in if \<not> can \<and> reconnect = 0 then (SM_RECONNECT, s)
              else if rankId \<ge> NO_RANK then (SM_OK, s)
              else if rankId \<in> set (ss_aliveRankSet s) then (SM_ERROR, s)
              else let (ret, b) = Put B (AutoRankingStr @ dec linkId) (le_bytes 4 rankId) EPHEMERAL_KEY_TTL_SEC (ss_backend s);
                       s = s\<lparr>ss_backend := b\<rparr>
                in if ret \<noteq> SUCCESS then (error_code ret, s)
                   else let alive = us_insert (ve_pos env) rankId (ss_aliveRankSet s);
                            (ret, b) = PersistAliveRankIds B alive (ss_backend s);
                            s = s\<lparr>ss_aliveRankSet := alive, ss_backend := b\<rparr>
                        in (if ret \<noteq> SUCCESS then SM_ERROR else SM_OK, s))"

text \<open>The value under the ranking key is copied into a union of four bytes; a longer one is written past its end, which is
  undefined and here \<open>None\<close>.\<close>

definition LinkBrokenHandler :: "'b ConfigStoreBackend \<Rightarrow> 'b server_env \<Rightarrow> nat \<Rightarrow> 'b server \<Rightarrow> (int \<times> 'b server) option" where
  "LinkBrokenHandler B env linkId s =
     (let rankingKey = AutoRankingStr @ dec linkId; (found, outValue) = Get B rankingKey (ss_backend s)
      in if found = SUCCESS \<and> length outValue > 4 then None
         else let rankId = (if found = SUCCESS then le_nat outValue else NO_RANK);
                  (ret, b) = (if found = SUCCESS then Delete B rankingKey (ss_backend s) else (SUCCESS, ss_backend s));
                  alive = (if found = SUCCESS then us_erase rankId (ss_aliveRankSet s) else ss_aliveRankSet s);
                  s = s\<lparr>ss_aliveRankSet := alive, ss_backend := b\<rparr>
           in if ret \<noteq> SUCCESS then Some (SM_ERROR, s)
              else let b = (if found = SUCCESS then snd (PersistAliveRankIds B alive (ss_backend s)) else ss_backend s);
                       s = s\<lparr>ss_backend := b, ss_heartBeatMap := um_erase linkId (ss_heartBeatMap s)\<rparr>;
                       s = (case ve_broken env of
                              Some handler \<Rightarrow> s\<lparr>ss_backend := handler linkId (ss_backend s)\<rparr>
                            | None \<Rightarrow>
                                if ss_aliveRankSet s = []
                                then s\<lparr>ss_rankIndex := 0, ss_waitCtx := [], ss_keyWaiters := [], ss_timedWaiters := [],
                                       ss_rankStateWaiters := [], ss_linkWatchList := [], ss_watchWaiters := [],
                                       ss_rankStateTaskQueue := [],
                                       ss_backend := snd (Delete B KEY_ALIVE_RANK_LIST (Clear B (ss_backend s)))\<rparr>
                                else s);
                       watched = (case um_find linkId (ss_linkWatchList s) of None \<Rightarrow> [] | Some ks \<Rightarrow> ks);
                       ww = fold (\<lambda>key ww. um_set (ve_pos env) key
                              (um_erase linkId (case um_find key ww of None \<Rightarrow> [] | Some ws \<Rightarrow> ws)) ww) watched (ss_watchWaiters s);
                       s = s\<lparr>ss_rankStateWaiters := um_erase linkId (ss_rankStateWaiters s), ss_watchWaiters := ww,
                             ss_linkWatchList := um_erase linkId (ss_linkWatchList s)\<rparr>
                   in if rankId = NO_RANK then Some (SM_OK, s)
                      else Some (SM_OK, s\<lparr>ss_rankStateTaskQueue := ss_rankStateTaskQueue s @ [rankId]\<rparr>))"


section \<open>The threads\<close>

definition timer_round :: "'b server_env \<Rightarrow> 'b server \<Rightarrow> 'b server" where
  "timer_round env s =
     (let expired = takeWhile (\<lambda>(t, _). \<not> t > ve_now env) (ss_timedWaiters s);
          timeoutIds = remdups (concat (map snd expired));
          s = s\<lparr>ss_timedWaiters := drop (length expired) (ss_timedWaiters s)\<rparr>;
          (timeoutContexts, s) = GetOutWaitersInLock timeoutIds s
      in reply_established env TIMEOUT ''<timeout>'' timeoutContexts s)"

text \<open>A round of \<^verbatim>\<open>RankStateTask\<close> once there is a rank in the queue.\<close>

definition rank_state_round :: "'b server_env \<Rightarrow> 'b server \<Rightarrow> 'b server" where
  "rank_state_round env s =
     (case ss_rankStateTaskQueue s of
        [] \<Rightarrow> s
      | rankId # queue \<Rightarrow>
          reply_established env SUCCESS (Pack (new_message WATCH_RANK_STATE [] [le_bytes 4 rankId]))
            (map (\<lambda>(_, w). wc_reqCtx w) (ss_rankStateWaiters s)) (s\<lparr>ss_rankStateTaskQueue := queue\<rparr>))"

definition LinkBroken_inner :: "'b server_env \<Rightarrow> nat \<Rightarrow> 'b server \<Rightarrow> 'b server" where
  "LinkBroken_inner env linkId s =
     s\<lparr>ss_backend := (case ve_broken env of None \<Rightarrow> ss_backend s | Some handler \<Rightarrow> handler linkId (ss_backend s)),
       ss_heartBeatMap := um_erase linkId (ss_heartBeatMap s)\<rparr>"

definition checker_round :: "'b server_env \<Rightarrow> 'b server \<Rightarrow> 'b server" where
  "checker_round env s =
     (let late = (\<lambda>(_, t). (ve_now env - t) div HEARTBEAT_INTERVAL > HEARTBEAT_TIMEOUT);
          brokenLinks = map fst (filter late (ss_heartBeatMap s));
          s = s\<lparr>ss_heartBeatMap := filter (\<lambda>e. \<not> late e) (ss_heartBeatMap s)\<rparr>
      in fold (LinkBroken_inner env) brokenLinks s)"

text \<open>What \<^verbatim>\<open>CleanupStaleRanks\<close> does to the state between its two waits.\<close>

definition cleanup_round :: "'b server \<Rightarrow> 'b server" where
  "cleanup_round s =
     (let ranksToRemove = filter (\<lambda>rank. rank \<notin> set (ss_aliveRankSet s)) (ss_aliveRankFromBackend s)
      in s\<lparr>ss_aliveRankFromBackend := ranksToRemove, ss_rankStateTaskQueue := ss_rankStateTaskQueue s @ ranksToRemove\<rparr>)"

end
