(* ===== verification/Store_Refinement.thy ===== *)
theory Store_Refinement
  imports Store_Server
begin

text \<open>
  What the configuration store promises its clients, as a function on partial maps, and that the server keeps the promise.

  \<open>store_spec\<close> says what a request does to the stored values; it knows nothing of waiting requests, replies and threads. The
  refinement is proved for every backend that satisfies the laws of \<open>store_backend\<close> and stated for the local one. It goes through
  the wire format: the requests of the theorem are packed messages.
\<close>

section \<open>Replies leave the rest of the state alone\<close>

lemma reply_established_eq:
  "reply_established env code response ctxs s =
     s\<lparr>ss_sent := ss_sent s @ map (\<lambda>ctx. \<lparr>rp_ctx = ctx, rp_code = error_code code, rp_body = response\<rparr>)
        (filter (\<lambda>ctx. ve_established env (cx_link ctx)) ctxs)\<rparr>"
  unfolding reply_established_def
proof (induction ctxs arbitrary: s)
  case (Cons ctx ctxs)
  then show ?case by (simp add: ReplyWithMessage_def)
qed simp

definition wake_replies :: "'b server_env \<Rightarrow> request_ctx list \<times> request_ctx list \<Rightarrow> bytes \<Rightarrow> reply list" where
  "wake_replies env wakeup value =
     map (\<lambda>ctx. \<lparr>rp_ctx = ctx, rp_code = 0, rp_body = Pack (new_message GET [] [value])\<rparr>)
       (filter (\<lambda>ctx. ve_established env (cx_link ctx)) (fst wakeup)) @
     map (\<lambda>ctx. \<lparr>rp_ctx = ctx, rp_code = 0, rp_body = Pack (new_message WATCH [] [value])\<rparr>)
       (filter (\<lambda>ctx. ve_established env (cx_link ctx)) (snd wakeup))"

lemma wakeup_if_eq: "wakeup_if env wakeup value s = s\<lparr>ss_sent := ss_sent s @ wake_replies env wakeup value\<rparr>"
  by (auto simp: wakeup_if_def WakeupWaiters_def reply_established_eq wake_replies_def Let_def)

lemma GetOut_backend: "ss_backend (snd (GetOutWaitersInLock ids s)) = ss_backend s"
  by (induction ids s rule: GetOutWaitersInLock.induct) (auto simp: Let_def split_beta split: option.splits)

lemma GetOut_sent: "ss_sent (snd (GetOutWaitersInLock ids s)) = ss_sent s"
  by (induction ids s rule: GetOutWaitersInLock.induct) (auto simp: Let_def split_beta split: option.splits)

lemma GetWakeupList_backend: "ss_backend (snd (GetWakeupList key s)) = ss_backend s" "ss_sent (snd (GetWakeupList key s)) = ss_sent s"
  by (auto simp: GetWakeupList_def GetOut_backend GetOut_sent Let_def split_beta split: option.splits)

lemmas backend_simps = ReplyWithMessage_def wakeup_if_eq GetWakeupList_backend


section \<open>The specification\<close>

definition numeral_value :: "bytes \<Rightarrow> int option" where
  "numeral_value v = (case String2Int v of None \<Rightarrow> None | Some n \<Rightarrow> if v = to_string n then Some n else None)"

definition spec_add :: "bytes \<Rightarrow> bytes option \<Rightarrow> bytes option" where
  "spec_add v old =
     (case (numeral_value v, old) of
        (None, _) \<Rightarrow> old
      | (Some n, None) \<Rightarrow> Some v
      | (Some n, Some w) \<Rightarrow>
          (case String2Int w of
             None \<Rightarrow> old
           | Some p \<Rightarrow> if (p = 0 \<and> w \<noteq> ''0'') \<or> p + n < - (2 ^ 63) \<or> p + n \<ge> 2 ^ 63 then old else Some (to_string (p + n))))"

definition spec_write :: "bytes \<Rightarrow> bytes option \<Rightarrow> bytes option" where
  "spec_write v old =
     (let offset = le_nat (take 4 v); new = drop 4 v; total = offset + length new;
          cur = (case old of None \<Rightarrow> [] | Some w \<Rightarrow> w); cur = cur @ replicate (total - length cur) (char_of (0 :: nat))
      in if length v < 4 \<or> offset > MAX_U16_INDEX * length new \<or> total > MAX_WRITE_TOTAL_SIZE then old
         else Some (take offset cur @ new @ drop total cur))"

definition spec_value :: "MessageType \<Rightarrow> bytes list \<Rightarrow> bytes option \<Rightarrow> bytes option" where
  "spec_value t vs old =
     (case (t, vs) of
        (SET, [v]) \<Rightarrow> Some v
      | (ADD, [v]) \<Rightarrow> spec_add v old
      | (REMOVE, []) \<Rightarrow> None
      | (APPEND, [v]) \<Rightarrow> Some (case old of None \<Rightarrow> v | Some w \<Rightarrow> w @ v)
      | (CAS, [expected, v]) \<Rightarrow> if old = None \<or> old = Some expected then Some v else old
      | (WRITE, [v]) \<Rightarrow> spec_write v old
      | _ \<Rightarrow> old)"

definition store_spec :: "SmemMessage \<Rightarrow> (string \<rightharpoonup> bytes) \<Rightarrow> (string \<rightharpoonup> bytes)" where
  "store_spec m c =
     (case keys m of
        [k] \<Rightarrow> if length k > MAX_KEY_LEN_SERVER then c else c(k := spec_value (mt m) (vals m) (c k))
      | _ \<Rightarrow> c)"

definition asks_rank :: "SmemMessage \<Rightarrow> bool" where
  "asks_rank m \<longleftrightarrow> mt m = GET \<and> (\<exists>k\<in>set (keys m). take (length AutoRankingStr) k = AutoRankingStr)"

text \<open>A run of the server on the requests it receives, each with its environment and its context.\<close>

type_synonym 'b packet = "'b server_env \<times> request_ctx \<times> SmemMessage"

definition serve_packets :: "'b ConfigStoreBackend \<Rightarrow> 'b packet list \<Rightarrow> 'b server \<Rightarrow> 'b server option" where
  "serve_packets B ps s =
     for_each ps (\<lambda>(env, ctx, m) s. map_option snd (ReceiveMessageHandler B env ctx (Some (Pack m)) s)) s"

definition sendable :: "SmemMessage \<Rightarrow> bool" where
  "sendable m \<longleftrightarrow> within_limits m \<and> - (2 ^ 63) \<le> userDef m \<and> userDef m < 2 ^ 63"

lemma sum_list_bound: "\<forall>x\<in>set xs. f x \<le> b \<Longrightarrow> length xs \<le> n \<Longrightarrow> (\<Sum>x\<leftarrow>xs. 8 + f x) \<le> n * (8 + (b :: nat))"
proof -
  assume "\<forall>x\<in>set xs. f x \<le> b" and n: "length xs \<le> n"
  then have "(\<Sum>x\<leftarrow>xs. 8 + f x) \<le> length xs * (8 + b)" by (induction xs) auto
  also have "\<dots> \<le> n * (8 + b)" using n by simp
  finally show ?thesis .
qed

lemma Pack_small: "within_limits m \<Longrightarrow> length (Pack m) < 2 ^ 63"
  using sum_list_bound [of "keys m" length MAX_KEY_SIZE MAX_KEY_COUNT] sum_list_bound [of "vals m" length MAX_VALUE_SIZE MAX_VALUE_COUNT]
  by (simp add: within_limits_def length_Pack baseSize_def MAX_KEY_COUNT_def MAX_KEY_SIZE_def MAX_VALUE_COUNT_def MAX_VALUE_SIZE_def)

lemma Receive_Pack: "sendable m \<Longrightarrow> ReceiveMessageHandler B env ctx (Some (Pack m)) s = handle B env ctx m s"
  using Unpack_Pack [of m "[]"] Pack_small [of m] by (simp add: ReceiveMessageHandler_def sendable_def)


section \<open>Every handler refines it\<close>

context store_backend begin

definition refined :: "SmemMessage \<Rightarrow> 'b server \<Rightarrow> 'b server \<Rightarrow> bool" where
  "refined m s s' \<longleftrightarrow> ok (ss_backend s') \<and> content (ss_backend s') = store_spec m (content (ss_backend s))"

lemma refined_same: "ok (ss_backend s) \<Longrightarrow> ss_backend s' = ss_backend s \<Longrightarrow> store_spec m (content (ss_backend s)) = content (ss_backend s) \<Longrightarrow> refined m s s'"
  by (simp add: refined_def)

lemma refined_put:
  assumes "ok (ss_backend s)" "keys m = [k]" "\<not> length k > MAX_KEY_LEN_SERVER" "spec_value (mt m) (vals m) (content (ss_backend s) k) = Some v"
    "ss_backend s' = snd (Put B k v ttl (ss_backend s))"
  shows "refined m s s'"
  using assms put_snd [OF assms(1)] by (simp add: refined_def store_spec_def)

lemma spec_keep:
  "keys m = [k] \<Longrightarrow> length k > MAX_KEY_LEN_SERVER \<or> spec_value (mt m) (vals m) (c k) = c k \<Longrightarrow> store_spec m c = c"
  "length (keys m) \<noteq> 1 \<Longrightarrow> store_spec m c = c"
  by (auto simp: store_spec_def split: list.splits)

lemma get_cases:
  assumes "ok b"
  obtains (none) "content b k = None" "Get B k b = (NOT_EXIST, [])" | (some) v where "content b k = Some v" "Get B k b = (SUCCESS, v)"
  using get [OF assms, of k] by (cases "content b k") auto

lemma Set_refined:
  assumes ok: "ok (ss_backend s)" and m: "mt m = SET"
  shows "refined m s (snd (SetHandler B env ctx m s))"
proof (cases "\<exists>k v. keys m = [k] \<and> vals m = [v] \<and> length k \<le> MAX_KEY_LEN_SERVER")
  case True
  then obtain k v where kv: "keys m = [k]" "vals m = [v]" "length k \<le> MAX_KEY_LEN_SERVER" by blast
  show ?thesis
    by (rule refined_put [OF ok kv(1), where v = v and ttl = EPHEMERAL_KEY_TTL_SEC])
      (use kv m in \<open>auto simp: SetHandler_def spec_value_def backend_simps Let_def split_beta\<close>)
next
  case False
  then show ?thesis
    using m by (intro refined_same [OF ok])
      (auto simp: SetHandler_def store_spec_def spec_value_def ReplyWithMessage_def split: list.splits)
qed

lemma Add_refined:
  assumes ok: "ok (ss_backend s)" and m: "mt m = ADD"
  shows "refined m s (snd (AddHandler B env ctx m s))"
proof (cases "\<exists>k v n. keys m = [k] \<and> vals m = [v] \<and> length k \<le> MAX_KEY_LEN_SERVER \<and> numeral_value v = Some n")
  case True
  then obtain k v n where kv: "keys m = [k]" "vals m = [v]" "length k \<le> MAX_KEY_LEN_SERVER" "numeral_value v = Some n" by blast
  have n: "String2Int v = Some n" "v = to_string n" using kv(4) by (auto simp: numeral_value_def split: option.splits if_splits)
  show ?thesis
  proof (cases "content (ss_backend s) k")
    case None
    then show ?thesis
      using kv m n get [OF ok, of k]
      by (intro refined_put [OF ok kv(1), where v = v and ttl = EPHEMERAL_KEY_TTL_SEC])
        (auto simp: AddHandler_def spec_value_def spec_add_def backend_simps Let_def split_beta)
  next
    case (Some w)
    let ?bad = "\<lambda>p. (p = 0 \<and> w \<noteq> ''0'') \<or> p + n < - (2 ^ 63) \<or> p + n \<ge> 2 ^ 63"
    show ?thesis
    proof (cases "\<exists>p. String2Int w = Some p \<and> \<not> ?bad p")
      case True
      then obtain p where p: "String2Int w = Some p" "\<not> ?bad p" by blast
      then show ?thesis
        using kv m n get [OF ok, of k] Some
        by (intro refined_put [OF ok kv(1), where v = "to_string (p + n)" and ttl = EPHEMERAL_KEY_TTL_SEC])
          (auto simp: AddHandler_def spec_value_def spec_add_def backend_simps Let_def split_beta)
    next
      case False
      then have "spec_value (mt m) (vals m) (content (ss_backend s) k) = content (ss_backend s) k"
        using kv m Some by (auto simp: spec_value_def spec_add_def split: option.splits)
      moreover have "ss_backend (snd (AddHandler B env ctx m s)) = ss_backend s"
        using False kv m n get [OF ok, of k] Some String2Int_range [of w]
        by (auto simp: AddHandler_def ReplyWithMessage_def Let_def split: option.splits)
      ultimately show ?thesis using spec_keep(1) [OF kv(1)] by (intro refined_same [OF ok]) simp_all
    qed
  qed
next
  case False
  have f: "v \<noteq> to_string n" if "keys m = [k]" "vals m = [v]" "length k \<le> MAX_KEY_LEN_SERVER" "String2Int v = Some n" for k v n
    using False that by (auto simp: numeral_value_def)
  have "ss_backend (snd (AddHandler B env ctx m s)) = ss_backend s"
    using f by (auto simp: AddHandler_def ReplyWithMessage_def split: list.splits option.splits)
  moreover have "numeral_value v = None" if "keys m = [k]" "vals m = [v]" "length k \<le> MAX_KEY_LEN_SERVER" for k v
    using f [OF that] by (auto simp: numeral_value_def split: option.splits)
  then have "store_spec m c = c" for c
    using m by (auto simp: store_spec_def spec_value_def spec_add_def split: list.splits option.splits)
  ultimately show ?thesis by (intro refined_same [OF ok])
qed

lemma Remove_refined:
  assumes ok: "ok (ss_backend s)" and m: "mt m = REMOVE"
  shows "refined m s (snd (RemoveHandler B ctx m s))"
  using m exist [OF ok] del_snd [OF ok] ok
  by (auto simp: refined_def RemoveHandler_def store_spec_def spec_value_def ReplyWithMessage_def fun_upd_idem split: list.splits)

lemma Append_refined:
  assumes ok: "ok (ss_backend s)" and m: "mt m = APPEND"
  shows "refined m s (snd (AppendHandler B env ctx m s))"
proof (cases "\<exists>k v. keys m = [k] \<and> vals m = [v] \<and> length k \<le> MAX_KEY_LEN_SERVER")
  case True
  then obtain k v where kv: "keys m = [k]" "vals m = [v]" "length k \<le> MAX_KEY_LEN_SERVER" by blast
  show ?thesis
    by (rule refined_put [OF ok kv(1), where v = "case content (ss_backend s) k of None \<Rightarrow> v | Some w \<Rightarrow> w @ v" and ttl = EPHEMERAL_KEY_TTL_SEC])
      (use kv m get [OF ok, of k] in \<open>auto simp: AppendHandler_def spec_value_def backend_simps Let_def split_beta split: option.splits\<close>)
next
  case False
  then show ?thesis
    using m by (intro refined_same [OF ok])
      (auto simp: AppendHandler_def store_spec_def spec_value_def ReplyWithMessage_def split: list.splits)
qed

lemma Cas_refined:
  assumes ok: "ok (ss_backend s)" and m: "mt m = CAS"
  shows "refined m s (snd (CasHandler B env ctx m s))"
proof (cases "\<exists>k e v. keys m = [k] \<and> vals m = [e, v] \<and> length k \<le> MAX_KEY_LEN_SERVER \<and>
    (content (ss_backend s) k = None \<or> content (ss_backend s) k = Some e)")
  case True
  then obtain k e v where kv: "keys m = [k]" "vals m = [e, v]" "length k \<le> MAX_KEY_LEN_SERVER"
    "content (ss_backend s) k = None \<or> content (ss_backend s) k = Some e" by blast
  show ?thesis
    by (rule refined_put [OF ok kv(1), where v = v and ttl = EPHEMERAL_KEY_TTL_SEC])
      (use kv m get [OF ok, of k] in \<open>auto simp: CasHandler_def spec_value_def backend_simps Let_def split_beta\<close>)
next
  case False
  then have "ss_backend (snd (CasHandler B env ctx m s)) = ss_backend s"
    using get [OF ok] by (auto simp: CasHandler_def ReplyWithMessage_def Let_def split: list.splits option.splits)
  moreover have "store_spec m (content (ss_backend s)) = content (ss_backend s)"
    using False m by (auto simp: store_spec_def spec_value_def fun_upd_idem split: list.splits)
  ultimately show ?thesis by (intro refined_same [OF ok])
qed

lemma Write_refined:
  assumes ok: "ok (ss_backend s)" and m: "mt m = WRITE"
  shows "refined m s (snd (WriteHandler B ctx m s))"
proof (cases "\<exists>k v. keys m = [k] \<and> vals m = [v] \<and> length k \<le> MAX_KEY_LEN_SERVER \<and> 4 \<le> length v \<and>
    length v - 4 \<le> (2 ^ 64 - 1) div MAX_U16_INDEX \<and> le_nat (take 4 v) \<le> MAX_U16_INDEX * (length v - 4) \<and>
    le_nat (take 4 v) + (length v - 4) \<le> MAX_WRITE_TOTAL_SIZE")
  case True
  then obtain k v where kv: "keys m = [k]" "vals m = [v]" "length k \<le> MAX_KEY_LEN_SERVER" "4 \<le> length v"
    "length v - 4 \<le> (2 ^ 64 - 1) div MAX_U16_INDEX" "le_nat (take 4 v) \<le> MAX_U16_INDEX * (length v - 4)"
    "le_nat (take 4 v) + (length v - 4) \<le> MAX_WRITE_TOTAL_SIZE" by blast
  define f where "f = le_nat (take 4 v)"
  define n where "n = length v - 4"
  define z where "z = char_of (0 :: nat)"
  define cur where "cur = (case content (ss_backend s) k of None \<Rightarrow> [] | Some w \<Rightarrow> w)"
  define new where "new = take f (cur @ replicate (f + n - length cur) z) @ drop 4 v @ drop (f + n) (cur @ replicate (f + n - length cur) z)"
  have u: "u64 (f + n) = f + n" using kv(7) by (simp add: f_def n_def u64_def MAX_WRITE_TOTAL_SIZE_def MAX_VALUE_SIZE_def)
  have spec: "spec_value (mt m) (vals m) (content (ss_backend s) k) = Some new"
    using kv m by (simp add: spec_value_def spec_write_def Let_def new_def f_def n_def z_def cur_def)
  define b where "b = (if content (ss_backend s) k = None then snd (Put B k (replicate (f + n) z) EPHEMERAL_KEY_TTL_SEC (ss_backend s)) else ss_backend s)"
  have b: "ok b" "content b = (content (ss_backend s))(k \<mapsto> cur @ replicate (f + n - length cur) z) \<or> content b = content (ss_backend s)"
    "content b k = Some cur \<or> content b k = Some (cur @ replicate (f + n - length cur) z)"
    using ok put_snd [OF ok] by (auto simp: b_def cur_def split: option.splits)
  have guards: "\<not> MAX_KEY_LEN_SERVER < length k" "\<not> length v < 4" "\<not> (2 ^ 64 - 1) div MAX_U16_INDEX < n" "\<not> MAX_U16_INDEX * n < f"
    "\<not> f + n < n" "\<not> MAX_WRITE_TOTAL_SIZE < f + n"
    using kv by (simp_all add: f_def n_def not_less)
  have "ss_backend (snd (WriteHandler B ctx m s)) = snd (Put B k new EPHEMERAL_KEY_TTL_SEC b)"
  proof (cases "content (ss_backend s) k")
    case None
    then have "Get B k (ss_backend s) = (NOT_EXIST, [])" "Get B k b = (SUCCESS, replicate (f + n) z)"
      using get [OF ok, of k] get [OF b(1), of k] put_snd [OF ok] by (simp_all add: b_def)
    moreover have "new = take f (replicate (f + n) z) @ drop 4 v @ drop (f + n) (replicate (f + n) z)"
      using None by (simp add: new_def cur_def)
    ultimately show ?thesis
      using guards None put_fst [OF ok] put_fst [OF b(1)] unfolding WriteHandler_def kv(1,2)
      by (simp add: u ReplyWithMessage_def b_def split_beta Let_def flip: f_def n_def z_def)
  next
    case (Some w)
    then show ?thesis
      using guards get [OF ok, of k] put_fst [OF ok] unfolding WriteHandler_def kv(1,2)
      by (simp add: u ReplyWithMessage_def b_def new_def cur_def split_beta Let_def flip: f_def n_def z_def)
  qed
  then show ?thesis
    using put_snd [OF b(1)] b(2) spec kv by (auto simp: refined_def store_spec_def)
next
  case False
  have four: "le_nat (take 4 v) < 2 ^ 32" for v using le_nat_less [of "take 4 v"] power_increasing [of "length (take 4 v)" 4 "256 :: nat"] by simp
  have "ss_backend (snd (WriteHandler B ctx m s)) = ss_backend s"
  proof (cases "\<exists>k v. keys m = [k] \<and> vals m = [v]")
    case True
    then obtain k v where kv: "keys m = [k]" "vals m = [v]" by blast
    show ?thesis
    proof (cases "length v - 4 \<le> (2 ^ 64 - 1) div MAX_U16_INDEX")
      case True
      then have "u64 (le_nat (take 4 v) + (length v - 4)) = le_nat (take 4 v) + (length v - 4)"
        using four [of v] by (intro u64_small) (simp add: MAX_U16_INDEX_def)
      then show ?thesis using False kv by (auto simp: WriteHandler_def ReplyWithMessage_def Let_def)
    next
      case f: False
      then show ?thesis using kv by (auto simp: WriteHandler_def ReplyWithMessage_def Let_def)
    qed
  next
    case f: False
    then show ?thesis by (auto simp: WriteHandler_def ReplyWithMessage_def split: list.splits)
  qed
  moreover have "spec_write v old = old" if "keys m = [k]" "vals m = [v]" "length k \<le> MAX_KEY_LEN_SERVER" for k v old
  proof -
    have "le_nat (take 4 v) + (length v - 4) > MAX_WRITE_TOTAL_SIZE" if "\<not> length v - 4 \<le> (2 ^ 64 - 1) div MAX_U16_INDEX"
      using that by (simp add: MAX_WRITE_TOTAL_SIZE_def MAX_VALUE_SIZE_def MAX_U16_INDEX_def)
    then show ?thesis using False that by (auto simp: spec_write_def Let_def not_le)
  qed
  then have "store_spec m c = c" for c using m by (auto simp: store_spec_def spec_value_def split: list.splits)
  ultimately show ?thesis by (intro refined_same [OF ok])
qed

lemma Get_keeps:
  assumes "\<not> asks_rank m" "mt m = GET"
  shows "\<exists>r s'. GetHandler B env ctx m s = Some (r, s') \<and> ss_backend s' = ss_backend s"
  using assms by (auto simp: GetHandler_def asks_rank_def ReplyWithMessage_def Let_def split_beta split: list.splits)

lemma keeps_backend:
  "ss_backend (snd (PrefixGetHandler B ctx m s)) = ss_backend s" "ss_backend (snd (WatchHandler B env ctx m s)) = ss_backend s"
  "ss_backend (snd (QueryAliveHandler ctx m s)) = ss_backend s" "ss_backend (snd (WatchRankStateHandler env ctx m s)) = ss_backend s"
  "ss_backend (snd (HeartbeatHandler env ctx m s)) = ss_backend s" "ss_backend (ReplyWithMessage ctx code text s) = ss_backend s"
  by (auto simp: PrefixGetHandler_def WatchHandler_def QueryAliveHandler_def WatchRankStateHandler_def HeartbeatHandler_def
      ReplyWithMessage_def Let_def split_beta split: list.splits option.splits)

lemma handledI: "handle B env ctx m s = Some p \<Longrightarrow> refined m s (snd p) \<Longrightarrow> \<exists>r s'. handle B env ctx m s = Some (r, s') \<and> refined m s s'"
  by (cases p) auto

lemma handle_refined:
  assumes ok: "ok (ss_backend s)" and a: "\<not> asks_rank m"
  shows "\<exists>r s'. handle B env ctx m s = Some (r, s') \<and> refined m s s'"
proof -
  have same: "store_spec m c = c" if "mt m \<in> {GET, PREFIX, WATCH, QUERY_ALIVE, WATCH_RANK_STATE, HEARTBEAT, INVALID_MSG}" for c
    using that by (auto simp: store_spec_def spec_value_def fun_upd_idem split: list.splits)
  note keep = refined_same [OF ok _ same]
  show ?thesis
  proof (cases "mt m")
    case SET then show ?thesis by (intro handledI [OF _ Set_refined [OF ok SET]]) (simp add: handle_def)
  next
    case GET then show ?thesis using Get_keeps [OF a GET, of env ctx s] keep by (auto simp: handle_def)
  next
    case PREFIX then show ?thesis by (intro handledI [OF _ keep [OF keeps_backend(1)]]) (auto simp: handle_def)
  next
    case WATCH then show ?thesis by (intro handledI [OF _ keep [OF keeps_backend(2)]]) (auto simp: handle_def)
  next
    case ADD then show ?thesis by (intro handledI [OF _ Add_refined [OF ok ADD]]) (simp add: handle_def)
  next
    case REMOVE then show ?thesis by (intro handledI [OF _ Remove_refined [OF ok REMOVE]]) (simp add: handle_def)
  next
    case APPEND then show ?thesis by (intro handledI [OF _ Append_refined [OF ok APPEND]]) (simp add: handle_def)
  next
    case CAS then show ?thesis by (intro handledI [OF _ Cas_refined [OF ok CAS]]) (simp add: handle_def)
  next
    case WRITE then show ?thesis by (intro handledI [OF _ Write_refined [OF ok WRITE]]) (simp add: handle_def)
  next
    case QUERY_ALIVE then show ?thesis by (intro handledI [OF _ keep [OF keeps_backend(3)]]) (auto simp: handle_def)
  next
    case WATCH_RANK_STATE then show ?thesis by (intro handledI [OF _ keep [OF keeps_backend(4)]]) (auto simp: handle_def)
  next
    case HEARTBEAT then show ?thesis by (intro handledI [OF _ keep [OF keeps_backend(5)]]) (auto simp: handle_def)
  next
    case INVALID_MSG
    then show ?thesis using keep [OF keeps_backend(6), of ctx INVALID_MESSAGE "''invalid request message type''"] by (simp add: handle_def)
  qed
qed

lemma packets_refined:
  assumes "ok (ss_backend s)" "\<forall>(env, ctx, m)\<in>set ps. sendable m \<and> \<not> asks_rank m"
  shows "\<exists>s'. serve_packets B ps s = Some s' \<and> ok (ss_backend s') \<and>
    content (ss_backend s') = fold (\<lambda>(_, _, m). store_spec m) ps (content (ss_backend s))"
  using assms
proof (induction ps arbitrary: s)
  case (Cons p ps)
  obtain env ctx m where p: "p = (env, ctx, m)" by (cases p)
  obtain r s1 where h: "handle B env ctx m s = Some (r, s1)" "refined m s s1"
    using handle_refined [OF Cons.prems(1), of m env ctx] Cons.prems(2) p by auto
  obtain s' where "serve_packets B ps s1 = Some s'" "ok (ss_backend s')"
    "content (ss_backend s') = fold (\<lambda>(_, _, m). store_spec m) ps (content (ss_backend s1))"
    using Cons.IH [of s1] Cons.prems(2) h(2) by (auto simp: refined_def)
  then show ?case using h Cons.prems(2) p by (simp add: serve_packets_def Receive_Pack refined_def)
qed (simp add: serve_packets_def)

lemma Get_answer:
  assumes "ok (ss_backend s)" "content (ss_backend s) k = Some v" "length k \<le> MAX_KEY_LEN_SERVER"
    "take (length AutoRankingStr) k \<noteq> AutoRankingStr" "mt m = GET" "keys m = [k]" "vals m = []"
  shows "handle B env ctx m s = Some (SM_OK, ReplyWithMessage ctx SUCCESS (Pack (new_message GET [] [v])) s)"
  using assms get [of "ss_backend s" k] by (simp add: handle_def GetHandler_def)

end


section \<open>Properties\<close>

text \<open>C91. Any sequence of well-formed requests, received as packed messages by the server with the local backend, is served to the end
  and leaves the stored values as the specification says, whatever the links, clocks and waiting requests are; requests for a
  rank are treated separately. A request for a key that has a value then is answered at once, with that value.\<close>

theorem store_refines:
  assumes w: "om_wf (ss_backend s)" and ps: "\<forall>(env, ctx, m)\<in>set ps. sendable m \<and> \<not> asks_rank m"
  shows "\<exists>s'. serve_packets SmemLocalMemoryBackend ps s = Some s' \<and>
    (\<lambda>k. om_find k (ss_backend s')) = fold (\<lambda>(_, _, m). store_spec m) ps (\<lambda>k. om_find k (ss_backend s)) \<and>
    (\<forall>env ctx k v u. fold (\<lambda>(_, _, m). store_spec m) ps (\<lambda>k. om_find k (ss_backend s)) k = Some v \<longrightarrow>
      length k \<le> MAX_KEY_LEN_SERVER \<longrightarrow> take (length AutoRankingStr) k \<noteq> AutoRankingStr \<longrightarrow> - (2 ^ 63) \<le> u \<longrightarrow> u < 2 ^ 63 \<longrightarrow>
      ReceiveMessageHandler SmemLocalMemoryBackend env ctx (Some (Pack \<lparr>mt = GET, userDef = u, keys = [k], vals = []\<rparr>)) s' =
        Some (SM_OK, ReplyWithMessage ctx SUCCESS (Pack (new_message GET [] [v])) s'))"
proof -
  obtain s' where s': "serve_packets SmemLocalMemoryBackend ps s = Some s'" "om_wf (ss_backend s')"
    "(\<lambda>k. om_find k (ss_backend s')) = fold (\<lambda>(_, _, m). store_spec m) ps (\<lambda>k. om_find k (ss_backend s))"
    using lm.packets_refined [OF w ps] by blast
  have "ReceiveMessageHandler SmemLocalMemoryBackend env ctx (Some (Pack \<lparr>mt = GET, userDef = u, keys = [k], vals = []\<rparr>)) s' =
      Some (SM_OK, ReplyWithMessage ctx SUCCESS (Pack (new_message GET [] [v])) s')"
    if "om_find k (ss_backend s') = Some v" "length k \<le> MAX_KEY_LEN_SERVER" "take (length AutoRankingStr) k \<noteq> AutoRankingStr"
      "- (2 ^ 63) \<le> u" "u < 2 ^ 63" for env ctx k v u
  proof -
    have "sendable \<lparr>mt = GET, userDef = u, keys = [k], vals = []\<rparr>"
      using that by (simp add: sendable_def within_limits_def MAX_KEY_LEN_SERVER_def MAX_KEY_SIZE_def MAX_KEY_COUNT_def)
    then show ?thesis using lm.Get_answer [OF s'(2) that(1-3)] by (simp add: Receive_Pack)
  qed
  then show ?thesis using s'(1) unfolding s'(3) [symmetric] by blast
qed

definition env_up :: "local_memory server_env" where
  "env_up = \<lparr>ve_pos = 0, ve_now = 0, ve_established = (\<lambda>_. True), ve_leader = (\<lambda>_. (ERROR, [])), ve_broken = None\<rparr>"

definition link1 :: request_ctx where "link1 = \<lparr>cx_seq = 1, cx_link = 1\<rparr>"

theorem store_refines_witness:
  "\<exists>s'. serve_packets SmemLocalMemoryBackend
      [(env_up, link1, new_message SET [''a''] [''1'']), (env_up, link1, new_message APPEND [''a''] [''23''])] (server_start [] 2 True) = Some s' \<and>
    om_find ''a'' (ss_backend s') = Some ''123''"
proof -
  have ps: "\<forall>(env, ctx, m)\<in>set [(env_up, link1, new_message SET [''a''] [''1'']), (env_up, link1, new_message APPEND [''a''] [''23''])].
      sendable m \<and> \<not> asks_rank m"
    by (simp add: sendable_def within_limits_def asks_rank_def new_message_def MAX_KEY_SIZE_def MAX_KEY_COUNT_def MAX_VALUE_SIZE_def MAX_VALUE_COUNT_def)
  have w: "om_wf (ss_backend (server_start [] 2 True))" by (simp add: server_start_def)
  obtain s' where s': "serve_packets SmemLocalMemoryBackend
      [(env_up, link1, new_message SET [''a''] [''1'']), (env_up, link1, new_message APPEND [''a''] [''23''])] (server_start [] 2 True) = Some s'"
    "(\<lambda>k. om_find k (ss_backend s')) = fold (\<lambda>(_, _, m). store_spec m)
      [(env_up, link1, new_message SET [''a''] [''1'']), (env_up, link1, new_message APPEND [''a''] [''23''])]
      (\<lambda>k. om_find k (ss_backend (server_start [] 2 True)))"
    using store_refines [OF w ps] by blast
  have "om_find ''a'' (ss_backend s') = Some ''123''"
    unfolding fun_cong [OF s'(2), of "''a''"] by (simp add: store_spec_def spec_value_def new_message_def server_start_def MAX_KEY_LEN_SERVER_def)
  then show ?thesis using s'(1) by blast
qed

end
