(* ===== verification/Spec2Isabelle.thy ===== *)
theory Spec2Isabelle
  imports Operators_Launch Range_Pool Split_Heap Offload_Lifecycle Store_Refinement
begin

text \<open>
  Verification of the KV-offload operators of the repository: the LRU resident-slot cache that
  keeps the Top-K tokens of a decoding step on the NPU.
\<close>

end
